(* ===== verification/Prelude.thy ===== *)
theory Prelude
  imports Main "HOL-Library.Word"
begin

text \<open>
  The shared ground of the development: the fact collections, and the part of Rust's standard
  library that the modelled crates use on strings and slices.

  A Rust \<open>&str\<close> or \<open>Vec<u8>\<close> is a HOL \<open>string\<close>: a HOL \<open>char\<close> has eight bits, so a
  \<open>string\<close> is a byte sequence and \<open>length\<close> is Rust's \<open>len()\<close>. A Rust \<open>char\<close> (a Unicode
  scalar value) is its UTF-8 encoding, a byte string of one to four bytes; \<open>chars\<close> splits a
  string into them. \<open>utf8_valid\<close> is the test of \<open>core::str::from_utf8\<close>.
\<close>

named_theorems std_simps \<open>evaluation of the standard-library model\<close>
named_theorems wf_intros \<open>preservation of the components' invariants\<close>

type_synonym byte = char

section \<open>ASCII classes of a byte\<close>

abbreviation byte_val :: "byte \<Rightarrow> nat" where
  "byte_val c \<equiv> of_char c"

definition is_ascii :: "byte \<Rightarrow> bool" where
  "is_ascii c \<longleftrightarrow> byte_val c < 128"

definition is_ascii_digit :: "byte \<Rightarrow> bool" where
  "is_ascii_digit c \<longleftrightarrow> 48 \<le> byte_val c \<and> byte_val c \<le> 57"

definition is_ascii_uppercase :: "byte \<Rightarrow> bool" where
  "is_ascii_uppercase c \<longleftrightarrow> 65 \<le> byte_val c \<and> byte_val c \<le> 90"

definition is_ascii_lowercase :: "byte \<Rightarrow> bool" where
  "is_ascii_lowercase c \<longleftrightarrow> 97 \<le> byte_val c \<and> byte_val c \<le> 122"

definition is_ascii_alphanumeric :: "byte \<Rightarrow> bool" where
  "is_ascii_alphanumeric c \<longleftrightarrow> is_ascii_digit c \<or> is_ascii_uppercase c \<or> is_ascii_lowercase c"

definition is_ascii_whitespace :: "byte \<Rightarrow> bool" where
  "is_ascii_whitespace c \<longleftrightarrow> byte_val c \<in> {9, 10, 12, 13, 32}"

definition to_ascii_lowercase :: "byte \<Rightarrow> byte" where
  "to_ascii_lowercase c = (if is_ascii_uppercase c then char_of (byte_val c + 32) else c)"

definition to_ascii_uppercase :: "byte \<Rightarrow> byte" where
  "to_ascii_uppercase c = (if is_ascii_lowercase c then char_of (byte_val c - 32) else c)"

definition eq_ignore_ascii_case :: "string \<Rightarrow> string \<Rightarrow> bool" where
  "eq_ignore_ascii_case a b \<longleftrightarrow> map to_ascii_lowercase a = map to_ascii_lowercase b"

lemmas ascii_defs = is_ascii_def is_ascii_digit_def is_ascii_uppercase_def is_ascii_lowercase_def
  is_ascii_alphanumeric_def is_ascii_whitespace_def to_ascii_lowercase_def to_ascii_uppercase_def

declare ascii_defs [std_simps] eq_ignore_ascii_case_def [std_simps]

lemma byte_val_less [simp]: "byte_val c < 256"
proof -
  have "(of_char c :: nat) mod 256 = of_char c" by (rule of_char_mod_256)
  then show ?thesis by (metis mod_less_divisor zero_less_numeral)
qed

lemma byte_val_inj: "byte_val c = byte_val d \<longleftrightarrow> c = d"
  by (rule of_char_eq_iff)

section \<open>Slices and strings\<close>

fun find_index :: "('a \<Rightarrow> bool) \<Rightarrow> 'a list \<Rightarrow> nat option" where
  "find_index P [] = None"
| "find_index P (x # xs) = (if P x then Some 0 else map_option Suc (find_index P xs))"

definition starts_with :: "'a list \<Rightarrow> 'a list \<Rightarrow> bool" where
  "starts_with s p \<longleftrightarrow> take (length p) s = p"

definition ends_with :: "'a list \<Rightarrow> 'a list \<Rightarrow> bool" where
  "ends_with s p \<longleftrightarrow> length p \<le> length s \<and> drop (length s - length p) s = p"

definition strip_prefix :: "'a list \<Rightarrow> 'a list \<Rightarrow> 'a list option" where
  "strip_prefix s p = (if starts_with s p then Some (drop (length p) s) else None)"

definition get :: "'a list \<Rightarrow> nat \<Rightarrow> 'a option" where
  "get xs i = (if i < length xs then Some (xs ! i) else None)"

text \<open>The slice \<open>s[a..b]\<close>; Rust panics when it is out of range, which the models never ask for.\<close>

definition str_slice :: "'a list \<Rightarrow> nat \<Rightarrow> nat \<Rightarrow> 'a list" where
  "str_slice s a b = take (b - a) (drop a s)"

text \<open>\<open>str::split\<close> with a predicate on bytes: always at least one piece.\<close>

fun split_on :: "(byte \<Rightarrow> bool) \<Rightarrow> string \<Rightarrow> string list" where
  "split_on P [] = [[]]"
| "split_on P (c # s) =
     (if P c then [] # split_on P s
      else case split_on P s of [] \<Rightarrow> [[c]] | w # ws \<Rightarrow> (c # w) # ws)"

text \<open>\<open>[&str]::join\<close>.\<close>

fun join :: "string \<Rightarrow> string list \<Rightarrow> string" where
  "join sep [] = []"
| "join sep [w] = w"
| "join sep (w # ws) = w @ sep @ join sep ws"

lemma find_index_None: "find_index P xs = None \<longleftrightarrow> (\<forall>x \<in> set xs. \<not> P x)"
  by (induction xs) auto

lemma find_index_Some:
  "find_index P xs = Some i \<longleftrightarrow> i < length xs \<and> P (xs ! i) \<and> (\<forall>j < i. \<not> P (xs ! j))"
proof (induction xs arbitrary: i)
  case Nil
  then show ?case by simp
next
  case (Cons x xs)
  then show ?case
    by (cases i) (auto simp: less_Suc_eq_0_disj)
qed

lemma find_index_Some_split:
  assumes "find_index P xs = Some i"
  shows "xs = take i xs @ xs ! i # drop (Suc i) xs" and "i < length xs" and "P (xs ! i)"
    and "\<forall>x \<in> set (take i xs). \<not> P x"
  using assms by (auto simp: find_index_Some id_take_nth_drop in_set_conv_nth)

lemma starts_with_append [simp]: "starts_with (p @ s) p"
  by (simp add: starts_with_def)

lemma starts_withE:
  assumes "starts_with s p"
  obtains r where "s = p @ r"
  using assms by (metis append_take_drop_id starts_with_def)

lemma strip_prefix_Some [simp]: "strip_prefix s p = Some r \<longleftrightarrow> s = p @ r"
proof
  assume "strip_prefix s p = Some r"
  then have "starts_with s p" and "r = drop (length p) s"
    by (auto simp: strip_prefix_def split: if_splits)
  then show "s = p @ r"
    by (metis append_take_drop_id starts_with_def)
next
  assume "s = p @ r"
  then show "strip_prefix s p = Some r" by (simp add: strip_prefix_def)
qed

lemma slice_mid: "str_slice (p @ s @ r) (length p) (length p + length s) = s"
  by (simp add: str_slice_def)

lemma slice_empty [simp]: "str_slice s a a = []"
  by (simp add: str_slice_def)

lemma length_slice [simp]: "a \<le> b \<Longrightarrow> b \<le> length s \<Longrightarrow> length (str_slice s a b) = b - a"
  by (simp add: str_slice_def)

lemma slice_append_slice:
  "a \<le> b \<Longrightarrow> b \<le> c \<Longrightarrow> str_slice s a b @ str_slice s b c = str_slice s a c"
proof -
  assume ab: "a \<le> b" and bc: "b \<le> c"
  have "drop b s = drop (b - a) (drop a s)" using ab by simp
  moreover have "c - a = (b - a) + (c - b)" using ab bc by simp
  ultimately show ?thesis unfolding str_slice_def by (simp only: take_add)
qed

lemma split_on_nonempty [simp]: "split_on P s \<noteq> []"
  by (cases s) (auto split: list.splits)

lemma join_Cons [simp]: "ws \<noteq> [] \<Longrightarrow> join sep (w # ws) = w @ sep @ join sep ws"
  by (cases ws) auto

lemma join_split_on: "join [c] (split_on (\<lambda>x. x = c) s) = s"
proof (induction s)
  case Nil
  then show ?case by simp
next
  case (Cons d s)
  obtain w ws where w: "split_on (\<lambda>x. x = c) s = w # ws"
    using split_on_nonempty [of "\<lambda>x. x = c" s] by (cases "split_on (\<lambda>x. x = c) s") auto
  have "join [c] ((d # w) # ws) = d # join [c] (w # ws)" by (cases ws) auto
  with Cons w show ?case by auto
qed

lemma split_on_pieces: "w \<in> set (split_on P s) \<Longrightarrow> \<forall>c \<in> set w. \<not> P c"
proof (induction s arbitrary: w)
  case Nil
  then show ?case by simp
next
  case (Cons c s)
  obtain v vs where v: "split_on P s = v # vs"
    using split_on_nonempty [of P s] by (cases "split_on P s") auto
  with Cons.IH [of v] have "\<forall>d \<in> set v. \<not> P d" by simp
  with Cons.prems Cons.IH v show ?case by (auto split: if_splits)
qed

section \<open>UTF-8\<close>

definition in_range :: "nat \<Rightarrow> nat \<Rightarrow> byte \<Rightarrow> bool" where
  "in_range lo hi c \<longleftrightarrow> lo \<le> byte_val c \<and> byte_val c \<le> hi"

abbreviation is_cont :: "byte \<Rightarrow> bool" where
  "is_cont \<equiv> in_range 128 191"

text \<open>The length of the well-formed sequence a string starts with, zero when it starts with none:
  the table of \<open>core::str::validations\<close> (no overlong forms, no surrogates, nothing past U+10FFFF).\<close>

definition utf8_lead3 :: "byte \<Rightarrow> byte \<Rightarrow> bool" where
  "utf8_lead3 a b \<longleftrightarrow>
     in_range 224 224 a \<and> in_range 160 191 b \<or> in_range 225 236 a \<and> is_cont b \<or>
     in_range 237 237 a \<and> in_range 128 159 b \<or> in_range 238 239 a \<and> is_cont b"

definition utf8_lead4 :: "byte \<Rightarrow> byte \<Rightarrow> bool" where
  "utf8_lead4 a b \<longleftrightarrow>
     in_range 240 240 a \<and> in_range 144 191 b \<or> in_range 241 243 a \<and> is_cont b \<or>
     in_range 244 244 a \<and> in_range 128 143 b"

fun utf8_seq :: "string \<Rightarrow> nat" where
  "utf8_seq [] = 0"
| "utf8_seq (a # s) =
    (if is_ascii a then 1
     else case s of [] \<Rightarrow> 0 | b # s2 \<Rightarrow>
       if in_range 194 223 a then (if is_cont b then 2 else 0)
       else case s2 of [] \<Rightarrow> 0 | c # s3 \<Rightarrow>
         if utf8_lead3 a b then (if is_cont c then 3 else 0)
         else case s3 of [] \<Rightarrow> 0 | d # _ \<Rightarrow>
           if utf8_lead4 a b \<and> is_cont c \<and> is_cont d then 4 else 0)"

declare in_range_def [std_simps] utf8_lead3_def [std_simps] utf8_lead4_def [std_simps]

lemma utf8_seq_le: "utf8_seq s \<le> length s"
  by (cases s) (auto split: list.splits)

function utf8_valid :: "string \<Rightarrow> bool" where
  "utf8_valid s =
     (if s = [] then True
      else if utf8_seq s = 0 then False else utf8_valid (drop (utf8_seq s) s))"
  by pat_completeness auto
termination
  by (relation "measure length") auto

text \<open>\<open>str::chars\<close>. On a valid string every piece is one encoded scalar value.\<close>

function chars :: "string \<Rightarrow> string list" where
  "chars s = (if s = [] then [] else take (max 1 (utf8_seq s)) s # chars (drop (max 1 (utf8_seq s)) s))"
  by pat_completeness auto
termination
  by (relation "measure length") auto

declare utf8_valid.simps [simp del] chars.simps [simp del]

definition utf8_char :: "string \<Rightarrow> bool" where
  "utf8_char u \<longleftrightarrow> u \<noteq> [] \<and> utf8_seq u = length u"

text \<open>\<open>char::from(u8)\<close>: the scalar value with the byte's number, here as its encoding.\<close>

definition char_from_u8 :: "byte \<Rightarrow> string" where
  "char_from_u8 c =
    (if is_ascii c then [c]
     else if byte_val c < 192 then [char_of (194::nat), c]
     else [char_of (195::nat), char_of (byte_val c - 64)])"

lemma utf8_valid_Nil [simp]: "utf8_valid []"
  by (subst utf8_valid.simps) simp

lemma chars_Nil [simp]: "chars [] = []"
  by (subst chars.simps) simp

lemma concat_chars [simp]: "concat (chars s) = s"
proof (induction s rule: chars.induct)
  case (1 s)
  show ?case
  proof (cases "s = []")
    case True
    then show ?thesis by simp
  next
    case False
    with 1 have "concat (chars (drop (max 1 (utf8_seq s)) s)) = drop (max 1 (utf8_seq s)) s"
      by simp
    with False show ?thesis by (subst chars.simps) simp
  qed
qed

lemma utf8_seq_append: "utf8_seq u \<noteq> 0 \<Longrightarrow> utf8_seq (u @ s) = utf8_seq u"
  by (cases u) (auto split: list.splits if_splits)

lemma utf8_char_nonempty [simp]: "\<not> utf8_char []"
  by (simp add: utf8_char_def)

lemma utf8_char_ascii [simp]: "is_ascii c \<Longrightarrow> utf8_char [c]"
  by (simp add: utf8_char_def)

lemma utf8_seq_take: "utf8_seq (take (utf8_seq s) s) = utf8_seq s"
  by (cases s) (auto split: list.splits if_splits)

lemma chars_char_append:
  assumes "utf8_char u"
  shows "chars (u @ s) = u # chars s"
proof -
  have n: "utf8_seq (u @ s) = length u" "u \<noteq> []"
    using assms utf8_seq_append [of u s] by (auto simp: utf8_char_def)
  then have "max 1 (utf8_seq (u @ s)) = length u" by (cases u) auto
  with n show ?thesis by (subst chars.simps) simp
qed

lemma chars_concat: "list_all utf8_char us \<Longrightarrow> chars (concat us) = us"
  by (induction us) (auto simp: chars_char_append)

lemma utf8_valid_char_append:
  assumes "utf8_char u"
  shows "utf8_valid (u @ s) \<longleftrightarrow> utf8_valid s"
proof -
  have n: "utf8_seq (u @ s) = length u" "u \<noteq> []"
    using assms utf8_seq_append [of u s] by (auto simp: utf8_char_def)
  then show ?thesis by (subst utf8_valid.simps) simp
qed

lemma utf8_valid_concat: "list_all utf8_char us \<Longrightarrow> utf8_valid (concat us)"
  by (induction us) (auto simp: utf8_valid_char_append)

lemma utf8_valid_chars: "utf8_valid s \<Longrightarrow> list_all utf8_char (chars s)"
proof (induction s rule: utf8_valid.induct)
  case (1 s)
  show ?case
  proof (cases "s = []")
    case True
    then show ?thesis by simp
  next
    case False
    with "1.prems" have n: "utf8_seq s \<noteq> 0" and v: "utf8_valid (drop (utf8_seq s) s)"
      by (auto simp: utf8_valid.simps [of s] split: if_splits)
    then have "max 1 (utf8_seq s) = utf8_seq s" by simp
    moreover have "utf8_char (take (utf8_seq s) s)"
      using n False utf8_seq_take [of s] utf8_seq_le [of s] by (simp add: utf8_char_def)
    ultimately show ?thesis
      using "1.IH" [OF False n v] False by (simp add: chars.simps [of s])
  qed
qed

lemma utf8_valid_iff_chars: "utf8_valid s \<longleftrightarrow> list_all utf8_char (chars s)"
  using utf8_valid_chars utf8_valid_concat [of "chars s"] by auto

lemma utf8_valid_Cons_ascii [simp]: "is_ascii c \<Longrightarrow> utf8_valid (c # s) \<longleftrightarrow> utf8_valid s"
  using utf8_valid_char_append [of "[c]" s] by simp

lemma chars_Cons_ascii [simp]: "is_ascii c \<Longrightarrow> chars (c # s) = [c] # chars s"
  using chars_char_append [of "[c]" s] by simp

lemma chars_append: "utf8_valid s \<Longrightarrow> chars (s @ t) = chars s @ chars t"
proof (induction s rule: utf8_valid.induct)
  case (1 s)
  show ?case
  proof (cases "s = []")
    case True
    then show ?thesis by simp
  next
    case False
    let ?u = "take (utf8_seq s) s" and ?r = "drop (utf8_seq s) s"
    from False "1.prems" have n: "utf8_seq s \<noteq> 0" and v: "utf8_valid ?r"
      by (auto simp: utf8_valid.simps [of s] split: if_splits)
    have u: "utf8_char ?u"
      using n False utf8_seq_take [of s] utf8_seq_le [of s] by (simp add: utf8_char_def)
    have "chars (s @ t) = chars (?u @ ?r @ t)" by (simp flip: append_assoc)
    also have "\<dots> = ?u # chars (?r @ t)" by (rule chars_char_append [OF u])
    also have "\<dots> = ?u # chars ?r @ chars t" using "1.IH" [OF False n v] by simp
    also have "\<dots> = chars (?u @ ?r) @ chars t" by (simp only: chars_char_append [OF u] append_Cons)
    finally show ?thesis by simp
  qed
qed

lemma utf8_valid_append [simp]: "utf8_valid s \<Longrightarrow> utf8_valid (s @ t) \<longleftrightarrow> utf8_valid t"
  by (simp add: utf8_valid_iff_chars chars_append)

text \<open>An ASCII byte never lies inside a multi-byte sequence, so a valid string splits around it.\<close>

lemma is_cont_not_ascii: "is_cont b \<Longrightarrow> \<not> is_ascii b"
  by (simp add: in_range_def is_ascii_def)

lemma utf8_lead3_cont: "utf8_lead3 a b \<Longrightarrow> is_cont b"
  by (auto simp: utf8_lead3_def in_range_def)

lemma utf8_lead4_cont: "utf8_lead4 a b \<Longrightarrow> is_cont b"
  by (auto simp: utf8_lead4_def in_range_def)

lemma utf8_seq_cont:
  assumes "0 < i" and "i < utf8_seq s"
  shows "\<not> is_ascii (s ! i)"
proof -
  obtain a r where s: "s = a # r" using assms by (cases s) auto
  have "i < 4" using assms by (auto simp: s split: if_splits list.splits)
  then consider "i = 1" | "i = 2" | "i = 3" using assms(1) by linarith
  then show ?thesis
    using assms(2)
    by cases (auto simp: s numeral_2_eq_2 numeral_3_eq_3 split: if_splits list.splits
        dest: is_cont_not_ascii utf8_lead3_cont utf8_lead4_cont)
qed

lemma utf8_valid_split_ascii:
  "utf8_valid (s @ c # t) \<Longrightarrow> is_ascii c \<Longrightarrow> utf8_valid s \<and> utf8_valid t"
proof (induction s rule: length_induct)
  case (1 s)
  show ?case
  proof (cases "s = []")
    case True
    with "1.prems" show ?thesis by simp
  next
    case False
    let ?n = "utf8_seq (s @ c # t)"
    have n0: "?n \<noteq> 0" and v: "utf8_valid (drop ?n (s @ c # t))"
      using "1.prems"(1) False by (auto simp: utf8_valid.simps [of "s @ c # t"] split: if_splits)
    have "?n \<le> length s"
    proof (rule ccontr)
      assume "\<not> ?n \<le> length s"
      then have "\<not> is_ascii ((s @ c # t) ! length s)"
        using False by (intro utf8_seq_cont) auto
      with "1.prems"(2) show False by simp
    qed
    then have d: "drop ?n (s @ c # t) = drop ?n s @ c # t"
      and t: "take ?n (s @ c # t) = take ?n s" by simp_all
    have "utf8_char (take ?n s)"
      using n0 False utf8_seq_take [of "s @ c # t"] \<open>?n \<le> length s\<close> t by (simp add: utf8_char_def)
    moreover have "utf8_valid (drop ?n s) \<and> utf8_valid t"
    proof -
      have "length (drop ?n s) < length s" using n0 False by simp
      moreover have "utf8_valid (drop ?n s @ c # t)" using v d by simp
      ultimately show ?thesis using "1.IH" "1.prems"(2) by blast
    qed
    ultimately show ?thesis
      using utf8_valid_char_append [of "take ?n s" "drop ?n s"] by simp
  qed
qed

lemma utf8_valid_ascii_mid:
  assumes "is_ascii c"
  shows "utf8_valid (s @ c # t) \<longleftrightarrow> utf8_valid s \<and> utf8_valid t"
  using assms utf8_valid_split_ascii [of s c t] by auto

section \<open>Checked and saturating machine arithmetic\<close>

definition checked_add :: "'a::len word \<Rightarrow> 'a word \<Rightarrow> 'a word option" where
  "checked_add a b = (if unat a + unat b < 2 ^ LENGTH('a) then Some (a + b) else None)"

definition saturating_sub :: "'a::len word \<Rightarrow> 'a word \<Rightarrow> 'a word" where
  "saturating_sub a b = (if b \<le> a then a - b else 0)"

definition saturating_add :: "'a::len word \<Rightarrow> 'a word \<Rightarrow> 'a word" where
  "saturating_add a b = (if unat a + unat b < 2 ^ LENGTH('a) then a + b else - 1)"

lemma checked_add_Some: "checked_add a b = Some c \<Longrightarrow> unat c = unat a + unat b"
  by (auto simp: checked_add_def unat_word_ariths split: if_splits)

lemma checked_add_1_less:
  assumes "checked_add a 1 = Some c"
  shows "a < c"
proof -
  have "unat c = unat a + unat (1 :: 'a word)" using checked_add_Some [OF assms] .
  then show ?thesis by (simp add: word_less_nat_alt)
qed

lemma unat_saturating_sub: "unat (saturating_sub a b) = unat a - unat b"
  by (auto simp: saturating_sub_def unat_sub word_le_nat_alt)

section \<open>Decimal formatting\<close>

lemma div_mod_10: "d < 10 \<Longrightarrow> (k * 10 + d) div 10 = k" "d < 10 \<Longrightarrow> (k * 10 + d) mod 10 = (d::nat)"
  by auto

definition digit_char :: "nat \<Rightarrow> byte" where
  "digit_char d = char_of (48 + d)"

text \<open>The \<open>Display\<close> of an unsigned integer, and its zero-padded form \<open>{:0w}\<close>.\<close>

fun dec :: "nat \<Rightarrow> string" where
  "dec n = (if n < 10 then [digit_char n] else dec (n div 10) @ [digit_char (n mod 10)])"

declare dec.simps [simp del]

definition dec_pad :: "nat \<Rightarrow> nat \<Rightarrow> string" where
  "dec_pad w n = replicate (w - length (dec n)) (CHR ''0'') @ dec n"

lemma byte_val_digit_char: "d < 10 \<Longrightarrow> byte_val (digit_char d) = 48 + d"
  by (simp add: digit_char_def)

lemma is_ascii_digit_digit_char: "d < 10 \<Longrightarrow> is_ascii_digit (digit_char d)"
  by (simp add: is_ascii_digit_def byte_val_digit_char)

lemma digit_char_0 [simp]: "digit_char 0 = CHR ''0''"
  by (rule byte_val_inj [THEN iffD1]) (simp add: byte_val_digit_char)

lemma digit_char_of_digit: "is_ascii_digit c \<Longrightarrow> digit_char (byte_val c - 48) = c"
  by (simp add: is_ascii_digit_def digit_char_def)

lemma dec_pad_2: "n < 100 \<Longrightarrow> dec_pad 2 n = [digit_char (n div 10), digit_char (n mod 10)]"
  by (auto simp: dec_pad_def dec.simps [of n] dec.simps [of "n div 10"])

lemma dec_pad_4:
  assumes "n < 10000"
  shows "dec_pad 4 n =
    [digit_char (n div 1000), digit_char (n div 100 mod 10), digit_char (n div 10 mod 10),
     digit_char (n mod 10)]"
proof -
  have d: "n div 10 div 10 = n div 100" "n div 100 div 10 = n div 1000"
    by (simp_all flip: div_mult2_eq)
  consider "n < 10" | "10 \<le> n" "n < 100" | "100 \<le> n" "n < 1000" | "1000 \<le> n" by linarith
  then show ?thesis
    using assms d
    by cases (auto simp: dec_pad_def dec.simps [of n] dec.simps [of "n div 10"]
        dec.simps [of "n div 100"] dec.simps [of "n div 1000"] numeral_2_eq_2 numeral_3_eq_3)
qed

section \<open>Textual codecs\<close>

text \<open>The contract of a type with a \<open>Display\<close> and a parser: the parser accepts exactly what is
  printed for a valid value. Its clients rewrite a successful parse into the printed text.\<close>

locale text_codec =
  fixes print :: "'a \<Rightarrow> string" and parse :: "string \<Rightarrow> 'a option" and valid :: "'a \<Rightarrow> bool"
  assumes parse_print: "valid x \<Longrightarrow> parse (print x) = Some x"
    and parse_valid: "parse s = Some x \<Longrightarrow> valid x"
    and print_parse: "parse s = Some x \<Longrightarrow> print x = s"
begin

lemma parse_iff: "parse s = Some x \<longleftrightarrow> valid x \<and> s = print x"
  using parse_print parse_valid print_parse by blast

lemma print_inj: "valid x \<Longrightarrow> valid y \<Longrightarrow> print x = print y \<Longrightarrow> x = y"
  by (metis option.inject parse_print)

lemma parse_inj: "parse s = Some x \<Longrightarrow> parse t = Some x \<Longrightarrow> s = t"
  using print_parse by metis

lemma parse_None: "parse s = None \<longleftrightarrow> (\<forall>x. valid x \<longrightarrow> s \<noteq> print x)"
  using parse_iff by (metis not_None_eq)

end

lemma nth_update: "xs[i := x] ! j = (if i = j \<and> j < length xs then x else xs ! j)"
  by (cases "i < length xs") (auto simp: nth_list_update list_update_beyond)

end
