(* ===== verification/Types.thy ===== *)
theory Types
  imports Prelude
begin

text \<open>
  The value types of the crate \<open>txtodo-core\<close>: \<open>types.rs\<close> (modes, spans, dates, priorities, line
  endings, lines and tasks), \<open>quirks.rs\<close> (the set of leniencies recorded on a line) and
  \<open>error.rs\<close> (the strict parser's error). A date and a priority have private fields in the source,
  so every value comes from \<open>Date_new\<close> or \<open>Priority_new\<close>; \<open>valid_date\<close> and \<open>valid_priority\<close>
  say what those constructors guarantee.
\<close>

unbundle bit_operations_syntax

section \<open>Modes and spans\<close>

datatype mode = Strict | Lenient

datatype token_kind =
    CompletionMarker | CompletionDate | CreationDate | PriorityToken | Project | Context
  | TagKey | TagValue | IdTag | Url | Text | Whitespace

record span =
  sp_kind :: token_kind
  sp_start :: nat
  sp_end :: nat

section \<open>Dates\<close>

text \<open>The fields are \<open>u16\<close>, \<open>u8\<close> and \<open>u8\<close>; no arithmetic on them can reach a machine bound
  (four digits at most), so they are natural numbers here.\<close>

record date =
  year :: nat
  month :: nat
  day :: nat

definition days_in_month :: "nat \<Rightarrow> nat \<Rightarrow> nat" where
  "days_in_month y m =
    (let leap = 4 dvd y \<and> (\<not> 100 dvd y \<or> 400 dvd y) in
     if m \<in> {1, 3, 5, 7, 8, 10, 12} then 31
     else if m \<in> {4, 6, 9, 11} then 30
     else if m = 2 \<and> leap then 29
     else 28)"

definition Date_new :: "nat \<Rightarrow> nat \<Rightarrow> nat \<Rightarrow> date option" where
  "Date_new y m d =
    (if y > 9999 \<or> m = 0 \<or> m > 12 \<or> d = 0 \<or> d > days_in_month y m then None
     else Some \<lparr>year = y, month = m, day = d\<rparr>)"

fun ascii_number_from :: "nat \<Rightarrow> string \<Rightarrow> nat option" where
  "ascii_number_from n [] = Some n"
| "ascii_number_from n (d # ds) =
     (if \<not> is_ascii_digit d then None else ascii_number_from (n * 10 + (byte_val d - 48)) ds)"

definition ascii_number :: "string \<Rightarrow> nat option" where
  "ascii_number digits = ascii_number_from 0 digits"

definition Date_parse :: "string \<Rightarrow> date option" where
  "Date_parse s =
    (if length s \<noteq> 10 \<or> s ! 4 \<noteq> CHR ''-'' \<or> s ! 7 \<noteq> CHR ''-'' then None
     else Option.bind (ascii_number (take 4 s)) (\<lambda>y.
       Option.bind (ascii_number (take 2 (drop 5 s))) (\<lambda>m.
         Option.bind (ascii_number (take 2 (drop 8 s))) (\<lambda>d. Date_new y m d))))"

definition Date_fmt :: "date \<Rightarrow> string" where
  "Date_fmt d = dec_pad 4 (year d) @ ''-'' @ dec_pad 2 (month d) @ ''-'' @ dec_pad 2 (day d)"

definition valid_date :: "date \<Rightarrow> bool" where
  "valid_date d \<longleftrightarrow> year d \<le> 9999 \<and> 1 \<le> month d \<and> month d \<le> 12 \<and>
     1 \<le> day d \<and> day d \<le> days_in_month (year d) (month d)"

section \<open>Priorities\<close>

datatype priority = Priority byte

text \<open>The argument is a Rust \<open>char\<close>, that is its UTF-8 encoding.\<close>

definition Priority_new :: "string \<Rightarrow> priority option" where
  "Priority_new letter =
    (case letter of [c] \<Rightarrow> if is_ascii_uppercase c then Some (Priority c) else None | _ \<Rightarrow> None)"

fun as_char :: "priority \<Rightarrow> byte" where
  "as_char (Priority c) = c"

definition Priority_fmt :: "priority \<Rightarrow> string" where
  "Priority_fmt p = ''('' @ [as_char p] @ '')''"

definition valid_priority :: "priority \<Rightarrow> bool" where
  "valid_priority p \<longleftrightarrow> is_ascii_uppercase (as_char p)"

section \<open>Quirks\<close>

type_synonym quirks = "16 word"

definition Q_NONE :: quirks where "Q_NONE = 0"
definition NO_COMPLETION_DATE :: quirks where "NO_COMPLETION_DATE = push_bit 0 1"
definition PRIORITY_AFTER_X :: quirks where "PRIORITY_AFTER_X = push_bit 1 1"
definition PRIORITY_AFTER_DATE :: quirks where "PRIORITY_AFTER_DATE = push_bit 2 1"
definition TABS :: quirks where "TABS = push_bit 3 1"
definition TRAILING_WS :: quirks where "TRAILING_WS = push_bit 4 1"
definition INVALID_REF :: quirks where "INVALID_REF = push_bit 5 1"
definition MIXED_ENDING :: quirks where "MIXED_ENDING = push_bit 6 1"
definition LEADING_WS :: quirks where "LEADING_WS = push_bit 7 1"

lemmas quirk_defs = Q_NONE_def NO_COMPLETION_DATE_def PRIORITY_AFTER_X_def PRIORITY_AFTER_DATE_def
  TABS_def TRAILING_WS_def INVALID_REF_def MIXED_ENDING_def LEADING_WS_def

definition Quirks_ALL :: "(quirks \<times> string) list" where
  "Quirks_ALL =
    [(NO_COMPLETION_DATE, ''no_completion_date''), (PRIORITY_AFTER_X, ''priority_after_x''),
     (PRIORITY_AFTER_DATE, ''priority_after_date''), (TABS, ''tabs''),
     (TRAILING_WS, ''trailing_ws''), (INVALID_REF, ''invalid_ref''),
     (MIXED_ENDING, ''mixed_ending''), (LEADING_WS, ''leading_ws'')]"

definition q_has :: "quirks \<Rightarrow> quirks \<Rightarrow> bool" where
  "q_has q r \<longleftrightarrow> q AND r = r"

definition q_insert :: "quirks \<Rightarrow> quirks \<Rightarrow> quirks" where
  "q_insert q r = q OR r"

definition q_remove :: "quirks \<Rightarrow> quirks \<Rightarrow> quirks" where
  "q_remove q r = q AND NOT r"

definition q_is_empty :: "quirks \<Rightarrow> bool" where
  "q_is_empty q \<longleftrightarrow> q = 0"

definition q_names :: "quirks \<Rightarrow> string list" where
  "q_names q = map snd (filter (\<lambda>(r, _). q_has q r) Quirks_ALL)"

text \<open>The \<open>Display\<close> loop writes a comma before every name but the first.\<close>

definition q_fmt :: "quirks \<Rightarrow> string" where
  "q_fmt q = (if q_is_empty q then ''none'' else join '','' (q_names q))"

section \<open>Line endings, lines and tasks\<close>

datatype line_ending = Lf | CrLf | NoEnding

definition LineEnding_default :: line_ending where
  "LineEnding_default = Lf"

definition LF :: byte where "LF = CHR 0x0A"
definition CR :: byte where "CR = CHR 0x0D"
definition TAB :: byte where "TAB = CHR 0x09"

fun ending_bytes :: "line_ending \<Rightarrow> string" where
  "ending_bytes Lf = [LF]"
| "ending_bytes CrLf = [CR, LF]"
| "ending_bytes NoEnding = []"

text \<open>\<open>Prefix\<close> (\<open>format.rs\<close>) has the first four fields of \<open>Task\<close> (\<open>types.rs\<close>), so the task's record
  extends the prefix's with the description.\<close>

record prefix =
  completed :: bool
  completion_date :: "date option"
  creation_date :: "date option"
  priority_of :: "priority option"

record task = prefix +
  description :: string

datatype line_kind = Blank | TaskLine task

record line =
  l_raw :: string
  l_kind :: line_kind
  l_quirks :: quirks
  l_ending :: line_ending

record parse_error =
  pe_rule :: string
  pe_byte :: nat
  pe_message :: string

section \<open>Dates and priorities are codecs\<close>

lemma Date_new_Some: "Date_new y m d = Some x \<longleftrightarrow> valid_date x \<and> x = \<lparr>year = y, month = m, day = d\<rparr>"
  by (cases x) (auto simp: Date_new_def valid_date_def)

lemma days_in_month_bounds: "28 \<le> days_in_month y m" "days_in_month y m \<le> 31"
  by (auto simp: days_in_month_def Let_def)

lemma valid_date_bounds:
  assumes "valid_date d"
  shows "year d < 10000" "month d < 100" "day d < 100"
  using assms days_in_month_bounds(2) [of "year d" "month d"] by (auto simp: valid_date_def)

lemma ascii_number_from_digits:
  "ascii_number_from n s = Some k \<Longrightarrow> \<forall>c \<in> set s. is_ascii_digit c"
  by (induction s arbitrary: n) (auto split: if_splits)

lemma ascii_number_2:
  assumes "a < 10" "b < 10"
  shows "ascii_number [digit_char a, digit_char b] = Some (a * 10 + b)"
  using assms by (simp add: ascii_number_def is_ascii_digit_digit_char byte_val_digit_char)

lemma ascii_number_4:
  assumes "a < 10" "b < 10" "c < 10" "d < 10"
  shows "ascii_number [digit_char a, digit_char b, digit_char c, digit_char d] =
    Some (((a * 10 + b) * 10 + c) * 10 + d)"
  using assms by (simp add: ascii_number_def is_ascii_digit_digit_char byte_val_digit_char)

lemma digit_value: "is_ascii_digit c \<Longrightarrow> \<exists>a < 10. c = digit_char a"
  using digit_char_of_digit [of c] by (auto simp: is_ascii_digit_def intro!: exI [of _ "byte_val c - 48"])

lemma ascii_number_dec_pad_2: "n < 100 \<Longrightarrow> ascii_number (dec_pad 2 n) = Some n"
  by (simp add: dec_pad_2 ascii_number_2)

lemma ascii_number_dec_pad_4:
  assumes "n < 10000"
  shows "ascii_number (dec_pad 4 n) = Some n"
proof -
  have d: "n div 1000 = n div 100 div 10" "n div 100 = n div 10 div 10"
    by (simp_all flip: div_mult2_eq)
  have "n div 1000 * 10 + n div 100 mod 10 = n div 100"
    by (simp only: d(1) div_mult_mod_eq)
  moreover have "n div 100 * 10 + n div 10 mod 10 = n div 10"
    by (simp only: d(2) div_mult_mod_eq)
  ultimately have "((n div 1000 * 10 + n div 100 mod 10) * 10 + n div 10 mod 10) * 10 + n mod 10 = n"
    by (simp only: div_mult_mod_eq)
  with assms show ?thesis by (simp add: dec_pad_4 ascii_number_4)
qed

lemma ascii_number_2_inv:
  assumes "ascii_number [x, y] = Some n"
  shows "n < 100 \<and> dec_pad 2 n = [x, y]"
proof -
  have "is_ascii_digit x" "is_ascii_digit y"
    using ascii_number_from_digits [OF assms [unfolded ascii_number_def]] by auto
  then obtain a b where ab: "a < 10" "b < 10" "x = digit_char a" "y = digit_char b"
    using digit_value by blast
  with assms ascii_number_2 [of a b] have "n = a * 10 + b" by simp
  with ab show ?thesis by (simp add: dec_pad_2)
qed

lemma ascii_number_4_inv:
  assumes "ascii_number [x, y, z, w] = Some n"
  shows "n < 10000 \<and> dec_pad 4 n = [x, y, z, w]"
proof -
  have dg: "is_ascii_digit x" "is_ascii_digit y" "is_ascii_digit z" "is_ascii_digit w"
    using ascii_number_from_digits [OF assms [unfolded ascii_number_def]] by auto
  then obtain a b c d where ab: "a < 10" "b < 10" "c < 10" "d < 10"
      "x = digit_char a" "y = digit_char b" "z = digit_char c" "w = digit_char d"
    using dg [THEN digit_value] by (elim exE conjE) blast
  with assms ascii_number_4 [of a b c d] have n: "n = ((a * 10 + b) * 10 + c) * 10 + d" by simp
  have q: "n div 10 = (a * 10 + b) * 10 + c" "n mod 10 = d"
    unfolding n by (rule div_mod_10 [OF ab(4)])+
  have "n div 100 = n div 10 div 10" "n div 1000 = n div 10 div 10 div 10"
    by (simp_all flip: div_mult2_eq)
  then have "n div 1000 = a" "n div 100 mod 10 = b" "n div 10 mod 10 = c"
    by (simp_all only: q(1) div_mod_10 [OF ab(3)] div_mod_10 [OF ab(2)])
  moreover have "n \<le> ((9 * 10 + 9) * 10 + 9) * 10 + 9"
    unfolding n using ab(1-4) by (intro add_mono mult_right_mono) simp_all
  ultimately show ?thesis using ab q(2) by (simp add: dec_pad_4)
qed

lemma length_Date_fmt: "valid_date d \<Longrightarrow> length (Date_fmt d) = 10"
  using valid_date_bounds [of d] by (simp add: Date_fmt_def dec_pad_2 dec_pad_4)

lemma list_10_conv:
  "length s = 10 \<longleftrightarrow> (\<exists>a b c d e f g h i j. s = [a, b, c, d, e, f, g, h, i, j])"
  by (auto simp: eval_nat_numeral length_Suc_conv)

interpretation date_codec: text_codec Date_fmt Date_parse valid_date
proof unfold_locales
  fix d :: date
  assume v: "valid_date d"
  note b = valid_date_bounds [OF v]
  have "Date_new (year d) (month d) (day d) = Some d"
    using v by (simp add: Date_new_Some)
  moreover have "Date_parse (Date_fmt d) = Option.bind (ascii_number (dec_pad 4 (year d))) (\<lambda>y.
       Option.bind (ascii_number (dec_pad 2 (month d))) (\<lambda>m.
         Option.bind (ascii_number (dec_pad 2 (day d))) (\<lambda>e. Date_new y m e)))"
    using b by (simp add: Date_parse_def Date_fmt_def dec_pad_2 dec_pad_4)
  ultimately show "Date_parse (Date_fmt d) = Some d"
    using b by (simp add: ascii_number_dec_pad_2 ascii_number_dec_pad_4)
next
  fix s d
  assume "Date_parse s = Some d"
  then show "valid_date d"
    by (auto simp: Date_parse_def Date_new_Some bind_eq_Some_conv split: if_splits)
next
  fix s d
  assume p: "Date_parse s = Some d"
  then obtain y m e where len: "length s = 10" "s ! 4 = CHR ''-''" "s ! 7 = CHR ''-''"
    and n: "ascii_number (take 4 s) = Some y" "ascii_number (take 2 (drop 5 s)) = Some m"
      "ascii_number (take 2 (drop 8 s)) = Some e"
    and d: "d = \<lparr>year = y, month = m, day = e\<rparr>"
    by (auto simp: Date_parse_def Date_new_Some bind_eq_Some_conv split: if_splits)
  obtain a b c f g h i j k l where s: "s = [a, b, c, f, g, h, i, j, k, l]"
    using len(1) by (auto simp: list_10_conv)
  show "Date_fmt d = s"
    using n len(2,3) ascii_number_4_inv [of a b c f y] ascii_number_2_inv [of h i m]
      ascii_number_2_inv [of k l e]
    by (simp add: s d Date_fmt_def)
qed

lemma Priority_new_Some: "Priority_new u = Some p \<longleftrightarrow> valid_priority p \<and> u = [as_char p]"
  by (cases p) (auto simp: Priority_new_def valid_priority_def split: list.splits)

lemma Date_fmt_no_ws: "valid_date d \<Longrightarrow> c \<in> set (Date_fmt d) \<Longrightarrow> c = CHR ''-'' \<or> is_ascii_digit c"
  using valid_date_bounds [of d]
  by (auto simp: Date_fmt_def dec_pad_2 dec_pad_4 is_ascii_digit_digit_char)

section \<open>Quirks are a set of flags\<close>

lemma q_has_insert [simp]: "q_has (q_insert q r) r"
  by (simp add: q_has_def q_insert_def bit_eq_iff bit_simps)

lemma q_has_mono: "q_has q r \<Longrightarrow> q_has (q_insert q s) r"
  by (auto simp: q_has_def q_insert_def bit_eq_iff bit_simps)

lemma q_has_remove: "r \<noteq> 0 \<Longrightarrow> \<not> q_has (q_remove q r) r"
  by (auto simp: q_has_def q_remove_def bit_eq_iff bit_simps)

lemma q_insert_idem [simp]: "q_insert (q_insert q r) r = q_insert q r"
  by (simp add: q_insert_def bit_eq_iff bit_simps)

lemma q_insert_eq_0 [simp]: "q_insert q r = 0 \<longleftrightarrow> q = 0 \<and> r = 0"
  by (auto simp: q_insert_def bit_eq_iff bit_simps)

end
