(* ===== verification/UlidText.thy ===== *)
theory UlidText
  imports Types
begin

text \<open>
  \<open>ulid.rs\<close>: the 26-character Crockford base-32 text of a 128-bit identifier. The value keeps its
  machine width, so the shifts of the parser and of the printer drop bits as the source's do; the
  codec interpretation at the end shows that none is lost on the strings the parser accepts.
\<close>

unbundle bit_operations_syntax

type_synonym u128 = "128 word"
type_synonym ulid = u128

definition ALPHABET :: string where
  "ALPHABET = ''0123456789ABCDEFGHJKMNPQRSTVWXYZ''"

definition ULID_LEN :: nat where
  "ULID_LEN = 26"

definition decode_char :: "byte \<Rightarrow> nat option" where
  "decode_char c = find_index (\<lambda>a. a = c) ALPHABET"

fun ulid_fold :: "u128 \<Rightarrow> string \<Rightarrow> u128 option" where
  "ulid_fold bits [] = Some bits"
| "ulid_fold bits (c # cs) =
     (case decode_char c of None \<Rightarrow> None | Some v \<Rightarrow> ulid_fold (push_bit 5 bits OR of_nat v) cs)"

definition Ulid_parse :: "string \<Rightarrow> ulid option" where
  "Ulid_parse s =
     (if length s \<noteq> ULID_LEN \<or> byte_val (s ! 0) > byte_val (CHR ''7'') then None else ulid_fold 0 s)"

text \<open>The printer fills its array from the last slot to the first.\<close>

fun ulid_slots :: "nat \<Rightarrow> u128 \<Rightarrow> string" where
  "ulid_slots 0 bits = []"
| "ulid_slots (Suc k) bits = ulid_slots k (drop_bit 5 bits) @ [ALPHABET ! unat (bits AND 31)]"

definition Ulid_fmt :: "ulid \<Rightarrow> string" where
  "Ulid_fmt u = ulid_slots ULID_LEN u"

section \<open>The alphabet\<close>

lemma length_ALPHABET [simp]: "length ALPHABET = 32"
  by (simp add: ALPHABET_def)

lemma decode_char_Some:
  assumes "decode_char c = Some v"
  shows "v < 32" and "ALPHABET ! v = c"
  using assms find_index_Some [of _ ALPHABET v] by (auto simp: decode_char_def)

lemma distinct_ALPHABET: "distinct ALPHABET"
  by (simp add: ALPHABET_def)

lemma decode_char_nth: "v < 32 \<Longrightarrow> decode_char (ALPHABET ! v) = Some v"
  using distinct_ALPHABET
  by (auto simp: decode_char_def find_index_Some nth_eq_iff_index_eq)

lemma ALPHABET_low:
  assumes "v < 8"
  shows "byte_val (ALPHABET ! v) \<le> byte_val (CHR ''7'')"
proof -
  have "list_all (\<lambda>c. byte_val c \<le> byte_val (CHR ''7'')) (take 8 ALPHABET)"
    by (simp add: ALPHABET_def)
  with assms show ?thesis by (simp add: list_all_length)
qed

lemma ALPHABET_high:
  assumes "8 \<le> v" "v < 32"
  shows "byte_val (CHR ''7'') < byte_val (ALPHABET ! v)"
proof -
  have "list_all (\<lambda>c. byte_val (CHR ''7'') < byte_val c) (drop 8 ALPHABET)"
    by (simp add: ALPHABET_def)
  then have "\<forall>n < 24. byte_val (CHR ''7'') < byte_val (ALPHABET ! (8 + n))"
    by (simp add: list_all_length)
  moreover have "v - 8 < 24" "8 + (v - 8) = v" using assms by simp_all
  ultimately show ?thesis by metis
qed

lemma decode_char_low:
  assumes "decode_char c = Some v" and "byte_val c \<le> byte_val (CHR ''7'')"
  shows "v < 8"
proof (rule ccontr)
  assume "\<not> v < 8"
  then have "byte_val (CHR ''7'') < byte_val (ALPHABET ! v)"
    using decode_char_Some(1) [OF assms(1)] by (intro ALPHABET_high) simp_all
  then show False using decode_char_Some(2) [OF assms(1)] assms(2) by simp
qed

section \<open>Five bits at a time\<close>

lemma and_31: "(b :: u128) AND 31 = take_bit 5 b"
  by (simp add: take_bit_eq_mask mask_eq_exp_minus_1)

lemma unat_and_31: "unat ((b :: u128) AND 31) < 32"
proof -
  have "unat (b AND 31) = take_bit 5 (unat b)" by (simp add: and_31 unsigned_take_bit_eq)
  then show ?thesis using take_bit_nat_less_exp [of 5 "unat b"] by simp
qed

lemma of_nat_5_bits: "v < 32 \<Longrightarrow> take_bit 5 (of_nat v :: u128) = of_nat v"
  by (simp flip: of_nat_take_bit add: take_bit_nat_eq_self)

lemma bit_of_nat_5: "v < 32 \<Longrightarrow> bit (of_nat v :: u128) n \<Longrightarrow> n < 5"
  by (metis bit_take_bit_iff of_nat_5_bits)

lemma push_or_and_31:
  assumes "v < 32"
  shows "(push_bit 5 b OR of_nat v :: u128) AND 31 = of_nat v"
  unfolding and_31
  using bit_of_nat_5 [OF assms] by (auto simp: bit_eq_iff bit_simps)

lemma drop_push_or:
  assumes "v < 32" and "take_bit 123 b = b"
  shows "drop_bit 5 (push_bit 5 b OR of_nat v :: u128) = b"
proof (rule bit_eqI)
  fix n
  assume n: "possible_bit TYPE(128 word) n"
  have "bit b n \<Longrightarrow> n < 123" by (metis assms(2) bit_take_bit_iff)
  then show "bit (drop_bit 5 (push_bit 5 b OR of_nat v)) n \<longleftrightarrow> bit b n"
    using n bit_of_nat_5 [OF assms(1), of "5 + n"] by (auto simp: bit_simps)
qed

lemma ulid_fold_append:
  "ulid_fold a (s @ t) = Option.bind (ulid_fold a s) (\<lambda>b. ulid_fold b t)"
  by (induction s arbitrary: a) (auto split: option.splits)

lemma ulid_fold_slots:
  "ulid_fold a (ulid_slots k b) = Some (push_bit (5 * k) a OR take_bit (5 * k) b)"
proof (induction k arbitrary: a b)
  case 0
  then show ?case by simp
next
  case (Suc k)
  let ?c = "push_bit (5 * k) a OR take_bit (5 * k) (drop_bit 5 b)"
  have d: "decode_char (ALPHABET ! unat (b AND 31)) = Some (unat (b AND 31))"
    by (rule decode_char_nth [OF unat_and_31])
  have "ulid_fold a (ulid_slots (Suc k) b) = Some (push_bit 5 ?c OR (b AND 31))"
    using Suc.IH [of a "drop_bit 5 b"] d by (simp add: ulid_fold_append)
  also have "push_bit 5 ?c OR (b AND 31) = push_bit (5 * Suc k) a OR take_bit (5 * Suc k) b"
    unfolding and_31 by (rule bit_eqI) (auto simp: bit_simps)
  finally show ?case .
qed

lemma length_ulid_slots [simp]: "length (ulid_slots k b) = k"
  by (induction k arbitrary: b) auto

lemma ulid_slots_first: "0 < k \<Longrightarrow> ulid_slots k b ! 0 = ALPHABET ! unat (drop_bit (5 * (k - 1)) b AND 31)"
proof (induction k arbitrary: b)
  case 0
  then show ?case by simp
next
  case (Suc k)
  show ?case
  proof (cases k)
    case 0
    then show ?thesis by simp
  next
    case (Suc j)
    then have "ulid_slots (Suc k) b ! 0 = ulid_slots k (drop_bit 5 b) ! 0"
      by (subst ulid_slots.simps(2)) (simp only: nth_append, simp)
    also have "\<dots> = ALPHABET ! unat (drop_bit (5 * (k - 1)) (drop_bit 5 b) AND 31)"
      using Suc by (intro Suc.IH) simp
    finally show ?thesis using Suc by (simp add: add.commute)
  qed
qed

lemma unat_top_bits: "unat (drop_bit 125 (b :: u128)) < 8"
proof -
  have "unat b < 2 ^ 128" using unsigned_less [of b] by simp
  then have "unat b div 2 ^ 125 < 8"
    by (intro less_mult_imp_div_less) simp
  moreover have "unat (drop_bit 125 b) = unat b div 2 ^ 125"
    by (subst unat_drop_bit_eq) (rule drop_bit_eq_div)
  ultimately show ?thesis by metis
qed

lemma take_bit_push_or:
  assumes "v < 32" and "take_bit m b = b"
  shows "take_bit (m + 5) (push_bit 5 b OR of_nat v :: u128) = push_bit 5 b OR of_nat v"
proof (rule bit_eqI)
  fix n
  have "bit b (n - 5) \<Longrightarrow> n - 5 < m" by (metis assms(2) bit_take_bit_iff)
  then show "bit (take_bit (m + 5) (push_bit 5 b OR of_nat v)) n \<longleftrightarrow> bit (push_bit 5 b OR of_nat v) n"
    using bit_of_nat_5 [OF assms(1), of n] by (auto simp: bit_simps)
qed

text \<open>Reading \<open>n\<close> characters, the first at most \<open>7\<close>, fills at most \<open>5n - 2\<close> bits.\<close>

lemma ulid_fold_bound:
  assumes "ulid_fold 0 s = Some b" and "s \<noteq> []" and "byte_val (s ! 0) \<le> byte_val (CHR ''7'')"
  shows "take_bit (5 * length s - 2) b = b"
  using assms
proof (induction s arbitrary: b rule: rev_induct)
  case Nil
  then show ?case by simp
next
  case (snoc c s)
  then obtain a v where a: "ulid_fold 0 s = Some a" and v: "decode_char c = Some v"
    and b: "b = push_bit 5 a OR of_nat v"
    by (auto simp: ulid_fold_append bind_eq_Some_conv split: option.splits)
  note v32 = decode_char_Some(1) [OF v]
  show ?case
  proof (cases "s = []")
    case True
    then have "a = 0" "v < 8" using a v snoc.prems(3) decode_char_low by auto
    then have "take_bit 3 (of_nat v :: u128) = of_nat v"
      by (simp flip: of_nat_take_bit add: take_bit_nat_eq_self)
    with True \<open>a = 0\<close> b show ?thesis by simp
  next
    case False
    with snoc.prems(3) have "take_bit (5 * length s - 2) a = a"
      by (intro snoc.IH a) (simp_all add: nth_append)
    moreover have "5 * length s - 2 + 5 = 5 * length (s @ [c]) - 2"
      using False by (cases s) auto
    ultimately show ?thesis using take_bit_push_or [OF v32] b by metis
  qed
qed

lemma ulid_slots_fold:
  assumes "ulid_fold 0 s = Some b" and "s \<noteq> []" and "byte_val (s ! 0) \<le> byte_val (CHR ''7'')"
    and "length s \<le> 26"
  shows "ulid_slots (length s) b = s"
  using assms
proof (induction s arbitrary: b rule: rev_induct)
  case Nil
  then show ?case by simp
next
  case (snoc c s)
  then obtain a v where a: "ulid_fold 0 s = Some a" and v: "decode_char c = Some v"
    and b: "b = push_bit 5 a OR of_nat v"
    by (auto simp: ulid_fold_append bind_eq_Some_conv split: option.splits)
  note v32 = decode_char_Some [OF v]
  have last: "ALPHABET ! unat (b AND 31) = c"
    using v32 by (simp add: b push_or_and_31 unat_of_nat take_bit_nat_eq_self)
  show ?case
  proof (cases "s = []")
    case True
    with last show ?thesis by simp
  next
    case False
    have first: "byte_val (s ! 0) \<le> byte_val (CHR ''7'')"
      using False snoc.prems(3) by (simp add: nth_append)
    have "take_bit (5 * length s - 2) a = a" by (rule ulid_fold_bound [OF a False first])
    moreover have "5 * length s - 2 \<le> 123" using snoc.prems(4) by simp
    ultimately have "take_bit 123 a = a"
      by (metis min.absorb_iff2 take_bit_take_bit)
    then have "drop_bit 5 b = a" unfolding b by (rule drop_push_or [OF v32(1)])
    moreover have "ulid_slots (length s) a = s"
      using snoc.prems(4) by (intro snoc.IH [OF a False first]) simp
    ultimately show ?thesis using last by simp
  qed
qed

interpretation ulid_codec: text_codec Ulid_fmt Ulid_parse "\<lambda>_. True"
proof unfold_locales
  fix u :: ulid
  let ?top = "unat (drop_bit 125 u AND 31)"
  have "?top \<le> unat (drop_bit 125 u)"
    by (rule word_and_le2 [THEN word_le_nat_alt [THEN iffD1]])
  then have "?top < 8" using unat_top_bits [of u] by simp
  then have "byte_val (ALPHABET ! ?top) \<le> byte_val (CHR ''7'')" by (rule ALPHABET_low)
  then have "byte_val (Ulid_fmt u ! 0) \<le> byte_val (CHR ''7'')"
    using ulid_slots_first [of 26 u] by (simp add: Ulid_fmt_def ULID_LEN_def)
  moreover have "take_bit 130 u = u"
    by (rule bit_eqI) (auto simp: bit_simps)
  ultimately show "Ulid_parse (Ulid_fmt u) = Some u"
    by (simp add: Ulid_parse_def Ulid_fmt_def ULID_LEN_def ulid_fold_slots)
next
  fix s u
  assume p: "Ulid_parse s = Some u"
  then have "ulid_fold 0 s = Some u" "length s = 26" "byte_val (s ! 0) \<le> byte_val (CHR ''7'')"
    by (auto simp: Ulid_parse_def ULID_LEN_def split: if_splits)
  then show "Ulid_fmt u = s"
    using ulid_slots_fold [of s u] by (cases s) (auto simp: Ulid_fmt_def ULID_LEN_def)
qed simp

end
