(* ===== verification/Scanner.thy ===== *)
theory Scanner
  imports UlidText
begin

text \<open>
  \<open>scanner.rs\<close> and \<open>urls.rs\<close>. The scanner cuts a line into alternating runs of blanks (space and
  tab) and words; parser, tokenizer and task views all read its chunks. \<open>pieces\<close> is the reference
  view of a line, each run with its own text, and \<open>chunks_pieces\<close> ties the byte offsets to it.
\<close>

section \<open>Definitions\<close>

record chunk =
  c_start :: nat
  c_end :: nat
  c_ws :: bool

definition is_ws :: "byte \<Rightarrow> bool" where
  "is_ws b \<longleftrightarrow> b = CHR '' '' \<or> b = TAB"

text \<open>The iterator's state is the position; \<open>rest\<close> is what is left of the line there.\<close>

function chunks_from :: "nat \<Rightarrow> string \<Rightarrow> chunk list" where
  "chunks_from pos rest =
    (case rest of [] \<Rightarrow> []
     | b # _ \<Rightarrow>
         let ws = is_ws b; n = length (takeWhile (\<lambda>x. is_ws x = ws) rest)
         in \<lparr>c_start = pos, c_end = pos + n, c_ws = ws\<rparr> # chunks_from (pos + n) (drop n rest))"
  by pat_completeness auto
termination
  by (relation "measure (\<lambda>(pos, rest). length rest)") auto

declare chunks_from.simps [simp del]

definition chunks :: "string \<Rightarrow> chunk list" where
  "chunks raw = chunks_from 0 raw"

definition chunk_text :: "string \<Rightarrow> chunk \<Rightarrow> string" where
  "chunk_text raw c = str_slice raw (c_start c) (c_end c)"

definition DEFAULT_SCHEMES :: "string list" where
  "DEFAULT_SCHEMES = [''http'', ''https'', ''mailto'', ''ftp'', ''ssh'', ''file'', ''tel'', ''sms'']"

definition is_url :: "string \<Rightarrow> string list \<Rightarrow> bool" where
  "is_url word schemes =
    (case find_index (\<lambda>c. c = CHR '':'') word of
       None \<Rightarrow> False
     | Some colon \<Rightarrow>
         let scheme = take colon word; rest = drop colon word
         in length rest > 1 \<and> list_ex (\<lambda>s. eq_ignore_ascii_case s scheme) schemes)"

section \<open>The runs of a line\<close>

text \<open>Specification view: the maximal runs, in order, with their text.\<close>

function pieces :: "string \<Rightarrow> (bool \<times> string) list" where
  "pieces s =
    (case s of [] \<Rightarrow> []
     | b # _ \<Rightarrow> let run = takeWhile (\<lambda>x. is_ws x = is_ws b) s
                 in (is_ws b, run) # pieces (drop (length run) s))"
  by pat_completeness auto
termination
  by (relation "measure length") auto

declare pieces.simps [simp del]

lemma pieces_Nil [simp]: "pieces [] = []"
  by (subst pieces.simps) simp

lemma chunks_from_Nil [simp]: "chunks_from n [] = []"
  by (subst chunks_from.simps) simp

lemma pieces_Cons:
  "pieces (b # s) = (is_ws b, takeWhile (\<lambda>x. is_ws x = is_ws b) (b # s)) #
     pieces (dropWhile (\<lambda>x. is_ws x = is_ws b) s)"
  by (subst pieces.simps) (simp add: Let_def dropWhile_eq_drop)

lemma chunks_from_Cons:
  "chunks_from pos (b # s) =
    (let n = Suc (length (takeWhile (\<lambda>x. is_ws x = is_ws b) s))
     in \<lparr>c_start = pos, c_end = pos + n, c_ws = is_ws b\<rparr> #
        chunks_from (pos + n) (dropWhile (\<lambda>x. is_ws x = is_ws b) s))"
  by (subst chunks_from.simps) (simp add: Let_def dropWhile_eq_drop)

lemma pieces_eq_Nil [simp]: "pieces s = [] \<longleftrightarrow> s = []"
  by (cases s) (simp_all add: pieces_Cons)

lemma dropWhile_tail_length: "length (dropWhile P s) < Suc (length s)"
  by (simp add: length_dropWhile_le le_imp_less_Suc)

lemma pieces_induct [case_names Nil Cons]:
  assumes "P []"
    and "\<And>b s. P (dropWhile (\<lambda>x. is_ws x = is_ws b) s) \<Longrightarrow> P (b # s)"
  shows "P s"
proof (induction s rule: length_induct)
  case (1 s)
  show ?case
  proof (cases s)
    case Nil
    with assms(1) show ?thesis by simp
  next
    case (Cons b r)
    have "P (dropWhile (\<lambda>x. is_ws x = is_ws b) r)"
      using "1.IH" dropWhile_tail_length [of "\<lambda>x. is_ws x = is_ws b" r] Cons by simp
    with Cons assms(2) show ?thesis by simp
  qed
qed

lemma concat_pieces: "concat (map snd (pieces s)) = s"
  by (induction s rule: pieces_induct) (simp_all add: pieces_Cons)

lemma pieces_nonempty: "(w, t) \<in> set (pieces s) \<Longrightarrow> t \<noteq> []"
  by (induction s rule: pieces_induct) (auto simp: pieces_Cons)

lemma pieces_uniform: "(w, t) \<in> set (pieces s) \<Longrightarrow> c \<in> set t \<Longrightarrow> is_ws c = w"
  by (induction s rule: pieces_induct) (auto simp: pieces_Cons dest: set_takeWhileD)

text \<open>Neighbouring runs differ.\<close>

fun alternates :: "bool list \<Rightarrow> bool" where
  "alternates (a # b # bs) \<longleftrightarrow> a \<noteq> b \<and> alternates (b # bs)"
| "alternates _ \<longleftrightarrow> True"

lemma pieces_alternate: "alternates (map fst (pieces s))"
proof (induction s rule: pieces_induct)
  case Nil
  then show ?case by simp
next
  case (Cons b s)
  let ?r = "dropWhile (\<lambda>x. is_ws x = is_ws b) s"
  have "map fst (pieces (b # s)) = is_ws b # map fst (pieces ?r)" by (simp add: pieces_Cons)
  moreover have "alternates (is_ws b # map fst (pieces ?r))"
  proof (cases ?r)
    case Nil
    then show ?thesis by (simp only: pieces_Nil) simp
  next
    case r: (Cons c t)
    then have "is_ws c \<noteq> is_ws b" by (auto simp: dropWhile_eq_Cons_conv)
    with Cons.IH show ?thesis unfolding r by (simp add: pieces_Cons)
  qed
  ultimately show ?case by simp
qed

lemma chunks_from_pieces:
  "map (\<lambda>c. (c_ws c, chunk_text (p @ s) c)) (chunks_from (length p) s) = pieces s"
proof (induction s arbitrary: p rule: pieces_induct)
  case Nil
  then show ?case by simp
next
  case (Cons b s)
  let ?run = "takeWhile (\<lambda>x. is_ws x = is_ws b) s" and ?rest = "dropWhile (\<lambda>x. is_ws x = is_ws b) s"
  have s: "b # s = (b # ?run) @ ?rest" by simp
  have "chunk_text (p @ b # s) \<lparr>c_start = length p, c_end = length p + Suc (length ?run), c_ws = is_ws b\<rparr> =
      b # ?run"
    using slice_mid [of p "b # ?run" ?rest] by (simp add: chunk_text_def)
  moreover have "map (\<lambda>c. (c_ws c, chunk_text (p @ b # s) c))
      (chunks_from (length p + Suc (length ?run)) ?rest) = pieces ?rest"
    using Cons.IH [of "p @ b # ?run"] by (simp add: add.commute add.left_commute)
  ultimately show ?case by (simp add: chunks_from_Cons pieces_Cons Let_def)
qed

lemma chunks_pieces: "map (\<lambda>c. (c_ws c, chunk_text raw c)) (chunks raw) = pieces raw"
  using chunks_from_pieces [of "[]" raw] by (simp add: chunks_def)

text \<open>The chunks tile the line: each starts where the one before ended and is not empty.\<close>

fun tiles :: "nat \<Rightarrow> chunk list \<Rightarrow> nat \<Rightarrow> bool" where
  "tiles a [] b \<longleftrightarrow> a = b"
| "tiles a (c # cs) b \<longleftrightarrow> c_start c = a \<and> a < c_end c \<and> tiles (c_end c) cs b"

lemma tiles_le: "tiles a cs b \<Longrightarrow> a \<le> b"
  by (induction cs arbitrary: a) fastforce+

lemma tiles_append: "tiles a (cs @ ds) b \<longleftrightarrow> (\<exists>m. tiles a cs m \<and> tiles m ds b)"
  by (induction cs arbitrary: a) auto

lemma tiles_chunks_from: "tiles pos (chunks_from pos s) (pos + length s)"
proof (induction s arbitrary: pos rule: pieces_induct)
  case Nil
  then show ?case by simp
next
  case (Cons b s)
  let ?P = "\<lambda>x. is_ws x = is_ws b"
  have "length s = length (takeWhile ?P s) + length (dropWhile ?P s)"
    by (metis length_append takeWhile_dropWhile_id)
  then show ?case
    using Cons.IH [of "pos + Suc (length (takeWhile ?P s))"]
    by (simp add: chunks_from_Cons Let_def add.assoc)
qed

lemma tiles_chunks: "tiles 0 (chunks raw) (length raw)"
  using tiles_chunks_from [of 0 raw] by (simp add: chunks_def)

lemma tiles_chunk_bounds: "tiles a cs b \<Longrightarrow> c \<in> set cs \<Longrightarrow> a \<le> c_start c \<and> c_start c < c_end c \<and> c_end c \<le> b"
proof (induction cs arbitrary: a)
  case Nil
  then show ?case by simp
next
  case (Cons d cs)
  then show ?case using tiles_le by fastforce
qed

lemmas chunk_bounds = tiles_chunk_bounds [OF tiles_chunks]

section \<open>Runs of a valid string are valid\<close>

lemma is_ws_ascii: "is_ws c \<Longrightarrow> is_ascii c"
  by (auto simp: is_ws_def is_ascii_def TAB_def)

lemma blanks_valid: "\<forall>c \<in> set w. is_ws c \<Longrightarrow> utf8_valid w"
  by (induction w) (auto simp: is_ws_ascii)

lemma word_piece_valid:
  assumes "utf8_valid (w @ t)" and "t = [] \<or> is_ws (hd t)"
  shows "utf8_valid w \<and> utf8_valid t"
proof (cases t)
  case Nil
  with assms show ?thesis by simp
next
  case (Cons c r)
  with assms have "is_ascii c" by (simp add: is_ws_ascii)
  with Cons assms(1) show ?thesis by (simp add: utf8_valid_ascii_mid)
qed

lemma pieces_valid: "utf8_valid s \<Longrightarrow> (w, t) \<in> set (pieces s) \<Longrightarrow> utf8_valid t"
proof (induction s rule: pieces_induct)
  case Nil
  then show ?case by simp
next
  case (Cons b s)
  let ?run = "takeWhile (\<lambda>x. is_ws x = is_ws b) (b # s)"
  let ?rest = "dropWhile (\<lambda>x. is_ws x = is_ws b) (b # s)"
  have v: "utf8_valid (?run @ ?rest)" using Cons.prems(1) by (simp only: takeWhile_dropWhile_id)
  have "utf8_valid ?run \<and> utf8_valid ?rest"
  proof (cases "is_ws b")
    case True
    then have "utf8_valid ?run" by (intro blanks_valid) (auto dest: set_takeWhileD)
    with v show ?thesis using utf8_valid_append by blast
  next
    case False
    have "?rest = [] \<or> is_ws (hd ?rest)"
      using False hd_dropWhile [of "\<lambda>x. is_ws x = is_ws b" "b # s"] by blast
    then show ?thesis by (rule word_piece_valid [OF v])
  qed
  moreover have "(w, t) = (is_ws b, ?run) \<or> (w, t) \<in> set (pieces (dropWhile (\<lambda>x. is_ws x = is_ws b) s))"
    using Cons.prems(2) by (simp only: pieces_Cons list.set insert_iff)
  ultimately show ?case using Cons.IH by auto
qed

end
