(* ===== verification/Tokenize.thy ===== *)
theory Tokenize
  imports Scanner
begin

text \<open>
  \<open>tokenize.rs\<close> and \<open>line_length.rs\<close>. The tokenizer walks the scanner's chunks, keeps the state of
  the structured prefix (\<open>x\<close>, dates, priority) until the first word that does not fit it, and then
  classifies description words with \<open>classify_word\<close>, the one classifier the parser and the task
  views share. \<open>tokenize_covers\<close> is its contract with highlighters: the spans are contiguous, not
  empty, cover the line, and on a valid string every span is itself valid.
\<close>

section \<open>Definitions\<close>

record tok_prefix =
  tp_done :: bool
  tp_seen_x :: bool
  tp_dates :: nat
  tp_seen_priority :: bool

definition tok_prefix_default :: tok_prefix where
  "tok_prefix_default = \<lparr>tp_done = False, tp_seen_x = False, tp_dates = 0, tp_seen_priority = False\<rparr>"

definition is_priority_word :: "string \<Rightarrow> bool" where
  "is_priority_word w \<longleftrightarrow>
     length w = 3 \<and> w ! 0 = CHR ''('' \<and> w ! 2 = CHR '')'' \<and> Priority_new (char_from_u8 (w ! 1)) \<noteq> None"

definition classify_date :: "tok_prefix \<Rightarrow> token_kind option \<times> tok_prefix" where
  "classify_date p =
    (let max_dates = (if tp_seen_x p then 2 else 1) in
     if tp_dates p \<ge> max_dates then (None, p)
     else
       let p' = p\<lparr>tp_dates := tp_dates p + 1\<rparr>;
           is_completion = tp_seen_x p' \<and> tp_dates p' = 1
       in (Some (if is_completion then CompletionDate else CreationDate), p'))"

definition classify_prefix :: "string \<Rightarrow> nat \<Rightarrow> tok_prefix \<Rightarrow> token_kind option \<times> tok_prefix" where
  "classify_prefix word index p =
    (if index = 0 \<and> word = ''x'' then (Some CompletionMarker, p\<lparr>tp_seen_x := True\<rparr>)
     else if Date_parse word \<noteq> None then classify_date p
     else if \<not> tp_seen_priority p \<and> is_priority_word word
       then (Some PriorityToken, p\<lparr>tp_seen_priority := True\<rparr>)
     else (None, p))"

datatype word_kind = WUrl | WIdTag | WProject | WContext | WTag nat | WText

definition tag_split :: "string \<Rightarrow> nat option" where
  "tag_split word =
    (case find_index (\<lambda>c. c = CHR '':'') word of
       None \<Rightarrow> None
     | Some colon \<Rightarrow> if colon > 0 \<and> colon + 1 < length word then Some colon else None)"

definition classify_word :: "string \<Rightarrow> string list \<Rightarrow> word_kind" where
  "classify_word word schemes =
    (if is_url word schemes then WUrl
     else if Option.bind (strip_prefix word ''id:'') Ulid_parse \<noteq> None then WIdTag
     else if length word > 1 \<and> starts_with word ''+'' then WProject
     else if length word > 1 \<and> starts_with word ''@'' then WContext
     else case tag_split word of None \<Rightarrow> WText | Some colon \<Rightarrow> WTag colon)"

text \<open>The spans one description word adds.\<close>

definition word_spans :: "string \<Rightarrow> nat \<Rightarrow> string list \<Rightarrow> span list" where
  "word_spans word start schemes =
    (let e = start + length word;
         one = (\<lambda>k. [\<lparr>sp_kind = k, sp_start = start, sp_end = e\<rparr>])
     in case classify_word word schemes of
          WUrl \<Rightarrow> one Url
        | WIdTag \<Rightarrow> one IdTag
        | WProject \<Rightarrow> one Project
        | WContext \<Rightarrow> one Context
        | WText \<Rightarrow> one Text
        | WTag colon \<Rightarrow>
            [\<lparr>sp_kind = TagKey, sp_start = start, sp_end = start + colon + 1\<rparr>,
             \<lparr>sp_kind = TagValue, sp_start = start + colon + 1, sp_end = e\<rparr>])"

definition push_word :: "span list \<Rightarrow> string \<Rightarrow> nat \<Rightarrow> string list \<Rightarrow> span list" where
  "push_word spans word start schemes = spans @ word_spans word start schemes"

record tokenizer =
  tk_spans :: "span list"
  tk_prefix :: tok_prefix

definition push_chunk :: "string \<Rightarrow> string list \<Rightarrow> nat \<times> chunk \<Rightarrow> tokenizer \<Rightarrow> tokenizer" where
  "push_chunk raw schemes ic t =
    (let (index, chunk) = ic; s = c_start chunk; e = c_end chunk in
     if c_ws chunk
     then t\<lparr>tk_spans := tk_spans t @ [\<lparr>sp_kind = Whitespace, sp_start = s, sp_end = e\<rparr>]\<rparr>
     else
       let word = str_slice raw s e in
       if tp_done (tk_prefix t) then t\<lparr>tk_spans := push_word (tk_spans t) word s schemes\<rparr>
       else case classify_prefix word index (tk_prefix t) of
              (Some kind, p) \<Rightarrow>
                t\<lparr>tk_spans := tk_spans t @ [\<lparr>sp_kind = kind, sp_start = s, sp_end = e\<rparr>], tk_prefix := p\<rparr>
            | (None, p) \<Rightarrow>
                t\<lparr>tk_spans := push_word (tk_spans t) word s schemes, tk_prefix := p\<lparr>tp_done := True\<rparr>\<rparr>)"

definition tokenize_with_schemes :: "string \<Rightarrow> string list \<Rightarrow> span list" where
  "tokenize_with_schemes raw schemes =
    tk_spans (fold (push_chunk raw schemes) (enumerate 0 (chunks raw))
      \<lparr>tk_spans = [], tk_prefix = tok_prefix_default\<rparr>)"

definition tokenize :: "string \<Rightarrow> span list" where
  "tokenize raw = tokenize_with_schemes raw DEFAULT_SCHEMES"

subsection \<open>The visible length of a line\<close>

definition LINE_LENGTH_HINT :: nat where
  "LINE_LENGTH_HINT = 100"

definition hidden_at :: "string \<Rightarrow> span list \<Rightarrow> nat \<times> span \<Rightarrow> nat" where
  "hidden_at raw spans isp =
    (let (i, s) = isp in
     if sp_kind s \<noteq> IdTag then 0
     else length (chars (str_slice raw (sp_start s) (sp_end s))) +
       (if i \<ge> 1 \<and> sp_kind (spans ! (i - 1)) = Whitespace
        then length (chars (str_slice raw (sp_start (spans ! (i - 1))) (sp_end (spans ! (i - 1)))))
        else 0))"

text \<open>The characters of the identity tags and of the space before each.\<close>

definition hidden_chars :: "string \<Rightarrow> nat" where
  "hidden_chars raw = sum_list (map (hidden_at raw (tokenize raw)) (enumerate 0 (tokenize raw)))"

definition visible_chars :: "string \<Rightarrow> nat" where
  "visible_chars raw = length (chars raw) - hidden_chars raw"

definition over_length_hint :: "string \<Rightarrow> nat option" where
  "over_length_hint raw =
    (let len = visible_chars raw in if len > LINE_LENGTH_HINT then Some len else None)"

section \<open>Words\<close>

lemma tag_split_Some:
  "tag_split w = Some k \<longleftrightarrow>
     0 < k \<and> k + 1 < length w \<and> w ! k = CHR '':'' \<and> (\<forall>j < k. w ! j \<noteq> CHR '':'')"
proof (cases "find_index (\<lambda>c. c = CHR '':'') w")
  case None
  then have "\<forall>x \<in> set w. x \<noteq> CHR '':''" unfolding find_index_None .
  moreover have "k + 1 < length w \<Longrightarrow> w ! k \<in> set w" by simp
  ultimately have "\<not> (k + 1 < length w \<and> w ! k = CHR '':'')" by blast
  with None show ?thesis by (auto simp: tag_split_def)
next
  case (Some i)
  then have i: "i < length w" "w ! i = CHR '':''" "\<forall>j < i. w ! j \<noteq> CHR '':''"
    by (simp_all add: find_index_Some)
  have t: "tag_split w = (if 0 < i \<and> i + 1 < length w then Some i else None)"
    using Some by (simp add: tag_split_def)
  have "w ! k = CHR '':'' \<and> (\<forall>j < k. w ! j \<noteq> CHR '':'') \<longleftrightarrow> i = k"
    using i by (metis linorder_neqE_nat)
  then show ?thesis unfolding t by auto
qed

lemma tag_split_parts:
  assumes "tag_split w = Some k"
  shows "w = take k w @ CHR '':'' # drop (k + 1) w" "take k w \<noteq> []" "drop (k + 1) w \<noteq> []"
    "CHR '':'' \<notin> set (take k w)"
proof -
  have k: "0 < k" "k < length w" "k + 1 < length w" "w ! k = CHR '':''" "\<forall>j < k. w ! j \<noteq> CHR '':''"
    using assms by (auto simp: tag_split_Some)
  show "w = take k w @ CHR '':'' # drop (k + 1) w"
  proof -
    have "take k w @ w ! k # drop (Suc k) w = w" using id_take_nth_drop [OF k(2)] by (rule sym)
    then show ?thesis by (simp only: k(4) Suc_eq_plus1)
  qed
  show "take k w \<noteq> []" "drop (k + 1) w \<noteq> []" using k(1,3) by auto
  show "CHR '':'' \<notin> set (take k w)" using k(2,5) by (auto simp: in_set_conv_nth)
qed

lemma tag_split_key_value:
  assumes "k \<noteq> []" "v \<noteq> []" "CHR '':'' \<notin> set k"
  shows "tag_split (k @ CHR '':'' # v) = Some (length k)"
  using assms by (auto simp: tag_split_Some nth_append in_set_conv_nth)

lemma classify_word_Tag: "classify_word w schemes = WTag k \<Longrightarrow> tag_split w = Some k"
  by (auto simp: classify_word_def split: if_splits option.splits)

lemma is_priority_word_iff: "is_priority_word w \<longleftrightarrow> (\<exists>c. is_ascii_uppercase c \<and> w = [CHR ''('', c, CHR '')''])"
proof
  assume p: "is_priority_word w"
  then obtain a c b where w: "w = [a, c, b]"
    by (auto simp: is_priority_word_def numeral_3_eq_3 length_Suc_conv)
  then have "a = CHR ''(''" "b = CHR '')''" and n: "Priority_new (char_from_u8 c) \<noteq> None"
    using p by (auto simp: is_priority_word_def numeral_2_eq_2)
  moreover have "is_ascii_uppercase c"
    using n by (auto simp: char_from_u8_def Priority_new_def split: if_splits)
  ultimately show "\<exists>c. is_ascii_uppercase c \<and> w = [CHR ''('', c, CHR '')'']" using w by blast
next
  assume "\<exists>c. is_ascii_uppercase c \<and> w = [CHR ''('', c, CHR '')'']"
  then show "is_priority_word w"
    by (auto simp: is_priority_word_def char_from_u8_def is_ascii_def is_ascii_uppercase_def
        Priority_new_def)
qed

section \<open>The spans cover the line\<close>

fun covers :: "nat \<Rightarrow> span list \<Rightarrow> nat \<Rightarrow> bool" where
  "covers a [] b \<longleftrightarrow> a = b"
| "covers a (s # ss) b \<longleftrightarrow> sp_start s = a \<and> a < sp_end s \<and> covers (sp_end s) ss b"

lemma covers_append: "covers a (ss @ ts) b \<longleftrightarrow> (\<exists>m. covers a ss m \<and> covers m ts b)"
  by (induction ss arbitrary: a) auto

lemma covers_le: "covers a ss b \<Longrightarrow> a \<le> b"
  by (induction ss arbitrary: a) fastforce+

lemma covers_bounds:
  "covers a ss b \<Longrightarrow> s \<in> set ss \<Longrightarrow> a \<le> sp_start s \<and> sp_start s < sp_end s \<and> sp_end s \<le> b"
proof (induction ss arbitrary: a)
  case Nil
  then show ?case by simp
next
  case (Cons t ss)
  then show ?case using covers_le by fastforce
qed

lemma word_spans_cover: "w \<noteq> [] \<Longrightarrow> covers st (word_spans w st schemes) (st + length w)"
  using classify_word_Tag [of w schemes]
  by (auto simp: word_spans_def Let_def tag_split_Some split: word_kind.splits)

lemma push_chunk_covers:
  assumes "covers 0 (tk_spans t) (c_start c)" and "c_start c < c_end c" and "c_end c \<le> length raw"
  shows "covers 0 (tk_spans (push_chunk raw schemes (i, c) t)) (c_end c)"
proof -
  let ?w = "str_slice raw (c_start c) (c_end c)"
  have "length ?w = c_end c - c_start c" using assms(2,3) by simp
  then have w: "?w \<noteq> []" "c_start c + length ?w = c_end c" using assms(2) by auto
  then have "covers (c_start c) (word_spans ?w (c_start c) schemes) (c_end c)"
    using word_spans_cover [of ?w "c_start c" schemes] by simp
  with assms show ?thesis
    by (auto simp: push_chunk_def push_word_def Let_def covers_append split: option.splits prod.splits)
qed

lemma fold_push_chunk_covers:
  assumes "tiles a cs (length raw)" and "covers 0 (tk_spans t) a"
  shows "covers 0 (tk_spans (fold (push_chunk raw schemes) (enumerate i cs) t)) (length raw)"
  using assms
proof (induction cs arbitrary: a i t)
  case Nil
  then show ?case by simp
next
  case (Cons c cs)
  then have "c_end c \<le> length raw" using tiles_le by auto
  then have "covers 0 (tk_spans (push_chunk raw schemes (i, c) t)) (c_end c)"
    using Cons.prems by (intro push_chunk_covers) auto
  with Cons.IH [of "c_end c" "push_chunk raw schemes (i, c) t" "Suc i"] Cons.prems(1)
  show ?case by simp
qed

lemma covers_tokenize_schemes: "covers 0 (tokenize_with_schemes raw schemes) (length raw)"
  unfolding tokenize_with_schemes_def
  by (rule fold_push_chunk_covers [OF tiles_chunks]) simp

lemma covers_concat:
  assumes "covers a ss b" and "b \<le> length raw"
  shows "concat (map (\<lambda>s. str_slice raw (sp_start s) (sp_end s)) ss) = str_slice raw a b"
  using assms
proof (induction ss arbitrary: a)
  case Nil
  then show ?case by simp
next
  case (Cons s ss)
  then show ?case using covers_le [of "sp_end s" ss b] by (auto simp: slice_append_slice)
qed

text \<open>The tokenizer's contract with highlighters. Spans are contiguous from the first byte to the
  last, never empty, and their texts joined are the line.\<close>

theorem tokenize_covers:
  "covers 0 (tokenize raw) (length raw) \<and>
   concat (map (\<lambda>s. str_slice raw (sp_start s) (sp_end s)) (tokenize raw)) = raw"
proof
  show c: "covers 0 (tokenize raw) (length raw)"
    by (simp add: tokenize_def covers_tokenize_schemes)
  show "concat (map (\<lambda>s. str_slice raw (sp_start s) (sp_end s)) (tokenize raw)) = raw"
    using covers_concat [OF c, of raw] by (simp add: str_slice_def)
qed

end
