(* ===== verification/Parse.thy ===== *)
theory Parse
  imports Tokenize
begin

text \<open>
  \<open>task.rs\<close> and \<open>parse.rs\<close>. The views of a task are computed from its description on demand. The
  parser is a cursor over the scanner's chunks with the quirks collected so far; each of its methods
  is a function from the parser to an error or a result and the next parser, and \<open>and_then\<close> is the
  \<open>?\<close> operator. \<open>consumed\<close> (the bytes before the cursor) carries the proofs: every method is
  described by what it adds to it.
\<close>

section \<open>Views of a task\<close>

definition SLUG_MAX_LEN :: nat where
  "SLUG_MAX_LEN = 64"

definition is_valid_slug :: "string \<Rightarrow> bool" where
  "is_valid_slug s =
    (let head_ok = (case s of [] \<Rightarrow> False | c # _ \<Rightarrow> is_ascii_lowercase c \<or> is_ascii_digit c);
         tail_ok = list_all (\<lambda>c. is_ascii_lowercase c \<or> is_ascii_digit c \<or> c \<in> {CHR ''.'', CHR ''_'', CHR ''-''}) s
     in head_ok \<and> tail_ok \<and> length s \<le> SLUG_MAX_LEN \<and> s \<noteq> ''.'' \<and> s \<noteq> ''..'')"

text \<open>The word chunks of a text, as strings: \<open>chunks(d).filter(|c| !c.is_ws).map(..)\<close>.\<close>

definition word_texts :: "string \<Rightarrow> string list" where
  "word_texts d = map (chunk_text d) (filter (\<lambda>c. \<not> c_ws c) (chunks d))"

definition words :: "task \<Rightarrow> (word_kind \<times> string) list" where
  "words t = map (\<lambda>w. (classify_word w DEFAULT_SCHEMES, w)) (word_texts (description t))"

definition projects :: "task \<Rightarrow> string list" where
  "projects t = map (\<lambda>(_, w). drop 1 w) (filter (\<lambda>(k, _). k = WProject) (words t))"

definition contexts :: "task \<Rightarrow> string list" where
  "contexts t = map (\<lambda>(_, w). drop 1 w) (filter (\<lambda>(k, _). k = WContext) (words t))"

definition tags :: "task \<Rightarrow> (string \<times> string) list" where
  "tags t = List.map_filter (\<lambda>(k, w). case k of
       WTag colon \<Rightarrow> Some (take colon w, drop (colon + 1) w)
     | WIdTag \<Rightarrow> Some (''id'', drop 3 w)
     | _ \<Rightarrow> None) (words t)"

definition tag :: "task \<Rightarrow> string \<Rightarrow> string option" where
  "tag t key = map_option snd (find (\<lambda>(k, _). k = key) (tags t))"

definition plain_words :: "task \<Rightarrow> string list" where
  "plain_words t = map snd (filter (\<lambda>(k, _). k = WText) (words t))"

fun find_map :: "('a \<Rightarrow> 'b option) \<Rightarrow> 'a list \<Rightarrow> 'b option" where
  "find_map f [] = None"
| "find_map f (x # xs) = (case f x of None \<Rightarrow> find_map f xs | Some y \<Rightarrow> Some y)"

definition tag_with_schemes :: "task \<Rightarrow> string \<Rightarrow> string list \<Rightarrow> string option" where
  "tag_with_schemes t key schemes = find_map (\<lambda>w.
     case classify_word w schemes of
       WTag colon \<Rightarrow> if take colon w = key then Some (drop (colon + 1) w) else None
     | _ \<Rightarrow> None) (word_texts (description t))"

definition task_ulid :: "task \<Rightarrow> ulid option" where
  "task_ulid t = Option.bind (tag t ''id'') Ulid_parse"

definition ref_slug :: "task \<Rightarrow> string option" where
  "ref_slug t = (case tag t ''ref'' of Some s \<Rightarrow> if is_valid_slug s then Some s else None | None \<Rightarrow> None)"

section \<open>The parser\<close>

record parser =
  p_raw :: string
  p_chunks :: "chunk list"
  p_i :: nat
  p_mode :: mode
  p_quirks :: quirks

type_synonym 'a presult = "parse_error + ('a \<times> parser)"

definition and_then :: "'a presult \<Rightarrow> ('a \<Rightarrow> parser \<Rightarrow> 'b presult) \<Rightarrow> 'b presult" where
  "and_then m f = (case m of Inl e \<Rightarrow> Inl e | Inr (a, p) \<Rightarrow> f a p)"

definition p_word :: "parser \<Rightarrow> string option" where
  "p_word p = Option.bind (get (p_chunks p) (p_i p)) (\<lambda>c.
     if \<not> c_ws c then Some (chunk_text (p_raw p) c) else None)"

definition pos :: "parser \<Rightarrow> nat" where
  "pos p = (case get (p_chunks p) (p_i p) of None \<Rightarrow> length (p_raw p) | Some c \<Rightarrow> c_start c)"

definition advance :: "parser \<Rightarrow> parser" where
  "advance p = p\<lparr>p_i := p_i p + 1\<rparr>"

definition add_quirk :: "quirks \<Rightarrow> parser \<Rightarrow> parser" where
  "add_quirk q p = p\<lparr>p_quirks := q_insert (p_quirks p) q\<rparr>"

definition lenient_or_at :: "quirks \<Rightarrow> string \<Rightarrow> string \<Rightarrow> nat \<Rightarrow> parser \<Rightarrow> unit presult" where
  "lenient_or_at quirk rule message byte p =
    (if p_mode p = Lenient then Inr ((), add_quirk quirk p)
     else Inl \<lparr>pe_rule = rule, pe_byte = byte, pe_message = message\<rparr>)"

definition lenient_or :: "quirks \<Rightarrow> string \<Rightarrow> string \<Rightarrow> parser \<Rightarrow> unit presult" where
  "lenient_or quirk rule message p = lenient_or_at quirk rule message (pos p) p"

definition separator :: "parser \<Rightarrow> bool presult" where
  "separator p =
    (case get (p_chunks p) (p_i p) of
       None \<Rightarrow> Inr (False, p)
     | Some c \<Rightarrow>
         and_then
           (if chunk_text (p_raw p) c \<noteq> '' ''
            then lenient_or TABS ''SP'' ''words are separated by exactly one space'' p
            else Inr ((), p))
           (\<lambda>_ p1. let p2 = advance p1 in
              if p_i p2 = length (p_chunks p2)
              then and_then (lenient_or_at TRAILING_WS ''description'' ''trailing whitespace'' (c_start c) p2)
                     (\<lambda>_ p3. Inr (False, p3))
              else Inr (True, p2)))"

definition starts_completed :: "parser \<Rightarrow> bool" where
  "starts_completed p =
    (if p_word p \<noteq> Some ''x'' then False
     else if p_mode p = Lenient then True
     else
       (case get (p_chunks p) 1 of None \<Rightarrow> False
        | Some c \<Rightarrow> c_ws c \<and> chunk_text (p_raw p) c = '' '') \<and>
       (case get (p_chunks p) 2 of None \<Rightarrow> False
        | Some c \<Rightarrow> \<not> c_ws c \<and> Date_parse (chunk_text (p_raw p) c) \<noteq> None))"

definition has_date_shape :: "string \<Rightarrow> bool" where
  "has_date_shape word \<longleftrightarrow>
     length word = 10 \<and> word ! 4 = CHR ''-'' \<and> word ! 7 = CHR ''-'' \<and>
     list_all (\<lambda>(i, c). i = 4 \<or> i = 7 \<or> is_ascii_digit c) (enumerate 0 word)"

definition take_date :: "parser \<Rightarrow> date option presult" where
  "take_date p =
    (case p_word p of None \<Rightarrow> Inr (None, p)
     | Some word \<Rightarrow>
         (case Date_parse word of
            Some d \<Rightarrow> Inr (Some d, advance p)
          | None \<Rightarrow>
              if p_mode p = Strict \<and> has_date_shape word
              then Inl \<lparr>pe_rule = ''date'', pe_byte = pos p, pe_message = ''not a calendar date''\<rparr>
              else Inr (None, p)))"

text \<open>\<open>take_optional_date(slot)\<close>: the slot's new value is returned.\<close>

definition take_optional_date :: "date option \<Rightarrow> parser \<Rightarrow> date option presult" where
  "take_optional_date slot p =
    and_then (take_date p) (\<lambda>r p1. case r of
       None \<Rightarrow> Inr (slot, p1)
     | Some d \<Rightarrow> and_then (separator p1) (\<lambda>_ p2. Inr (Some d, p2)))"

definition take_priority :: "task \<Rightarrow> parser \<Rightarrow> (bool \<times> task) presult" where
  "take_priority t p =
    (case p_word p of
       Some word \<Rightarrow>
         if is_priority_word word
         then and_then (separator (advance p)) (\<lambda>_ p1.
                Inr ((True, t\<lparr>priority_of := Priority_new (char_from_u8 (word ! 1))\<rparr>), p1))
         else Inr ((False, t), p)
     | None \<Rightarrow> Inr ((False, t), p))"

text \<open>A priority taken where the strict grammar has none, with the quirk that says so.\<close>

definition take_priority_as :: "quirks \<Rightarrow> task \<Rightarrow> parser \<Rightarrow> task presult" where
  "take_priority_as q t p =
    and_then (take_priority t p) (\<lambda>(taken, t1) p1. Inr (t1, if taken then add_quirk q p1 else p1))"

text \<open>The end of \<open>completed_prefix\<close>, once the completion date is taken.\<close>

definition after_completion_date :: "task \<Rightarrow> parser \<Rightarrow> task presult" where
  "after_completion_date t p =
    and_then (separator p) (\<lambda>more p1.
      and_then
        (if more
         then and_then (take_optional_date (creation_date t) p1) (\<lambda>slot p2.
                Inr (t\<lparr>creation_date := slot\<rparr>, p2))
         else Inr (t, p1))
        (\<lambda>t1 p2.
           if p_mode p2 = Lenient \<and> priority_of t1 = None
           then take_priority_as PRIORITY_AFTER_DATE t1 p2
           else Inr (t1, p2)))"

definition completed_prefix :: "task \<Rightarrow> parser \<Rightarrow> task presult" where
  "completed_prefix t p =
    and_then (separator p) (\<lambda>more p1.
      if \<not> more
      then and_then (lenient_or NO_COMPLETION_DATE ''completed''
             ''expected a space and the completion date after x'' p1) (\<lambda>_ p2. Inr (t, p2))
      else and_then
        (if p_mode p1 = Lenient then take_priority_as PRIORITY_AFTER_X t p1 else Inr (t, p1))
        (\<lambda>t1 p2. and_then (take_date p2) (\<lambda>r p3. case r of
           None \<Rightarrow> and_then (lenient_or NO_COMPLETION_DATE ''completed''
                    ''expected the completion date after x'' p3) (\<lambda>_ p4. Inr (t1, p4))
         | Some d \<Rightarrow> after_completion_date (t1\<lparr>completion_date := Some d\<rparr>) p3)))"

definition incomplete_prefix :: "task \<Rightarrow> parser \<Rightarrow> task presult" where
  "incomplete_prefix t p =
    and_then (take_priority t p) (\<lambda>(_, t1) p1.
      and_then (take_optional_date (creation_date t1) p1) (\<lambda>slot p2.
        Inr (t1\<lparr>creation_date := slot\<rparr>, p2)))"

text \<open>The loop of \<open>description\<close>: \<open>n\<close> counts the chunks of \<open>rest\<close> already seen and \<open>len\<close> is its
  length.\<close>

fun description_loop :: "nat \<Rightarrow> nat \<Rightarrow> nat \<Rightarrow> chunk list \<Rightarrow> parser \<Rightarrow> unit presult" where
  "description_loop start len n [] p = Inr ((), p)"
| "description_loop start len n (c # cs) p =
    (let p1 = advance p in
     if \<not> c_ws c then description_loop start len (n + 1) cs p1
     else and_then
       (if n = 0 \<and> start = 0
        then lenient_or_at LEADING_WS ''description'' ''leading whitespace'' 0 p1
        else Inr ((), p1))
       (\<lambda>_ p2.
          if n = 0 \<and> start = 0 \<and> len > 1 then description_loop start len (n + 1) cs p2
          else and_then
            (if n + 1 = len
             then lenient_or_at TRAILING_WS ''description'' ''trailing whitespace'' (c_start c) p2
             else if chunk_text (p_raw p2) c \<noteq> '' ''
             then lenient_or_at TABS ''SP'' ''words are separated by exactly one space'' (c_start c) p2
             else Inr ((), p2))
            (\<lambda>_ p3. description_loop start len (n + 1) cs p3)))"

definition parse_description :: "parser \<Rightarrow> string presult" where
  "parse_description p =
    (let start = pos p; rest = drop (p_i p) (p_chunks p) in
     and_then (description_loop start (length rest) 0 rest p) (\<lambda>_ p1.
       Inr (drop start (p_raw p1), p1)))"

definition empty_task :: task where
  "empty_task = \<lparr>completed = False, completion_date = None, creation_date = None, priority_of = None,
     description = []\<rparr>"

definition parse_task :: "parser \<Rightarrow> task presult" where
  "parse_task p =
    and_then
      (if starts_completed p
       then completed_prefix (empty_task\<lparr>completed := True\<rparr>) (advance p)
       else incomplete_prefix empty_task p)
      (\<lambda>t p1. and_then (parse_description p1) (\<lambda>d p2. Inr (t\<lparr>description := d\<rparr>, p2)))"

definition Parser_new :: "string \<Rightarrow> mode \<Rightarrow> parser" where
  "Parser_new raw m = \<lparr>p_raw = raw, p_chunks = chunks raw, p_i = 0, p_mode = m, p_quirks = Q_NONE\<rparr>"

definition parse_line_with_schemes :: "string \<Rightarrow> mode \<Rightarrow> string list \<Rightarrow> parse_error + line" where
  "parse_line_with_schemes raw m schemes =
    (if raw = []
     then Inr \<lparr>l_raw = raw, l_kind = Blank, l_quirks = Q_NONE, l_ending = LineEnding_default\<rparr>
     else case parse_task (Parser_new raw m) of
       Inl e \<Rightarrow> Inl e
     | Inr (t, p) \<Rightarrow>
         let bad = (case tag_with_schemes t ''ref'' schemes of None \<Rightarrow> False | Some slug \<Rightarrow> \<not> is_valid_slug slug);
             p1 = (if bad then add_quirk INVALID_REF p else p)
         in Inr \<lparr>l_raw = raw, l_kind = TaskLine t, l_quirks = p_quirks p1, l_ending = LineEnding_default\<rparr>)"

definition parse_line :: "string \<Rightarrow> mode \<Rightarrow> parse_error + line" where
  "parse_line raw m = parse_line_with_schemes raw m DEFAULT_SCHEMES"

section \<open>What every parser method keeps\<close>

text \<open>\<open>parser_ext p p'\<close>: the line, its chunks and the mode are untouched, quirks are only added, and
  none is added in strict mode. \<open>pstep\<close> adds that the method fails in strict mode only.\<close>

definition parser_ext :: "parser \<Rightarrow> parser \<Rightarrow> bool" where
  "parser_ext p p' \<longleftrightarrow>
     p_raw p' = p_raw p \<and> p_chunks p' = p_chunks p \<and> p_mode p' = p_mode p \<and>
     (\<forall>q. q_has (p_quirks p) q \<longrightarrow> q_has (p_quirks p') q) \<and>
     (p_mode p = Strict \<longrightarrow> p_quirks p' = p_quirks p)"

definition pstep :: "parser \<Rightarrow> 'a presult \<Rightarrow> bool" where
  "pstep p m \<longleftrightarrow> (case m of Inl _ \<Rightarrow> p_mode p = Strict | Inr (_, p') \<Rightarrow> parser_ext p p')"

lemma mode_not_Lenient [simp]: "m \<noteq> Lenient \<longleftrightarrow> m = Strict"
  by (cases m) auto

lemma parser_ext_refl [simp]: "parser_ext p p"
  by (simp add: parser_ext_def)

lemma parser_ext_trans: "parser_ext p q \<Longrightarrow> parser_ext q r \<Longrightarrow> parser_ext p r"
  by (auto simp: parser_ext_def)

lemma parser_ext_advance [simp]: "parser_ext p (advance q) \<longleftrightarrow> parser_ext p q"
  by (simp add: parser_ext_def advance_def)

lemma parser_ext_add_quirk: "parser_ext p q \<Longrightarrow> p_mode q = Lenient \<Longrightarrow> parser_ext p (add_quirk r q)"
  by (auto simp: parser_ext_def add_quirk_def intro: q_has_mono)

lemma and_then_Inr [simp]: "and_then (Inr (a, p)) f = f a p"
  by (simp add: and_then_def)

lemma and_then_Inl [simp]: "and_then (Inl e) f = Inl e"
  by (simp add: and_then_def)

lemma and_then_eq_Inr:
  "and_then m f = Inr r \<longleftrightarrow> (\<exists>a p. m = Inr (a, p) \<and> f a p = Inr r)"
  by (auto simp: and_then_def split: sum.splits prod.splits)

lemma pstep_Inr [simp]: "pstep p (Inr (a, p')) \<longleftrightarrow> parser_ext p p'"
  by (simp add: pstep_def)

lemma pstep_Inl [simp]: "pstep p (Inl e) \<longleftrightarrow> p_mode p = Strict"
  by (simp add: pstep_def)

lemma pstep_and_then:
  assumes "pstep p m" and "\<And>a p1. parser_ext p p1 \<Longrightarrow> pstep p1 (f a p1)"
  shows "pstep p (and_then m f)"
proof (cases m)
  case (Inl e)
  with assms show ?thesis by simp
next
  case (Inr r)
  obtain a p1 where r: "r = (a, p1)" by (cases r)
  with assms(1) Inr have e: "parser_ext p p1" by simp
  with assms(2) have "pstep p1 (f a p1)" by simp
  with e Inr r show ?thesis
    by (auto simp: pstep_def parser_ext_def split: sum.splits prod.splits)
qed

lemma pstep_lenient_or_at: "pstep p (lenient_or_at q r m b p)"
  by (simp add: lenient_or_at_def parser_ext_add_quirk)

lemma pstep_lenient_or: "pstep p (lenient_or q r m p)"
  by (simp add: lenient_or_def pstep_lenient_or_at)

lemma pstep_from_advance: "pstep (advance p) m \<Longrightarrow> pstep p m"
  by (simp add: pstep_def parser_ext_def advance_def split: sum.splits prod.splits)

lemmas pstep_lenient_or_at_advance = pstep_from_advance [OF pstep_lenient_or_at]

lemma parser_ext_mode: "parser_ext p p' \<Longrightarrow> p_mode p' = p_mode p"
  by (simp add: parser_ext_def)

lemma pstep_separator: "pstep p (separator p)"
proof (cases "get (p_chunks p) (p_i p)")
  case None
  then show ?thesis by (simp add: separator_def)
next
  case (Some c)
  show ?thesis unfolding separator_def Let_def Some option.case
    by (intro pstep_and_then)
      (simp_all add: pstep_lenient_or pstep_and_then pstep_lenient_or_at_advance)
qed

lemmas pstep_separator_advance = pstep_from_advance [OF pstep_separator]

lemma pstep_take_date: "pstep p (take_date p)"
  by (auto simp: take_date_def split: option.splits)

lemma pstep_take_optional_date: "pstep p (take_optional_date slot p)"
  unfolding take_optional_date_def
  by (rule pstep_and_then [OF pstep_take_date])
    (simp add: pstep_and_then pstep_separator split: option.split)

lemma pstep_take_priority: "pstep p (take_priority t p)"
  unfolding take_priority_def
  by (simp add: pstep_and_then pstep_separator_advance split: option.split)

lemma pstep_take_priority_as:
  assumes "p_mode p = Lenient"
  shows "pstep p (take_priority_as q t p)"
  unfolding take_priority_as_def
proof (rule pstep_and_then [OF pstep_take_priority])
  fix r p1
  assume "parser_ext p p1"
  then have "p_mode p1 = Lenient" using assms by (simp add: parser_ext_mode [of p p1])
  then show "pstep p1 ((case r of (taken, t1) \<Rightarrow>
      \<lambda>p2. Inr (t1, if taken then add_quirk q p2 else p2)) p1)"
    by (cases r) (simp add: parser_ext_add_quirk)
qed

lemma pstep_after_completion_date: "pstep p (after_completion_date t p)"
  unfolding after_completion_date_def
  by (intro pstep_and_then [OF pstep_separator] pstep_and_then)
    (simp_all add: pstep_take_priority_as pstep_and_then pstep_take_optional_date)

lemma pstep_completed_prefix: "pstep p (completed_prefix t p)"
  unfolding completed_prefix_def
  by (intro pstep_and_then [OF pstep_separator])
    (simp add: pstep_take_priority_as pstep_and_then pstep_lenient_or
      pstep_take_date pstep_after_completion_date split: option.split)

lemma pstep_incomplete_prefix: "pstep p (incomplete_prefix t p)"
  unfolding incomplete_prefix_def
  by (rule pstep_and_then [OF pstep_take_priority])
    (simp add: pstep_and_then pstep_take_optional_date split: prod.split)

lemma pstep_description_loop: "pstep p (description_loop start len n cs p)"
proof (induction cs arbitrary: start n p)
  case Nil
  then show ?case by simp
next
  case (Cons c cs)
  show ?case
    unfolding description_loop.simps Let_def
    by (rule pstep_from_advance, cases "c_ws c")
      (simp_all only: not_not not_True_eq_False not_False_eq_True if_True if_False Cons.IH,
        intro pstep_and_then, simp_all add: Cons.IH pstep_and_then pstep_lenient_or_at)
qed

lemma pstep_parse_description: "pstep p (parse_description p)"
  unfolding parse_description_def Let_def
  by (rule pstep_and_then [OF pstep_description_loop]) simp

lemma pstep_parse_task: "pstep p (parse_task p)"
  unfolding parse_task_def
  by (rule pstep_and_then)
    (simp_all add: pstep_completed_prefix pstep_from_advance pstep_incomplete_prefix
      pstep_and_then pstep_parse_description)

section \<open>What the parser has consumed\<close>

definition consumed :: "parser \<Rightarrow> string" where
  "consumed p = take (pos p) (p_raw p)"

abbreviation at_end :: "parser \<Rightarrow> bool" where
  "at_end p \<equiv> get (p_chunks p) (p_i p) = None"

definition pwf :: "parser \<Rightarrow> bool" where
  "pwf p \<longleftrightarrow> p_chunks p = chunks (p_raw p)"

lemma get_Some: "get xs i = Some x \<longleftrightarrow> i < length xs \<and> x = xs ! i"
  by (auto simp: get_def)

lemma get_None: "get xs i = None \<longleftrightarrow> length xs \<le> i"
  by (auto simp: get_def)

lemma advance_simps [simp]:
  "p_raw (advance p) = p_raw p" "p_chunks (advance p) = p_chunks p" "p_mode (advance p) = p_mode p"
  "p_i (advance p) = p_i p + 1" "p_quirks (advance p) = p_quirks p"
  by (simp_all add: advance_def)

lemma pwf_advance [simp]: "pwf (advance p) \<longleftrightarrow> pwf p"
  by (simp add: pwf_def)

lemma parser_ext_pwf: "parser_ext p p' \<Longrightarrow> pwf p \<Longrightarrow> pwf p'"
  by (simp add: parser_ext_def pwf_def)

lemma pwf_Parser_new [simp]: "pwf (Parser_new raw m)"
  by (simp add: pwf_def Parser_new_def)

lemma Parser_new_simps [simp]:
  "p_raw (Parser_new raw m) = raw" "p_mode (Parser_new raw m) = m"
  "p_quirks (Parser_new raw m) = Q_NONE" "p_i (Parser_new raw m) = 0"
  "p_chunks (Parser_new raw m) = chunks raw"
  by (simp_all add: Parser_new_def)

lemma tiles_next:
  "tiles a cs b \<Longrightarrow> i < length cs \<Longrightarrow>
     (case get cs (Suc i) of None \<Rightarrow> b | Some c \<Rightarrow> c_start c) = c_end (cs ! i)"
proof (induction cs arbitrary: a i)
  case Nil
  then show ?case by simp
next
  case (Cons c cs)
  show ?case
  proof (cases i)
    case 0
    with Cons.prems show ?thesis by (cases cs) (auto simp: get_def)
  next
    case (Suc j)
    with Cons.IH [of "c_end c" j] Cons.prems show ?thesis by (simp add: get_def split: if_splits)
  qed
qed

lemma pos_advance:
  assumes "pwf p" and "get (p_chunks p) (p_i p) = Some c"
  shows "pos (advance p) = c_end c"
  using tiles_next [OF tiles_chunks [of "p_raw p"], of "p_i p"] assms
  by (auto simp: pos_def get_def pwf_def split: option.splits if_splits)

lemma consumed_advance:
  assumes "pwf p" and "get (p_chunks p) (p_i p) = Some c"
  shows "consumed (advance p) = consumed p @ chunk_text (p_raw p) c"
proof -
  have "c \<in> set (chunks (p_raw p))" using assms by (auto simp: get_Some pwf_def)
  then have b: "c_start c < c_end c" "c_end c \<le> length (p_raw p)" using chunk_bounds by blast+
  have "str_slice (p_raw p) 0 (c_start c) @ str_slice (p_raw p) (c_start c) (c_end c) =
      str_slice (p_raw p) 0 (c_end c)"
    using b by (intro slice_append_slice) auto
  moreover have "pos p = c_start c" using assms(2) by (simp add: pos_def)
  ultimately show ?thesis
    using pos_advance [OF assms] by (simp add: consumed_def chunk_text_def str_slice_def)
qed

lemma consumed_at_end: "at_end p \<Longrightarrow> consumed p = p_raw p"
  by (simp add: consumed_def pos_def)

lemma pos_less:
  assumes "pwf p" and "\<not> at_end p"
  shows "pos p < length (p_raw p)"
proof -
  obtain c where c: "get (p_chunks p) (p_i p) = Some c" using assms(2) by blast
  then have "c \<in> set (chunks (p_raw p))" using assms(1) by (auto simp: get_Some pwf_def)
  then show ?thesis using chunk_bounds [of c "p_raw p"] c by (simp add: pos_def)
qed

lemma consumed_start: "consumed (Parser_new raw m) = []"
proof -
  have "chunks raw = [] \<longrightarrow> raw = []" using tiles_chunks [of raw] by auto
  moreover have "chunks raw \<noteq> [] \<longrightarrow> c_start (chunks raw ! 0) = 0"
    using tiles_chunks [of raw] by (cases "chunks raw") auto
  ultimately show ?thesis
    by (auto simp: consumed_def pos_def get_def split: option.splits)
qed

lemma parse_description_result:
  assumes "parse_description p = Inr (d, p')"
  shows "p_raw p = consumed p @ d"
proof -
  obtain p1 where "description_loop (pos p) (length (drop (p_i p) (p_chunks p))) 0
      (drop (p_i p) (p_chunks p)) p = Inr ((), p1)" and d: "d = drop (pos p) (p_raw p1)"
    using assms by (auto simp: parse_description_def Let_def and_then_eq_Inr)
  then have "parser_ext p p1"
    using pstep_description_loop [of p "pos p" "length (drop (p_i p) (p_chunks p))" 0
        "drop (p_i p) (p_chunks p)"] by simp
  with d show ?thesis by (simp add: consumed_def parser_ext_def)
qed

subsection \<open>The methods in strict mode\<close>

lemma strict_separator:
  assumes "separator p = Inr (m, p')" and "p_mode p = Strict" and "pwf p"
  shows "if m then p' = advance p \<and> \<not> at_end p' \<and> consumed p' = consumed p @ '' ''
         else p' = p \<and> at_end p"
proof (cases "get (p_chunks p) (p_i p)")
  case None
  with assms show ?thesis by (simp add: separator_def)
next
  case (Some c)
  then have "chunk_text (p_raw p) c = '' '' \<and> p_i p + 1 \<noteq> length (p_chunks p) \<and> m \<and> p' = advance p"
    using assms(1,2)
    by (auto simp: separator_def Let_def lenient_or_def lenient_or_at_def split: if_splits)
  moreover have "p_i p < length (p_chunks p)" using Some by (simp add: get_Some)
  ultimately show ?thesis using consumed_advance [OF assms(3) Some] by (simp add: get_None)
qed

lemma p_word_Some:
  "p_word p = Some w \<longleftrightarrow>
     (\<exists>c. get (p_chunks p) (p_i p) = Some c \<and> \<not> c_ws c \<and> w = chunk_text (p_raw p) c)"
  by (auto simp: p_word_def bind_eq_Some_conv split: if_splits)

lemma p_word_consumed: "p_word p = Some w \<Longrightarrow> pwf p \<Longrightarrow> consumed (advance p) = consumed p @ w"
  by (auto simp: p_word_Some consumed_advance)

lemma take_date_Some:
  assumes "take_date p = Inr (Some d, p')" and "pwf p"
  shows "valid_date d \<and> p' = advance p \<and> consumed p' = consumed p @ Date_fmt d \<and> p_word p = Some (Date_fmt d)"
proof -
  obtain w where "p_word p = Some w" "Date_parse w = Some d" "p' = advance p"
    using assms(1) by (auto simp: take_date_def split: option.splits if_splits)
  then show ?thesis using assms(2) by (auto simp: date_codec.parse_iff p_word_consumed)
qed

lemma take_date_None: "take_date p = Inr (None, p') \<Longrightarrow> p' = p"
  by (auto simp: take_date_def split: option.splits if_splits)

lemma strict_take_optional_date:
  assumes "take_optional_date None p = Inr (r, p')" and "p_mode p = Strict" and "pwf p"
  shows "case r of None \<Rightarrow> p' = p
       | Some d \<Rightarrow> valid_date d \<and> consumed p' = consumed p @ Date_fmt d @ (if at_end p' then [] else '' '')"
proof -
  obtain x p1 where t: "take_date p = Inr (x, p1)"
    and k: "(case x of None \<Rightarrow> Inr (None, p1)
       | Some d \<Rightarrow> and_then (separator p1) (\<lambda>_ p2. Inr (Some d, p2))) = Inr (r, p')"
    using assms(1) by (auto simp: take_optional_date_def and_then_eq_Inr)
  show ?thesis
  proof (cases x)
    case None
    with t k show ?thesis using take_date_None [of p p1] by auto
  next
    case (Some d)
    with k obtain m where s: "separator p1 = Inr (m, p')" and r: "r = Some d"
      by (auto simp: and_then_eq_Inr)
    have d: "valid_date d" "p1 = advance p" "consumed p1 = consumed p @ Date_fmt d"
      using take_date_Some [of p d p1] t Some assms(3) by auto
    then show ?thesis using strict_separator [OF s] assms(2,3) r by (auto split: if_splits)
  qed
qed

lemma strict_take_priority:
  assumes "take_priority t p = Inr ((taken, t'), p')" and "p_mode p = Strict" and "pwf p"
  shows "if taken then \<exists>q. valid_priority q \<and> t' = t\<lparr>priority_of := Some q\<rparr> \<and>
           consumed p' = consumed p @ Priority_fmt q @ (if at_end p' then [] else '' '')
         else t' = t \<and> p' = p"
proof (cases taken)
  case False
  with assms(1) show ?thesis
    by (auto simp: take_priority_def and_then_eq_Inr split: option.splits if_splits)
next
  case True
  with assms(1) obtain w m where w: "p_word p = Some w" "is_priority_word w"
    and t': "t' = t\<lparr>priority_of := Priority_new (char_from_u8 (w ! 1))\<rparr>"
    and s: "separator (advance p) = Inr (m, p')"
    by (auto simp: take_priority_def and_then_eq_Inr split: option.splits if_splits)
  obtain c where c: "is_ascii_uppercase c" "w = [CHR ''('', c, CHR '')'']"
    using w(2) by (auto simp: is_priority_word_iff)
  then have "Priority_new (char_from_u8 (w ! 1)) = Some (Priority c)"
    by (auto simp: char_from_u8_def is_ascii_def is_ascii_uppercase_def Priority_new_def)
  moreover have "consumed (advance p) = consumed p @ Priority_fmt (Priority c)"
    using p_word_consumed [OF w(1) assms(3)] c(2) by (simp add: Priority_fmt_def)
  ultimately show ?thesis
    using True t' c(1) strict_separator [OF s] assms(2,3)
    by (auto simp: valid_priority_def intro!: exI [of _ "Priority c"] split: if_splits)
qed

section \<open>Properties\<close>

lemma parse_line_cases:
  assumes "parse_line_with_schemes raw m schemes = Inr l"
  obtains (Blank) "raw = []" "l_kind l = Blank" "l_quirks l = Q_NONE"
  | (Task) t p where "raw \<noteq> []" "l_kind l = TaskLine t" "parse_task (Parser_new raw m) = Inr (t, p)"
      "l_quirks l = p_quirks p \<or> l_quirks l = q_insert (p_quirks p) INVALID_REF"
  using assms
  by (auto simp: parse_line_with_schemes_def Let_def add_quirk_def split: if_splits sum.splits prod.splits)

lemma parse_task_parts:
  assumes "parse_task p = Inr (t, p')"
  obtains t1 p1 d where "t = t1\<lparr>description := d\<rparr>" "parse_description p1 = Inr (d, p')"
    "(if starts_completed p then completed_prefix (empty_task\<lparr>completed := True\<rparr>) (advance p)
      else incomplete_prefix empty_task p) = Inr (t1, p1)" "parser_ext p p1"
proof -
  obtain t1 p1 d where k: "t = t1\<lparr>description := d\<rparr>" "parse_description p1 = Inr (d, p')"
    "(if starts_completed p then completed_prefix (empty_task\<lparr>completed := True\<rparr>) (advance p)
      else incomplete_prefix empty_task p) = Inr (t1, p1)"
    using assms unfolding parse_task_def and_then_eq_Inr by auto
  have "parser_ext p p1"
    using k(3) pstep_completed_prefix [of "advance p" "empty_task\<lparr>completed := True\<rparr>"]
      pstep_from_advance [of p "completed_prefix (empty_task\<lparr>completed := True\<rparr>) (advance p)"]
      pstep_incomplete_prefix [of p empty_task]
    by (auto split: if_splits)
  with k that show thesis by blast
qed

lemma parse_task_description:
  assumes "parse_task p = Inr (t, p')"
  shows "\<exists>pre. p_raw p = pre @ description t"
proof -
  obtain t1 p1 d where "t = t1\<lparr>description := d\<rparr>" "parse_description p1 = Inr (d, p')" "parser_ext p p1"
    using parse_task_parts [OF assms] by metis
  moreover from this have "p_raw p1 = p_raw p" by (simp add: parser_ext_def)
  ultimately have "p_raw p = consumed p1 @ description t" using parse_description_result [of p1 d p'] by simp
  then show ?thesis ..
qed

lemma parse_line_raw: "parse_line_with_schemes raw m schemes = Inr l \<Longrightarrow> l_raw l = raw"
  by (auto simp: parse_line_with_schemes_def Let_def split: if_splits sum.splits prod.splits)

lemma parse_lenient_Inr: "\<exists>l. parse_line raw Lenient = Inr l"
proof -
  have "pstep (Parser_new raw Lenient) (parse_task (Parser_new raw Lenient))" by (rule pstep_parse_task)
  then have "\<exists>r. parse_task (Parser_new raw Lenient) = Inr r"
    by (cases "parse_task (Parser_new raw Lenient)") (auto simp: Parser_new_def)
  then show ?thesis
    by (auto simp: parse_line_def parse_line_with_schemes_def Let_def split: sum.splits prod.splits)
qed

lemma parse_line_suffix:
  "parse_line raw m = Inr l \<Longrightarrow> l_kind l = TaskLine t \<Longrightarrow> \<exists>pre. raw = pre @ description t"
  unfolding parse_line_def
  by (erule parse_line_cases) (auto dest: parse_task_description)

text \<open>C12: lenient parsing never fails, whatever the bytes; the line it returns keeps the text, is blank
  exactly for the empty text, and otherwise its description is a suffix of the text.\<close>

theorem parse_lenient_total:
  "\<exists>l. parse_line raw Lenient = Inr l \<and> l_raw l = raw \<and>
     (case l_kind l of Blank \<Rightarrow> raw = [] | TaskLine t \<Rightarrow> raw \<noteq> [] \<and> (\<exists>pre. raw = pre @ description t))"
proof -
  obtain l where l: "parse_line raw Lenient = Inr l" using parse_lenient_Inr by blast
  then have l': "parse_line_with_schemes raw Lenient DEFAULT_SCHEMES = Inr l" by (simp add: parse_line_def)
  have "case l_kind l of Blank \<Rightarrow> raw = [] | TaskLine t \<Rightarrow> raw \<noteq> [] \<and> (\<exists>pre. raw = pre @ description t)"
    using l' by (cases rule: parse_line_cases) (use parse_line_suffix [OF l] in simp_all)
  with l parse_line_raw [OF l'] show ?thesis by blast
qed

text \<open>A line the strict parser accepts carries no leniency quirk: at most the invalid reference
  flag, which is a remark on a tag and not a departure from the grammar.\<close>

theorem strict_no_leniency:
  assumes "parse_line raw Strict = Inr l"
  shows "l_quirks l = Q_NONE \<or> l_quirks l = INVALID_REF"
  using assms unfolding parse_line_def
proof (cases rule: parse_line_cases)
  case Blank
  then show ?thesis by simp
next
  case (Task t p)
  have "p_quirks p = Q_NONE"
    using Task(3) pstep_parse_task [of "Parser_new raw Strict"] by (simp add: parser_ext_def)
  with Task(4) show ?thesis by (auto simp: q_insert_def Q_NONE_def)
qed

theorem strict_no_leniency_witness:
  "(case parse_line ''see ref:BAD'' Strict of Inl _ \<Rightarrow> False | Inr l \<Rightarrow> l_quirks l = INVALID_REF \<and>
     (l_quirks l = Q_NONE \<or> l_quirks l = INVALID_REF))"
proof -
  have "case parse_line ''see ref:BAD'' Strict of Inl _ \<Rightarrow> False | Inr l \<Rightarrow> l_quirks l = INVALID_REF"
    by code_simp
  then show ?thesis using strict_no_leniency [of "''see ref:BAD''"] by (simp split: sum.splits)
qed

end
