(* ===== verification/Format.thy ===== *)
theory Format
  imports Parse
begin

text \<open>
  \<open>format.rs\<close>: what the formatter emits for a structured prefix, and where the description of a
  line starts. The strict grammar has one spelling per task, which \<open>strict_emit_identity\<close> states:
  a line the strict parser accepts is the emitted prefix followed by the description, byte for byte.
\<close>

section \<open>Definitions\<close>

definition Prefix_default :: prefix where
  "Prefix_default = \<lparr>completed = False, completion_date = None, creation_date = None, priority_of = None\<rparr>"

definition Prefix_of :: "task \<Rightarrow> prefix" where
  "Prefix_of t = \<lparr>completed = completed t, completion_date = completion_date t,
     creation_date = creation_date t, priority_of = priority_of t\<rparr>"

definition push_date :: "string \<Rightarrow> date option \<Rightarrow> string" where
  "push_date out d =
    (case d of None \<Rightarrow> out
     | Some d \<Rightarrow> (if out \<noteq> [] then out @ '' '' else out) @ Date_fmt d)"

definition emit_prefix :: "prefix \<Rightarrow> bool \<Rightarrow> string" where
  "emit_prefix p has_description =
    (let out0 = (if completed p then push_date ''x'' (completion_date p)
                 else case priority_of p of Some pri \<Rightarrow> ''('' @ [as_char pri] @ '')'' | None \<Rightarrow> []);
         out = push_date out0 (creation_date p)
     in if out \<noteq> [] \<and> has_description then out @ '' '' else out)"

definition description_start :: "string \<Rightarrow> nat" where
  "description_start raw =
    (case parse_line raw Lenient of
       Inr l \<Rightarrow> (case l_kind l of TaskLine t \<Rightarrow> length raw - length (description t) | Blank \<Rightarrow> length raw)
     | Inl _ \<Rightarrow> length raw)"

section \<open>Where the description starts\<close>

lemma description_start_task:
  assumes "parse_line raw Lenient = Inr l" and "l_kind l = TaskLine t"
  shows "drop (description_start raw) raw = description t"
    and "take (description_start raw) raw @ description t = raw"
proof -
  obtain pre where "raw = pre @ description t" using parse_line_suffix [OF assms] by blast
  moreover from this have "description_start raw = length pre"
    using assms by (simp add: description_start_def)
  ultimately show "drop (description_start raw) raw = description t"
    and "take (description_start raw) raw @ description t = raw"
    by (metis append_eq_conv_conj)+
qed

section \<open>Strict lines are in canonical form\<close>

lemma Date_fmt_nonempty [simp]: "valid_date d \<Longrightarrow> Date_fmt d \<noteq> []"
  using length_Date_fmt [of d] by fastforce

lemma strict_incomplete_prefix:
  assumes "incomplete_prefix empty_task p = Inr (t, p')" and "p_mode p = Strict" and "pwf p"
    and "consumed p = []" and "\<not> at_end p"
  shows "consumed p' = emit_prefix (Prefix_of t) (\<not> at_end p')"
proof -
  obtain taken t1 p1 slot where pr: "take_priority empty_task p = Inr ((taken, t1), p1)"
    and od: "take_optional_date (creation_date t1) p1 = Inr (slot, p')"
    and t: "t = t1\<lparr>creation_date := slot\<rparr>"
    using assms(1) by (auto simp: incomplete_prefix_def and_then_eq_Inr)
  have e: "parser_ext p p1" using pstep_take_priority [of p empty_task] pr by simp
  then have s1: "p_mode p1 = Strict" "pwf p1"
    using assms(2,3) parser_ext_mode [OF e] parser_ext_pwf [OF e] by simp_all
  note q = strict_take_priority [OF pr assms(2,3)]
  have "creation_date t1 = None" using q by (auto simp: empty_task_def split: if_splits)
  note d = strict_take_optional_date [OF od [unfolded this] s1]
  have end1: "at_end p1 \<Longrightarrow> slot = None"
    using od \<open>creation_date t1 = None\<close>
    by (simp add: take_optional_date_def take_date_def p_word_def)
  show ?thesis
  proof (cases taken)
    case False
    with q have "t1 = empty_task" "p1 = p" by simp_all
    with d t assms(4,5) show ?thesis
      by (cases slot) (auto simp: emit_prefix_def push_date_def Prefix_of_def empty_task_def Let_def)
  next
    case True
    with q obtain r where r: "t1 = empty_task\<lparr>priority_of := Some r\<rparr>"
      "consumed p1 = Priority_fmt r @ (if at_end p1 then [] else '' '')"
      using assms(4) by auto
    with d t end1 show ?thesis
      by (cases slot)
        (auto simp: emit_prefix_def push_date_def Prefix_of_def empty_task_def Let_def Priority_fmt_def
          split: if_splits)
  qed
qed

text \<open>A completed strict line has its date: \<open>starts_completed\<close> looked ahead for it.\<close>

lemma strict_after_completion_date:
  assumes "after_completion_date t p = Inr (t', p')" and "p_mode p = Strict" and "pwf p"
    and "t = empty_task\<lparr>completed := True, completion_date := Some d\<rparr>" and "consumed p = ''x '' @ Date_fmt d"
    and "valid_date d"
  shows "consumed p' = emit_prefix (Prefix_of t') (\<not> at_end p') \<and> completion_date t' \<noteq> None"
proof -
  obtain b p1 where s: "separator p = Inr (b, p1)"
    using assms(1) by (auto simp: after_completion_date_def and_then_eq_Inr)
  note p1 = strict_separator [OF s assms(2,3)]
  show ?thesis
  proof (cases b)
    case False
    with p1 assms s show ?thesis
      by (auto simp: after_completion_date_def emit_prefix_def push_date_def Prefix_of_def empty_task_def Let_def)
  next
    case True
    have cd: "creation_date t = None" using assms(4) by (simp add: empty_task_def)
    from True p1 assms have c: "consumed p1 = ''x '' @ Date_fmt d @ '' ''" "\<not> at_end p1"
      "p_mode p1 = Strict" "pwf p1" by auto
    obtain slot q where o: "take_optional_date None p1 = Inr (slot, q)"
      using assms(1) True s cd by (auto simp: after_completion_date_def and_then_eq_Inr)
    have "p_mode q = Strict"
      using pstep_take_optional_date [of p1 None] o c(3) by (simp add: parser_ext_def)
    then have "t' = t\<lparr>creation_date := slot\<rparr>" "p' = q"
      using assms(1) True s cd o by (auto simp: after_completion_date_def)
    with c assms(4) strict_take_optional_date [OF o c(3,4)] show ?thesis
      by (cases slot) (auto simp: emit_prefix_def push_date_def Prefix_of_def empty_task_def Let_def)
  qed
qed

lemma strict_completed_prefix:
  assumes "completed_prefix (empty_task\<lparr>completed := True\<rparr>) p = Inr (t, p')" and "p_mode p = Strict"
    and "pwf p" and "consumed p = ''x''"
  shows "consumed p' = emit_prefix (Prefix_of t) (\<not> at_end p') \<and> completion_date t \<noteq> None"
proof -
  obtain x p1 where s: "separator p = Inr (x, p1)" using assms(1)
    by (auto simp: completed_prefix_def and_then_eq_Inr)
  have m1: "p_mode p1 = Strict" "pwf p1"
    using strict_separator [OF s assms(2,3)] assms(2,3) by (auto split: if_splits)
  have x: x
    using assms(1) m1 unfolding completed_prefix_def s and_then_Inr
    by (cases x) (simp_all add: lenient_or_def lenient_or_at_def)
  with m1 assms(1) have k: "and_then (take_date p1) (\<lambda>r p3. case r of
       None \<Rightarrow> and_then (lenient_or NO_COMPLETION_DATE ''completed''
                ''expected the completion date after x'' p3) (\<lambda>_ p4. Inr (empty_task\<lparr>completed := True\<rparr>, p4))
     | Some d \<Rightarrow> after_completion_date (empty_task\<lparr>completed := True, completion_date := Some d\<rparr>) p3) = Inr (t, p')"
    unfolding completed_prefix_def s and_then_Inr by simp
  then obtain r p3 where td: "take_date p1 = Inr (r, p3)" by (auto simp: and_then_eq_Inr)
  have "p_mode p3 = Strict" using pstep_take_date [of p1] td m1 by (simp add: parser_ext_def)
  then obtain d where r: "r = Some d"
    using k by (cases r) (simp_all add: td lenient_or_def lenient_or_at_def)
  have p3: "valid_date d" "consumed p3 = ''x '' @ Date_fmt d" "pwf p3"
    using take_date_Some [OF td [unfolded r] m1(2)] strict_separator [OF s assms(2,3)] x assms(4) m1 by auto
  show ?thesis
    by (rule strict_after_completion_date [OF _ \<open>p_mode p3 = Strict\<close> p3(3) refl p3(2,1)])
      (use k r td in simp)
qed

text \<open>C2: a line the strict parser accepts is exactly what the formatter emits for it, so strict
  parsing and emitting lose nothing and change nothing.\<close>

theorem strict_emit_identity:
  assumes "parse_line raw Strict = Inr l" and "l_kind l = TaskLine t"
  shows "emit_prefix (Prefix_of t) (description t \<noteq> []) @ description t = raw"
  using assms(1) unfolding parse_line_def
proof (cases rule: parse_line_cases)
  case Blank
  with assms(2) show ?thesis by simp
next
  case (Task t' p')
  let ?p = "Parser_new raw Strict"
  have t': "t' = t" using Task assms(2) by simp
  obtain t1 p1 d where t: "t = t1\<lparr>description := d\<rparr>" and d: "parse_description p1 = Inr (d, p')"
    and pre: "(if starts_completed ?p then completed_prefix (empty_task\<lparr>completed := True\<rparr>) (advance ?p)
      else incomplete_prefix empty_task ?p) = Inr (t1, p1)" and e: "parser_ext ?p p1"
    using parse_task_parts [OF Task(3) [unfolded t']] by metis
  have ne: "\<not> at_end ?p" using Task(1) tiles_chunks [of raw] by (auto simp: get_def)
  have "consumed p1 = emit_prefix (Prefix_of t1) (\<not> at_end p1)"
  proof (cases "starts_completed ?p")
    case True
    then have "p_word ?p = Some ''x''" by (auto simp: starts_completed_def split: if_splits)
    then have "consumed (advance ?p) = ''x''" using p_word_consumed [of ?p "''x''"] by (simp add: consumed_start)
    with True pre show ?thesis using strict_completed_prefix [of "advance ?p" t1 p1] by simp
  next
    case False
    with pre ne show ?thesis using strict_incomplete_prefix [of ?p t1 p1] by (simp add: consumed_start)
  qed
  moreover have "raw = consumed p1 @ d" "at_end p1 \<longleftrightarrow> d = []"
  proof -
    show raw: "raw = consumed p1 @ d"
      using parse_description_result [OF d] e by (simp add: parser_ext_def)
    have wf: "pwf p1" "p_raw p1 = raw" using e parser_ext_pwf [OF e] by (simp_all add: parser_ext_def)
    have "length (consumed p1) = pos p1" if "\<not> at_end p1"
      using pos_less [OF wf(1) that] by (simp add: consumed_def)
    then show "at_end p1 \<longleftrightarrow> d = []"
      using raw consumed_at_end [of p1] pos_less [OF wf(1)] wf(2)
      by (metis append_Nil2 append_self_conv less_irrefl)
  qed
  moreover have "Prefix_of t1 = Prefix_of t" "description t = d" using t by (simp_all add: Prefix_of_def)
  ultimately show ?thesis by simp
qed

theorem strict_emit_identity_witness:
  "case parse_line ''(A) call +home due:soon'' Strict of
     Inr l \<Rightarrow> (case l_kind l of TaskLine t \<Rightarrow>
        emit_prefix (Prefix_of t) (description t \<noteq> []) @ description t = ''(A) call +home due:soon''
      | Blank \<Rightarrow> False) | Inl _ \<Rightarrow> False"
proof -
  let ?r = "''(A) call +home due:soon''"
  have "case parse_line ?r Strict of Inr l \<Rightarrow> (case l_kind l of TaskLine t \<Rightarrow> True | Blank \<Rightarrow> False) | Inl _ \<Rightarrow> False"
    by code_simp
  then obtain l t where l: "parse_line ?r Strict = Inr l" "l_kind l = TaskLine t"
    by (auto split: sum.splits line_kind.splits)
  show ?thesis using strict_emit_identity [OF l] l by simp
qed

end
