(* ===== verification/FileModel.thy ===== *)
theory FileModel
  imports Format
begin

text \<open>
  \<open>file.rs\<close> and \<open>lint.rs\<close>: a file as owned lines plus the hygiene that must survive a round trip
  (byte order mark, dominant ending, final newline), and what \<open>txtodo lint\<close> reports about it. The
  theorems say that reading loses no byte, whatever the bytes are, and what a parsed file looks like.
\<close>

section \<open>Definitions\<close>

definition BOM :: string where
  "BOM = [CHR 0xEF, CHR 0xBB, CHR 0xBF]"

record owned_line =
  ol_bytes :: string
  ol_ending :: line_ending
  ol_quirks :: quirks

definition OwnedLine_new :: "string \<Rightarrow> line_ending \<Rightarrow> quirks \<Rightarrow> owned_line" where
  "OwnedLine_new b e q = \<lparr>ol_bytes = b, ol_ending = e, ol_quirks = q\<rparr>"

definition from_bytes :: "string \<Rightarrow> line_ending \<Rightarrow> owned_line" where
  "from_bytes b e =
    OwnedLine_new b e
      (if utf8_valid b then (case parse_line b Lenient of Inl _ \<Rightarrow> Q_NONE | Inr l \<Rightarrow> l_quirks l) else Q_NONE)"

definition ol_raw :: "owned_line \<Rightarrow> string option" where
  "ol_raw l = (if utf8_valid (ol_bytes l) then Some (ol_bytes l) else None)"

definition ol_parse :: "owned_line \<Rightarrow> line option" where
  "ol_parse l = Option.bind (ol_raw l) (\<lambda>raw.
     case parse_line raw Lenient of
       Inl _ \<Rightarrow> None
     | Inr ln \<Rightarrow> Some (ln\<lparr>l_ending := ol_ending l, l_quirks := ol_quirks l\<rparr>))"

record todo_file =
  f_lines :: "owned_line list"
  f_bom :: bool
  f_ending :: line_ending
  f_trailing_newline :: bool

text \<open>\<open>split_lines\<close>: the iterator's state is the rest of the body.\<close>

function split_lines :: "string \<Rightarrow> (string \<times> line_ending) list" where
  "split_lines rest =
    (if rest = [] then []
     else case find_index (\<lambda>b. b = LF) rest of
       None \<Rightarrow> [(rest, NoEnding)]
     | Some nl \<Rightarrow>
         (let ln = take nl rest; after = drop nl rest in
          (if ends_with ln [CR] then (take (length ln - 1) ln, CrLf) else (ln, Lf))
            # split_lines (drop 1 after)))"
  by pat_completeness auto
termination
  by (relation "measure length") auto

declare split_lines.simps [simp del]

definition dominant_ending :: "owned_line list \<Rightarrow> line_ending" where
  "dominant_ending ls =
    (let crlf = length (filter (\<lambda>l. ol_ending l = CrLf) ls);
         lf = length (filter (\<lambda>l. ol_ending l = Lf) ls)
     in if crlf > lf then CrLf else Lf)"

definition parse_file :: "string \<Rightarrow> todo_file" where
  "parse_file bytes =
    (let bom = starts_with bytes BOM;
         body = (if bom then drop (length BOM) bytes else bytes);
         trailing = (body \<noteq> [] \<and> last body = LF);
         ls = map (\<lambda>(b, e). from_bytes b e) (split_lines body);
         ending = dominant_ending ls;
         marked = map (\<lambda>l. if ol_ending l \<noteq> NoEnding \<and> ol_ending l \<noteq> ending
                            then l\<lparr>ol_quirks := q_insert (ol_quirks l) MIXED_ENDING\<rparr> else l) ls
     in \<lparr>f_lines = marked, f_bom = bom, f_ending = ending, f_trailing_newline = trailing\<rparr>)"

definition terminator :: "todo_file \<Rightarrow> line_ending" where
  "terminator f = (case f_ending f of NoEnding \<Rightarrow> Lf | dominant \<Rightarrow> dominant)"

text \<open>The bytes of the line at index \<open>i\<close> in \<open>to_bytes\<close>; \<open>last\<close> is the index of the last line.\<close>

definition line_bytes :: "todo_file \<Rightarrow> nat \<Rightarrow> nat \<times> owned_line \<Rightarrow> string" where
  "line_bytes f lst il =
    (let (i, l) = il in
     ol_bytes l @ ending_bytes
       (if ol_ending l = NoEnding \<and> i < lst then terminator f else ol_ending l))"

definition to_bytes :: "todo_file \<Rightarrow> string" where
  "to_bytes f =
    (if f_bom f then BOM else []) @
    concat (map (line_bytes f (length (f_lines f) - 1)) (enumerate 0 (f_lines f)))"

subsection \<open>lint\<close>

definition length_hint :: "owned_line \<Rightarrow> string option" where
  "length_hint l = Option.bind (ol_raw l) (\<lambda>raw. map_option (\<lambda>len.
     dec len @ '' chars, over the '' @ dec LINE_LENGTH_HINT @ ''-char hint'') (over_length_hint raw))"

definition line_findings :: "nat \<Rightarrow> owned_line \<Rightarrow> (nat \<times> string) list" where
  "line_findings number l =
    (case ol_parse l of
       None \<Rightarrow> [(number, ''not valid UTF-8'')]
     | Some ln \<Rightarrow> if \<not> q_is_empty (l_quirks ln) then [(number, q_fmt (l_quirks ln))] else []) @
    (case length_hint l of None \<Rightarrow> [] | Some finding \<Rightarrow> [(number, finding)])"

definition findings :: "todo_file \<Rightarrow> (nat \<times> string) list" where
  "findings f =
    concat (map (\<lambda>(i, l). line_findings (i + 1) l) (enumerate 0 (f_lines f))) @
    (if f_bom f then [(0, ''byte order mark'')] else []) @
    (if \<not> f_trailing_newline f \<and> f_lines f \<noteq> [] then [(0, ''no trailing newline'')] else [])"

section \<open>Splitting into lines\<close>

lemma split_lines_Nil [simp]: "split_lines [] = []"
  by (subst split_lines.simps) simp

lemma split_lines_no_LF: "LF \<notin> set s \<Longrightarrow> s \<noteq> [] \<Longrightarrow> split_lines s = [(s, NoEnding)]"
proof -
  assume "LF \<notin> set s" "s \<noteq> []"
  then have "find_index (\<lambda>b. b = LF) s = None" by (auto simp: find_index_None)
  with \<open>s \<noteq> []\<close> show ?thesis by (subst split_lines.simps) simp
qed

lemma find_index_LF: "LF \<notin> set s \<Longrightarrow> find_index (\<lambda>b. b = LF) (s @ LF # t) = Some (length s)"
  by (induction s) auto

lemma split_lines_LF:
  assumes "LF \<notin> set s"
  shows "split_lines (s @ LF # t) =
    (if ends_with s [CR] then (take (length s - 1) s, CrLf) else (s, Lf)) # split_lines t"
  by (subst split_lines.simps) (simp add: find_index_LF [OF assms] Let_def)

lemma line_split_induct [case_names Nil Last Line]:
  assumes "P []" and "\<And>s. s \<noteq> [] \<Longrightarrow> LF \<notin> set s \<Longrightarrow> P s"
    and "\<And>s t. LF \<notin> set s \<Longrightarrow> P t \<Longrightarrow> P (s @ LF # t)"
  shows "P body"
proof (induction body rule: length_induct)
  case (1 body)
  show ?case
  proof (cases "LF \<in> set body")
    case False
    with assms(1,2) show ?thesis by (cases "body = []") auto
  next
    case True
    then obtain s t where "body = s @ LF # t" "LF \<notin> set s" using split_list_first by metis
    with 1 assms(3) show ?thesis by simp
  qed
qed

lemma ends_with_CR: "ends_with s [c] \<longleftrightarrow> (\<exists>r. s = r @ [c])"
proof
  assume "ends_with s [c]"
  then have "s \<noteq> []" "drop (length s - 1) s = [c]" by (auto simp: ends_with_def)
  then show "\<exists>r. s = r @ [c]" by (metis append_take_drop_id)
qed (auto simp: ends_with_def)

definition ended :: "string \<times> line_ending \<Rightarrow> string" where
  "ended be = fst be @ ending_bytes (snd be)"

lemma concat_split_lines: "concat (map ended (split_lines body)) = body"
proof (induction body rule: line_split_induct)
  case (Line s t)
  then show ?case by (auto simp: split_lines_LF ended_def ends_with_CR)
qed (simp_all add: split_lines_no_LF ended_def)

lemma split_lines_endings:
  "list_all (\<lambda>be. snd be \<noteq> NoEnding) (butlast (split_lines body))"
proof (induction body rule: line_split_induct)
  case (Line s t)
  then show ?case by (cases "split_lines t") (auto simp: split_lines_LF)
qed (simp_all add: split_lines_no_LF)

lemma split_lines_bytes: "be \<in> set (split_lines body) \<Longrightarrow> LF \<notin> set (fst be)"
proof (induction body rule: line_split_induct)
  case (Line s t)
  then show ?case by (auto simp: split_lines_LF dest: in_set_takeD split: if_splits)
qed (auto simp: split_lines_no_LF)

lemma split_lines_eq_Nil [simp]: "split_lines body = [] \<longleftrightarrow> body = []"
  by (induction body rule: line_split_induct) (simp_all add: split_lines_no_LF split_lines_LF)

lemma split_lines_last:
  "body \<noteq> [] \<Longrightarrow> snd (last (split_lines body)) \<noteq> NoEnding \<longleftrightarrow> last body = LF"
proof (induction body rule: line_split_induct)
  case (Last s)
  then have "last s \<noteq> LF" using last_in_set by metis
  with Last show ?case by (simp add: split_lines_no_LF)
next
  case (Line s t)
  then show ?case by (cases "t = []") (auto simp: split_lines_LF)
qed simp

section \<open>Writing a file back\<close>

lemma ol_simps [simp]:
  "ol_bytes (from_bytes b e) = b" "ol_ending (from_bytes b e) = e"
  by (simp_all add: from_bytes_def OwnedLine_new_def)

lemma concat_enumerate_eq:
  assumes "\<And>i. i < length xs \<Longrightarrow> f (n + i, xs ! i) = g (xs ! i)"
  shows "concat (map f (enumerate n xs)) = concat (map g xs)"
  using assms
proof (induction xs arbitrary: n)
  case Nil
  then show ?case by simp
next
  case (Cons x xs)
  have "f (Suc n + i, xs ! i) = g (xs ! i)" if "i < length xs" for i
    using Cons.prems [of "Suc i"] that by simp
  with Cons.IH [of "Suc n"] Cons.prems [of 0] show ?case by simp
qed

text \<open>Only the last line may lack an ending.\<close>

definition endings_ok :: "owned_line list \<Rightarrow> bool" where
  "endings_ok ls \<longleftrightarrow> list_all (\<lambda>l. ol_ending l \<noteq> NoEnding) (butlast ls)"

lemma to_bytes_ok:
  assumes "endings_ok (f_lines f)"
  shows "to_bytes f = (if f_bom f then BOM else []) @
    concat (map (\<lambda>l. ended (ol_bytes l, ol_ending l)) (f_lines f))"
proof -
  let ?ls = "f_lines f"
  have "line_bytes f (length ?ls - 1) (0 + i, ?ls ! i) = ended (ol_bytes (?ls ! i), ol_ending (?ls ! i))"
    if "i < length ?ls" for i
  proof (cases "i < length ?ls - 1")
    case True
    then have "ol_ending (butlast ?ls ! i) \<noteq> NoEnding"
      using assms by (simp add: endings_ok_def list_all_length)
    with True have "ol_ending (?ls ! i) \<noteq> NoEnding" by (simp add: nth_butlast)
    then show ?thesis by (simp add: line_bytes_def ended_def)
  next
    case False
    then show ?thesis by (simp add: line_bytes_def ended_def)
  qed
  then show ?thesis unfolding to_bytes_def by (subst concat_enumerate_eq [of ?ls _ 0]) auto
qed

lemma parse_file_lines:
  "map (\<lambda>l. (ol_bytes l, ol_ending l)) (f_lines (parse_file bs)) =
     split_lines (if starts_with bs BOM then drop (length BOM) bs else bs)"
  by (auto simp: parse_file_def Let_def comp_def case_prod_beta intro!: map_idI)

lemma endings_ok_map: "endings_ok ls \<longleftrightarrow> list_all (\<lambda>be. snd be \<noteq> NoEnding) (butlast (map (\<lambda>l. (ol_bytes l, ol_ending l)) ls))"
  by (simp add: endings_ok_def list_all_iff flip: map_butlast)

lemma parse_file_endings_ok: "endings_ok (f_lines (parse_file bs))"
  unfolding endings_ok_map parse_file_lines by (rule split_lines_endings)

lemma to_bytes_parse: "to_bytes (parse_file bs) = bs"
proof -
  let ?body = "if starts_with bs BOM then drop (length BOM) bs else bs"
  have "concat (map (\<lambda>l. ended (ol_bytes l, ol_ending l)) (f_lines (parse_file bs))) =
      concat (map ended (map (\<lambda>l. (ol_bytes l, ol_ending l)) (f_lines (parse_file bs))))"
    by (simp add: comp_def)
  also have "\<dots> = ?body" unfolding parse_file_lines by (rule concat_split_lines)
  finally have "to_bytes (parse_file bs) = (if starts_with bs BOM then BOM else []) @ ?body"
    using to_bytes_ok [OF parse_file_endings_ok [of bs]] by (simp add: parse_file_def Let_def)
  then show ?thesis by (auto elim!: starts_withE)
qed

text \<open>C1: no byte is lost. Reading any byte sequence as a file and writing it back gives the same
  bytes, with or without a byte order mark, valid UTF-8 or not.\<close>

theorem to_bytes_parse_file: "to_bytes (parse_file bs) = bs"
  by (rule to_bytes_parse)

text \<open>The shape of a parsed file. No line holds a line feed, only the last line may lack an ending,
  it has one exactly when the file's final-newline flag is set, and the dominant ending is a real one.\<close>

theorem parse_file_shape:
  "let f = parse_file bs in
    list_all (\<lambda>l. LF \<notin> set (ol_bytes l)) (f_lines f) \<and> endings_ok (f_lines f) \<and>
    f_trailing_newline f = (f_lines f \<noteq> [] \<and> ol_ending (last (f_lines f)) \<noteq> NoEnding) \<and>
    f_ending f \<noteq> NoEnding"
proof -
  define f where "f = parse_file bs"
  let ?body = "if starts_with bs BOM then drop (length BOM) bs else bs"
  let ?pairs = "map (\<lambda>l. (ol_bytes l, ol_ending l)) (f_lines f)"
  have p: "?pairs = split_lines ?body" unfolding f_def by (rule parse_file_lines)
  have "list_all (\<lambda>be. LF \<notin> set (fst be)) ?pairs"
    unfolding p list_all_iff using split_lines_bytes by blast
  then have lf: "list_all (\<lambda>l. LF \<notin> set (ol_bytes l)) (f_lines f)" by (simp add: list_all_iff)
  have ne: "f_lines f \<noteq> [] \<longleftrightarrow> ?body \<noteq> []" 
    using arg_cong [OF p, of "\<lambda>x. x = []"] by (simp only: split_lines_eq_Nil map_is_Nil_conv)
  have "f_lines f \<noteq> [] \<Longrightarrow> snd (last ?pairs) = ol_ending (last (f_lines f))"
    by (simp add: last_map)
  then have lst: "f_lines f \<noteq> [] \<Longrightarrow> ol_ending (last (f_lines f)) \<noteq> NoEnding \<longleftrightarrow> last ?body = LF"
    using split_lines_last [of ?body] ne unfolding p by simp
  have tn: "f_trailing_newline f = (?body \<noteq> [] \<and> last ?body = LF)"
    by (simp only: f_def parse_file_def Let_def todo_file.simps)
  have "f_ending f \<noteq> NoEnding" by (simp add: f_def parse_file_def Let_def dominant_ending_def)
  then show ?thesis
    using lf parse_file_endings_ok [of bs] ne lst unfolding f_def [symmetric] Let_def tn by blast
qed

text \<open>Lint says nothing exactly on a clean file: no byte order mark, a final newline unless there is no
  line, and every line valid UTF-8, free of quirks and within the length hint.\<close>

theorem findings_Nil_iff:
  "findings f = [] \<longleftrightarrow>
     \<not> f_bom f \<and> (f_trailing_newline f \<or> f_lines f = []) \<and>
     list_all (\<lambda>l. utf8_valid (ol_bytes l) \<and> ol_quirks l = Q_NONE \<and> visible_chars (ol_bytes l) \<le> LINE_LENGTH_HINT)
       (f_lines f)"
proof -
  have one: "line_findings n l = [] \<longleftrightarrow>
      utf8_valid (ol_bytes l) \<and> ol_quirks l = Q_NONE \<and> visible_chars (ol_bytes l) \<le> LINE_LENGTH_HINT" for n l
    using parse_lenient_Inr [of "ol_bytes l"]
    by (auto simp: line_findings_def ol_parse_def ol_raw_def length_hint_def over_length_hint_def Let_def
        q_is_empty_def Q_NONE_def split: option.splits)
  have "concat (map (\<lambda>(i, l). line_findings (i + 1) l) (enumerate n ls)) = [] \<longleftrightarrow>
      list_all (\<lambda>l. line_findings 0 l = []) ls" for n ls
    by (induction ls arbitrary: n) (simp_all add: one)
  then show ?thesis by (auto simp: findings_def one)
qed

end
