(* ===== verification/Words.thy ===== *)
theory Words
  imports Format
begin

text \<open>
  The words of a description. \<open>word_texts\<close> reads them off the scanner's chunks; here it is proved
  equal to the plain definition (split at blanks, drop the empty pieces), and the position of a word
  inside a text (\<open>word_at\<close>) is tied to the word list. The tag views and the tag edits rest on these.
\<close>

section \<open>Cutting a text at blanks\<close>

lemma split_on_append: "P c \<Longrightarrow> split_on P (a @ c # b) = split_on P a @ split_on P b"
  by (induction a) (auto split: list.splits)

lemma split_on_none: "\<forall>x \<in> set s. \<not> P x \<Longrightarrow> split_on P s = [s]"
  by (induction s) auto

lemma dropWhile_same: "\<lbrakk>\<forall>x \<in> set s. P x; b \<noteq> []; \<not> P (hd b)\<rbrakk> \<Longrightarrow> dropWhile P (s @ b) = b \<and> takeWhile P (s @ b) = s"
  by (induction s) (auto simp: neq_Nil_conv)

lemma pieces_append:
  "\<lbrakk>a \<noteq> []; b \<noteq> []; is_ws (last a) \<noteq> is_ws (hd b)\<rbrakk> \<Longrightarrow> pieces (a @ b) = pieces a @ pieces b"
proof (induction a rule: pieces_induct)
  case Nil
  then show ?case by simp
next
  case (Cons c s)
  let ?P = "\<lambda>x. is_ws x = is_ws c"
  show ?case
  proof (cases "\<forall>x \<in> set s. ?P x")
    case True
    then have "is_ws (last (c # s)) = is_ws c" by (cases "s = []") auto
    with Cons.prems have "\<not> ?P (hd b)" by auto
    with True Cons.prems(2) have "dropWhile ?P (s @ b) = b \<and> takeWhile ?P (s @ b) = s"
      by (intro dropWhile_same) auto
    moreover have "dropWhile ?P s = []" "takeWhile ?P s = s" using True by (simp_all add: takeWhile_eq_all_conv)
    ultimately show ?thesis unfolding append_Cons pieces_Cons takeWhile.simps by (simp only:) simp
  next
    case False
    then obtain x where x: "x \<in> set s" "\<not> ?P x" by blast
    then have d: "dropWhile ?P (s @ b) = dropWhile ?P s @ b" "takeWhile ?P (s @ b) = takeWhile ?P s"
      by (rule dropWhile_append1, rule takeWhile_append1)
    have ne: "dropWhile ?P s \<noteq> []" using x by (simp add: dropWhile_eq_Nil_conv) blast
    moreover have "last (dropWhile ?P s) = last (c # s)"
    proof -
      have "last (takeWhile ?P s @ dropWhile ?P s) = last (dropWhile ?P s)" using ne by (rule last_appendR)
      moreover have "s \<noteq> []" using x by auto
      ultimately show ?thesis unfolding takeWhile_dropWhile_id by simp
    qed
    ultimately show ?thesis using Cons.IH Cons.prems d by (simp add: pieces_Cons)
  qed
qed

lemma pieces_run: "run \<noteq> [] \<Longrightarrow> \<forall>c \<in> set run. is_ws c = w \<Longrightarrow> pieces run = [(w, run)]"
proof (cases run)
  case (Cons c r)
  assume w: "\<forall>c \<in> set run. is_ws c = w"
  then have "takeWhile (\<lambda>x. is_ws x = is_ws c) r = r" "dropWhile (\<lambda>x. is_ws x = is_ws c) r = []"
    using Cons by (auto simp: takeWhile_eq_all_conv)
  with w Cons show ?thesis by (simp add: pieces_Cons)
qed simp

lemma alternates_append: "alternates (xs @ a # b # ys) \<Longrightarrow> a \<noteq> b"
proof (induction xs)
  case (Cons x xs)
  then show ?case by (cases xs) auto
qed simp

lemma alternates_appendD: "alternates (xs @ ys) \<Longrightarrow> alternates xs \<and> alternates ys"
proof (induction xs)
  case (Cons x xs)
  then show ?case by (cases xs; cases ys) auto
qed simp

lemma pieces_concat:
  assumes "alternates (map fst ps)" and "\<forall>(w, t) \<in> set ps. t \<noteq> [] \<and> (\<forall>c \<in> set t. is_ws c = w)"
  shows "pieces (concat (map snd ps)) = ps"
  using assms
proof (induction ps)
  case (Cons p ps)
  obtain w t where p: "p = (w, t)" by (cases p)
  with Cons.prems have t: "t \<noteq> []" "\<forall>c \<in> set t. is_ws c = w" by auto
  have IH: "pieces (concat (map snd ps)) = ps"
    using Cons alternates_appendD [of "[fst p]"] by auto
  show ?case
  proof (cases ps)
    case Nil
    with p t show ?thesis by (simp add: pieces_run)
  next
    case c: (Cons q qs)
    obtain v u where q: "q = (v, u)" by (cases q)
    with c Cons.prems have u: "u \<noteq> []" "\<forall>c \<in> set u. is_ws c = v" "w \<noteq> v" using p by auto
    have "is_ws (last t) = w" "is_ws (hd (concat (map snd ps))) = v"
      using t u c q by (auto simp: hd_append)
    moreover have "concat (map snd ps) \<noteq> []" using u c q by simp
    ultimately have "pieces (t @ concat (map snd ps)) = pieces t @ pieces (concat (map snd ps))"
      using t(1) u(3) by (intro pieces_append) auto
    with IH t p show ?thesis by (simp add: pieces_run)
  qed
qed simp

section \<open>The word list\<close>

lemma word_texts_pieces: "word_texts d = map snd (filter (\<lambda>(w, _). \<not> w) (pieces d))"
  unfolding word_texts_def chunks_pieces [symmetric]
  by (induction "chunks d") (simp_all add: filter_map comp_def)

lemma filter_split_on_ws: "\<forall>x \<in> set s. P x \<Longrightarrow> filter (\<lambda>w. w \<noteq> []) (split_on P (s @ t)) = filter (\<lambda>w. w \<noteq> []) (split_on P t)"
  by (induction s) auto

lemma word_texts_split: "word_texts d = filter (\<lambda>w. w \<noteq> []) (split_on is_ws d)"
proof (induction d rule: pieces_induct)
  case Nil
  then show ?case by (simp add: word_texts_pieces)
next
  case (Cons b s)
  define run rest where "run = takeWhile (\<lambda>x. is_ws x = is_ws b) (b # s)"
    and "rest = dropWhile (\<lambda>x. is_ws x = is_ws b) s"
  then have s: "b # s = run @ rest" and run: "\<forall>x \<in> set run. is_ws x = is_ws b" "run \<noteq> []"
    and rest: "rest = [] \<or> is_ws (hd rest) \<noteq> is_ws b"
    using hd_dropWhile [of "\<lambda>x. is_ws x = is_ws b" s] by (auto dest: set_takeWhileD)
  have w: "word_texts (b # s) = (if is_ws b then [] else [run]) @ word_texts rest"
    by (simp add: word_texts_pieces pieces_Cons run_def rest_def)
  have IH: "word_texts rest = filter (\<lambda>w. w \<noteq> []) (split_on is_ws rest)"
    using Cons.IH by (simp add: rest_def)
  show ?case
  proof (cases "is_ws b")
    case True
    with run w IH show ?thesis unfolding s by (simp add: filter_split_on_ws)
  next
    case False
    with rest consider "rest = []" | c r where "rest = c # r" "is_ws c" by (cases rest) auto
    then show ?thesis
      using w IH run False unfolding s by cases (simp_all add: split_on_append split_on_none)
  qed
qed


lemma word_texts_Nil [simp]: "word_texts [] = []"
  by (simp add: word_texts_split)

lemma word_texts_ws: "is_ws c \<Longrightarrow> word_texts (a @ c # b) = word_texts a @ word_texts b"
  by (simp add: word_texts_split split_on_append)

text \<open>\<open>word_at a w b\<close>: in \<open>a @ w @ b\<close> the middle is one word of its own.\<close>

definition word_at :: "string \<Rightarrow> string \<Rightarrow> string \<Rightarrow> bool" where
  "word_at a w b \<longleftrightarrow> w \<noteq> [] \<and> (\<forall>c \<in> set w. \<not> is_ws c) \<and> (a = [] \<or> is_ws (last a)) \<and> (b = [] \<or> is_ws (hd b))"

lemma word_texts_word: "w \<noteq> [] \<Longrightarrow> \<forall>c \<in> set w. \<not> is_ws c \<Longrightarrow> word_texts w = [w]"
  by (simp add: word_texts_split split_on_none)

lemma word_texts_at:
  assumes "word_at a w b"
  shows "word_texts (a @ w @ b) = word_texts a @ w # word_texts b"
proof -
  have wb: "word_texts (w @ b) = w # word_texts b"
    using assms word_texts_ws [of "hd b" "[]" "tl b"]
    by (cases b) (auto simp: word_at_def word_texts_word word_texts_ws)
  show ?thesis
  proof (cases a rule: rev_cases)
    case Nil
    with wb show ?thesis by simp
  next
    case (snoc a' c)
    with assms have "is_ws c" by (simp add: word_at_def)
    with snoc wb word_texts_ws [of c a' "w @ b"] word_texts_ws [of c a' "[]"] show ?thesis by simp
  qed
qed

lemma pieces_at:
  assumes "word_at a w b"
  shows "pieces (a @ w @ b) = pieces a @ (False, w) # pieces b"
proof -
  have w: "w \<noteq> []" "\<not> is_ws (last w)" "\<not> is_ws (hd w)" "pieces w = [(False, w)]"
    using assms by (auto simp: word_at_def pieces_run)
  have wb: "pieces (w @ b) = (False, w) # pieces b"
    using assms w pieces_append [of w b] by (cases "b = []") (auto simp: word_at_def)
  show ?thesis
    using assms w wb pieces_append [of a "w @ b"] by (cases "a = []") (auto simp: word_at_def)
qed

section \<open>Tags\<close>

definition tag_of_word :: "string \<Rightarrow> (string \<times> string) option" where
  "tag_of_word w = (case classify_word w DEFAULT_SCHEMES of
       WTag colon \<Rightarrow> Some (take colon w, drop (colon + 1) w)
     | WIdTag \<Rightarrow> Some (''id'', drop 3 w)
     | _ \<Rightarrow> None)"

lemma tags_words: "tags t = List.map_filter tag_of_word (word_texts (description t))"
proof -
  have "List.map_filter f (map g xs) = List.map_filter (\<lambda>x. f (g x)) xs"
    for f :: "word_kind \<times> string \<Rightarrow> (string \<times> string) option" and g :: "string \<Rightarrow> word_kind \<times> string" and xs
    by (simp add: List.map_filter_def filter_map comp_def)
  then show ?thesis unfolding tags_def words_def by (simp add: tag_of_word_def [abs_def])
qed

definition has_key :: "string \<Rightarrow> string \<Rightarrow> bool" where
  "has_key k w \<longleftrightarrow> (\<exists>v. tag_of_word w = Some (k, v))"

text \<open>The value of the first tag with a key, in a list of words.\<close>

definition lookup_words :: "string \<Rightarrow> string list \<Rightarrow> string option" where
  "lookup_words k ws = map_option snd (find (\<lambda>(k', _). k' = k) (List.map_filter tag_of_word ws))"

lemma tag_lookup: "tag t k = lookup_words k (word_texts (description t))"
  by (simp add: tag_def lookup_words_def tags_words)

lemma lookup_words_Nil [simp]: "lookup_words k [] = None"
  by (simp add: lookup_words_def List.map_filter_simps)

lemma lookup_words_Cons:
  "lookup_words k (w # ws) = (case tag_of_word w of
     Some (k', v) \<Rightarrow> if k' = k then Some v else lookup_words k ws | None \<Rightarrow> lookup_words k ws)"
  by (auto simp: lookup_words_def List.map_filter_simps split: option.splits)

lemma lookup_words_skip: "\<not> has_key k w \<Longrightarrow> lookup_words k (w # ws) = lookup_words k ws"
  by (auto simp: lookup_words_Cons has_key_def split: option.splits)

lemma lookup_words_append:
  "\<forall>w \<in> set us. \<not> has_key k w \<Longrightarrow> lookup_words k (us @ ws) = lookup_words k ws"
  by (induction us) (simp_all add: lookup_words_skip)

lemma lookup_words_cong_mid:
  "\<not> has_key k w \<Longrightarrow> \<not> has_key k w' \<Longrightarrow> lookup_words k (us @ w # ws) = lookup_words k (us @ w' # ws)"
proof (induction us)
  case (Cons u us)
  then show ?case by (simp add: lookup_words_Cons split: option.split)
qed (simp add: lookup_words_skip)

lemma lookup_words_drop_mid:
  "\<not> has_key k w \<Longrightarrow> lookup_words k (us @ w # ws) = lookup_words k (us @ ws)"
proof (induction us)
  case (Cons u us)
  then show ?case by (simp add: lookup_words_Cons split: option.split)
qed (simp add: lookup_words_skip)

lemma has_key_unique: "has_key k w \<Longrightarrow> has_key k' w \<Longrightarrow> k = k'"
  by (auto simp: has_key_def)

end
