(* ===== verification/Edit.thy ===== *)
theory Edit
  imports FileModel Words
begin

text \<open>
  \<open>edit.rs\<close> and \<open>line_fixes.rs\<close>: the mutation API on one line. An edit is a list of field-level
  operations, checked when it is built; applying it re-emits only the part that changed and splices
  the rest from the original bytes.
\<close>

section \<open>Building an edit\<close>

datatype edit_error = LineBreak | InvalidTag

fun EditError_fmt :: "edit_error \<Rightarrow> string" where
  "EditError_fmt LineBreak = ''text must not contain a line break''"
| "EditError_fmt InvalidTag = ''tag keys and values are non-empty, without whitespace; keys have no colon''"

datatype edit_op =
    SetPriority priority
  | ClearPriority
  | SetDescription string
  | SetTag string string
  | RemoveTag string
  | Append string
  | Prepend string
  | Complete date
  | Uncomplete

type_synonym edit = "edit_op list"

definition no_line_break :: "string \<Rightarrow> edit_error option" where
  "no_line_break s = (if list_ex (\<lambda>c. c = LF \<or> c = CR) s then Some LineBreak else None)"

definition valid_tag :: "string \<Rightarrow> string \<Rightarrow> edit_error option" where
  "valid_tag key v =
    (let word_ok = (\<lambda>s. s \<noteq> [] \<and> \<not> list_ex is_ascii_whitespace s) in
     if word_ok key \<and> word_ok v \<and> CHR '':'' \<notin> set key then None else Some InvalidTag)"

definition push_checked :: "edit \<Rightarrow> edit_error option \<Rightarrow> edit_op \<Rightarrow> edit_error + edit" where
  "push_checked e check op = (case check of Some err \<Rightarrow> Inl err | None \<Rightarrow> Inr (e @ [op]))"

definition Edit_new :: edit where "Edit_new = []"
definition Edit_is_empty :: "edit \<Rightarrow> bool" where "Edit_is_empty e \<longleftrightarrow> e = []"
definition Edit_set_priority :: "edit \<Rightarrow> priority \<Rightarrow> edit" where
  "Edit_set_priority e p = e @ [SetPriority p]"
definition Edit_clear_priority :: "edit \<Rightarrow> edit" where
  "Edit_clear_priority e = e @ [ClearPriority]"
definition Edit_set_description :: "edit \<Rightarrow> string \<Rightarrow> edit_error + edit" where
  "Edit_set_description e s = push_checked e (no_line_break s) (SetDescription s)"
definition Edit_set_tag :: "edit \<Rightarrow> string \<Rightarrow> string \<Rightarrow> edit_error + edit" where
  "Edit_set_tag e k v = push_checked e (valid_tag k v) (SetTag k v)"
definition Edit_remove_tag :: "edit \<Rightarrow> string \<Rightarrow> edit_error + edit" where
  "Edit_remove_tag e k = push_checked e (valid_tag k ''v'') (RemoveTag k)"
definition Edit_append :: "edit \<Rightarrow> string \<Rightarrow> edit_error + edit" where
  "Edit_append e s = push_checked e (no_line_break s) (Append s)"
definition Edit_prepend :: "edit \<Rightarrow> string \<Rightarrow> edit_error + edit" where
  "Edit_prepend e s = push_checked e (no_line_break s) (Prepend s)"
definition Edit_complete :: "edit \<Rightarrow> date \<Rightarrow> edit" where
  "Edit_complete e today = e @ [Complete today]"
definition Edit_uncomplete :: "edit \<Rightarrow> edit" where
  "Edit_uncomplete e = e @ [Uncomplete]"

section \<open>The draft\<close>

record draft =
  d_prefix :: prefix
  d_description :: string

definition replace_range :: "string \<Rightarrow> nat \<Rightarrow> nat \<Rightarrow> string \<Rightarrow> string" where
  "replace_range s a b w = take a s @ w @ drop b s"

definition word_has_key :: "string \<Rightarrow> string \<Rightarrow> bool" where
  "word_has_key key w =
    (case classify_word w DEFAULT_SCHEMES of
       WTag colon \<Rightarrow> take colon w = key
     | WIdTag \<Rightarrow> key = ''id''
     | _ \<Rightarrow> False)"

definition find_tag :: "string \<Rightarrow> string \<Rightarrow> (nat \<times> nat) option" where
  "find_tag d key =
    find_map (\<lambda>c. if word_has_key key (chunk_text d c) then Some (c_start c, c_end c) else None)
      (filter (\<lambda>c. \<not> c_ws c) (chunks d))"

definition append_text :: "string \<Rightarrow> string \<Rightarrow> string" where
  "append_text d s = (if d \<noteq> [] \<and> s \<noteq> [] then d @ '' '' else d) @ s"

definition prepend_text :: "string \<Rightarrow> string \<Rightarrow> string" where
  "prepend_text d s = (if d = [] \<or> s = [] then s @ d else s @ '' '' @ d)"

definition set_tag_text :: "string \<Rightarrow> string \<Rightarrow> string \<Rightarrow> string" where
  "set_tag_text d key v =
    (let word = key @ '':'' @ v in
     case find_tag d key of
       Some (s, e) \<Rightarrow> replace_range d s e word
     | None \<Rightarrow> append_text d word)"

definition remove_tag_text :: "string \<Rightarrow> string \<Rightarrow> string" where
  "remove_tag_text d key =
    (case find_tag d key of None \<Rightarrow> d
     | Some (s, e) \<Rightarrow>
         let (from, upto) =
           (if s > 0 \<and> d ! (s - 1) = CHR '' '' then (s - 1, e)
            else if get d e = Some (CHR '' '') then (s, e + 1)
            else (s, e))
         in replace_range d from upto [])"

definition draft_complete :: "draft \<Rightarrow> date \<Rightarrow> draft" where
  "draft_complete d today =
    (if completed (d_prefix d) then d
     else
       let p = (d_prefix d)\<lparr>completed := True, completion_date := Some today, priority_of := None\<rparr> in
       case priority_of (d_prefix d) of
         None \<Rightarrow> d\<lparr>d_prefix := p\<rparr>
       | Some pr \<Rightarrow> d\<lparr>d_prefix := p, d_description := set_tag_text (d_description d) ''pri'' [as_char pr]\<rparr>)"

definition draft_uncomplete :: "draft \<Rightarrow> draft" where
  "draft_uncomplete d =
    (if \<not> completed (d_prefix d) then d
     else
       let p = (d_prefix d)\<lparr>completed := False, completion_date := None\<rparr>;
           restored = Option.bind (find_tag (d_description d) ''pri'') (\<lambda>(s, e).
             case chars (str_slice (d_description d) (s + 4) e) of [] \<Rightarrow> None | c # _ \<Rightarrow> Priority_new c)
       in case restored of
            None \<Rightarrow> d\<lparr>d_prefix := p\<rparr>
          | Some pr \<Rightarrow> d\<lparr>d_prefix := p\<lparr>priority_of := Some pr\<rparr>,
                          d_description := remove_tag_text (d_description d) ''pri''\<rparr>)"

fun draft_apply :: "edit_op \<Rightarrow> draft \<Rightarrow> draft" where
  "draft_apply (SetPriority p) d = d\<lparr>d_prefix := (d_prefix d)\<lparr>priority_of := Some p\<rparr>\<rparr>"
| "draft_apply ClearPriority d = d\<lparr>d_prefix := (d_prefix d)\<lparr>priority_of := None\<rparr>\<rparr>"
| "draft_apply (SetDescription s) d = d\<lparr>d_description := s\<rparr>"
| "draft_apply (SetTag k v) d = d\<lparr>d_description := set_tag_text (d_description d) k v\<rparr>"
| "draft_apply (RemoveTag k) d = d\<lparr>d_description := remove_tag_text (d_description d) k\<rparr>"
| "draft_apply (Append s) d = d\<lparr>d_description := append_text (d_description d) s\<rparr>"
| "draft_apply (Prepend s) d = d\<lparr>d_description := prepend_text (d_description d) s\<rparr>"
| "draft_apply (Complete today) d = draft_complete d today"
| "draft_apply Uncomplete d = draft_uncomplete d"

definition draft_of :: "string \<Rightarrow> draft" where
  "draft_of raw =
    (case parse_line raw Lenient of
       Inr l \<Rightarrow> (case l_kind l of
           TaskLine t \<Rightarrow> \<lparr>d_prefix = Prefix_of t, d_description = description t\<rparr>
         | Blank \<Rightarrow> \<lparr>d_prefix = Prefix_default, d_description = []\<rparr>)
     | Inl _ \<Rightarrow> \<lparr>d_prefix = Prefix_default, d_description = []\<rparr>)"

section \<open>Applying an edit\<close>

text \<open>The loop that pops trailing blanks.\<close>

definition trim_end_ws :: "string \<Rightarrow> string" where
  "trim_end_ws s = rev (dropWhile is_ws (rev s))"

definition join_line :: "string \<Rightarrow> string \<Rightarrow> string" where
  "join_line pre d =
    (let ends_ws = (pre \<noteq> [] \<and> is_ws (last pre)) in
     (if d = [] then trim_end_ws pre
      else if pre \<noteq> [] \<and> \<not> ends_ws then pre @ '' '' else pre) @ d)"

text \<open>A completed prefix has no slot for a priority: it becomes a \<open>pri:\<close> tag, when the prefix is being
  rewritten.\<close>

definition settle_priority :: "draft \<Rightarrow> draft \<Rightarrow> draft" where
  "settle_priority original d =
    (if d_prefix d \<noteq> d_prefix original \<and> completed (d_prefix d) then
       (case priority_of (d_prefix d) of
          None \<Rightarrow> d
        | Some pr \<Rightarrow> \<lparr>d_prefix = (d_prefix d)\<lparr>priority_of := None\<rparr>,
                       d_description = set_tag_text (d_description d) ''pri'' [as_char pr]\<rparr>)
     else d)"

definition apply_edit :: "owned_line \<Rightarrow> edit \<Rightarrow> owned_line" where
  "apply_edit l e =
    (case ol_raw l of None \<Rightarrow> l
     | Some raw \<Rightarrow>
         let original = draft_of raw;
             edited = fold draft_apply e original;
             prefix_dirty = (d_prefix edited \<noteq> d_prefix original);
             d = settle_priority original edited;
             description_dirty = (d_description d \<noteq> d_description original)
         in if \<not> prefix_dirty \<and> \<not> description_dirty then l
            else
              let split = description_start raw;
                  desc = (if description_dirty then d_description d else drop split raw);
                  out = (if prefix_dirty then emit_prefix (d_prefix d) (desc \<noteq> []) @ desc
                         else join_line (take split raw) desc)
              in from_bytes out (ol_ending l))"

section \<open>Line fixes\<close>

definition stamp_created :: "string \<Rightarrow> date \<Rightarrow> string" where
  "stamp_created ln today =
    (let dated = (case parse_line ln Lenient of
         Inr l \<Rightarrow> (case l_kind l of TaskLine t \<Rightarrow> completed t \<or> creation_date t \<noteq> None | Blank \<Rightarrow> False)
       | Inl _ \<Rightarrow> False)
     in if dated then ln
        else
          let at = (if length ln \<ge> 4 \<and> ln ! 0 = CHR ''('' \<and> is_ascii_uppercase (ln ! 1) \<and>
                       ln ! 2 = CHR '')'' \<and> ln ! 3 = CHR '' '' then 4 else 0)
          in take at ln @ Date_fmt today @ '' '' @ drop at ln)"

definition date_done :: "string \<Rightarrow> date \<Rightarrow> string" where
  "date_done ln today =
    (case strip_prefix ln ''x '' of None \<Rightarrow> ln
     | Some rest \<Rightarrow>
         let dated = (case parse_line ln Lenient of
             Inr l \<Rightarrow> (case l_kind l of TaskLine t \<Rightarrow> completion_date t \<noteq> None | Blank \<Rightarrow> False)
           | Inl _ \<Rightarrow> False)
         in if dated then ln
            else
              let opened = from_bytes rest LineEnding_default;
                  finished = apply_edit opened (Edit_complete Edit_new today)
              in case ol_raw finished of None \<Rightarrow> ln | Some out \<Rightarrow> out)"

text \<open>\<open>str::get(a..b)\<close>: nothing when the range is out of bounds or cuts a character.\<close>

definition is_char_boundary :: "string \<Rightarrow> nat \<Rightarrow> bool" where
  "is_char_boundary s i \<longleftrightarrow> i = length s \<or> i < length s \<and> \<not> is_cont (s ! i)"

definition str_get :: "string \<Rightarrow> nat \<Rightarrow> nat \<Rightarrow> string option" where
  "str_get s a b =
    (if a \<le> b \<and> is_char_boundary s a \<and> is_char_boundary s b then Some (str_slice s a b) else None)"

definition skip_date :: "string \<Rightarrow> nat \<Rightarrow> nat" where
  "skip_date out at =
    (if Option.bind (str_get out at (at + 10)) Date_parse \<noteq> None \<and> starts_with (drop (at + 10) out) '' ''
     then at + 11 else at)"

definition fix_case :: "string \<Rightarrow> string" where
  "fix_case ln =
    (let out = (if starts_with ln ''X '' then replace_range ln 0 1 ''x'' else ln);
         at = (if starts_with out ''x '' then skip_date out (skip_date out 2) else 0);
         r = drop at out
     in if length r \<ge> 4 \<and> r ! 0 = CHR ''('' \<and> r ! 2 = CHR '')'' \<and> r ! 3 = CHR '' '' \<and> is_ascii_lowercase (r ! 1)
        then replace_range out (at + 1) (at + 2) [to_ascii_uppercase (r ! 1)]
        else out)"

definition is_completed :: "string \<Rightarrow> bool" where
  "is_completed ln =
    (case parse_line ln Lenient of
       Inr l \<Rightarrow> (case l_kind l of TaskLine t \<Rightarrow> completed t | Blank \<Rightarrow> False)
     | Inl _ \<Rightarrow> False)"

section \<open>Where a tag is found\<close>

lemma word_has_key_iff: "word_has_key k w \<longleftrightarrow> has_key k w"
  by (auto simp: word_has_key_def has_key_def tag_of_word_def split: word_kind.splits)

text \<open>The search of \<open>find_tag\<close>, on the pieces of the text.\<close>

fun find_piece :: "(string \<Rightarrow> bool) \<Rightarrow> nat \<Rightarrow> (bool \<times> string) list \<Rightarrow> (nat \<times> nat) option" where
  "find_piece P off [] = None"
| "find_piece P off ((ws, t) # ps) =
     (if \<not> ws \<and> P t then Some (off, off + length t) else find_piece P (off + length t) ps)"

lemma find_map_chunks:
  "find_map (\<lambda>c. if P (chunk_text (p @ s) c) then Some (c_start c, c_end c) else None)
     (filter (\<lambda>c. \<not> c_ws c) (chunks_from (length p) s)) = find_piece P (length p) (pieces s)"
proof (induction s arbitrary: p rule: pieces_induct)
  case Nil
  then show ?case by simp
next
  case (Cons b s)
  define run rest where "run = takeWhile (\<lambda>x. is_ws x = is_ws b) (b # s)"
    and "rest = dropWhile (\<lambda>x. is_ws x = is_ws b) s"
  then have s: "b # s = run @ rest" and n: "length run = Suc (length (takeWhile (\<lambda>x. is_ws x = is_ws b) s))"
    by simp_all
  have t: "chunk_text (p @ run @ rest) \<lparr>c_start = length p, c_end = length p + length run, c_ws = ws\<rparr> = run" for ws
    using slice_mid [of p run rest] by (simp add: chunk_text_def)
  have c: "chunks_from (length p) (b # s) =
      \<lparr>c_start = length p, c_end = length p + length run, c_ws = is_ws b\<rparr> # chunks_from (length (p @ run)) rest"
    by (simp add: chunks_from_Cons Let_def n rest_def)
  have ps: "pieces (b # s) = (is_ws b, run) # pieces rest" by (simp add: pieces_Cons run_def rest_def)
  have IH: "find_map (\<lambda>c. if P (chunk_text (p @ run @ rest) c) then Some (c_start c, c_end c) else None)
     (filter (\<lambda>c. \<not> c_ws c) (chunks_from (length (p @ run)) rest)) = find_piece P (length (p @ run)) (pieces rest)"
    using Cons.IH [of "p @ run"] by (simp add: rest_def)
  show ?case unfolding c ps unfolding s using t IH by simp
qed

lemma find_tag_pieces: "find_tag d key = find_piece (has_key key) 0 (pieces d)"
  using find_map_chunks [of "has_key key" "[]" d] by (simp add: find_tag_def chunks_def word_has_key_iff)

lemma find_piece_Some:
  "find_piece P off ps = Some (s, e) \<Longrightarrow>
     \<exists>qs t rs. ps = qs @ (False, t) # rs \<and> P t \<and> s = off + length (concat (map snd qs)) \<and> e = s + length t \<and>
       (\<forall>u. (False, u) \<in> set qs \<longrightarrow> \<not> P u)"
proof (induction ps arbitrary: off)
  case Nil
  then show ?case by simp
next
  case (Cons p ps)
  obtain ws t where p: "p = (ws, t)" by (cases p)
  show ?case
  proof (cases "\<not> ws \<and> P t")
    case True
    with Cons.prems p have "p # ps = [] @ (False, t) # ps" "P t" "s = off" "e = s + length t" by auto
    then show ?thesis by (intro exI [of _ "[]"] exI [of _ t] exI [of _ ps]) simp
  next
    case False
    then have "find_piece P (off + length t) ps = Some (s, e)" using Cons.prems p by (simp split: if_splits)
    from Cons.IH [OF this] obtain qs u rs where "ps = qs @ (False, u) # rs" "P u"
      "s = off + length t + length (concat (map snd qs))" "e = s + length u"
      "\<forall>v. (False, v) \<in> set qs \<longrightarrow> \<not> P v" by blast
    with False p show ?thesis by (intro exI [of _ "p # qs"] exI [of _ u] exI [of _ rs]) auto
  qed
qed

lemma find_piece_append_None:
  "\<forall>u. (False, u) \<in> set qs \<longrightarrow> \<not> P u \<Longrightarrow>
     find_piece P off (qs @ ps) = find_piece P (off + length (concat (map snd qs))) ps"
  by (induction qs arbitrary: off) (auto simp: add.assoc)

lemma find_piece_None: "find_piece P off ps = None \<longleftrightarrow> (\<forall>u. (False, u) \<in> set ps \<longrightarrow> \<not> P u)"
proof (induction ps arbitrary: off)
  case (Cons p ps)
  then show ?case by (cases p) (auto split: if_splits)
qed simp


lemma find_tag_Some:
  assumes "find_tag d k = Some (s, e)"
  obtains a w b where "d = a @ w @ b" "word_at a w b" "s = length a" "e = length a + length w"
    "has_key k w" "\<forall>u \<in> set (word_texts a). \<not> has_key k u"
proof -
  obtain qs t rs where ps: "pieces d = qs @ (False, t) # rs" and k: "has_key k t"
    and se: "s = length (concat (map snd qs))" "e = s + length t"
    and no: "\<forall>u. (False, u) \<in> set qs \<longrightarrow> \<not> has_key k u"
    using find_piece_Some [OF assms [unfolded find_tag_pieces]] by auto
  have alt: "alternates (map fst qs @ False # map fst rs)" using pieces_alternate [of d] ps by simp
  have un: "\<forall>(w, t) \<in> set (pieces d). t \<noteq> [] \<and> (\<forall>c \<in> set t. is_ws c = w)"
    using pieces_nonempty pieces_uniform by blast
  let ?a = "concat (map snd qs)" and ?b = "concat (map snd rs)"
  have "alternates (map fst qs)" "alternates (map fst rs)"
    using alternates_appendD [OF alt] alternates_appendD [of "[False]" "map fst rs"] by simp_all
  moreover have "\<forall>(w, t) \<in> set qs. t \<noteq> [] \<and> (\<forall>c \<in> set t. is_ws c = w)"
    "\<forall>(w, t) \<in> set rs. t \<noteq> [] \<and> (\<forall>c \<in> set t. is_ws c = w)"
    using un unfolding ps by simp_all
  ultimately have pa: "pieces ?a = qs" "pieces ?b = rs" by (simp_all add: pieces_concat)
  have d: "d = ?a @ t @ ?b" using concat_pieces [of d] ps by simp
  have "?a = [] \<or> is_ws (last ?a)"
  proof (cases qs rule: rev_cases)
    case (snoc qs' q)
    then have "fst q" using alternates_append [of "map fst qs'" "fst q" False "map fst rs"] alt by simp
    moreover have "snd q \<noteq> []" "\<forall>c \<in> set (snd q). is_ws c = fst q" using un ps snoc by auto
    ultimately show ?thesis using snoc by simp
  qed simp
  moreover have "?b = [] \<or> is_ws (hd ?b)"
  proof (cases rs)
    case (Cons q rs')
    then have "fst q" using alternates_append [of "map fst qs" False "fst q" "map fst rs'"] alt by simp
    moreover have "snd q \<noteq> []" "\<forall>c \<in> set (snd q). is_ws c = fst q" using un ps Cons by auto
    ultimately show ?thesis using Cons by (simp add: hd_append)
  qed simp
  ultimately have at: "word_at ?a t ?b" using un ps by (auto simp: word_at_def)
  have "\<forall>u \<in> set (word_texts ?a). \<not> has_key k u" using no by (auto simp: word_texts_pieces pa)
  then show thesis using that [OF d at se(1) _ k] se by simp
qed

lemma find_tag_None: "find_tag d k = None \<longleftrightarrow> (\<forall>u \<in> set (word_texts d). \<not> has_key k u)"
  by (auto simp: find_tag_pieces find_piece_None word_texts_pieces)

lemma find_tag_at:
  assumes "word_at a w b" and "has_key k w" and "\<forall>u \<in> set (word_texts a). \<not> has_key k u"
  shows "find_tag (a @ w @ b) k = Some (length a, length a + length w)"
proof -
  have "\<forall>u. (False, u) \<in> set (pieces a) \<longrightarrow> \<not> has_key k u"
    using assms(3) by (force simp: word_texts_pieces)
  then show ?thesis
    using assms(2) concat_pieces [of a]
    by (simp add: find_tag_pieces pieces_at [OF assms(1)] find_piece_append_None)
qed

section \<open>Setting and removing tags\<close>

lemma valid_tag_None:
  "valid_tag k v = None \<longleftrightarrow> k \<noteq> [] \<and> v \<noteq> [] \<and> CHR '':'' \<notin> set k \<and>
     (\<forall>c \<in> set k \<union> set v. \<not> is_ascii_whitespace c)"
  by (auto simp: valid_tag_def Let_def list_ex_iff)

lemma is_ws_whitespace: "is_ws c \<Longrightarrow> is_ascii_whitespace c"
  by (auto simp: is_ws_def TAB_def is_ascii_whitespace_def)

text \<open>A word that reads back as its tag: the key is no URL scheme and opens no project or context.\<close>

definition plain_key :: "string \<Rightarrow> bool" where
  "plain_key k \<longleftrightarrow> \<not> list_ex (\<lambda>s. eq_ignore_ascii_case s k) DEFAULT_SCHEMES \<and> hd k \<noteq> CHR ''+'' \<and> hd k \<noteq> CHR ''@''"

lemma find_index_key: "c \<notin> set k \<Longrightarrow> find_index (\<lambda>x. x = c) (k @ c # v) = Some (length k)"
  by (induction k) auto

lemma tag_of_colon_word:
  assumes k: "k \<noteq> []" "v \<noteq> []" "CHR '':'' \<notin> set k" and "plain_key k"
  shows "tag_of_word (k @ '':'' @ v) = Some (k, v)"
proof -
  let ?w = "k @ '':'' @ v"
  have url: "\<not> is_url ?w DEFAULT_SCHEMES"
    using \<open>plain_key k\<close> k by (simp add: is_url_def find_index_key plain_key_def Let_def)
  have pc: "\<not> starts_with ?w ''+''" "\<not> starts_with ?w ''@''"
    using \<open>plain_key k\<close> k(1) by (cases k; simp add: starts_with_def plain_key_def)+
  have ts: "tag_split ?w = Some (length k)" using tag_split_key_value [OF k] by simp
  show ?thesis
  proof (cases "Option.bind (strip_prefix ?w ''id:'') Ulid_parse = None")
    case True
    then have "classify_word ?w DEFAULT_SCHEMES = WTag (length k)"
      using url pc ts by (simp add: classify_word_def)
    then show ?thesis by (simp add: tag_of_word_def)
  next
    case False
    then obtain r where "k @ '':'' @ v = ''id:'' @ r" by (auto simp: strip_prefix_def elim!: starts_withE split: if_splits)
    then have "k = ''id''" using k
      by (auto simp: Cons_eq_append_conv append_eq_Cons_conv)
    moreover have "classify_word ?w DEFAULT_SCHEMES = WIdTag"
      using False url by (simp add: classify_word_def)
    ultimately show ?thesis by (simp add: tag_of_word_def)
  qed
qed

lemma tag_of_tag_word: "valid_tag k v = None \<Longrightarrow> plain_key k \<Longrightarrow> tag_of_word (k @ '':'' @ v) = Some (k, v)"
  by (rule tag_of_colon_word) (auto simp: valid_tag_None)

lemma tag_word_at:
  assumes "valid_tag k v = None" and "a = [] \<or> is_ws (last a)" and "b = [] \<or> is_ws (hd b)"
  shows "word_at a (k @ '':'' @ v) b"
proof -
  have "\<not> is_ws (CHR '':'')" by (simp add: is_ws_def TAB_def)
  then show ?thesis using assms by (auto simp: word_at_def valid_tag_None dest: is_ws_whitespace)
qed

lemma replace_range_mid: "replace_range (a @ w @ b) (length a) (length a + length w) u = a @ u @ b"
  by (simp add: replace_range_def)

text \<open>What setting a tag does to the words: the first one with the key is replaced, or the tag is
  appended.\<close>

lemma word_texts_set_tag:
  assumes "valid_tag k v = None"
  shows "(\<exists>us w ws. word_texts d = us @ w # ws \<and> has_key k w \<and> (\<forall>u \<in> set us. \<not> has_key k u) \<and>
            word_texts (set_tag_text d k v) = us @ (k @ '':'' @ v) # ws)
       \<or> (\<forall>u \<in> set (word_texts d). \<not> has_key k u) \<and> word_texts (set_tag_text d k v) = word_texts d @ [k @ '':'' @ v]"
proof (cases "find_tag d k")
  case None
  then have no: "\<forall>u \<in> set (word_texts d). \<not> has_key k u" by (simp add: find_tag_None)
  have "word_texts (k @ '':'' @ v) = [k @ '':'' @ v]"
    using word_texts_at [OF tag_word_at [OF assms, of "[]" "[]"]] by simp
  moreover have "is_ws (CHR '' '')" by (simp add: is_ws_def)
  ultimately have "word_texts (append_text d (k @ '':'' @ v)) = word_texts d @ [k @ '':'' @ v]"
    using word_texts_ws [of "CHR '' ''" d "k @ '':'' @ v"] by (simp add: append_text_def)
  with no None show ?thesis by (simp add: set_tag_text_def Let_def)
next
  case (Some p)
  then obtain s e where f: "find_tag d k = Some (s, e)" by (cases p) auto
  obtain a w b where d: "d = a @ w @ b" "word_at a w b" "s = length a" "e = length a + length w" "has_key k w"
    "\<forall>u \<in> set (word_texts a). \<not> has_key k u" by (rule find_tag_Some [OF f])
  have at: "word_at a (k @ '':'' @ v) b" using d(2) assms by (intro tag_word_at) (auto simp: word_at_def)
  have "set_tag_text d k v = a @ (k @ '':'' @ v) @ b"
    using f d replace_range_mid [of a w b] by (simp add: set_tag_text_def Let_def)
  then show ?thesis using word_texts_at [OF at] word_texts_at [OF d(2)] d by auto
qed

text \<open>Reading a tag after setting it gives the value set, and no other tag changes.\<close>

theorem tag_set_tag:
  assumes "valid_tag k v = None" and "plain_key k"
  shows "tag (t\<lparr>description := set_tag_text d k v\<rparr>) k = Some v \<and>
    (\<forall>k'. k' \<noteq> k \<longrightarrow> tag (t\<lparr>description := set_tag_text d k v\<rparr>) k' = tag (t\<lparr>description := d\<rparr>) k')"
proof -
  let ?w = "k @ '':'' @ v"
  note tw = tag_of_tag_word [OF assms]
  have other: "\<not> has_key k' w" if "k' \<noteq> k" "has_key k w" for k' w using that has_key_unique by blast
  have hw: "has_key k ?w" using tw by (simp add: has_key_def)
  have hit: "lookup_words k (us @ ?w # ws) = Some v" if "\<forall>u \<in> set us. \<not> has_key k u" for us ws
    using that tw by (simp add: lookup_words_append lookup_words_Cons)
  show ?thesis
    using word_texts_set_tag [OF assms(1), of d]
  proof (elim disjE exE conjE)
    fix us w ws
    assume w: "word_texts d = us @ w # ws" "has_key k w" "\<forall>u \<in> set us. \<not> has_key k u"
      and r: "word_texts (set_tag_text d k v) = us @ ?w # ws"
    show ?thesis
      using hit [OF w(3)] lookup_words_cong_mid [of _ w ?w us ws] other [OF _ w(2)] other [OF _ hw]
      by (simp add: tag_lookup r w(1))
  next
    assume no: "\<forall>u \<in> set (word_texts d). \<not> has_key k u"
      and r: "word_texts (set_tag_text d k v) = word_texts d @ [?w]"
    show ?thesis
      using hit [OF no, of "[]"] lookup_words_drop_mid [of _ ?w "word_texts d" "[]"] other [OF _ hw]
      by (simp add: tag_lookup r)
  qed
qed

theorem tag_set_tag_witness:
  "tag (empty_task\<lparr>description := set_tag_text ''call due:mon'' ''due'' ''tue''\<rparr>) ''due'' = Some ''tue''"
proof -
  have "valid_tag ''due'' ''tue'' = None" "plain_key ''due''" by code_simp+
  then show ?thesis using tag_set_tag [of "''due''" "''tue''" "''call due:mon''" empty_task] by simp
qed

lemma word_texts_glue:
  assumes "a = [] \<or> is_ws (last a) \<or> b = [] \<or> is_ws (hd b)"
  shows "word_texts (a @ b) = word_texts a @ word_texts b"
proof -
  consider "a = []" | "b = []" | a' c where "a = a' @ [c]" "is_ws c" | c b' where "b = c # b'" "is_ws c"
    using assms by (cases a rule: rev_cases; cases b) auto
  then show ?thesis
  proof cases
    case (3 a' c)
    then show ?thesis using word_texts_ws [of c a' b] word_texts_ws [of c a' "[]"] by simp
  next
    case (4 c b')
    then show ?thesis using word_texts_ws [of c a b'] word_texts_ws [of c "[]" b'] by simp
  qed simp_all
qed

text \<open>Removing a tag takes the first word with the key out of the word list and touches no other
  word; a text without the key is returned as it is.\<close>

theorem word_texts_remove_tag:
  "(\<exists>us w ws. word_texts d = us @ w # ws \<and> has_key k w \<and> list_all (\<lambda>u. \<not> has_key k u) us \<and>
      word_texts (remove_tag_text d k) = us @ ws)
   \<or> list_all (\<lambda>u. \<not> has_key k u) (word_texts d) \<and> remove_tag_text d k = d"
proof (cases "find_tag d k")
  case None
  then have "remove_tag_text d k = d" by (simp add: remove_tag_text_def)
  with None show ?thesis by (simp add: find_tag_None list_all_iff)
next
  case (Some p)
  then obtain s e where f: "find_tag d k = Some (s, e)" by (cases p) auto
  obtain a w b where d: "d = a @ w @ b" "word_at a w b" "s = length a" "e = length a + length w" "has_key k w"
    "\<forall>u \<in> set (word_texts a). \<not> has_key k u" by (rule find_tag_Some [OF f])
  have sp: "is_ws (CHR '' '')" by (simp add: is_ws_def)
  have bnd: "a = [] \<or> is_ws (last a)" "b = [] \<or> is_ws (hd b)" using d(2) by (auto simp: word_at_def)
  have "word_texts (remove_tag_text d k) = word_texts a @ word_texts b"
  proof (cases "a \<noteq> [] \<and> last a = CHR '' ''")
    case True
    then obtain a' where a: "a = a' @ '' ''" by (metis append_butlast_last_id)
    then have "remove_tag_text d k = a' @ b"
      using f d(1,3,4) by (simp add: remove_tag_text_def replace_range_def nth_append)
    then show ?thesis using word_texts_glue [of a' b] word_texts_ws [OF sp, of a' "[]"] bnd(2) a by auto
  next
    case na: False
    then have l: "\<not> (0 < s \<and> d ! (s - 1) = CHR '' '')" using d by (auto simp: nth_append last_conv_nth)
    show ?thesis
    proof (cases "get d e = Some (CHR '' '')")
      case True
      then obtain b' where b: "b = CHR '' '' # b'" using d by (cases b) (auto simp: get_def nth_append split: if_splits)
      then have "remove_tag_text d k = a @ b'"
        using f l True d(1,3,4) by (auto simp: remove_tag_text_def replace_range_def)
      then show ?thesis using word_texts_glue [of a b'] word_texts_ws [OF sp, of "[]" b'] bnd(1) b by auto
    next
      case False
      then have "remove_tag_text d k = a @ b"
        using f l d(1,3,4) by (auto simp: remove_tag_text_def replace_range_def)
      then show ?thesis using word_texts_glue [of a b] bnd by auto
    qed
  qed
  moreover have "word_texts d = word_texts a @ w # word_texts b" using word_texts_at [OF d(2)] d(1) by simp
  ultimately show ?thesis using d(5,6) by (auto simp: list_all_iff)
qed

section \<open>Completing and reopening\<close>

definition valid_prefix :: "'a prefix_scheme \<Rightarrow> bool" where
  "valid_prefix p \<longleftrightarrow> pred_option valid_date (completion_date p) \<and> pred_option valid_date (creation_date p) \<and>
     pred_option valid_priority (priority_of p)"

lemma priority_tag_facts:
  assumes "valid_priority pr"
  shows "valid_tag ''pri'' [as_char pr] = None" "plain_key ''pri''" "Priority_new [as_char pr] = Some pr"
    "chars [as_char pr] = [[as_char pr]]"
proof -
  have u: "is_ascii_uppercase (as_char pr)" using assms by (simp add: valid_priority_def)
  then show "valid_tag ''pri'' [as_char pr] = None"
    by (auto simp: valid_tag_None is_ascii_whitespace_def is_ascii_uppercase_def)
  show "plain_key ''pri''" by code_simp
  show "Priority_new [as_char pr] = Some pr" using assms by (simp add: Priority_new_Some)
  show "chars [as_char pr] = [[as_char pr]]"
    using u by (simp add: is_ascii_def is_ascii_uppercase_def)
qed

lemma find_appended_priority:
  assumes "find_tag d ''pri'' = None" and "valid_priority pr"
  defines "a \<equiv> (if d = [] then [] else d @ '' '')"
  shows "set_tag_text d ''pri'' [as_char pr] = a @ ''pri:'' @ [as_char pr]"
    and "find_tag (a @ ''pri:'' @ [as_char pr]) ''pri'' = Some (length a, length a + 5)"
proof -
  note pf = priority_tag_facts [OF assms(2)]
  show "set_tag_text d ''pri'' [as_char pr] = a @ ''pri:'' @ [as_char pr]"
    using assms(1) by (simp add: set_tag_text_def append_text_def a_def)
  have "has_key ''pri'' (''pri'' @ '':'' @ [as_char pr])"
    using tag_of_tag_word [OF pf(1,2)] by (simp add: has_key_def)
  moreover have at: "word_at a (''pri'' @ '':'' @ [as_char pr]) []"
    by (rule tag_word_at [OF pf(1)]) (simp_all add: a_def is_ws_def)
  moreover have "\<forall>u \<in> set (word_texts a). \<not> has_key ''pri'' u"
    using assms(1) word_texts_ws [of "CHR '' ''" d "[]"] by (simp add: a_def find_tag_None is_ws_def)
  ultimately show "find_tag (a @ ''pri:'' @ [as_char pr]) ''pri'' = Some (length a, length a + 5)"
    using find_tag_at [OF at] by simp
qed

lemma draft_uncomplete_complete:
  assumes "\<not> completed (d_prefix d)" and "completion_date (d_prefix d) = None"
    and "find_tag (d_description d) ''pri'' = None" and "valid_prefix (d_prefix d)"
  shows "draft_uncomplete (draft_complete d today) = d"
proof (cases "priority_of (d_prefix d)")
  case None
  then have "(d_prefix d)\<lparr>completed := False, completion_date := None\<rparr> = d_prefix d"
    "(d_prefix d)\<lparr>priority_of := None\<rparr> = d_prefix d"
    using assms(1,2) by (cases "d_prefix d"; simp)+
  then show ?thesis using assms None
    by (cases d; cases "d_prefix d") (simp add: draft_complete_def draft_uncomplete_def)
next
  case (Some pr)
  then have v: "valid_priority pr" using assms(4) by (simp add: valid_prefix_def)
  let ?d = "d_description d"
  define a where "a = (if ?d = [] then [] else ?d @ '' '')"
  note fp = find_appended_priority [OF assms(3) v, folded a_def]
  have "str_slice (a @ ''pri:'' @ [as_char pr]) (length a + 4) (length a + 5) = [as_char pr]"
    by (simp add: str_slice_def)
  then have slice: "(case chars (str_slice (a @ ''pri:'' @ [as_char pr]) (length a + 4) (length a + 5)) of
      [] \<Rightarrow> None | c # _ \<Rightarrow> Priority_new c) = Some pr"
    using priority_tag_facts(3,4) [OF v] by simp
  have rm: "remove_tag_text (a @ ''pri:'' @ [as_char pr]) ''pri'' = ?d"
    unfolding remove_tag_text_def fp(2) by (simp add: a_def replace_range_def nth_append get_def)
  have "(d_prefix d)\<lparr>completed := False, completion_date := None, priority_of := Some pr\<rparr> = d_prefix d"
    using assms(1,2) Some by (cases "d_prefix d") simp
  then show ?thesis
    using assms(1) Some fp slice rm
    by (cases d) (simp add: draft_complete_def draft_uncomplete_def)
qed

subsection \<open>Parsed prefixes are valid\<close>

definition pvalid :: "task presult \<Rightarrow> bool" where
  "pvalid m \<longleftrightarrow> (case m of Inl _ \<Rightarrow> True | Inr (t, _) \<Rightarrow> valid_prefix t)"

lemma pvalid_simps [simp]: "pvalid (Inl e)" "pvalid (Inr (t, p)) \<longleftrightarrow> valid_prefix t"
  by (simp_all add: pvalid_def)

lemma pvalid_and_then: "(\<And>a p. m = Inr (a, p) \<Longrightarrow> pvalid (f a p)) \<Longrightarrow> pvalid (and_then m f)"
  by (auto simp: and_then_def split: sum.splits prod.splits)

lemma take_date_valid: "take_date p = Inr (Some d, p') \<Longrightarrow> valid_date d"
  by (auto simp: take_date_def dest: date_codec.parse_valid split: option.splits if_splits)

lemma take_optional_date_valid:
  "take_optional_date slot p = Inr (r, p') \<Longrightarrow> pred_option valid_date slot \<Longrightarrow> pred_option valid_date r"
  unfolding take_optional_date_def and_then_eq_Inr using take_date_valid
  by (fastforce split: option.splits simp: and_then_eq_Inr)

lemma take_priority_valid:
  "take_priority t p = Inr ((b, t'), p') \<Longrightarrow> valid_prefix t \<Longrightarrow> valid_prefix t'"
  by (auto simp: take_priority_def and_then_eq_Inr valid_prefix_def pred_option_def Priority_new_Some
      split: option.splits if_splits)

lemma incomplete_prefix_valid: "valid_prefix t \<Longrightarrow> pvalid (incomplete_prefix t p)"
  unfolding incomplete_prefix_def
  by (auto intro!: pvalid_and_then dest!: take_priority_valid take_optional_date_valid simp: valid_prefix_def)

lemma take_priority_as_valid: "valid_prefix t \<Longrightarrow> pvalid (take_priority_as q t p)"
  unfolding take_priority_as_def by (rule pvalid_and_then) (auto dest: take_priority_valid)

lemma pvalid_Inr: "pvalid m \<Longrightarrow> m = Inr (t, p) \<Longrightarrow> valid_prefix t"
  by simp

lemma after_completion_date_valid:
  assumes "valid_prefix t"
  shows "pvalid (after_completion_date t p)"
  unfolding after_completion_date_def
proof (intro pvalid_and_then, goal_cases)
  case (1 more p1 t1 p2)
  then have "valid_prefix t1"
    using assms take_optional_date_valid by (fastforce simp: and_then_eq_Inr valid_prefix_def split: if_splits)
  then show ?case by (simp add: take_priority_as_valid)
qed

lemma completed_prefix_valid:
  assumes "valid_prefix t"
  shows "pvalid (completed_prefix t p)"
  unfolding completed_prefix_def
proof (rule pvalid_and_then, simp only: if_split, intro conjI impI pvalid_and_then, goal_cases)
  case (1 more p1 a p2)
  with assms show ?case by simp
next
  case (2 more p1 t1 p2 r p3)
  then have "valid_prefix t1" using assms pvalid_Inr [OF take_priority_as_valid] by (auto split: if_splits)
  with 2(4) show ?case
    by (auto simp: valid_prefix_def intro!: after_completion_date_valid pvalid_and_then dest: take_date_valid
        split: option.split)
qed

lemma parse_line_valid:
  assumes "parse_line raw m = Inr l" and "l_kind l = TaskLine t"
  shows "valid_prefix t"
  using assms(1) unfolding parse_line_def
proof (cases rule: parse_line_cases)
  case (Task t' p)
  then obtain t1 p1 d where "t' = t1\<lparr>description := d\<rparr>"
    "(if starts_completed (Parser_new raw m) then completed_prefix (empty_task\<lparr>completed := True\<rparr>) (advance (Parser_new raw m))
      else incomplete_prefix empty_task (Parser_new raw m)) = Inr (t1, p1)"
    by (blast elim: parse_task_parts)
  moreover have "valid_prefix empty_task" "valid_prefix (empty_task\<lparr>completed := True\<rparr>)"
    by (simp_all add: valid_prefix_def empty_task_def)
  ultimately have "valid_prefix t1"
    using completed_prefix_valid incomplete_prefix_valid pvalid_Inr by (metis (no_types, lifting))
  with Task assms(2) \<open>t' = _\<close> show ?thesis by (simp add: valid_prefix_def)
qed (use assms(2) in simp)

lemma take_priority_completed:
  "take_priority t p = Inr ((b, t'), p') \<Longrightarrow> completed t' = completed t \<and> completion_date t' = completion_date t"
  by (auto simp: take_priority_def and_then_eq_Inr split: if_splits option.splits)

lemma take_priority_as_completed: "take_priority_as q t p = Inr (t', p') \<Longrightarrow> completed t' = completed t"
  by (auto simp: take_priority_as_def and_then_eq_Inr dest: take_priority_completed)

lemma after_completion_date_completed: "after_completion_date t p = Inr (t', p') \<Longrightarrow> completed t' = completed t"
  by (auto simp: after_completion_date_def and_then_eq_Inr dest!: take_priority_as_completed split: if_splits)

lemma completed_prefix_completed: "completed_prefix t p = Inr (t', p') \<Longrightarrow> completed t' = completed t"
  by (auto simp: completed_prefix_def and_then_eq_Inr split: if_splits option.splits
      dest!: take_priority_as_completed after_completion_date_completed)

lemma incomplete_no_completion:
  assumes "parse_line raw m = Inr l" and "l_kind l = TaskLine t" and "\<not> completed t"
  shows "completion_date t = None"
  using assms(1) unfolding parse_line_def
proof (cases rule: parse_line_cases)
  case (Task t' p)
  have i: "incomplete_prefix empty_task p1 = Inr (v, p2) \<Longrightarrow> completion_date v = None" for v p1 p2
    by (auto simp: incomplete_prefix_def empty_task_def and_then_eq_Inr dest!: take_priority_completed)
  from parse_task_parts [OF Task(3)] obtain t1 p1 d where t1: "t' = t1\<lparr>description := d\<rparr>"
    "(if starts_completed (Parser_new raw m) then completed_prefix (empty_task\<lparr>completed := True\<rparr>) (advance (Parser_new raw m))
      else incomplete_prefix empty_task (Parser_new raw m)) = Inr (t1, p1)"
    by metis
  moreover have "\<not> completed t1" using t1(1) Task(2) assms(2,3) by simp
  ultimately have "completion_date t1 = None"
    using completed_prefix_completed [of "empty_task\<lparr>completed := True\<rparr>" "advance (Parser_new raw m)" t1 p1] i
    by (cases "starts_completed (Parser_new raw m)") simp_all
  with t1(1) Task(2) assms(2) show ?thesis by simp
qed (use assms(2) in simp)

lemma draft_of_facts:
  "valid_prefix (d_prefix (draft_of raw))"
  "\<not> completed (d_prefix (draft_of raw)) \<Longrightarrow> completion_date (d_prefix (draft_of raw)) = None"
proof -
  obtain l where l: "parse_line raw Lenient = Inr l" using parse_lenient_Inr by blast
  show "valid_prefix (d_prefix (draft_of raw))"
    using l parse_line_valid [OF l]
    by (auto simp: draft_of_def Prefix_of_def Prefix_default_def valid_prefix_def split: line_kind.splits)
  show "\<not> completed (d_prefix (draft_of raw)) \<Longrightarrow> completion_date (d_prefix (draft_of raw)) = None"
    using l incomplete_no_completion [OF l]
    by (auto simp: draft_of_def Prefix_of_def Prefix_default_def split: line_kind.splits)
qed

text \<open>C39: completing an open line and reopening it in the same edit gives the line back, byte for byte
  and whatever its priority, provided it has no \<open>pri:\<close> tag of its own.\<close>

theorem complete_reopen_identity:
  assumes "ol_raw l = Some raw" and "\<not> completed (d_prefix (draft_of raw))"
    and "find_tag (d_description (draft_of raw)) ''pri'' = None"
  shows "apply_edit l (Edit_uncomplete (Edit_complete Edit_new today)) = l"
proof -
  have "draft_uncomplete (draft_complete (draft_of raw) today) = draft_of raw"
    by (rule draft_uncomplete_complete) (use assms draft_of_facts [of raw] in simp_all)
  then show ?thesis
    using assms(1)
    by (simp add: apply_edit_def Edit_uncomplete_def Edit_complete_def Edit_new_def settle_priority_def Let_def)
qed

theorem complete_reopen_identity_witness:
  "apply_edit (from_bytes ''(B) call mum'' CrLf) (Edit_uncomplete (Edit_complete Edit_new \<lparr>year = 2024, month = 2, day = 29\<rparr>)) =
     from_bytes ''(B) call mum'' CrLf"
proof -
  have "ol_raw (from_bytes ''(B) call mum'' CrLf) = Some ''(B) call mum''" by code_simp
  moreover have "\<not> completed (d_prefix (draft_of ''(B) call mum''))"
    "find_tag (d_description (draft_of ''(B) call mum'')) ''pri'' = None" by code_simp+
  ultimately show ?thesis by (rule complete_reopen_identity)
qed

section \<open>What applying an edit keeps\<close>

lemma settle_priority_clean: "d_prefix d = d_prefix original \<Longrightarrow> settle_priority original d = d"
  by (simp add: settle_priority_def)

text \<open>C17: bytes outside the edited part are spliced through. The ending never changes; when the edit
  leaves the prefix alone and some description remains, the original prefix bytes are kept in front of
  the new description with at most one space added; when it leaves the description alone, the line
  still ends in the original description bytes.\<close>

theorem apply_edit_splices:
  assumes "ol_raw l = Some raw" and "edited = fold draft_apply e (draft_of raw)"
  shows "ol_ending (apply_edit l e) = ol_ending l \<and>
    (d_prefix edited = d_prefix (draft_of raw) \<and> d_description edited \<noteq> [] \<longrightarrow>
      (\<exists>sep. (sep = [] \<or> sep = '' '') \<and>
        ol_bytes (apply_edit l e) = take (description_start raw) raw @ sep @ d_description edited)) \<and>
    (d_description (settle_priority (draft_of raw) edited) = d_description (draft_of raw) \<longrightarrow>
      (\<exists>pre. ol_bytes (apply_edit l e) = pre @ drop (description_start raw) raw))"
proof -
  obtain ln where ln: "parse_line raw Lenient = Inr ln" using parse_lenient_Inr by blast
  have bytes: "ol_bytes l = raw" using assms(1) by (simp add: ol_raw_def split: if_splits)
  have desc: "drop (description_start raw) raw = d_description (draft_of raw)"
  proof (cases "l_kind ln")
    case Blank
    with ln show ?thesis by (simp add: description_start_def draft_of_def)
  next
    case (TaskLine t)
    with ln description_start_task(1) [OF ln TaskLine] show ?thesis by (simp add: draft_of_def)
  qed
  have e: "ol_ending (apply_edit l e) = ol_ending l"
    using assms(1) by (simp add: apply_edit_def Let_def)
  have p: "\<exists>sep. (sep = [] \<or> sep = '' '') \<and>
      ol_bytes (apply_edit l e) = take (description_start raw) raw @ sep @ d_description edited"
    if "d_prefix edited = d_prefix (draft_of raw)" "d_description edited \<noteq> []"
  proof (cases "d_description edited = d_description (draft_of raw)")
    case True
    with that assms have "apply_edit l e = l" by (simp add: apply_edit_def settle_priority_clean Let_def)
    moreover have "raw = take (description_start raw) raw @ d_description (draft_of raw)"
      unfolding desc [symmetric] by simp
    ultimately show ?thesis using True bytes by (intro exI [of _ "[]"]) simp
  next
    case False
    let ?pre = "take (description_start raw) raw"
    have "apply_edit l e = from_bytes (join_line ?pre (d_description edited)) (ol_ending l)"
      using False that(1) assms by (simp add: apply_edit_def settle_priority_clean Let_def)
    moreover have "join_line ?pre (d_description edited) =
        ?pre @ (if ?pre \<noteq> [] \<and> \<not> is_ws (last ?pre) then '' '' else []) @ d_description edited"
      using that(2) by (auto simp: join_line_def Let_def)
    ultimately show ?thesis by auto
  qed
  have d: "\<exists>pre. ol_bytes (apply_edit l e) = pre @ drop (description_start raw) raw"
    if "d_description (settle_priority (draft_of raw) edited) = d_description (draft_of raw)"
  proof (cases "d_prefix edited = d_prefix (draft_of raw)")
    case True
    with that assms have "apply_edit l e = l" by (simp add: apply_edit_def settle_priority_clean Let_def)
    with bytes show ?thesis by (intro exI [of _ "take (description_start raw) raw"]) simp
  next
    case False
    with that assms show ?thesis by (simp add: apply_edit_def Let_def)
  qed
  from e p d show ?thesis by blast
qed

theorem apply_edit_splices_witness:
  "ol_ending (apply_edit (from_bytes ''x  call mum'' CrLf) [Append ''today'']) = CrLf"
proof -
  have "ol_raw (from_bytes ''x  call mum'' CrLf) = Some ''x  call mum''" by code_simp
  then show ?thesis using apply_edit_splices [of "from_bytes ''x  call mum'' CrLf" _ _ "[Append ''today'']"] by simp
qed

section \<open>Edits introduce no line break\<close>

definition breakless :: "string \<Rightarrow> bool" where
  "breakless s \<longleftrightarrow> LF \<notin> set s"

fun op_clean :: "edit_op \<Rightarrow> bool" where
  "op_clean (SetPriority p) \<longleftrightarrow> valid_priority p"
| "op_clean ClearPriority \<longleftrightarrow> True"
| "op_clean (SetDescription s) \<longleftrightarrow> breakless s"
| "op_clean (SetTag k v) \<longleftrightarrow> breakless k \<and> breakless v"
| "op_clean (RemoveTag k) \<longleftrightarrow> True"
| "op_clean (Append s) \<longleftrightarrow> breakless s"
| "op_clean (Prepend s) \<longleftrightarrow> breakless s"
| "op_clean (Complete d) \<longleftrightarrow> valid_date d"
| "op_clean Uncomplete \<longleftrightarrow> True"

text \<open>The checked constructors add clean operations only.\<close>

lemma no_line_break_clean: "no_line_break s = None \<Longrightarrow> breakless s"
  by (auto simp: no_line_break_def breakless_def list_ex_iff split: if_splits)

lemma whitespace_LF: "is_ascii_whitespace LF"
  by (simp add: is_ascii_whitespace_def LF_def)

lemma valid_tag_clean: "valid_tag k v = None \<Longrightarrow> breakless k \<and> breakless v"
  using whitespace_LF by (auto simp: valid_tag_None breakless_def)

lemma built_edits_clean:
  assumes "list_all op_clean e"
    and "Edit_set_description e s = Inr e' \<or> Edit_append e s = Inr e' \<or> Edit_prepend e s = Inr e' \<or>
      Edit_set_tag e k v = Inr e' \<or> Edit_remove_tag e k = Inr e'"
  shows "list_all op_clean e'"
  using assms no_line_break_clean [of s] valid_tag_clean [of k v]
  by (auto simp: Edit_set_description_def Edit_append_def Edit_prepend_def Edit_set_tag_def
      Edit_remove_tag_def push_checked_def split: option.splits)

lemma LF_neq [simp]: "CHR '' '' \<noteq> LF" "CHR ''x'' \<noteq> LF" "CHR ''('' \<noteq> LF" "CHR '')'' \<noteq> LF" "CHR '':'' \<noteq> LF"
  "CHR ''p'' \<noteq> LF" "CHR ''r'' \<noteq> LF" "CHR ''i'' \<noteq> LF"
  by (simp_all add: LF_def)

lemma breakless_simps [simp]:
  "breakless []" "breakless (s @ t) \<longleftrightarrow> breakless s \<and> breakless t" "breakless (c # s) \<longleftrightarrow> c \<noteq> LF \<and> breakless s"
  by (auto simp: breakless_def)

lemma breakless_take_drop: "breakless s \<Longrightarrow> breakless (take n s)" "breakless s \<Longrightarrow> breakless (drop n s)"
  by (auto simp: breakless_def dest: in_set_takeD in_set_dropD)

lemma breakless_replace: "breakless s \<Longrightarrow> breakless w \<Longrightarrow> breakless (replace_range s a b w)"
  by (simp add: replace_range_def breakless_take_drop)

lemma breakless_append_text: "breakless d \<Longrightarrow> breakless s \<Longrightarrow> breakless (append_text d s)"
  by (simp add: append_text_def)

lemma breakless_set_tag: "breakless d \<Longrightarrow> breakless k \<Longrightarrow> breakless v \<Longrightarrow> breakless (set_tag_text d k v)"
  by (auto simp: set_tag_text_def Let_def intro!: breakless_replace breakless_append_text split: option.split)

lemma breakless_remove_tag: "breakless d \<Longrightarrow> breakless (remove_tag_text d k)"
  by (auto simp: remove_tag_text_def Let_def breakless_replace split: option.split)

lemma breakless_priority: "valid_priority p \<Longrightarrow> as_char p \<noteq> LF"
  by (auto simp: valid_priority_def is_ascii_uppercase_def LF_def)

lemma breakless_date: "valid_date d \<Longrightarrow> breakless (Date_fmt d)"
  using Date_fmt_no_ws [of d LF] by (auto simp: breakless_def is_ascii_digit_def LF_def)

definition draft_clean :: "draft \<Rightarrow> bool" where
  "draft_clean d \<longleftrightarrow> valid_prefix (d_prefix d) \<and> breakless (d_description d)"

lemma draft_clean_complete: "draft_clean d \<Longrightarrow> valid_date today \<Longrightarrow> draft_clean (draft_complete d today)"
  by (auto simp: draft_clean_def draft_complete_def Let_def valid_prefix_def
      intro!: breakless_set_tag breakless_priority split: option.splits)

lemma restored_valid:
  "Option.bind r (\<lambda>(s, e). case chars (str_slice d (s + 4) e) of [] \<Rightarrow> None | c # _ \<Rightarrow> Priority_new c) = Some pr
     \<Longrightarrow> valid_priority pr"
  by (cases r) (auto simp: Priority_new_Some split: list.splits)

lemma draft_clean_uncomplete: "draft_clean d \<Longrightarrow> draft_clean (draft_uncomplete d)"
  by (simp add: draft_clean_def draft_uncomplete_def Let_def valid_prefix_def breakless_remove_tag
      restored_valid split: option.split)

lemma draft_clean_apply: "draft_clean d \<Longrightarrow> op_clean op \<Longrightarrow> draft_clean (draft_apply op d)"
  by (cases op)
    (auto simp: draft_clean_complete draft_clean_uncomplete,
      auto simp: draft_clean_def valid_prefix_def prepend_text_def
        intro: breakless_set_tag breakless_remove_tag breakless_append_text)

lemma draft_clean_fold: "list_all op_clean e \<Longrightarrow> draft_clean d \<Longrightarrow> draft_clean (fold draft_apply e d)"
  by (induction e arbitrary: d) (simp_all add: draft_clean_apply)

lemma draft_clean_settle: "draft_clean d \<Longrightarrow> draft_clean (settle_priority original d)"
  by (auto simp: draft_clean_def settle_priority_def valid_prefix_def
      intro!: breakless_set_tag breakless_priority split: option.splits)

lemma breakless_emit: "valid_prefix p \<Longrightarrow> breakless (emit_prefix p b)"
  by (auto simp: emit_prefix_def push_date_def Let_def valid_prefix_def breakless_date
      dest: breakless_priority split: option.splits)

lemma breakless_join_line: "breakless p \<Longrightarrow> breakless d \<Longrightarrow> breakless (join_line p d)"
  by (auto simp: join_line_def Let_def trim_end_ws_def breakless_def LF_def dest: set_dropWhileD)

text \<open>Applying an edit made of checked operations to a line without a line feed gives a line without
  one, so an edit never splits a line in two.\<close>

theorem apply_edit_one_line:
  assumes "list_all op_clean e" and "breakless (ol_bytes l)"
  shows "breakless (ol_bytes (apply_edit l e))"
proof (cases "ol_raw l")
  case None
  with assms(2) show ?thesis by (simp add: apply_edit_def)
next
  case (Some raw)
  then have r: "breakless raw" using assms(2) by (simp add: ol_raw_def split: if_splits)
  obtain ln where ln: "parse_line raw Lenient = Inr ln" using parse_lenient_Inr by blast
  have "breakless (d_description (draft_of raw))"
    using ln r parse_line_suffix [OF ln] by (auto simp: draft_of_def split: line_kind.splits)
  then have "draft_clean (draft_of raw)" using draft_of_facts by (simp add: draft_clean_def)
  then have "draft_clean (settle_priority (draft_of raw) (fold draft_apply e (draft_of raw)))"
    using assms(1) by (simp add: draft_clean_fold draft_clean_settle)
  then show ?thesis
    using Some r assms(2)
    by (auto simp: apply_edit_def Let_def draft_clean_def breakless_emit breakless_take_drop breakless_join_line)
qed

theorem apply_edit_one_line_witness:
  "breakless (ol_bytes (apply_edit (from_bytes ''call mum'' Lf) [SetTag ''due'' ''mon'']))"
proof -
  have "list_all op_clean [SetTag ''due'' ''mon'']" "breakless (ol_bytes (from_bytes ''call mum'' Lf))"
    by (simp_all add: LF_def)
  then show ?thesis by (rule apply_edit_one_line)
qed

text \<open>A done line typed without a date and whose text is itself the word \<open>x\<close> loses a marker instead of
  gaining a date: \<open>date_done\<close> hands \<open>x\<close> to \<open>complete\<close>, which finds it completed already.\<close>

theorem date_done_x_x: "date_done ''x x'' today = ''x''"
proof -
  have p: "case parse_line ''x x'' Lenient of Inr l \<Rightarrow>
      (case l_kind l of TaskLine t \<Rightarrow> completion_date t = None | Blank \<Rightarrow> True) | Inl _ \<Rightarrow> True" by code_simp
  have s: "strip_prefix ''x x'' ''x '' = Some ''x''" by simp
  have r: "ol_raw (from_bytes ''x'' LineEnding_default) = Some ''x''" by code_simp
  have "completed (d_prefix (draft_of ''x''))" by code_simp
  then have "apply_edit (from_bytes ''x'' LineEnding_default) (Edit_complete Edit_new today) =
      from_bytes ''x'' LineEnding_default"
    using r by (simp add: apply_edit_def Edit_complete_def Edit_new_def draft_complete_def settle_priority_def Let_def)
  then show ?thesis
    unfolding date_done_def s using p r by (auto simp: Let_def split: sum.splits line_kind.splits)
qed

end
