(* ===== verification/Hlc.thy ===== *)
theory Hlc
  imports UlidText "HOL-Library.Product_Lexorder"
begin

text \<open>
  \<open>hlc.rs\<close> of \<open>txtodo-model\<close> and \<open>stamp_floor.rs\<close> of \<open>txtodo-engine\<close>: the hybrid logical clock. Wall
  time, counter and device keep their machine widths, so the counter can overflow. An operation
  returns the clock after it and a result, which makes \<open>the clock is unchanged on an error\<close> a theorem.
  The locale \<open>monotone_clock\<close> is the contract of a clock; the tick and merge rules interpret it.
\<close>

section \<open>Stamps and their order\<close>

type_synonym u64 = "64 word"
type_synonym u16 = "16 word"
type_synonym device_id = ulid

datatype hlc = Hlc (wall_ms: u64) (counter: u16) (device: device_id)

definition hlc_key :: "hlc \<Rightarrow> u64 \<times> u16 \<times> device_id" where
  "hlc_key h = (wall_ms h, counter h, device h)"

lemma hlc_key_inj: "hlc_key a = hlc_key b \<longleftrightarrow> a = b"
  by (cases a; cases b) (simp add: hlc_key_def)

text \<open>The derived \<open>Ord\<close>: field order.\<close>

instantiation hlc :: linorder
begin

definition less_eq_hlc :: "hlc \<Rightarrow> hlc \<Rightarrow> bool" where
  "less_eq_hlc a b \<longleftrightarrow> hlc_key a \<le> hlc_key b"

definition less_hlc :: "hlc \<Rightarrow> hlc \<Rightarrow> bool" where
  "less_hlc a b \<longleftrightarrow> hlc_key a < hlc_key b"

instance
  by standard (auto simp: less_eq_hlc_def less_hlc_def less_le hlc_key_inj)

end

section \<open>Definitions\<close>

definition MAX_PEER_SKEW_AHEAD_MS :: u64 where
  "MAX_PEER_SKEW_AHEAD_MS = 5 * 60 * 1000"

definition MAX_PEER_SKEW_BEHIND_MS :: u64 where
  "MAX_PEER_SKEW_BEHIND_MS = 5 * 60 * 1000"

datatype hlc_error =
    Overflow u64
  | PeerAhead (peer_ms: u64) (local_ms: u64) (bound_ms: u64)

fun HlcError_fmt :: "hlc_error \<Rightarrow> string" where
  "HlcError_fmt (Overflow w) = ''hlc counter overflow at wall_ms '' @ dec (unat w)"
| "HlcError_fmt (PeerAhead peer loc bound) =
     ''refused to merge peer clock '' @ dec (unat peer) @ '' ms: it leads local clock '' @ dec (unat loc) @
     '' ms by '' @ dec (unat (saturating_sub peer loc)) @ '' ms, more than the '' @ dec (unat bound) @ '' ms bound''"

datatype skew = SkewOk | Behind u64 | Ahead u64

definition Skew_check :: "u64 \<Rightarrow> u64 \<Rightarrow> skew" where
  "Skew_check peer loc =
    (let lead = saturating_sub peer loc; lag = saturating_sub loc peer in
     if lead > MAX_PEER_SKEW_AHEAD_MS then Ahead lead
     else if lag > MAX_PEER_SKEW_BEHIND_MS then Behind lag
     else SkewOk)"

definition Hlc_zero :: "device_id \<Rightarrow> hlc" where
  "Hlc_zero d = Hlc 0 0 d"

text \<open>The clock after the call and its result.\<close>

definition tick :: "hlc \<Rightarrow> u64 \<Rightarrow> hlc \<times> (hlc_error + hlc)" where
  "tick h now =
    (if now > wall_ms h then (let h' = Hlc now 0 (device h) in (h', Inr h'))
     else case checked_add (counter h) 1 of
       None \<Rightarrow> (h, Inl (Overflow (wall_ms h)))
     | Some c \<Rightarrow> (let h' = Hlc (wall_ms h) c (device h) in (h', Inr h')))"

definition merge :: "hlc \<Rightarrow> hlc \<Rightarrow> u64 \<Rightarrow> hlc \<times> (hlc_error + hlc)" where
  "merge h remote now =
    (case Skew_check (wall_ms remote) now of
       Ahead _ \<Rightarrow> (h, Inl (PeerAhead (wall_ms remote) now MAX_PEER_SKEW_AHEAD_MS))
     | _ \<Rightarrow>
       let w = max (max (wall_ms h) (wall_ms remote)) now;
           c = (if w = wall_ms h \<and> w = wall_ms remote then checked_add (max (counter h) (counter remote)) 1
                else if w = wall_ms h then checked_add (counter h) 1
                else if w = wall_ms remote then checked_add (counter remote) 1
                else Some 0)
       in case c of
            None \<Rightarrow> (h, Inl (Overflow w))
          | Some c' \<Rightarrow> (let next = Hlc w c' (device h) in (next, Inr next)))"

subsection \<open>The stamp floor\<close>

definition FLOOR_LIMIT_MS :: u64 where
  "FLOOR_LIMIT_MS = 24 * 60 * 60 * 1000"

definition hold :: "hlc option \<Rightarrow> hlc \<Rightarrow> hlc option" where
  "hold floor stamp = Some (case floor of None \<Rightarrow> stamp | Some f \<Rightarrow> max f stamp)"

definition is_past :: "hlc \<Rightarrow> hlc \<Rightarrow> bool" where
  "is_past a b \<longleftrightarrow> (wall_ms a, counter a) > (wall_ms b, counter b)"

definition within_limit :: "hlc \<Rightarrow> u64 \<Rightarrow> bool" where
  "within_limit floor now \<longleftrightarrow> wall_ms floor \<le> saturating_add now FLOOR_LIMIT_MS"

definition just_past :: "hlc \<Rightarrow> hlc \<Rightarrow> hlc" where
  "just_past floor ticked =
    (case checked_add (counter floor) 1 of
       Some c \<Rightarrow> Hlc (wall_ms floor) c (device ticked)
     | None \<Rightarrow> Hlc (wall_ms floor + 1) 0 (device ticked))"

definition past_floor :: "hlc \<Rightarrow> hlc option \<Rightarrow> u64 \<Rightarrow> hlc" where
  "past_floor ticked floor now =
    (case floor of
       Some f \<Rightarrow> if \<not> is_past ticked f \<and> within_limit f now then just_past f ticked else ticked
     | None \<Rightarrow> ticked)"

section \<open>The contract of a clock\<close>

text \<open>A step may refuse; when it yields a stamp, that is the clock's new value and later than the old
  one, and a refusal leaves the clock alone. Then the stamps of any run are strictly increasing.\<close>

locale monotone_clock =
  fixes step :: "'c::linorder \<Rightarrow> 'e \<Rightarrow> 'c \<times> ('x + 'c)"
  assumes step_Inr: "step c e = (c', Inr s) \<Longrightarrow> c < c' \<and> s = c'"
    and step_Inl: "step c e = (c', Inl x) \<Longrightarrow> c' = c"
begin

fun run :: "'c \<Rightarrow> 'e list \<Rightarrow> 'c \<times> 'c list" where
  "run c [] = (c, [])"
| "run c (e # es) =
     (case step c e of
        (c', Inl _) \<Rightarrow> run c' es
      | (c', Inr s) \<Rightarrow> (let (c2, ss) = run c' es in (c2, s # ss)))"

lemma run_le: "c \<le> fst (run c es)"
proof (induction es arbitrary: c)
  case (Cons e es)
  obtain c' r where s: "step c e = (c', r)" by (cases "step c e")
  show ?case
  proof (cases r)
    case (Inl x)
    with s Cons step_Inl [of c e c' x] show ?thesis by simp
  next
    case (Inr y)
    with s have "c < c'" using step_Inr by blast
    with Cons.IH [of c'] have "c \<le> fst (run c' es)" by simp
    with s Inr show ?thesis by (simp add: case_prod_beta Let_def)
  qed
qed simp

lemma run_after: "s \<in> set (snd (run c es)) \<Longrightarrow> c < s \<and> s \<le> fst (run c es)"
proof (induction es arbitrary: c)
  case (Cons e es)
  obtain c' r where st: "step c e = (c', r)" by (cases "step c e")
  show ?case
  proof (cases r)
    case (Inl x)
    with st Cons step_Inl [of c e c' x] show ?thesis by simp
  next
    case (Inr y)
    then have y: "c < c'" "y = c'" using st step_Inr by blast+
    have "s = c' \<or> s \<in> set (snd (run c' es))"
      using Cons.prems st Inr y by (auto simp: case_prod_beta Let_def)
    then show ?thesis
      using Cons.IH [of c'] run_le [of c' es] y st Inr by (auto simp: case_prod_beta Let_def)
  qed
qed simp

lemma run_sorted: "sorted_wrt (<) (snd (run c es))"
proof (induction es arbitrary: c)
  case (Cons e es)
  obtain c' r where st: "step c e = (c', r)" by (cases "step c e")
  show ?case
  proof (cases r)
    case (Inl x)
    with st Cons show ?thesis by simp
  next
    case (Inr y)
    then have "y = c'" using st step_Inr by blast
    then show ?thesis using Cons.IH [of c'] run_after st Inr by (simp add: case_prod_beta Let_def)
  qed
qed simp

end

section \<open>Ticks and merges\<close>

lemma hlc_less: "a < b \<longleftrightarrow> wall_ms a < wall_ms b \<or> wall_ms a = wall_ms b \<and>
   (counter a < counter b \<or> counter a = counter b \<and> device a < device b)"
  by (auto simp: less_hlc_def hlc_key_def)

lemma tick_Inr: "tick h now = (h', Inr s) \<Longrightarrow> h < h' \<and> s = h' \<and> device h' = device h \<and> now \<le> wall_ms h'"
  by (auto simp: tick_def hlc_less Let_def dest: checked_add_1_less split: if_splits option.splits)

lemma tick_Inl: "tick h now = (h', Inl e) \<Longrightarrow> h' = h \<and> e = Overflow (wall_ms h) \<and> counter h = - 1"
proof -
  assume "tick h now = (h', Inl e)"
  then have e: "h' = h" "e = Overflow (wall_ms h)" and n: "checked_add (counter h) 1 = None"
    by (auto simp: tick_def Let_def split: if_splits option.splits)
  have "unat (counter h) < 2 ^ LENGTH(16)" by (rule unsigned_less)
  with n have "unat (counter h) = unat (- 1 :: u16)" 
    by (simp add: checked_add_def unsigned_minus_1_eq_mask mask_eq_exp_minus_1 split: if_splits)
  then have "counter h = - 1" by (simp only: word_unat_eq_iff)
  with e show ?thesis by simp
qed

lemma max_counter_less: "checked_add (max a b) 1 = Some c \<Longrightarrow> a < c \<and> b < c"
  using checked_add_1_less [of "max a b" c] by auto

lemma merge_Inr:
  assumes "merge h remote now = (h', Inr s)"
  shows "h < h' \<and> remote < h' \<and> s = h' \<and> device h' = device h \<and>
    wall_ms h' = max (max (wall_ms h) (wall_ms remote)) now \<and> (\<nexists>l. Skew_check (wall_ms remote) now = Ahead l)"
proof -
  let ?w = "max (max (wall_ms h) (wall_ms remote)) now"
  let ?c = "if ?w = wall_ms h \<and> ?w = wall_ms remote then checked_add (max (counter h) (counter remote)) 1
      else if ?w = wall_ms h then checked_add (counter h) 1
      else if ?w = wall_ms remote then checked_add (counter remote) 1 else Some 0"
  obtain c where c: "?c = Some c" and h': "h' = Hlc ?w c (device h)" "s = h'"
    and k: "\<nexists>l. Skew_check (wall_ms remote) now = Ahead l"
    using assms by (auto simp: merge_def Let_def split: skew.splits option.splits)
  have "wall_ms h \<le> ?w" "wall_ms remote \<le> ?w" by (simp_all add: le_max_iff_disj)
  moreover have "wall_ms h = ?w \<Longrightarrow> counter h < c" "wall_ms remote = ?w \<Longrightarrow> counter remote < c"
    using c max_counter_less [of "counter h" "counter remote" c] checked_add_1_less
    by (auto split: if_splits)
  ultimately have "h < h'" "remote < h'"
    unfolding hlc_less h' hlc.sel by (simp_all only: order.order_iff_strict) blast+
  with h' k show ?thesis by simp
qed

lemma merge_Inl: "merge h remote now = (h', Inl e) \<Longrightarrow> h' = h"
  by (auto simp: merge_def Let_def split: skew.splits option.splits)

datatype clock_event = Tick u64 | Receive hlc u64

fun clock_step :: "hlc \<Rightarrow> clock_event \<Rightarrow> hlc \<times> (hlc_error + hlc)" where
  "clock_step h (Tick now) = tick h now"
| "clock_step h (Receive remote now) = merge h remote now"

interpretation device_clock: monotone_clock clock_step
proof
  fix c e c' s
  show "clock_step c e = (c', Inr s) \<Longrightarrow> c < c' \<and> s = c'"
    by (cases e) (auto dest: tick_Inr merge_Inr)
next
  fix c e c' x
  show "clock_step c e = (c', Inl x) \<Longrightarrow> c' = c"
    by (cases e) (auto dest: tick_Inl merge_Inl)
qed

section \<open>Properties\<close>

text \<open>The stamps a device issues along a sequence of ticks and received stamps; a refused step issues none.\<close>

fun issued :: "hlc \<Rightarrow> clock_event list \<Rightarrow> hlc list" where
  "issued h [] = []"
| "issued h (e # es) =
     (case clock_step h e of (h', Inl _) \<Rightarrow> issued h' es | (h', Inr s) \<Rightarrow> s # issued h' es)"

lemma issued_run: "issued h es = snd (device_clock.run h es)"
  by (induction es arbitrary: h) (auto split: prod.splits sum.splits)

text \<open>C16: along any sequence of ticks and merged peer stamps, refused ones included, the stamps a device
  issues are strictly increasing, all later than the clock it started from.\<close>

theorem issued_stamps_increase: "sorted_wrt (<) (h # issued h events)"
  unfolding issued_run
  using device_clock.run_sorted [of h events] device_clock.run_after [of _ h events] by simp

text \<open>A merge that succeeds gives a stamp after both the clock and the peer's stamp, keeps the device,
  and cannot push the clock more than the skew bound past this device's own wall time.\<close>

theorem merge_dominates:
  assumes "merge h remote now = (h', Inr s)"
  shows "s = h' \<and> h < s \<and> remote < s \<and> device s = device h \<and>
    unat (wall_ms s) \<le> max (unat (wall_ms h)) (unat now + unat MAX_PEER_SKEW_AHEAD_MS)"
proof -
  note m = merge_Inr [OF assms]
  then have "\<not> saturating_sub (wall_ms remote) now > MAX_PEER_SKEW_AHEAD_MS"
    by (auto simp: Skew_check_def Let_def)
  then have "unat (wall_ms remote) - unat now \<le> unat MAX_PEER_SKEW_AHEAD_MS"
    by (simp add: word_less_nat_alt unat_saturating_sub)
  moreover have "unat (wall_ms h') = max (max (unat (wall_ms h)) (unat (wall_ms remote))) (unat now)"
    using m by (simp add: max_def word_le_nat_alt)
  ultimately show ?thesis using m by auto
qed

theorem merge_dominates_witness:
  "Hlc 10 3 1 < Hlc 10 6 1 \<and> Hlc 10 5 2 < Hlc 10 6 1"
proof -
  have "merge (Hlc 10 3 1) (Hlc 10 5 2) 7 = (Hlc 10 6 1, Inr (Hlc 10 6 1))"
    by (simp add: merge_def Skew_check_def saturating_sub_def checked_add_def MAX_PEER_SKEW_AHEAD_MS_def
        MAX_PEER_SKEW_BEHIND_MS_def Let_def max_def)
  from merge_dominates [OF this] show ?thesis by simp
qed

text \<open>A peer whose wall clock leads this device's by more than the bound is refused, and by no other
  peer is it; every refusal, like a counter overflow, leaves the clock as it was.\<close>

theorem merge_refuses_ahead:
  "(\<exists>p l b. snd (merge h remote now) = Inl (PeerAhead p l b)) =
     (unat (wall_ms remote) > unat now + unat MAX_PEER_SKEW_AHEAD_MS) \<and>
   fst (merge h remote now) = (case snd (merge h remote now) of Inl _ \<Rightarrow> h | Inr s \<Rightarrow> s)"
proof -
  have "(\<exists>p l b. snd (merge h remote now) = Inl (PeerAhead p l b)) \<longleftrightarrow> (\<exists>l. Skew_check (wall_ms remote) now = Ahead l)"
    by (auto simp: merge_def Let_def split: skew.splits option.splits)
  also have "\<dots> \<longleftrightarrow> saturating_sub (wall_ms remote) now > MAX_PEER_SKEW_AHEAD_MS"
    by (auto simp: Skew_check_def Let_def)
  also have "\<dots> \<longleftrightarrow> unat (wall_ms remote) > unat now + unat MAX_PEER_SKEW_AHEAD_MS"
    by (auto simp: word_less_nat_alt unat_saturating_sub)
  finally show ?thesis
    using merge_Inl [of h remote now] merge_Inr [of h remote now]
    by (cases "merge h remote now"; cases "snd (merge h remote now)") auto
qed

lemma word_less_succ: "w \<noteq> - 1 \<Longrightarrow> w < w + 1" for w :: "'a::len word"
proof -
  assume w: "w \<noteq> - 1"
  have "w + 1 \<noteq> 0" using w by (metis add_cancel_right_right add_eq_0_iff2 minus_unique)
  then have "unat (w + 1) = unat w + 1" using unatSuc [of w] by (simp add: add.commute)
  then show ?thesis by (simp only: word_less_nat_alt)
qed

lemma just_past_is_past:
  assumes "wall_ms f \<noteq> - 1"
  shows "is_past (just_past f t) f"
proof (cases "checked_add (counter f) 1")
  case None
  have "wall_ms f < wall_ms f + 1" using assms by (rule word_less_succ)
  with None show ?thesis by (simp add: is_past_def just_past_def)
next
  case (Some c)
  then show ?thesis using checked_add_1_less [OF Some] by (simp add: is_past_def just_past_def)
qed

text \<open>A local stamp in a document that holds a far peer stamp within a day's reach is moved past it:
  the result follows the floor by wall and counter, is no earlier than the tick, and is still this
  device's. (Outside the last representable millisecond, where the addition would wrap.)\<close>

theorem past_floor_passes:
  assumes "wall_ms f \<noteq> - 1" and "within_limit f now"
  shows "is_past (past_floor t (Some f) now) f \<and> t \<le> past_floor t (Some f) now \<and>
    device (past_floor t (Some f) now) = device t"
proof (cases "is_past t f")
  case True
  then show ?thesis by (simp add: past_floor_def)
next
  case False
  note p = just_past_is_past [OF assms(1), of t]
  have d: "device (just_past f t) = device t" by (auto simp: just_past_def split: option.split)
  have "t < just_past f t" using False p unfolding is_past_def hlc_less by auto
  with False assms(2) p d show ?thesis by (simp add: past_floor_def)
qed

theorem past_floor_passes_witness:
  "is_past (past_floor (Hlc 180000 0 1) (Some (Hlc 600000 3 2)) 180000) (Hlc 600000 3 2)"
proof -
  have "wall_ms (Hlc 600000 3 2) \<noteq> - 1" "within_limit (Hlc 600000 3 2) 180000"
    by (simp_all add: within_limit_def saturating_add_def FLOOR_LIMIT_MS_def)
  from past_floor_passes [OF this] show ?thesis by blast
qed

end
