(* ===== verification/Ops.thy ===== *)
theory Ops
  imports Edit Hlc
begin

text \<open>
  \<open>ids.rs\<close>, \<open>op.rs\<close> and \<open>tag_text.rs\<close> of \<open>txtodo-model\<close>: identifiers, workspace paths, the operations
  that devices exchange, and the text a \<open>RemoveTag\<close> operation leaves. Identifier newtypes are their
  128 bits. A Rust \<open>char\<close> in a field value is its UTF-8 encoding.
\<close>

section \<open>Identifiers and paths\<close>

type_synonym task_id = ulid
type_synonym op_id = ulid
type_synonym token_id = ulid
type_synonym file_path = string

definition FILE_PATH_MAX_BYTES :: nat where
  "FILE_PATH_MAX_BYTES = 1024"

datatype file_path_error = EmptyPath | TooLong nat | Malformed string

definition FilePath_new :: "string \<Rightarrow> file_path_error + file_path" where
  "FilePath_new path =
    (if path = [] then Inl EmptyPath
     else if length path > FILE_PATH_MAX_BYTES then Inl (TooLong (length path))
     else
       let bad_start = starts_with path ''/'' \<or> CHR 0x5C \<in> set path;
           bad_segment = list_ex (\<lambda>s. s = [] \<or> s = ''.'' \<or> s = ''..'') (split_on (\<lambda>c. c = CHR ''/'') path)
       in if bad_start \<or> bad_segment then Inl (Malformed path) else Inr path)"

section \<open>Operations\<close>

text \<open>Positions of text edits count characters; \<open>txtodo_core::TextEdit\<close> has the same shape, and the two
  conversions between them are the identity here.\<close>

datatype text_edit = TInsert (te_at: nat) string | TDelete (te_at: nat) nat

datatype field = FCompleted | FCompletionDate | FCreationDate | FPriority | FDeleted | FQuirks

datatype field_value =
    VBool bool
  | VDate "(nat \<times> nat \<times> nat) option"
  | VPriority "string option"
  | VQuirks quirks

datatype op_kind =
    OInsert task_id "task_id option" string
  | OSetField task_id field field_value
  | OEditText task_id "text_edit list"
  | OMove task_id "task_id option" file_path
  | ONotesEdit file_path "text_edit list"
  | OBlankInsert "task_id option"
  | OBlankRemove "task_id option"
  | ORemoveTag task_id string

datatype principal = User device_id | Agent token_id string device_id | External device_id

record op =
  o_id :: op_id
  o_hlc :: hlc
  o_principal :: principal
  o_file :: file_path
  o_kind :: op_kind

fun Principal_fmt :: "principal \<Rightarrow> string" where
  "Principal_fmt (User d) = ''you@'' @ Ulid_fmt d"
| "Principal_fmt (Agent _ name d) = ''agent:'' @ name @ ''@'' @ Ulid_fmt d"
| "Principal_fmt (External d) = ''external@'' @ Ulid_fmt d"

fun field_fits :: "field \<Rightarrow> field_value \<Rightarrow> bool" where
  "field_fits FCompleted (VBool _) = True"
| "field_fits FDeleted (VBool _) = True"
| "field_fits FCompletionDate (VDate _) = True"
| "field_fits FCreationDate (VDate _) = True"
| "field_fits FPriority (VPriority _) = True"
| "field_fits FQuirks (VQuirks _) = True"
| "field_fits _ _ = False"

text \<open>The error \<open>FieldMismatch\<close> carries the field.\<close>

definition set_field :: "task_id \<Rightarrow> field \<Rightarrow> field_value \<Rightarrow> field + op_kind" where
  "set_field t f v = (if \<not> field_fits f v then Inl f else Inr (OSetField t f v))"

definition ALL_QUIRKS :: "quirks list" where
  "ALL_QUIRKS = [NO_COMPLETION_DATE, PRIORITY_AFTER_X, PRIORITY_AFTER_DATE, TABS, TRAILING_WS, INVALID_REF,
     MIXED_ENDING, LEADING_WS]"

definition FieldValue_date :: "date option \<Rightarrow> field_value" where
  "FieldValue_date d = VDate (map_option (\<lambda>d. (year d, month d, day d)) d)"

definition FieldValue_priority :: "priority option \<Rightarrow> field_value" where
  "FieldValue_priority p = VPriority (map_option (\<lambda>p. [as_char p]) p)"

definition FieldValue_quirks :: "quirks \<Rightarrow> field_value" where
  "FieldValue_quirks q =
    VQuirks (fold (\<lambda>(i, _) m. m OR push_bit i 1) (filter (\<lambda>(_, f). q_has q f) (enumerate 0 ALL_QUIRKS)) 0)"

fun as_date :: "field_value \<Rightarrow> date option option" where
  "as_date (VDate None) = Some None"
| "as_date (VDate (Some (y, m, d))) = map_option Some (Date_new y m d)"
| "as_date _ = None"

fun as_quirks :: "field_value \<Rightarrow> quirks option" where
  "as_quirks (VQuirks bits) =
     Some (fold (\<lambda>(i, f) q. if bits AND push_bit i 1 \<noteq> 0 then q_insert q f else q) (enumerate 0 ALL_QUIRKS) Q_NONE)"
| "as_quirks _ = None"

section \<open>Removing a tag by name\<close>

definition valid_tag_key :: "string \<Rightarrow> bool" where
  "valid_tag_key key \<longleftrightarrow> key \<noteq> [] \<and> \<not> list_ex (\<lambda>b. b = CHR '' '' \<or> b = TAB \<or> b = CHR '':'') key"

definition tag_word :: "string \<Rightarrow> string \<Rightarrow> bool" where
  "tag_word key w =
    (case Option.bind (strip_prefix w key) (\<lambda>r. strip_prefix r '':'') of None \<Rightarrow> False | Some v \<Rightarrow> v \<noteq> [])"

fun find_word :: "(string \<Rightarrow> bool) \<Rightarrow> nat \<Rightarrow> string list \<Rightarrow> (nat \<times> nat) option" where
  "find_word P start [] = None"
| "find_word P start (w # ws) =
     (let e = start + length w in if P w then Some (start, e) else find_word P (e + 1) ws)"

definition tag_find :: "string \<Rightarrow> string \<Rightarrow> (nat \<times> nat) option" where
  "tag_find d key = (if \<not> valid_tag_key key then None else find_word (tag_word key) 0 (split_on is_ws d))"

definition remove_tag :: "string \<Rightarrow> string \<Rightarrow> string" where
  "remove_tag d key =
    (case tag_find d key of None \<Rightarrow> d
     | Some (s, e) \<Rightarrow>
         let (from, upto) =
           (if s > 0 \<and> d ! (s - 1) = CHR '' '' then (s - 1, e)
            else if get d e = Some (CHR '' '') then (s, e + 1)
            else (s, e))
         in take from d @ drop upto d)"

section \<open>Paths stay inside the workspace\<close>

text \<open>Where a relative path leads from a directory, segment by segment: the reading a file system gives
  it. \<open>None\<close> when it climbs above the root of the workspace.\<close>

fun walk_segments :: "string list \<Rightarrow> string list \<Rightarrow> string list option" where
  "walk_segments dir [] = Some dir"
| "walk_segments dir (s # ss) =
     (if s = [] \<or> s = ''.'' then walk_segments dir ss
      else if s = ''..'' then (case dir of [] \<Rightarrow> None | _ # up \<Rightarrow> walk_segments up ss)
      else walk_segments (s # dir) ss)"

lemma walk_plain:
  "list_all (\<lambda>s. s \<noteq> [] \<and> s \<noteq> ''.'' \<and> s \<noteq> ''..'') ss \<Longrightarrow> walk_segments dir ss = Some (rev ss @ dir)"
  by (induction ss arbitrary: dir) auto

lemma FilePath_new_Inr:
  "FilePath_new p = Inr f \<longleftrightarrow> f = p \<and> p \<noteq> [] \<and> length p \<le> FILE_PATH_MAX_BYTES \<and> \<not> starts_with p ''/'' \<and>
     CHR 0x5C \<notin> set p \<and> list_all (\<lambda>s. s \<noteq> [] \<and> s \<noteq> ''.'' \<and> s \<noteq> ''..'') (split_on (\<lambda>c. c = CHR ''/'') p)"
  by (auto simp: FilePath_new_def Let_def list_ex_iff list_all_iff)

text \<open>C40: a path a peer can name stays inside the workspace. Every path the boundary accepts leads, from
  any directory of the workspace, to one below it: its own segments, none of them lost.\<close>

theorem file_path_stays_inside:
  assumes "FilePath_new p = Inr f"
  shows "f = p \<and> walk_segments dir (split_on (\<lambda>c. c = CHR ''/'') f) = Some (rev (split_on (\<lambda>c. c = CHR ''/'') p) @ dir) \<and>
    hd p \<noteq> CHR ''/''"
proof -
  note p = assms [unfolded FilePath_new_Inr]
  have "hd p \<noteq> CHR ''/''" using p by (cases p) (auto simp: starts_with_def)
  with p show ?thesis by (simp add: walk_plain)
qed

theorem file_path_stays_inside_witness:
  "walk_segments [''w''] (split_on (\<lambda>c. c = CHR ''/'') ''a/todo.txt'') = Some [''todo.txt'', ''a'', ''w'']"
proof -
  have "FilePath_new ''a/todo.txt'' = Inr ''a/todo.txt''" by code_simp
  from file_path_stays_inside [OF this, of "[''w'']"] show ?thesis by simp
qed

section \<open>Field values\<close>

definition known_quirks :: "quirks \<Rightarrow> bool" where
  "known_quirks q \<longleftrightarrow> (\<forall>n. bit q n \<longrightarrow> n < 8)"

lemma q_has_bits: "q_has q r \<longleftrightarrow> (\<forall>n. bit r n \<longrightarrow> bit q n)"
proof
  assume "q_has q r"
  then have "q AND r = r" by (simp add: q_has_def)
  then show "\<forall>n. bit r n \<longrightarrow> bit q n" by (metis bit_and_iff)
next
  assume "\<forall>n. bit r n \<longrightarrow> bit q n"
  then show "q_has q r" unfolding q_has_def by (intro bit_eqI) (auto simp: bit_and_iff)
qed

lemma bit_flag: "bit (push_bit n 1 :: quirks) m \<longleftrightarrow> m = n \<and> m < 16"
  by (auto simp: bit_simps)

lemma bit_exp_flag: "bit (2 ^ n :: quirks) m \<longleftrightarrow> m = n \<and> m < 16"
  using bit_flag [of n m] by simp

lemma ALL_QUIRKS_bits: "enumerate 0 ALL_QUIRKS = map (\<lambda>n. (n, push_bit n 1)) [0..<8]"
  by (simp add: ALL_QUIRKS_def quirk_defs upt_rec)

lemma bit_fold_encode:
  "bit (fold (\<lambda>(i, _) m. m OR push_bit i 1) xs m0 :: quirks) n \<longleftrightarrow> bit m0 n \<or> n < 16 \<and> n \<in> fst ` set xs"
proof (induction xs arbitrary: m0)
  case (Cons x xs)
  obtain i y where "x = (i, y)" by (cases x)
  then show ?case using Cons.IH [of "m0 OR push_bit i 1"] by (simp add: bit_or_iff bit_exp_flag) blast
qed simp

lemma bit_fold_decode:
  "bit (fold (\<lambda>(i, f) q. if P i then q_insert q f else q) xs q0) n \<longleftrightarrow>
     bit q0 n \<or> (\<exists>(i, f) \<in> set xs. P i \<and> bit f n)"
proof (induction xs arbitrary: q0)
  case (Cons x xs)
  obtain i f where "x = (i, f)" by (cases x)
  then show ?case using Cons.IH [of "if P i then q_insert q0 f else q0"] by (auto simp: q_insert_def bit_or_iff)
qed simp

lemma quirks_roundtrip:
  assumes "known_quirks q"
  shows "as_quirks (FieldValue_quirks q) = Some q"
proof -
  define m where "m = fold (\<lambda>(i, _) m. m OR push_bit i 1) (filter (\<lambda>(_, f). q_has q f) (enumerate 0 ALL_QUIRKS)) (0 :: quirks)"
  have m: "bit m n \<longleftrightarrow> n < 8 \<and> bit q n" for n
    unfolding m_def bit_fold_encode ALL_QUIRKS_bits by (auto simp: q_has_bits bit_exp_flag image_iff)
  have hit: "m AND push_bit i 1 \<noteq> 0 \<longleftrightarrow> bit m i" for i
    unfolding bit_eq_iff [of "m AND push_bit i 1" 0] bit_and_iff bit_flag m by auto
  have "fold (\<lambda>(i, f) q. if m AND push_bit i 1 \<noteq> 0 then q_insert q f else q) (enumerate 0 ALL_QUIRKS) Q_NONE = q"
    unfolding hit ALL_QUIRKS_bits
    using assms by (intro bit_eqI) (auto simp: bit_fold_decode bit_exp_flag m Q_NONE_def known_quirks_def)
  then show ?thesis by (simp add: FieldValue_quirks_def m_def)
qed

text \<open>The quirks and dates of a line survive the trip through an operation's field value.\<close>

theorem field_value_roundtrip:
  assumes "known_quirks q" and "pred_option valid_date d"
  shows "as_quirks (FieldValue_quirks q) = Some q \<and> as_date (FieldValue_date d) = Some d"
proof
  show "as_quirks (FieldValue_quirks q) = Some q"
    by (rule quirks_roundtrip [OF assms(1)])
  show "as_date (FieldValue_date d) = Some d"
    using assms(2) by (cases d) (auto simp: FieldValue_date_def Date_new_Some valid_date_def)
qed

theorem field_value_roundtrip_witness:
  "as_quirks (FieldValue_quirks (q_insert TABS INVALID_REF)) = Some (q_insert TABS INVALID_REF)"
proof -
  have "known_quirks (q_insert TABS INVALID_REF)"
    unfolding known_quirks_def q_insert_def TABS_def INVALID_REF_def bit_or_iff bit_flag by auto
  then show ?thesis using field_value_roundtrip [of _ None] by simp
qed

section \<open>The two tag removals agree\<close>

lemma tag_word_iff: "tag_word k w \<longleftrightarrow> (\<exists>v. v \<noteq> [] \<and> w = k @ CHR '':'' # v)"
proof -
  have "Option.bind (strip_prefix w k) (\<lambda>r. strip_prefix r '':'') = Some v \<longleftrightarrow> w = k @ CHR '':'' # v" for v
    by (auto simp: bind_eq_Some_conv)
  then show ?thesis
    by (cases "Option.bind (strip_prefix w k) (\<lambda>r. strip_prefix r '':'')") (auto simp: tag_word_def)
qed

text \<open>For a key that is no URL scheme and opens no project or context, the classifier's view of a tag word
  is the plain one: the key, a colon, something after it.\<close>

lemma has_key_plain:
  assumes "plain_key k" and "k \<noteq> []" and "CHR '':'' \<notin> set k"
  shows "has_key k w \<longleftrightarrow> (\<exists>v. v \<noteq> [] \<and> w = k @ CHR '':'' # v)"
proof
  assume "has_key k w"
  then obtain v where t: "tag_of_word w = Some (k, v)" by (auto simp: has_key_def)
  show "\<exists>v. v \<noteq> [] \<and> w = k @ CHR '':'' # v"
  proof (cases "classify_word w DEFAULT_SCHEMES")
    case (WTag c)
    then have ts: "tag_split w = Some c" by (rule classify_word_Tag)
    have "take c w = k" using t WTag by (simp add: tag_of_word_def)
    then show ?thesis using tag_split_parts [OF ts] by metis
  next
    case WIdTag
    then obtain r where r: "w = ''id:'' @ r" "Ulid_parse r \<noteq> None"
      by (auto simp: classify_word_def bind_eq_Some_conv split: if_splits option.splits)
    then have "r \<noteq> []" by (auto simp: Ulid_parse_def ULID_LEN_def)
    moreover have "k = ''id''" using t WIdTag by (simp add: tag_of_word_def)
    ultimately show ?thesis using r by simp
  qed (use t in \<open>simp_all add: tag_of_word_def\<close>)
next
  assume "\<exists>v. v \<noteq> [] \<and> w = k @ CHR '':'' # v"
  then obtain v where v: "v \<noteq> []" "w = k @ '':'' @ v" by auto
  then have "tag_of_word w = Some (k, v)" using assms tag_of_colon_word by simp
  then show "has_key k w" by (auto simp: has_key_def)
qed

lemma ws_split_induct [case_names Word Blank]:
  assumes "\<And>x. \<forall>c \<in> set x. \<not> is_ws c \<Longrightarrow> P x"
    and "\<And>x c r. \<forall>c \<in> set x. \<not> is_ws c \<Longrightarrow> is_ws c \<Longrightarrow> P r \<Longrightarrow> P (x @ c # r)"
  shows "P d"
proof (induction d rule: length_induct)
  case (1 d)
  show ?case
  proof (cases "\<exists>c \<in> set d. is_ws c")
    case True
    then obtain x c r where "d = x @ c # r" "is_ws c" "\<forall>c \<in> set x. \<not> is_ws c"
      using split_list_first_prop [of d is_ws] by blast
    with 1 assms(2) show ?thesis by simp
  qed (use assms(1) in blast)
qed

lemma find_word_Some:
  assumes "find_word P n (split_on is_ws d) = Some (s, e)" and "\<not> P []"
  shows "\<exists>a w b. d = a @ w @ b \<and> word_at a w b \<and> s = n + length a \<and> e = s + length w \<and> P w \<and>
    (\<forall>u \<in> set (word_texts a). \<not> P u)"
  using assms(1)
proof (induction d arbitrary: n rule: ws_split_induct)
  case (Word x)
  then have "P x" "s = n" "e = n + length x" by (auto simp: split_on_none Let_def split: if_splits)
  moreover from this have "x \<noteq> []" using assms(2) by auto
  ultimately show ?case using Word(1) by (intro exI [of _ "[]"] exI [of _ x]) (simp add: word_at_def)
next
  case (Blank x c r)
  then have f: "(if P x then Some (n, n + length x) else find_word P (n + length x + 1) (split_on is_ws r)) = Some (s, e)"
    by (simp add: split_on_append split_on_none Let_def)
  show ?case
  proof (cases "P x")
    case True
    then have "x \<noteq> []" using assms(2) by auto
    then show ?thesis using True f Blank(1,2)
      by (intro exI [of _ "[]"] exI [of _ x] exI [of _ "c # r"]) (simp add: word_at_def)
  next
    case False
    then have "find_word P (n + length x + 1) (split_on is_ws r) = Some (s, e)" using f by simp
    from Blank.IH [OF this] obtain a w b where r: "r = a @ w @ b" "word_at a w b" "s = n + length x + 1 + length a" "e = s + length w"
      "P w" "\<forall>u \<in> set (word_texts a). \<not> P u" by blast
    have "word_at (x @ c # a) w b" using r(2) Blank(2) by (auto simp: word_at_def)
    moreover have "\<forall>u \<in> set (word_texts (x @ c # a)). \<not> P u"
      unfolding word_texts_ws [OF Blank(2)]
      using r(6) False Blank(1) word_texts_word [of x] by (cases "x = []") auto
    ultimately show ?thesis using r
      by (intro exI [of _ "x @ c # a"] exI [of _ w] exI [of _ b]) simp
  qed
qed

lemma find_word_None: "find_word P n ws = None \<longleftrightarrow> (\<forall>w \<in> set ws. \<not> P w)"
  by (induction ws arbitrary: n) (auto simp: Let_def)

lemma tag_find_plain:
  assumes "valid_tag_key k" and "plain_key k"
  shows "tag_find d k = find_tag d k"
proof -
  have k: "k \<noteq> []" "CHR '':'' \<notin> set k" using assms(1) by (auto simp: valid_tag_key_def list_ex_iff)
  have hk: "has_key k w \<longleftrightarrow> tag_word k w" for w
    using has_key_plain [OF assms(2) k] by (simp add: tag_word_iff)
  have ne: "\<not> tag_word k []" by (simp add: tag_word_iff)
  show ?thesis
  proof (cases "tag_find d k")
    case None
    then have "\<forall>w \<in> set (word_texts d). \<not> has_key k w"
      using assms(1) hk by (auto simp: tag_find_def find_word_None word_texts_split)
    with None show ?thesis using find_tag_None by metis
  next
    case (Some p)
    obtain s e where p: "p = (s, e)" by (cases p)
    with Some assms(1) have "find_word (tag_word k) 0 (split_on is_ws d) = Some (s, e)" by (simp add: tag_find_def)
    from find_word_Some [OF this ne] obtain a w b where "d = a @ w @ b" "word_at a w b" "s = length a"
      "e = length a + length w" "has_key k w" "\<forall>u \<in> set (word_texts a). \<not> has_key k u"
      unfolding hk by auto
    then show ?thesis using find_tag_at Some p by simp
  qed
qed

text \<open>A \<open>RemoveTag\<close> operation leaves the text the editor's own tag removal leaves, for every key a
  device may send that is neither a URL scheme nor opens a project or context (\<open>pri\<close> is one), so the
  device that made the edit and the ones that replay it agree.\<close>

theorem remove_tag_agrees:
  assumes "valid_tag_key k" and "plain_key k"
  shows "remove_tag d k = remove_tag_text d k"
  using tag_find_plain [OF assms]
  by (auto simp: remove_tag_def remove_tag_text_def replace_range_def split: option.split)

theorem remove_tag_agrees_witness:
  "remove_tag ''call pri:B mum'' ''pri'' = remove_tag_text ''call pri:B mum'' ''pri''"
proof -
  have "valid_tag_key ''pri''" "plain_key ''pri''" by code_simp+
  then show ?thesis by (rule remove_tag_agrees)
qed

end
