(* ===== verification/TextHistory.thy ===== *)
theory TextHistory
  imports Ops "HOL-Library.Multiset"
begin

text \<open>
  \<open>textedit.rs\<close> and \<open>text_history.rs\<close> of \<open>txtodo-engine\<close>: splices at character offsets, and the history
  that makes the edits of several devices converge. A history is a base text and the changes made on
  it, in stamp order; the text a device holds is always the replay of its history
  (\<open>holds\<close>), so two devices that took the same changes hold the same text.
\<close>

section \<open>Splices\<close>

definition MAX_TEXT_EDITS :: nat where
  "MAX_TEXT_EDITS = 10000"

record text_edit_error =
  tee_index :: nat
  tee_at :: nat
  tee_len :: nat

text \<open>The loop of \<open>apply_text_edits_core\<close> over the source's characters: \<open>out\<close> is the target so far and
  \<open>cursor\<close> the next character of the source not yet consumed. Offsets are machine integers in the
  source; a sum past their range is past the text too, so natural numbers refuse the same edits.\<close>

fun splice_loop :: "string list \<Rightarrow> nat \<Rightarrow> text_edit list \<Rightarrow> string list \<Rightarrow> nat \<Rightarrow> text_edit_error + string list" where
  "splice_loop src index [] out cursor = Inr (out @ drop cursor src)"
| "splice_loop src index (TDelete at len # es) out cursor =
    (if at + len \<le> length src \<and> at \<ge> cursor
     then splice_loop src (index + 1) es (out @ str_slice src cursor at) (at + len)
     else Inl \<lparr>tee_index = index, tee_at = at, tee_len = length src\<rparr>)"
| "splice_loop src index (TInsert at text # es) out cursor =
    (if length out \<le> at \<and> cursor + (at - length out) \<le> length src
     then let e = cursor + (at - length out) in
       splice_loop src (index + 1) es (out @ str_slice src cursor e @ chars text) e
     else Inl \<lparr>tee_index = index, tee_at = at, tee_len = length src\<rparr>)"

definition apply_text_edits_core :: "string \<Rightarrow> text_edit list \<Rightarrow> text_edit_error + string" where
  "apply_text_edits_core source edits =
    (case splice_loop (chars source) 0 (take MAX_TEXT_EDITS edits) [] 0 of
       Inl e \<Rightarrow> Inl e | Inr out \<Rightarrow> Inr (concat out))"

definition apply_text_edits :: "string \<Rightarrow> text_edit list \<Rightarrow> text_edit_error + string" where
  "apply_text_edits source edits = apply_text_edits_core source edits"

definition apply_notes_edits :: "string \<Rightarrow> text_edit list \<Rightarrow> text_edit_error + string" where
  "apply_notes_edits source edits = apply_text_edits_core source edits"

section \<open>Priority tags in a text\<close>

definition is_pri :: "string \<Rightarrow> bool" where
  "is_pri word \<longleftrightarrow> length word > length ''pri:'' \<and> starts_with word ''pri:''"

definition has_pri :: "string \<Rightarrow> bool" where
  "has_pri text \<longleftrightarrow> list_ex is_pri (split_on (\<lambda>c. c = CHR '' '') text)"

definition set_pri :: "string \<Rightarrow> string \<Rightarrow> bool \<Rightarrow> string" where
  "set_pri text letter add =
    (case find_word is_pri 0 (split_on (\<lambda>c. c = CHR '' '') text) of
       Some (s, e) \<Rightarrow> take s text @ ''pri:'' @ letter @ drop e text
     | None \<Rightarrow>
         if \<not> add then text
         else if text = [] then ''pri:'' @ letter
         else text @ '' pri:'' @ letter)"

section \<open>The history of a text\<close>

definition MAX_EDITS_PER_TASK :: nat where
  "MAX_EDITS_PER_TASK = 64"

definition MAX_EDITS_PER_NOTES :: nat where
  "MAX_EDITS_PER_NOTES = 256"

type_synonym apply_edits = "string \<Rightarrow> text_edit list \<Rightarrow> text_edit_error + string"

datatype change = Splice "text_edit list" | Pri string | DropTag string

fun change_on :: "apply_edits \<Rightarrow> change \<Rightarrow> string \<Rightarrow> text_edit_error + string" where
  "change_on app (Splice edits) text = app text edits"
| "change_on app (Pri letter) text = Inr (set_pri text letter True)"
| "change_on app (DropTag key) text = Inr (remove_tag text key)"

record text_history =
  h_base :: string
  h_since :: hlc
  h_edits :: "(hlc \<times> change) list"

definition TextHistory_new :: "string \<Rightarrow> text_history" where
  "TextHistory_new base = \<lparr>h_base = base, h_since = Hlc_zero 0, h_edits = []\<rparr>"

text \<open>A change that no longer fits is skipped.\<close>

definition change_or_skip :: "apply_edits \<Rightarrow> hlc \<times> change \<Rightarrow> string \<Rightarrow> string" where
  "change_or_skip app hc text = (case change_on app (snd hc) text of Inl _ \<Rightarrow> text | Inr t \<Rightarrow> t)"

definition replay :: "apply_edits \<Rightarrow> text_history \<Rightarrow> string" where
  "replay app h = fold (change_or_skip app) (h_edits h) (h_base h)"

text \<open>\<open>trim\<close>: the loop drops one edit per turn.\<close>

function trim :: "apply_edits \<Rightarrow> nat \<Rightarrow> text_history \<Rightarrow> text_history" where
  "trim app mx h =
    (if length (h_edits h) \<le> mx then h
     else case h_edits h of [] \<Rightarrow> h
       | e # es \<Rightarrow> trim app mx (h\<lparr>h_base := change_or_skip app e (h_base h), h_edits := es\<rparr>))"
  by pat_completeness auto
termination
  by (relation "measure (\<lambda>(_, _, h). length (h_edits h))") auto

declare trim.simps [simp del]

text \<open>\<open>partition_point\<close> searches by halving; on a list in stamp order it is the number of leading
  entries not newer than the stamp.\<close>

definition record_change ::
    "apply_edits \<times> nat \<Rightarrow> string \<Rightarrow> hlc \<Rightarrow> change \<Rightarrow> text_history \<Rightarrow> text_history \<times> (text_edit_error + string)" where
  "record_change how current stamp change h =
    (let (app, mx) = how in
     if stamp < h_since h then (h, Inr current)
     else
       let late = (h_edits h \<noteq> [] \<and> fst (last (h_edits h)) > stamp) in
       if late then
         let at = length (takeWhile (\<lambda>(s, _). s \<le> stamp) (h_edits h));
             h1 = h\<lparr>h_edits := take at (h_edits h) @ (stamp, change) # drop at (h_edits h)\<rparr>
         in (trim app mx h1, Inr (replay app h1))
       else case change_on app change current of
         Inl e \<Rightarrow> (h, Inl e)
       | Inr next \<Rightarrow> (trim app mx (h\<lparr>h_edits := h_edits h @ [(stamp, change)]\<rparr>), Inr next))"

definition history_reset :: "apply_edits \<Rightarrow> string \<Rightarrow> hlc \<Rightarrow> text_history \<Rightarrow> text_history \<times> string" where
  "history_reset app text at h =
    (let h1 = (if at \<ge> h_since h
               then h\<lparr>h_base := text, h_since := at, h_edits := filter (\<lambda>(s, _). s > at) (h_edits h)\<rparr>
               else h)
     in (h1, replay app h1))"

definition history_apply ::
    "apply_edits \<times> nat \<Rightarrow> string \<Rightarrow> hlc \<Rightarrow> text_edit list \<Rightarrow> text_history \<Rightarrow> text_history \<times> (text_edit_error + string)" where
  "history_apply how current stamp edits h = record_change how current stamp (Splice edits) h"

definition history_set_pri ::
    "apply_edits \<times> nat \<Rightarrow> string \<Rightarrow> hlc \<Rightarrow> string \<Rightarrow> text_history \<Rightarrow> text_history \<times> string" where
  "history_set_pri how current stamp letter h =
    (case record_change how current stamp (Pri letter) h of
       (h1, Inr t) \<Rightarrow> (h1, t) | (h1, Inl _) \<Rightarrow> (h1, set_pri current letter True))"

definition history_remove_tag ::
    "apply_edits \<times> nat \<Rightarrow> string \<Rightarrow> hlc \<Rightarrow> string \<Rightarrow> text_history \<Rightarrow> text_history \<times> string" where
  "history_remove_tag how current stamp key h =
    (case record_change how current stamp (DropTag key) h of
       (h1, Inr t) \<Rightarrow> (h1, t) | (h1, Inl _) \<Rightarrow> (h1, remove_tag current key))"

definition swap_pri :: "apply_edits \<Rightarrow> string \<Rightarrow> text_history \<Rightarrow> text_history \<times> string option" where
  "swap_pri app letter h =
    (let h1 = h\<lparr>h_base := set_pri (h_base h) letter False,
                h_edits := map (\<lambda>(s, c). (s, case c of Pri _ \<Rightarrow> Pri letter | _ \<Rightarrow> c)) (h_edits h)\<rparr>;
         text = replay app h1
     in (h1, if set_pri text letter False = text then Some text else None))"

definition clear_pri :: "apply_edits \<Rightarrow> text_history \<Rightarrow> text_history \<times> string option" where
  "clear_pri app h =
    (let h1 = h\<lparr>h_base := remove_tag (h_base h) ''pri'',
                h_edits := filter (\<lambda>(_, c). case c of Pri _ \<Rightarrow> False | _ \<Rightarrow> True) (h_edits h)\<rparr>;
         text = replay app h1
     in (h1, if \<not> has_pri text then Some text else None))"

definition history_settle :: "hlc \<Rightarrow> hlc \<Rightarrow> text_history \<Rightarrow> text_history" where
  "history_settle scratch real h =
    h\<lparr>h_since := if h_since h = scratch then real else h_since h,
      h_edits := sort_key fst (map (\<lambda>(s, c). (if s = scratch then real else s, c)) (h_edits h))\<rparr>"

section \<open>The text held is the replay\<close>

lemma splice_empty: "apply_text_edits s [] = Inr s"
  by (simp add: apply_text_edits_def apply_text_edits_core_def)

definition stamps_sorted :: "text_history \<Rightarrow> bool" where
  "stamps_sorted h \<longleftrightarrow> sorted (map fst (h_edits h))"

text \<open>\<open>holds app h text\<close>: the history is in stamp order and \<open>text\<close> is what it rebuilds.\<close>

definition holds :: "apply_edits \<Rightarrow> text_history \<Rightarrow> string \<Rightarrow> bool" where
  "holds app h text \<longleftrightarrow> stamps_sorted h \<and> text = replay app h"

lemma replay_trim: "replay app (trim app mx h) = replay app h"
proof (induction app mx h rule: trim.induct)
  case (1 app mx h)
  show ?case
  proof (cases "length (h_edits h) \<le> mx \<or> h_edits h = []")
    case True
    then show ?thesis by (subst trim.simps) (auto split: list.splits)
  next
    case False
    then obtain e es where e: "h_edits h = e # es" by (cases "h_edits h") auto
    then have "trim app mx h = trim app mx (h\<lparr>h_base := change_or_skip app e (h_base h), h_edits := es\<rparr>)"
      using False by (subst trim.simps) simp
    moreover have "replay app (h\<lparr>h_base := change_or_skip app e (h_base h), h_edits := es\<rparr>) = replay app h"
      using e by (simp add: replay_def)
    ultimately show ?thesis using 1 e False by simp
  qed
qed

lemma stamps_sorted_trim: "stamps_sorted h \<Longrightarrow> stamps_sorted (trim app mx h)"
proof (induction app mx h rule: trim.induct)
  case (1 app mx h)
  then show ?case by (subst trim.simps) (auto simp: stamps_sorted_def split: list.split)
qed

lemma trim_bound: "length (h_edits (trim app mx h)) \<le> mx"
proof (induction app mx h rule: trim.induct)
  case (1 app mx h)
  then show ?case by (subst trim.simps) (auto split: list.split)
qed

lemma trim_short: "length (h_edits h) \<le> mx \<Longrightarrow> trim app mx h = h"
  by (subst trim.simps) simp

lemma holds_trim: "holds app h text \<Longrightarrow> holds app (trim app mx h) text"
  by (simp add: holds_def replay_trim stamps_sorted_trim)

lemma holds_new: "holds app (TextHistory_new base) base"
  by (simp add: holds_def TextHistory_new_def stamps_sorted_def replay_def)

lemma sorted_insert_at:
  assumes "sorted (map fst xs)"
  shows "sorted (map fst (take (length (takeWhile (\<lambda>(s, _). s \<le> st) xs)) xs @ (st, c) #
     drop (length (takeWhile (\<lambda>(s, _). s \<le> st) xs)) xs))"
proof -
  let ?P = "\<lambda>(s, _). s \<le> st"
  define tw dw where "tw = takeWhile ?P xs" and "dw = dropWhile ?P xs"
  have t: "take (length (takeWhile ?P xs)) xs = tw" "drop (length (takeWhile ?P xs)) xs = dw"
    unfolding tw_def dw_def using takeWhile_eq_take [of ?P xs] dropWhile_eq_drop [of ?P xs] by (simp_all only:)
  have s: "sorted (map fst (tw @ dw))" using assms by (simp add: tw_def dw_def)
  have "\<forall>x \<in> set dw. st \<le> fst x"
  proof (cases dw)
    case (Cons y ys)
    then have "\<not> ?P y" unfolding dw_def by (metis hd_dropWhile list.sel(1) list.distinct(1))
    moreover have "\<forall>x \<in> set ys. fst y \<le> fst x" using s Cons by (auto simp: sorted_append)
    ultimately show ?thesis using Cons by (auto simp: case_prod_beta)
  qed simp
  moreover have "\<forall>x \<in> set tw. fst x \<le> st" unfolding tw_def by (auto dest: set_takeWhileD)
  ultimately show ?thesis unfolding t using s by (auto simp: sorted_append)
qed

lemma record_change_holds:
  assumes "holds app h current" and "record_change (app, mx) current st c h = (h', Inr text)"
  shows "holds app h' text"
proof (cases "st < h_since h")
  case True
  with assms show ?thesis by (simp add: record_change_def)
next
  case since: False
  let ?n = "length (takeWhile (\<lambda>(s, _). s \<le> st) (h_edits h))"
  show ?thesis
  proof (cases "h_edits h \<noteq> [] \<and> fst (last (h_edits h)) > st")
    case True
    let ?h = "h\<lparr>h_edits := take ?n (h_edits h) @ (st, c) # drop ?n (h_edits h)\<rparr>"
    have "h' = trim app mx ?h" "text = replay app ?h"
      using assms(2) since True by (auto simp: record_change_def Let_def)
    moreover have "holds app ?h (replay app ?h)"
      using assms(1) sorted_insert_at [of "h_edits h" st c] by (simp add: holds_def stamps_sorted_def)
    ultimately show ?thesis by (simp add: holds_trim)
  next
    case False
    let ?h = "h\<lparr>h_edits := h_edits h @ [(st, c)]\<rparr>"
    have r: "h' = trim app mx ?h" "change_on app c current = Inr text"
      using assms(2) since False by (auto simp: record_change_def Let_def split: sum.splits)
    have "\<forall>x \<in> set (h_edits h). fst x \<le> st"
    proof (cases "h_edits h" rule: rev_cases)
      case (snoc xs x)
      with False assms(1) show ?thesis by (auto simp: holds_def stamps_sorted_def sorted_append)
    qed simp
    then have "stamps_sorted ?h" using assms(1) by (auto simp: holds_def stamps_sorted_def sorted_append)
    moreover have "replay app ?h = text"
      using assms(1) r(2) by (simp add: holds_def replay_def change_or_skip_def)
    ultimately have "holds app ?h text" by (simp add: holds_def)
    then show ?thesis using r(1) by (simp add: holds_trim)
  qed
qed

lemma record_change_Inl: "record_change how current st c h = (h', Inl e) \<Longrightarrow> h' = h"
  by (auto simp: record_change_def Let_def split: prod.splits if_splits sum.splits)

section \<open>Texts stay valid UTF-8\<close>

text \<open>The texts an edit list inserts are Rust strings, so valid UTF-8; splicing them keeps a text valid.\<close>

fun texts_ok :: "text_edit list \<Rightarrow> bool" where
  "texts_ok [] \<longleftrightarrow> True"
| "texts_ok (TInsert at text # es) \<longleftrightarrow> utf8_valid text \<and> texts_ok es"
| "texts_ok (TDelete at len # es) \<longleftrightarrow> texts_ok es"

lemma texts_ok_append [simp]: "texts_ok (es @ fs) \<longleftrightarrow> texts_ok es \<and> texts_ok fs"
  by (induction es rule: texts_ok.induct) auto

lemma list_all_slice: "list_all P s \<Longrightarrow> list_all P (str_slice s a b)"
  by (auto simp: str_slice_def list_all_iff dest!: in_set_takeD in_set_dropD)

lemma splice_loop_chars:
  "splice_loop src i es out cur = Inr res \<Longrightarrow> texts_ok es \<Longrightarrow> list_all utf8_char src \<Longrightarrow> list_all utf8_char out \<Longrightarrow>
   list_all utf8_char res"
proof (induction src i es out cur rule: splice_loop.induct)
  case (1 src index out cursor)
  then show ?case using list_all_append [of utf8_char "take cursor src" "drop cursor src"] by auto
next
  case (2 src index at len es out cursor)
  then show ?case using list_all_slice [of utf8_char src cursor at] by (auto split: if_splits)
next
  case (3 src index at w es out cursor)
  then show ?case
    using list_all_slice [of utf8_char src cursor "cursor + (at - length out)"] utf8_valid_chars [of w]
    by (auto simp: Let_def split: if_splits)
qed

lemma texts_ok_take: "texts_ok es \<Longrightarrow> texts_ok (take n es)"
  by (metis append_take_drop_id texts_ok_append)

lemma splice_valid: "apply_text_edits_core s es = Inr t \<Longrightarrow> texts_ok es \<Longrightarrow> utf8_valid s \<Longrightarrow> utf8_valid t"
  using splice_loop_chars [of "chars s" 0 "take MAX_TEXT_EDITS es" "[]" 0] texts_ok_take utf8_valid_chars utf8_valid_concat
  by (auto simp: apply_text_edits_core_def split: sum.splits)

section \<open>Arrival order does not matter\<close>

text \<open>The contract of a replicated log: accepting an entry adds it to the entries kept, which stay in key
  order, and what is shown is rebuilt from them. Any two replicas that accepted the same entries
  then show the same, whatever order the entries came in.\<close>

locale arrival_order_free =
  fixes inv :: "'h \<Rightarrow> bool" and accept :: "'e \<Rightarrow> 'h \<Rightarrow> 'h option" and entries :: "'h \<Rightarrow> 'e list"
    and key :: "'e \<Rightarrow> 'k::linorder" and view :: "'h \<Rightarrow> 'v" and rebuild :: "'e list \<Rightarrow> 'v" and room :: nat
  assumes accept_inv: "inv h \<Longrightarrow> length (entries h) < room \<Longrightarrow> accept e h = Some h' \<Longrightarrow> inv h'"
    and accept_adds: "inv h \<Longrightarrow> length (entries h) < room \<Longrightarrow> accept e h = Some h' \<Longrightarrow>
      mset (entries h') = add_mset e (mset (entries h))"
    and inv_sorted: "inv h \<Longrightarrow> sorted (map key (entries h))"
    and inv_view: "inv h \<Longrightarrow> view h = rebuild (entries h)"
begin

fun accept_all :: "'e list \<Rightarrow> 'h \<Rightarrow> 'h option" where
  "accept_all [] h = Some h"
| "accept_all (e # es) h = Option.bind (accept e h) (accept_all es)"

lemma accept_all_entries:
  "inv h \<Longrightarrow> length (entries h) + length es \<le> room \<Longrightarrow> accept_all es h = Some h' \<Longrightarrow>
     inv h' \<and> mset (entries h') = mset (entries h) + mset es"
proof (induction es arbitrary: h)
  case (Cons e es)
  then obtain h1 where h1: "accept e h = Some h1" "accept_all es h1 = Some h'"
    by (auto simp: bind_eq_Some_conv)
  have m: "inv h1" "mset (entries h1) = add_mset e (mset (entries h))"
    using Cons.prems h1 accept_inv accept_adds by auto
  then have "length (entries h1) = Suc (length (entries h))" by (metis size_add_mset size_mset)
  then show ?case using Cons.IH [OF m(1) _ h1(2)] Cons.prems(2) m(2) by simp
qed simp

lemma accept_all_converge:
  assumes "inv h" and "entries h = []" and "mset es = mset fs" and "distinct (map key es)"
    and "length es \<le> room" and "accept_all es h = Some h1" and "accept_all fs h = Some h2"
  shows "entries h1 = entries h2" and "view h1 = view h2"
proof -
  have "length fs = length es" using assms(3) mset_eq_length by metis
  then have r: "inv h1" "mset (entries h1) = mset es" "inv h2" "mset (entries h2) = mset es"
    using accept_all_entries [OF assms(1) _ assms(6)] accept_all_entries [OF assms(1) _ assms(7)] assms(2,3,5)
    by auto
  have d: "distinct (map key xs)" "set xs = set es" if "mset xs = mset es" for xs
    using that assms(4) by (metis distinct_map mset_eq_imp_distinct_iff mset_map) (metis set_mset_mset that)
  have "inj_on key (set (entries h1) \<union> set (entries h2))"
    using assms(4) d [OF r(2)] d [OF r(4)] by (simp add: distinct_map)
  then show e: "entries h1 = entries h2"
    using inv_sorted r d [OF r(2)] d [OF r(4)] by (intro map_sorted_distinct_set_unique [of key]) auto
  then show "view h1 = view h2" using inv_view r by simp
qed

end

text \<open>A text with its history, as a device keeps it.\<close>

definition begun :: "string \<Rightarrow> apply_edits \<Rightarrow> text_history \<times> string \<Rightarrow> bool" where
  "begun base app ht \<longleftrightarrow> h_base (fst ht) = base \<and> h_since (fst ht) = Hlc_zero 0 \<and> holds app (fst ht) (snd ht)"

definition take_change :: "apply_edits \<Rightarrow> nat \<Rightarrow> hlc \<times> change \<Rightarrow> text_history \<times> string \<Rightarrow> (text_history \<times> string) option" where
  "take_change app mx hc ht =
    (case record_change (app, mx) (snd ht) (fst hc) (snd hc) (fst ht) of
       (h, Inr t) \<Rightarrow> Some (h, t) | (_, Inl _) \<Rightarrow> None)"

lemma Hlc_zero_least: "Hlc_zero 0 \<le> h"
  by (cases h) (auto simp: less_eq_hlc_def hlc_key_def Hlc_zero_def)

lemma take_change_entries:
  assumes "begun base app ht" and "length (h_edits (fst ht)) < mx" and "take_change app mx hc ht = Some ht'"
  shows "begun base app ht' \<and> mset (h_edits (fst ht')) = add_mset hc (mset (h_edits (fst ht)))"
proof -
  obtain h t h' t' st c where p: "ht = (h, t)" "ht' = (h', t')" "hc = (st, c)" by (cases ht; cases ht'; cases hc)
  have r: "record_change (app, mx) t st c h = (h', Inr t')"
    using assms(3) p by (auto simp: take_change_def split: prod.splits sum.splits)
  let ?n = "length (takeWhile (\<lambda>(s, _). s \<le> st) (h_edits h))"
  have ns: "\<not> st < h_since h" using assms(1) p Hlc_zero_least [of st] by (simp add: begun_def)
  have ho: "holds app h t" using assms(1) p by (simp add: begun_def)
  have "\<exists>es. h' = h\<lparr>h_edits := es\<rparr> \<and> mset es = add_mset hc (mset (h_edits h))"
  proof (cases "h_edits h \<noteq> [] \<and> fst (last (h_edits h)) > st")
    case True
    have "mset (take ?n (h_edits h)) + mset (drop ?n (h_edits h)) = mset (h_edits h)"
      by (metis append_take_drop_id mset_append)
    then show ?thesis
      using r ns True assms(2) p
      by (intro exI [of _ "take ?n (h_edits h) @ (st, c) # drop ?n (h_edits h)"])
        (auto simp: record_change_def Let_def trim_short)
  next
    case False
    then show ?thesis
      using r ns assms(2) p
      by (intro exI [of _ "h_edits h @ [(st, c)]"])
        (auto simp: record_change_def Let_def trim_short split: sum.splits)
  qed
  moreover have "holds app h' t'" by (rule record_change_holds [OF ho r])
  ultimately show ?thesis using assms(1) p by (auto simp: begun_def)
qed

lemma history_log:
  "arrival_order_free (begun base app) (take_change app mx) (\<lambda>ht. h_edits (fst ht)) fst snd
     (\<lambda>es. fold (change_or_skip app) es base) mx"
proof (rule arrival_order_free.intro)
  fix h e h'
  assume "begun base app h" "length (h_edits (fst h)) < mx" "take_change app mx e h = Some h'"
  from take_change_entries [OF this]
  show "begun base app h'" "mset (h_edits (fst h')) = add_mset e (mset (h_edits (fst h)))" by simp_all
next
  fix h
  assume "begun base app h"
  then show "sorted (map fst (h_edits (fst h)))" "snd h = fold (change_or_skip app) (h_edits (fst h)) base"
    by (simp_all add: begun_def holds_def stamps_sorted_def replay_def)
qed

interpretation description_log: arrival_order_free "begun base apply_text_edits" "take_change apply_text_edits MAX_EDITS_PER_TASK"
  "\<lambda>ht. h_edits (fst ht)" fst snd "\<lambda>es. fold (change_or_skip apply_text_edits) es base" MAX_EDITS_PER_TASK for base
  by (rule history_log)

interpretation notes_log: arrival_order_free "begun base apply_notes_edits" "take_change apply_notes_edits MAX_EDITS_PER_NOTES"
  "\<lambda>ht. h_edits (fst ht)" fst snd "\<lambda>es. fold (change_or_skip apply_notes_edits) es base" MAX_EDITS_PER_NOTES for base
  by (rule history_log)

fun take_all :: "apply_edits \<Rightarrow> nat \<Rightarrow> (hlc \<times> change) list \<Rightarrow> text_history \<times> string \<Rightarrow> (text_history \<times> string) option" where
  "take_all app mx [] ht = Some ht"
| "take_all app mx (hc # hcs) ht = Option.bind (take_change app mx hc ht) (take_all app mx hcs)"

lemma take_all_description: "take_all apply_text_edits MAX_EDITS_PER_TASK es ht = description_log.accept_all es ht"
proof (induction es arbitrary: ht)
  case (Cons e es)
  then have "take_all apply_text_edits MAX_EDITS_PER_TASK es = description_log.accept_all es" by (rule ext)
  then show ?case by simp
qed simp

lemma begun_new: "begun base app (TextHistory_new base, base)"
  using holds_new [of app base] by (simp add: begun_def TextHistory_new_def)

text \<open>C11: edits of one description converge whatever order they arrive in. Two devices that start from the
  same text and take the same differently stamped changes, in any two orders and refusing none,
  within the number a history keeps, hold the same history and the same text.\<close>

theorem description_edits_converge:
  assumes "mset es = mset fs" and "distinct (map fst es)" and "length es \<le> MAX_EDITS_PER_TASK"
    and "take_all apply_text_edits MAX_EDITS_PER_TASK es (TextHistory_new base, base) = Some (h1, t1)"
    and "take_all apply_text_edits MAX_EDITS_PER_TASK fs (TextHistory_new base, base) = Some (h2, t2)"
  shows "t1 = t2 \<and> h_edits h1 = h_edits h2"
proof -
  have "begun base apply_text_edits (TextHistory_new base, base)" by (rule begun_new)
  moreover have "h_edits (fst (TextHistory_new base, base)) = []" by (simp add: TextHistory_new_def)
  ultimately show ?thesis
    using description_log.accept_all_converge [of base "(TextHistory_new base, base)" es fs "(h1, t1)" "(h2, t2)"]
      assms unfolding take_all_description by simp
qed

theorem description_edits_converge_witness:
  "\<exists>h1 h2 t. take_all apply_text_edits MAX_EDITS_PER_TASK
       [(Hlc 1 0 1, Splice [TInsert 0 ''b'']), (Hlc 2 0 2, Splice [TInsert 0 ''a''])] (TextHistory_new [], []) = Some (h1, t) \<and>
     take_all apply_text_edits MAX_EDITS_PER_TASK
       [(Hlc 2 0 2, Splice [TInsert 0 ''a'']), (Hlc 1 0 1, Splice [TInsert 0 ''b''])] (TextHistory_new [], []) = Some (h2, t)"
proof -
  let ?e = "(Hlc 1 0 1, Splice [TInsert 0 ''b''])" and ?f = "(Hlc 2 0 2, Splice [TInsert 0 ''a''])"
  have "take_all apply_text_edits MAX_EDITS_PER_TASK [?e, ?f] (TextHistory_new [], []) \<noteq> None"
    "take_all apply_text_edits MAX_EDITS_PER_TASK [?f, ?e] (TextHistory_new [], []) \<noteq> None" by code_simp+
  then obtain h1 t1 h2 t2 where r:
    "take_all apply_text_edits MAX_EDITS_PER_TASK [?e, ?f] (TextHistory_new [], []) = Some (h1, t1)"
    "take_all apply_text_edits MAX_EDITS_PER_TASK [?f, ?e] (TextHistory_new [], []) = Some (h2, t2)" by auto
  have "t1 = t2 \<and> h_edits h1 = h_edits h2"
    by (rule description_edits_converge [OF _ _ _ r]) (simp_all add: MAX_EDITS_PER_TASK_def)
  with r show ?thesis by blast
qed

text \<open>C36: a change recorded in a history, late or not, leaves the device holding exactly the text its history
  rebuilds, with at most the bounded number of edits kept; a refused change leaves the history alone.\<close>

theorem record_change_refines:
  assumes "holds app h current" and "record_change (app, mx) current st c h = (h', r)"
  shows "case r of Inl _ \<Rightarrow> h' = h | Inr text \<Rightarrow> holds app h' text \<and>
    (length (h_edits h) \<le> mx \<longrightarrow> length (h_edits h') \<le> mx)"
proof (cases r)
  case (Inl e)
  with assms(2) record_change_Inl show ?thesis by fastforce
next
  case (Inr new)
  have "length (h_edits h') \<le> mx" if "length (h_edits h) \<le> mx"
    using assms(2) that trim_bound by (auto simp: record_change_def Let_def split: if_splits sum.splits)
  with Inr show ?thesis using record_change_holds assms by auto
qed

theorem record_change_refines_witness:
  "\<exists>h' text. record_change (apply_text_edits, 64) ''ab'' (Hlc 3 0 1) (DropTag ''pri'') (TextHistory_new ''ab'') = (h', Inr text) \<and>
     holds apply_text_edits h' text"
proof -
  obtain h' r where r: "record_change (apply_text_edits, 64) ''ab'' (Hlc 3 0 1) (DropTag ''pri'') (TextHistory_new ''ab'') = (h', r)"
    by (cases "record_change (apply_text_edits, 64) ''ab'' (Hlc 3 0 1) (DropTag ''pri'') (TextHistory_new ''ab'')")
  have "\<exists>text. r = Inr text" using r by (auto simp: record_change_def TextHistory_new_def Let_def split: if_splits)
  with r record_change_refines [OF holds_new r] show ?thesis by auto
qed

section \<open>The priority tag\<close>

lemma is_pri_tag_word: "is_pri w \<longleftrightarrow> tag_word ''pri'' w"
proof -
  have "starts_with w ''pri:'' \<longleftrightarrow> (\<exists>v. w = ''pri:'' @ v)"
    by (metis append_eq_conv_conj append_take_drop_id starts_with_def)
  then show ?thesis by (auto simp: is_pri_def tag_word_iff)
qed

lemma split_on_no_tab: "TAB \<notin> set t \<Longrightarrow> split_on (\<lambda>c. c = CHR '' '') t = split_on is_ws t"
  by (induction t) (auto simp: is_ws_def)

text \<open>On a text without tabs, the tag a history sets for a completion is the one the line editor's
  tag setter writes, so a replay leaves the text the completing device showed.\<close>

theorem set_pri_agrees:
  assumes "TAB \<notin> set t"
  shows "set_pri t letter True = set_tag_text t ''pri'' letter"
proof -
  have "valid_tag_key ''pri''" "plain_key ''pri''" by code_simp+
  then have "find_tag t ''pri'' = tag_find t ''pri''" using tag_find_plain by metis
  also have "\<dots> = find_word is_pri 0 (split_on (\<lambda>c. c = CHR '' '') t)"
    using \<open>valid_tag_key ''pri''\<close> is_pri_tag_word
    by (simp add: tag_find_def split_on_no_tab [OF assms] ext [of is_pri "tag_word ''pri''"])
  finally show ?thesis
    by (auto simp: set_pri_def set_tag_text_def append_text_def replace_range_def Let_def split: option.split)
qed

theorem set_pri_agrees_witness: "set_pri ''call pri:B mum'' ''A'' True = set_tag_text ''call pri:B mum'' ''pri'' ''A''"
  by (rule set_pri_agrees) (simp add: TAB_def)

end
