(* ===== verification/DocState.thy ===== *)
theory DocState
  imports TextHistory
begin

text \<open>
  The sequence of one document: \<open>state.rs\<close> (its data, \<open>from_file\<close> and the queries), \<open>state_order.rs\<close>,
  \<open>state_ghosts.rs\<close>, \<open>state_rehome.rs\<close> and \<open>state_erase.rs\<close> of \<open>txtodo-engine\<close>. The state keeps five
  vectors in step, one slot per placement, and the list of the slots shown. \<open>cells\<close> reads the five
  vectors as one list; every operation on the vectors is an operation on it, which is how the
  invariant \<open>doc_ok\<close> is carried and how two placements are shown to commute. Assertions that only a
  debug build checks are not part of the definitions.
\<close>

section \<open>Data\<close>

definition MAX_LINES_PER_FILE :: nat where
  "MAX_LINES_PER_FILE = 1000000"

definition MAX_GHOSTS_PER_FILE :: nat where
  "MAX_GHOSTS_PER_FILE = 10000"

definition GHOSTS_AFTER_PRUNE :: nat where
  "GHOSTS_AFTER_PRUNE = MAX_GHOSTS_PER_FILE - MAX_GHOSTS_PER_FILE div 4"

datatype identity_mode = Tagged | Sidecar

datatype entry = ETask task_id owned_line | EBlank owned_line

fun entry_line :: "entry \<Rightarrow> owned_line" where
  "entry_line (ETask _ l) = l"
| "entry_line (EBlank l) = l"

fun entry_id :: "entry \<Rightarrow> task_id option" where
  "entry_id (ETask i _) = Some i"
| "entry_id (EBlank _) = None"

datatype state_error =
    MissingId nat
  | Opaque nat
  | UnknownTask task_id
  | IdMismatch task_id
  | TextError task_id text_edit_error
  | NoBlank "task_id option"
  | Unsupported string
  | TooManyLines nat

type_synonym parent = "(task_id \<times> hlc) option"

record life =
  died :: "hlc option"
  reborn :: "hlc option"

record doc_state =
  ds_path :: file_path
  ds_entries :: "entry list"
  ds_hidden :: "bool list"
  ds_visible :: "nat list"
  ds_stamps :: "hlc list"
  ds_parents :: "parent list"
  ds_erasers :: "bool list"
  ds_field_stamps :: "task_id \<times> field \<rightharpoonup> hlc"
  ds_text_history :: "task_id \<rightharpoonup> text_history"
  ds_life :: "task_id \<rightharpoonup> life"
  ds_bom :: bool
  ds_ending :: line_ending
  ds_trailing_newline :: bool
  ds_mode :: identity_mode

record spot =
  sp_at :: nat
  sp_parent :: parent

definition unplaced :: hlc where
  "unplaced = Hlc_zero 0"

definition scratch_stamp :: hlc where
  "scratch_stamp = Hlc (- 1) (- 1) (- 1)"

definition scratch_op :: "file_path \<Rightarrow> op_kind \<Rightarrow> op" where
  "scratch_op path kind =
    \<lparr>o_id = 0, o_hlc = scratch_stamp, o_principal = External 0, o_file = path, o_kind = kind\<rparr>"

text \<open>\<open>Iterator::max_by_key\<close> keeps the last of equal maxima, \<open>min_by_key\<close> the first of equal minima.\<close>

fun max_by_key :: "('a \<Rightarrow> 'k::linorder) \<Rightarrow> 'a list \<Rightarrow> 'a option" where
  "max_by_key k [] = None"
| "max_by_key k (x # xs) = (case max_by_key k xs of None \<Rightarrow> Some x | Some y \<Rightarrow> Some (if k x > k y then x else y))"

fun min_by_key :: "('a \<Rightarrow> 'k::linorder) \<Rightarrow> 'a list \<Rightarrow> 'a option" where
  "min_by_key k [] = None"
| "min_by_key k (x # xs) = (case min_by_key k xs of None \<Rightarrow> Some x | Some y \<Rightarrow> Some (if k y < k x then y else x))"

definition insert_at :: "nat \<Rightarrow> 'a \<Rightarrow> 'a list \<Rightarrow> 'a list" where
  "insert_at i x xs = take i xs @ x # drop i xs"

definition remove_at :: "nat \<Rightarrow> 'a list \<Rightarrow> 'a list" where
  "remove_at i xs = take i xs @ drop (i + 1) xs"

section \<open>The visible view\<close>

definition slots :: "doc_state \<Rightarrow> nat list" where
  "slots st = [0..<length (ds_entries st)]"

definition reindex :: "doc_state \<Rightarrow> doc_state" where
  "reindex st = st\<lparr>ds_visible := filter (\<lambda>s. \<not> ds_hidden st ! s) (slots st)\<rparr>"

definition ds_len :: "doc_state \<Rightarrow> nat" where
  "ds_len st = length (ds_visible st)"

definition ds_is_empty :: "doc_state \<Rightarrow> bool" where
  "ds_is_empty st \<longleftrightarrow> ds_visible st = []"

definition entry_at :: "doc_state \<Rightarrow> nat \<Rightarrow> entry option" where
  "entry_at st i = map_option (\<lambda>s. ds_entries st ! s) (get (ds_visible st) i)"

definition visible_entries :: "doc_state \<Rightarrow> entry list" where
  "visible_entries st = map (\<lambda>s. ds_entries st ! s) (ds_visible st)"

definition live_slot :: "doc_state \<Rightarrow> task_id \<Rightarrow> nat option" where
  "live_slot st i = List.find (\<lambda>s. \<not> ds_hidden st ! s \<and> entry_id (ds_entries st ! s) = Some i) (slots st)"

definition has_placement :: "doc_state \<Rightarrow> task_id \<Rightarrow> bool" where
  "has_placement st i \<longleftrightarrow> list_ex (\<lambda>e. entry_id e = Some i) (ds_entries st)"

definition line_of :: "doc_state \<Rightarrow> task_id \<Rightarrow> owned_line option" where
  "line_of st i = map_option (\<lambda>s. entry_line (ds_entries st ! s)) (live_slot st i)"

definition task_before :: "doc_state \<Rightarrow> nat \<Rightarrow> task_id option" where
  "task_before st i = find_map (\<lambda>s. entry_id (ds_entries st ! s)) (rev (take i (ds_visible st)))"

definition index_of :: "doc_state \<Rightarrow> task_id \<Rightarrow> nat option" where
  "index_of st i = find_index (\<lambda>s. entry_id (ds_entries st ! s) = Some i) (ds_visible st)"

definition task_lines :: "doc_state \<Rightarrow> (task_id \<times> owned_line) list" where
  "task_lines st = List.map_filter (\<lambda>e. map_option (\<lambda>i. (i, entry_line e)) (entry_id e)) (visible_entries st)"

definition indexed_entries :: "doc_state \<Rightarrow> (nat \<times> entry) list" where
  "indexed_entries st = enumerate 0 (visible_entries st)"

definition line_ids :: "doc_state \<Rightarrow> task_id option list" where
  "line_ids st = map entry_id (visible_entries st)"

definition ds_to_bytes :: "doc_state \<Rightarrow> string" where
  "ds_to_bytes st = to_bytes
    \<lparr>f_lines = map entry_line (visible_entries st), f_bom = ds_bom st, f_ending = ds_ending st,
     f_trailing_newline = ds_trailing_newline st\<rparr>"

definition replace_entry :: "nat \<Rightarrow> entry \<Rightarrow> doc_state \<Rightarrow> doc_state" where
  "replace_entry s e st = st\<lparr>ds_entries := (ds_entries st)[s := e]\<rparr>"

definition hide_entry :: "nat \<Rightarrow> doc_state \<Rightarrow> doc_state" where
  "hide_entry s st = reindex (st\<lparr>ds_hidden := (ds_hidden st)[s := True]\<rparr>)"

text \<open>Equality of states, as \<open>PartialEq\<close> has it: the document, not its merge metadata.\<close>

definition doc_eq :: "doc_state \<Rightarrow> doc_state \<Rightarrow> bool" where
  "doc_eq a b \<longleftrightarrow> ds_path a = ds_path b \<and> visible_entries a = visible_entries b \<and> ds_bom a = ds_bom b \<and>
     ds_ending a = ds_ending b \<and> ds_trailing_newline a = ds_trailing_newline b \<and> ds_mode a = ds_mode b"

section \<open>From a file\<close>

definition entry_of :: "nat \<Rightarrow> owned_line \<Rightarrow> task_id option \<Rightarrow> state_error + entry" where
  "entry_of index line i =
    (case ol_parse line of None \<Rightarrow> Inl (Opaque index)
     | Some parsed \<Rightarrow>
         case l_kind parsed of
           Blank \<Rightarrow> Inr (EBlank line)
         | TaskLine _ \<Rightarrow> (case i of None \<Rightarrow> Inl (MissingId index) | Some i \<Rightarrow> Inr (ETask i line)))"

fun entries_of :: "nat \<Rightarrow> owned_line list \<Rightarrow> task_id option list \<Rightarrow> state_error + entry list" where
  "entries_of index [] ids = Inr []"
| "entries_of index (l # ls) ids =
    (case entry_of index l (case ids of [] \<Rightarrow> None | i # _ \<Rightarrow> i) of
       Inl e \<Rightarrow> Inl e
     | Inr en \<Rightarrow> (case entries_of (index + 1) ls (tl ids) of Inl e \<Rightarrow> Inl e | Inr es \<Rightarrow> Inr (en # es)))"

definition from_file ::
    "file_path \<Rightarrow> todo_file \<Rightarrow> task_id option list \<Rightarrow> identity_mode \<Rightarrow> state_error + doc_state" where
  "from_file path file ids mode =
    (if length (f_lines file) > MAX_LINES_PER_FILE then Inl (TooManyLines (length (f_lines file)))
     else case entries_of 0 (f_lines file) ids of
       Inl e \<Rightarrow> Inl e
     | Inr es \<Rightarrow>
         let n = length es in
         Inr \<lparr>ds_path = path, ds_entries = es, ds_hidden = replicate n False, ds_visible = [0..<n],
              ds_stamps = replicate n unplaced, ds_parents = replicate n None, ds_erasers = replicate n False,
              ds_field_stamps = Map.empty, ds_text_history = Map.empty, ds_life = Map.empty,
              ds_bom = f_bom file, ds_ending = f_ending file,
              ds_trailing_newline = f_trailing_newline file, ds_mode = mode\<rparr>)"

text \<open>Whether a line is a completed task, the id a line's text carries, and the counts of a document.\<close>

definition line_completed :: "owned_line \<Rightarrow> bool" where
  "line_completed l = (case map_option l_kind (ol_parse l) of Some (TaskLine t) \<Rightarrow> completed t | _ \<Rightarrow> False)"

definition id_of :: "owned_line \<Rightarrow> task_id option" where
  "id_of l = Option.bind (ol_parse l) (\<lambda>p. case l_kind p of TaskLine t \<Rightarrow> task_ulid t | Blank \<Rightarrow> None)"

record task_counts =
  tc_total :: nat
  tc_completed :: nat

definition counts_of :: "doc_state \<Rightarrow> task_counts" where
  "counts_of st = fold (\<lambda>(_, l) c. c\<lparr>tc_total := tc_total c + 1,
      tc_completed := tc_completed c + (if line_completed l then 1 else 0)\<rparr>)
    (task_lines st) \<lparr>tc_total = 0, tc_completed = 0\<rparr>"

section \<open>Where a placement lands\<close>

definition insert_entry :: "spot \<Rightarrow> entry \<Rightarrow> hlc \<Rightarrow> doc_state \<Rightarrow> doc_state" where
  "insert_entry sp e h st = reindex (st\<lparr>
     ds_entries := insert_at (sp_at sp) e (ds_entries st),
     ds_stamps := insert_at (sp_at sp) h (ds_stamps st),
     ds_hidden := insert_at (sp_at sp) False (ds_hidden st),
     ds_parents := insert_at (sp_at sp) (sp_parent sp) (ds_parents st),
     ds_erasers := insert_at (sp_at sp) False (ds_erasers st)\<rparr>)"

definition anchor_slot :: "doc_state \<Rightarrow> task_id option \<Rightarrow> hlc \<Rightarrow> state_error + nat option" where
  "anchor_slot st after h =
    (case after of None \<Rightarrow> Inr None
     | Some i \<Rightarrow>
         let placements = filter (\<lambda>s. entry_id (ds_entries st ! s) = Some i) (slots st);
             not_newer = max_by_key (\<lambda>s. (ds_stamps st ! s, \<not> ds_hidden st ! s))
               (filter (\<lambda>s. ds_stamps st ! s \<le> h) placements);
             shown = List.find (\<lambda>s. \<not> ds_hidden st ! s) placements;
             oldest = min_by_key (\<lambda>s. ds_stamps st ! s) placements
         in case not_newer of Some s \<Rightarrow> Inr (Some s)
            | None \<Rightarrow> (case shown of Some s \<Rightarrow> Inr (Some s)
               | None \<Rightarrow> (case oldest of Some s \<Rightarrow> Inr (Some s) | None \<Rightarrow> Inl (UnknownTask i))))"

text \<open>The loop that moves a spot past the entries placed by a later op.\<close>

definition skip_newer :: "hlc list \<Rightarrow> nat \<Rightarrow> hlc \<Rightarrow> nat" where
  "skip_newer sts at h = at + length (takeWhile (\<lambda>p. p > h) (drop at sts))"

definition slot_after :: "doc_state \<Rightarrow> task_id option \<Rightarrow> hlc \<Rightarrow> state_error + spot" where
  "slot_after st after h =
    (case anchor_slot st after h of Inl e \<Rightarrow> Inl e
     | Inr anchor \<Rightarrow> Inr
         \<lparr>sp_at = skip_newer (ds_stamps st) (case anchor of None \<Rightarrow> 0 | Some s \<Rightarrow> s + 1) h,
          sp_parent = Option.bind anchor (\<lambda>s. map_option (\<lambda>i. (i, ds_stamps st ! s)) (entry_id (ds_entries st ! s)))\<rparr>)"

definition is_stale_move :: "doc_state \<Rightarrow> nat \<Rightarrow> hlc \<Rightarrow> bool" where
  "is_stale_move st i h \<longleftrightarrow> (case get (ds_stamps st) i of None \<Rightarrow> False | Some placed \<Rightarrow> placed > h)"

definition newest_stamp :: "doc_state \<Rightarrow> hlc option" where
  "newest_stamp st = max_by_key (\<lambda>h. h) (filter (\<lambda>p. p \<noteq> unplaced) (ds_stamps st))"

section \<open>A placement that lands late\<close>

definition follows_older :: "doc_state \<Rightarrow> nat \<Rightarrow> task_id \<Rightarrow> hlc \<Rightarrow> bool" where
  "follows_older st s t placed \<longleftrightarrow>
    (let mine = ds_stamps st ! s;
         older = (case ds_parents st ! s of Some (u, p) \<Rightarrow> u = t \<and> p < placed \<and> placed < mine | None \<Rightarrow> False)
     in older \<and> \<not> list_ex (\<lambda>q. entry_id (ds_entries st ! q) = Some t \<and> placed < ds_stamps st ! q \<and>
          ds_stamps st ! q < mine) (slots st))"

text \<open>The loop of \<open>block_end\<close>; \<open>members\<close> are the placements already in the block.\<close>

function block_loop :: "doc_state \<Rightarrow> (task_id \<times> hlc) list \<Rightarrow> nat \<Rightarrow> nat" where
  "block_loop st members e =
    (let ms = (case entry_id (ds_entries st ! e) of Some i \<Rightarrow> (i, ds_stamps st ! e) # members | None \<Rightarrow> members);
         in_block = (case get (ds_parents st) (e + 1) of Some (Some p) \<Rightarrow> p \<in> set ms | _ \<Rightarrow> False)
     in if in_block then block_loop st ms (e + 1) else e + 1)"
  by pat_completeness auto
termination
  by (relation "measure (\<lambda>(st, _, e). length (ds_parents st) - e)")
     (auto simp: get_def split: if_splits option.splits)

declare block_loop.simps [simp del]

definition block_end :: "doc_state \<Rightarrow> nat \<Rightarrow> nat" where
  "block_end st head = block_loop st [] head"

definition drain :: "nat \<Rightarrow> nat \<Rightarrow> 'a list \<Rightarrow> 'a list" where
  "drain a b xs = take a xs @ drop b xs"

definition splice_in :: "nat \<Rightarrow> 'a list \<Rightarrow> 'a list \<Rightarrow> 'a list" where
  "splice_in i ys xs = take i xs @ ys @ drop i xs"

definition move_block :: "nat \<Rightarrow> task_id \<Rightarrow> hlc \<Rightarrow> doc_state \<Rightarrow> doc_state \<times> bool" where
  "move_block head t placed st =
    (let e = block_end st head;
         found = List.find (\<lambda>s. entry_id (ds_entries st ! s) = Some t \<and> ds_stamps st ! s = placed) (slots st)
     in case found of None \<Rightarrow> (st, False)
        | Some anchor0 \<Rightarrow>
            if head \<le> anchor0 \<and> anchor0 < e then (st, False)
            else
              let anchor = (if anchor0 > head then anchor0 - (e - head) else anchor0);
                  at = skip_newer (drain head e (ds_stamps st)) (anchor + 1) (ds_stamps st ! head)
              in (reindex (st\<lparr>
                    ds_entries := splice_in at (str_slice (ds_entries st) head e) (drain head e (ds_entries st)),
                    ds_stamps := splice_in at (str_slice (ds_stamps st) head e) (drain head e (ds_stamps st)),
                    ds_hidden := splice_in at (str_slice (ds_hidden st) head e) (drain head e (ds_hidden st)),
                    ds_parents := splice_in at ((str_slice (ds_parents st) head e)[0 := Some (t, placed)])
                      (drain head e (ds_parents st)),
                    ds_erasers := splice_in at (str_slice (ds_erasers st) head e) (drain head e (ds_erasers st))\<rparr>), True))"

fun rehome_loop :: "nat \<Rightarrow> task_id \<Rightarrow> hlc \<Rightarrow> doc_state \<Rightarrow> doc_state" where
  "rehome_loop 0 t placed st = st"
| "rehome_loop (Suc n) t placed st =
    (case List.find (\<lambda>s. follows_older st s t placed) (rev (slots st)) of
       None \<Rightarrow> st
     | Some head \<Rightarrow>
         (case move_block head t placed st of
            (st', True) \<Rightarrow> rehome_loop n t placed st'
          | (st', False) \<Rightarrow> st'))"

definition rehome_onto :: "task_id \<Rightarrow> hlc \<Rightarrow> doc_state \<Rightarrow> doc_state" where
  "rehome_onto t placed st = rehome_loop (length (ds_entries st)) t placed st"

section \<open>Which blank an eraser hides\<close>

definition is_blank :: "doc_state \<Rightarrow> nat \<Rightarrow> bool" where
  "is_blank st s \<longleftrightarrow> (case ds_entries st ! s of EBlank _ \<Rightarrow> True | _ \<Rightarrow> False)"

text \<open>The loop of \<open>claim\<close> over the slots after the eraser.\<close>

fun claim_loop :: "doc_state \<Rightarrow> hlc \<Rightarrow> nat list \<Rightarrow> hlc option \<Rightarrow> nat list \<Rightarrow> nat option" where
  "claim_loop st mine taken oldest_between [] = None"
| "claim_loop st mine taken oldest_between (s # ss) =
    (if ds_erasers st ! s \<or> (ds_hidden st ! s \<and> \<not> is_blank st s) \<or> s \<in> set taken \<or> ds_stamps st ! s > mine
     then claim_loop st mine taken oldest_between ss
     else if is_blank st s then
       (if (case oldest_between of None \<Rightarrow> True | Some old \<Rightarrow> old > ds_stamps st ! s) then Some s else None)
     else claim_loop st mine taken
       (Some (case oldest_between of None \<Rightarrow> ds_stamps st ! s | Some o' \<Rightarrow> min o' (ds_stamps st ! s))) ss)"

definition claim :: "doc_state \<Rightarrow> nat \<Rightarrow> nat list \<Rightarrow> nat option" where
  "claim st eraser taken =
    claim_loop st (ds_stamps st ! eraser) taken None [eraser + 1..<length (ds_entries st)]"

text \<open>Each eraser's slot and the blank it claims; the blanks taken so far are the second components.\<close>

fun claims_loop :: "doc_state \<Rightarrow> (nat \<times> nat) list \<Rightarrow> nat list \<Rightarrow> (nat \<times> nat) list" where
  "claims_loop st cs [] = cs"
| "claims_loop st cs (s # ss) =
    (case claim st s (map snd cs) of
       None \<Rightarrow> claims_loop st cs ss
     | Some b \<Rightarrow> claims_loop st ((s, b) # cs) ss)"

definition claims :: "doc_state \<Rightarrow> (nat \<times> nat) list" where
  "claims st = claims_loop st [] (filter (\<lambda>s. ds_erasers st ! s) (slots st))"

definition settle_erasers :: "doc_state \<Rightarrow> doc_state" where
  "settle_erasers st =
    (if True \<notin> set (ds_erasers st) then st
     else
       let claimed = map snd (claims st);
           hidden = map (\<lambda>s. if is_blank st s \<and> \<not> ds_erasers st ! s then s \<in> set claimed else ds_hidden st ! s)
             (slots st);
           changed = list_ex (\<lambda>s. ds_hidden st ! s \<noteq> hidden ! s) (slots st);
           st1 = st\<lparr>ds_hidden := hidden\<rparr>
       in if changed then reindex st1 else st1)"

section \<open>Ghosts\<close>

text \<open>The loop of \<open>prune_ghosts_to\<close> that picks the slots to drop.\<close>

fun pick_drop :: "(nat \<times> nat) list \<Rightarrow> nat \<Rightarrow> nat list \<Rightarrow> nat list \<Rightarrow> nat list" where
  "pick_drop cs need dr [] = dr"
| "pick_drop cs need dr (s # ss) =
    (if length dr \<ge> need then dr
     else pick_drop cs need (dr @ s # (case map_of cs s of Some b \<Rightarrow> [b] | None \<Rightarrow> [])) ss)"

definition remove_slot :: "nat \<Rightarrow> doc_state \<Rightarrow> doc_state" where
  "remove_slot s st = st\<lparr>
     ds_entries := remove_at s (ds_entries st),
     ds_stamps := remove_at s (ds_stamps st),
     ds_hidden := remove_at s (ds_hidden st),
     ds_parents := remove_at s (ds_parents st),
     ds_erasers := remove_at s (ds_erasers st)\<rparr>"

definition present :: "doc_state \<Rightarrow> task_id list" where
  "present st = List.map_filter entry_id (ds_entries st)"

definition forget_absent :: "doc_state \<Rightarrow> doc_state" where
  "forget_absent st = st\<lparr>
     ds_field_stamps := (\<lambda>k. if fst k \<in> set (present st) then ds_field_stamps st k else None),
     ds_text_history := (\<lambda>t. if t \<in> set (present st) then ds_text_history st t else None),
     ds_life := (\<lambda>t. if t \<in> set (present st) then ds_life st t else None)\<rparr>"

definition prune_ghosts_to :: "nat \<Rightarrow> doc_state \<Rightarrow> doc_state" where
  "prune_ghosts_to mx st =
    (let ghosts = length (ds_entries st) - length (ds_visible st) in
     if ghosts \<le> mx then st
     else
       let cs = claims st;
           oldest = sort_key (\<lambda>s. ds_stamps st ! s)
             (filter (\<lambda>s. ds_hidden st ! s \<and> s \<notin> snd ` set cs) (slots st));
           dr = rev (sort (pick_drop cs (ghosts - mx) [] oldest))
       in reindex (forget_absent (fold remove_slot dr st)))"

definition prune_ghosts_past :: "nat \<Rightarrow> nat \<Rightarrow> doc_state \<Rightarrow> doc_state" where
  "prune_ghosts_past mx after st =
    (if length (ds_entries st) - length (ds_visible st) > mx then prune_ghosts_to after st else st)"

definition prune_ghosts :: "doc_state \<Rightarrow> doc_state" where
  "prune_ghosts st = prune_ghosts_past MAX_GHOSTS_PER_FILE GHOSTS_AFTER_PRUNE st"

text \<open>\<open>adopt_sequence\<close>: \<open>zip\<close> pairs the shown slots of the replay with this state's.\<close>

definition adopt_sequence :: "doc_state \<Rightarrow> doc_state \<Rightarrow> doc_state \<times> bool" where
  "adopt_sequence replayed st =
    (if line_ids st \<noteq> line_ids replayed then (st, False)
     else
       (reindex (st\<lparr>
          ds_entries := fold (\<lambda>(theirs, mine) es. es[theirs := ds_entries st ! mine])
            (zip (ds_visible replayed) (ds_visible st)) (ds_entries replayed),
          ds_stamps := ds_stamps replayed,
          ds_hidden := ds_hidden replayed,
          ds_parents := ds_parents replayed,
          ds_erasers := ds_erasers replayed\<rparr>), True))"

end
