(* ===== verification/DocApply.thy ===== *)
theory DocApply
  imports DocState
begin

text \<open>
  What an operation does to a document: the field and text operations of \<open>fields.rs\<close>, the insert again of
  \<open>state_reinsert.rs\<close>, the merge metadata of \<open>state_order.rs\<close>, \<open>DocState::apply\<close> of \<open>state.rs\<close> and the
  batch application of \<open>apply.rs\<close>. Every operation returns the state after it and a result, so what a
  refused operation leaves behind is part of the model.
\<close>

type_synonym outcome = "doc_state \<times> (state_error + unit)"

section \<open>Merge metadata\<close>

definition is_stale_field :: "doc_state \<Rightarrow> task_id \<Rightarrow> field \<Rightarrow> hlc \<Rightarrow> bool" where
  "is_stale_field st t f h \<longleftrightarrow> (case ds_field_stamps st (t, f) of None \<Rightarrow> False | Some set_at \<Rightarrow> set_at > h)"

definition record_field :: "task_id \<Rightarrow> field \<Rightarrow> hlc \<Rightarrow> doc_state \<Rightarrow> doc_state" where
  "record_field t f h st = st\<lparr>ds_field_stamps := (ds_field_stamps st)((t, f) \<mapsto> h)\<rparr>"

definition forget_text :: "task_id \<Rightarrow> doc_state \<Rightarrow> doc_state" where
  "forget_text t st = st\<lparr>ds_text_history := (ds_text_history st)(t := None)\<rparr>"

definition text_history_of :: "doc_state \<Rightarrow> task_id \<Rightarrow> text_history option" where
  "text_history_of st t = ds_text_history st t"

definition restore_text :: "task_id \<Rightarrow> text_history option \<Rightarrow> doc_state \<Rightarrow> doc_state" where
  "restore_text t saved st = st\<lparr>ds_text_history := (ds_text_history st)(t := saved)\<rparr>"

text \<open>\<open>text_history.entry(task).or_insert_with(..)\<close>, and putting the changed history back.\<close>

definition history_or_new :: "doc_state \<Rightarrow> task_id \<Rightarrow> string \<Rightarrow> text_history" where
  "history_or_new st t current = (case ds_text_history st t of Some h \<Rightarrow> h | None \<Rightarrow> TextHistory_new current)"

definition put_history :: "task_id \<Rightarrow> text_history \<Rightarrow> doc_state \<Rightarrow> doc_state" where
  "put_history t h st = st\<lparr>ds_text_history := (ds_text_history st)(t \<mapsto> h)\<rparr>"

definition how_task :: "apply_edits \<times> nat" where
  "how_task = (apply_text_edits, MAX_EDITS_PER_TASK)"

definition edit_description ::
    "task_id \<Rightarrow> string \<Rightarrow> hlc \<Rightarrow> text_edit list \<Rightarrow> doc_state \<Rightarrow> doc_state \<times> (text_edit_error + string)" where
  "edit_description t current h edits st =
    (let (hist, r) = history_apply how_task current h edits (history_or_new st t current)
     in (put_history t hist st, r))"

definition set_pri_in_description ::
    "task_id \<Rightarrow> string \<Rightarrow> hlc \<Rightarrow> string \<times> bool \<Rightarrow> doc_state \<Rightarrow> doc_state \<times> string option" where
  "set_pri_in_description t current h pri st =
    (let (letter, add) = pri; hist = history_or_new st t current in
     if add then let (hist', text) = history_set_pri how_task current h letter hist in (put_history t hist' st, Some text)
     else let (hist', r) = swap_pri apply_text_edits letter hist in (put_history t hist' st, r))"

definition clear_pri_in_description :: "task_id \<Rightarrow> string \<Rightarrow> doc_state \<Rightarrow> doc_state \<times> string" where
  "clear_pri_in_description t current st =
    (case clear_pri apply_text_edits (history_or_new st t current) of
       (hist, Some text) \<Rightarrow> (put_history t hist st, text)
     | (hist, None) \<Rightarrow> (forget_text t st, remove_tag current ''pri''))"

definition remove_tag_in_description ::
    "task_id \<Rightarrow> string \<Rightarrow> hlc \<Rightarrow> string \<Rightarrow> doc_state \<Rightarrow> doc_state \<times> string" where
  "remove_tag_in_description t current h key st =
    (let (hist, text) = history_remove_tag how_task current h key (history_or_new st t current)
     in (put_history t hist st, text))"

definition settle_stamp :: "hlc \<Rightarrow> hlc \<Rightarrow> hlc \<Rightarrow> hlc" where
  "settle_stamp scratch real s = (if s = scratch then real else s)"

definition settle_life :: "hlc \<Rightarrow> hlc \<Rightarrow> doc_state \<Rightarrow> doc_state" where
  "settle_life scratch real st = st\<lparr>ds_life := (\<lambda>t. map_option (\<lambda>l.
     l\<lparr>died := map_option (settle_stamp scratch real) (died l),
       reborn := map_option (settle_stamp scratch real) (reborn l)\<rparr>) (ds_life st t))\<rparr>"

definition settle_scratch_stamps :: "hlc \<Rightarrow> doc_state \<Rightarrow> doc_state" where
  "settle_scratch_stamps h st = settle_life scratch_stamp h (st\<lparr>
     ds_stamps := map (settle_stamp scratch_stamp h) (ds_stamps st),
     ds_parents := map (map_option (\<lambda>(t, p). (t, settle_stamp scratch_stamp h p))) (ds_parents st),
     ds_field_stamps := (\<lambda>k. map_option (settle_stamp scratch_stamp h) (ds_field_stamps st k)),
     ds_text_history := (\<lambda>t. map_option (history_settle scratch_stamp h) (ds_text_history st t))\<rparr>)"

text \<open>\<open>adopt_stamps\<close>; collecting into the \<open>HashMap\<close> keeps the last of two pairs with one key.\<close>

definition adopt_stamps :: "doc_state \<Rightarrow> doc_state \<Rightarrow> doc_state" where
  "adopt_stamps replayed st0 =
    (let st = st0\<lparr>ds_field_stamps := ds_field_stamps replayed, ds_text_history := ds_text_history replayed,
                  ds_life := ds_life replayed\<rparr>
     in case adopt_sequence replayed st of
       (st1, True) \<Rightarrow> st1
     | (st1, False) \<Rightarrow>
         let by_task = map_of (rev (List.map_filter (\<lambda>s. map_option
               (\<lambda>i. (i, (ds_stamps replayed ! s, ds_parents replayed ! s))) (entry_id (ds_entries replayed ! s)))
               (ds_visible replayed)));
             known = (\<lambda>e. Option.bind (entry_id e) by_task)
         in st1\<lparr>
           ds_stamps := map (\<lambda>s. case known (ds_entries st1 ! s) of Some (stamp, _) \<Rightarrow> stamp | None \<Rightarrow> ds_stamps st1 ! s)
             (slots st1),
           ds_parents := map (\<lambda>s. case known (ds_entries st1 ! s) of Some (_, p) \<Rightarrow> p | None \<Rightarrow> ds_parents st1 ! s)
             (slots st1)\<rparr>)"

section \<open>Lines and their fields\<close>

definition task_of_line :: "owned_line \<Rightarrow> task option" where
  "task_of_line l = Option.bind (ol_parse l) (\<lambda>p. case l_kind p of TaskLine t \<Rightarrow> Some t | Blank \<Rightarrow> None)"

definition description_of :: "owned_line \<Rightarrow> string option" where
  "description_of l = map_option description (task_of_line l)"

definition done_description :: "owned_line \<Rightarrow> string option" where
  "done_description l = Option.bind (task_of_line l) (\<lambda>t.
     if completed (Prefix_of t) then Some (description t) else None)"

text \<open>The first character of a tag's value: a \<open>char\<close> is its UTF-8 encoding.\<close>

definition first_char :: "string \<Rightarrow> string option" where
  "first_char s = (case chars s of [] \<Rightarrow> None | c # _ \<Rightarrow> Some c)"

definition moved_priority :: "owned_line \<Rightarrow> string option" where
  "moved_priority l = Option.bind (task_of_line l) (\<lambda>t.
     if \<not> completed (Prefix_of t) then None else Option.bind (tag t ''pri'') first_char)"

text \<open>The fields of a prefix that a \<open>SetField\<close> changes.\<close>

fun set_prefix_field :: "field \<Rightarrow> field_value \<Rightarrow> prefix \<Rightarrow> prefix option" where
  "set_prefix_field FCompleted (VBool b) p =
     (let p1 = p\<lparr>completed := b\<rparr> in
      Some (if b \<and> completion_date p1 = None \<and> creation_date p1 \<noteq> None
            then p1\<lparr>completion_date := creation_date p1\<rparr> else p1))"
| "set_prefix_field FCompletionDate v p = map_option (\<lambda>d. p\<lparr>completion_date := d\<rparr>) (as_date v)"
| "set_prefix_field FCreationDate v p = map_option (\<lambda>d. p\<lparr>creation_date := d\<rparr>) (as_date v)"
| "set_prefix_field FPriority (VPriority pr) p = Some (p\<lparr>priority_of := Option.bind pr Priority_new\<rparr>)"
| "set_prefix_field _ _ p = None"

definition rewrite_prefix :: "owned_line \<Rightarrow> field \<Rightarrow> field_value \<Rightarrow> owned_line option" where
  "rewrite_prefix l f v =
    Option.bind (ol_raw l) (\<lambda>raw. Option.bind (task_of_line l) (\<lambda>t.
      Option.bind (set_prefix_field f v (Prefix_of t)) (\<lambda>p.
        let desc = drop (description_start raw) raw;
            moved = (if completed p then priority_of p else None);
            p1 = (if completed p then p\<lparr>priority_of := None\<rparr> else p);
            rewritten = from_bytes (emit_prefix p1 (desc \<noteq> []) @ desc) (ol_ending l)
        in case moved of
             None \<Rightarrow> Some rewritten
           | Some pr \<Rightarrow> (case Edit_set_tag Edit_new ''pri'' [as_char pr] of
               Inl _ \<Rightarrow> None | Inr edit \<Rightarrow> Some (apply_edit rewritten edit)))))"

definition field_value_of :: "owned_line \<Rightarrow> field \<Rightarrow> field_value option" where
  "field_value_of l f = Option.bind (task_of_line l) (\<lambda>t.
     let p = Prefix_of t in
     case f of
       FCompleted \<Rightarrow> Some (VBool (completed p))
     | FCompletionDate \<Rightarrow> Some (FieldValue_date (completion_date p))
     | FCreationDate \<Rightarrow> Some (FieldValue_date (creation_date p))
     | FPriority \<Rightarrow> Some (FieldValue_priority (priority_of p))
     | _ \<Rightarrow> None)"

definition priority_from_tag :: "owned_line \<Rightarrow> owned_line option" where
  "priority_from_tag l = Option.bind (task_of_line l) (\<lambda>t.
     let p = Prefix_of t in
     if completed p \<or> priority_of p \<noteq> None then None
     else Option.bind (Option.bind (tag t ''pri'') first_char) (\<lambda>letter.
       Option.bind (Priority_new letter) (\<lambda>_. rewrite_prefix l FPriority (VPriority (Some letter)))))"

definition moved_into_pri :: "owned_line \<Rightarrow> owned_line \<Rightarrow> (string \<times> string \<times> string \<times> bool) option" where
  "moved_into_pri old_line new_line =
    Option.bind (description_of old_line) (\<lambda>old. Option.bind (description_of new_line) (\<lambda>new.
      Option.bind (moved_priority new_line) (\<lambda>letter.
        let add = \<not> has_pri old in
        if set_pri old letter add = new then Some (old, new, letter, add) else None)))"

definition with_description :: "doc_state \<Rightarrow> task_id \<Rightarrow> owned_line \<Rightarrow> string \<Rightarrow> state_error + owned_line" where
  "with_description st t l text =
    (case Edit_set_description Edit_new text of
       Inl _ \<Rightarrow> Inl (Unsupported ''line break'')
     | Inr edit \<Rightarrow>
         let new_line = apply_edit l edit in
         if ds_mode st = Tagged \<and> id_of new_line \<noteq> Some t then Inl (IdMismatch t) else Inr new_line)"

section \<open>Field and text operations\<close>

definition content_slot :: "doc_state \<Rightarrow> task_id \<Rightarrow> nat option" where
  "content_slot st t =
    (case live_slot st t of Some s \<Rightarrow> Some s
     | None \<Rightarrow> max_by_key (\<lambda>s. ds_stamps st ! s) (filter (\<lambda>s. entry_id (ds_entries st ! s) = Some t) (slots st)))"

definition slot_line :: "doc_state \<Rightarrow> nat \<Rightarrow> owned_line" where
  "slot_line st s = entry_line (ds_entries st ! s)"

definition life_of :: "doc_state \<Rightarrow> task_id \<Rightarrow> life" where
  "life_of st t = (case ds_life st t of Some l \<Rightarrow> l | None \<Rightarrow> \<lparr>died = None, reborn = None\<rparr>)"

text \<open>\<open>max\<close> on \<open>Option\<close>: \<open>None\<close> is least.\<close>

definition latest :: "hlc option \<Rightarrow> hlc \<Rightarrow> hlc option" where
  "latest a h = (case a of None \<Rightarrow> Some h | Some x \<Rightarrow> Some (max x h))"

definition note_death :: "task_id \<Rightarrow> hlc \<Rightarrow> doc_state \<Rightarrow> doc_state \<times> bool" where
  "note_death t h st =
    (let l = life_of st t; l1 = l\<lparr>died := latest (died l) h\<rparr>
     in (st\<lparr>ds_life := (ds_life st)(t \<mapsto> l1)\<rparr>, case reborn l1 of None \<Rightarrow> True | Some r \<Rightarrow> r \<le> h))"

definition keep_in_history ::
    "task_id \<Rightarrow> owned_line \<Rightarrow> owned_line \<Rightarrow> hlc \<Rightarrow> doc_state \<Rightarrow> doc_state \<times> owned_line" where
  "keep_in_history t old_line new_line h st =
    (case moved_into_pri old_line new_line of
       None \<Rightarrow> (forget_text t st, new_line)
     | Some (old, new, pri) \<Rightarrow>
         (case set_pri_in_description t old h pri st of
            (st1, None) \<Rightarrow> (forget_text t st1, new_line)
          | (st1, Some held) \<Rightarrow>
              if held = new then (st1, new_line)
              else (case Edit_set_description Edit_new held of
                      Inr edit \<Rightarrow> (st1, apply_edit new_line edit)
                    | Inl _ \<Rightarrow> (st1, new_line))))"

definition clear_done_priority ::
    "task_id \<Rightarrow> nat \<Rightarrow> owned_line \<Rightarrow> string \<Rightarrow> hlc \<Rightarrow> doc_state \<Rightarrow> outcome" where
  "clear_done_priority t i line desc h st =
    (let (st1, held) = clear_pri_in_description t desc st in
     case with_description st1 t line held of
       Inl e \<Rightarrow> (st1, Inl e)
     | Inr new_line \<Rightarrow> (record_field t FPriority h (replace_entry i (ETask t new_line) st1), Inr ()))"

text \<open>The branch of \<open>set_field\<close> for \<open>Deleted\<close>.\<close>

definition set_deleted :: "task_id \<Rightarrow> field_value \<Rightarrow> hlc \<Rightarrow> doc_state \<Rightarrow> outcome" where
  "set_deleted t v h st =
    (case v of
       VBool True \<Rightarrow>
         if has_placement st t then
           let (st1, hides) = note_death t h st in
           (case live_slot st1 t of
              Some s \<Rightarrow> (if hides then hide_entry s st1 else st1, Inr ())
            | None \<Rightarrow> (st1, Inr ()))
         else (st, Inl (UnknownTask t))
     | _ \<Rightarrow> (st, Inl (Unsupported ''undelete via SetField'')))"

definition apply_set_field :: "task_id \<Rightarrow> field \<Rightarrow> field_value \<Rightarrow> hlc \<Rightarrow> doc_state \<Rightarrow> outcome" where
  "apply_set_field t f v h st =
    (if f = FDeleted then set_deleted t v h st
     else case content_slot st t of None \<Rightarrow> (st, Inl (UnknownTask t))
     | Some i \<Rightarrow>
         let line = slot_line st i in
         if is_stale_field st t f h then
           (case (if f = FPriority then priority_from_tag line else None) of
              Some restored \<Rightarrow> (replace_entry i (ETask t restored) st, Inr ())
            | None \<Rightarrow> (st, Inr ()))
         else case (if f = FPriority \<and> v = VPriority None then done_description line else None) of
           Some desc \<Rightarrow> clear_done_priority t i line desc h st
         | None \<Rightarrow>
             (case rewrite_prefix line f v of
                None \<Rightarrow> (st, Inl (Unsupported ''SetField on this line''))
              | Some new_line \<Rightarrow>
                  let (st1, kept) =
                    (if description_of line = description_of new_line then (st, new_line)
                     else keep_in_history t line new_line h st)
                  in (record_field t f h (replace_entry i (ETask t kept) st1), Inr ())))"

definition apply_edit_text :: "task_id \<Rightarrow> text_edit list \<Rightarrow> hlc \<Rightarrow> doc_state \<Rightarrow> outcome" where
  "apply_edit_text t edits h st =
    (case content_slot st t of None \<Rightarrow> (st, Inl (UnknownTask t))
     | Some i \<Rightarrow>
         let line = slot_line st i in
         case description_of line of None \<Rightarrow> (st, Inl (Opaque i))
         | Some desc \<Rightarrow>
             let saved = text_history_of st t; (st1, r) = edit_description t desc h edits st in
             case r of Inl e \<Rightarrow> (restore_text t saved st1, Inl (TextError t e))
             | Inr new_desc \<Rightarrow>
                 (case with_description st1 t line new_desc of
                    Inl e \<Rightarrow> (restore_text t saved st1, Inl e)
                  | Inr new_line \<Rightarrow> (replace_entry i (ETask t new_line) st1, Inr ())))"

definition apply_remove_tag :: "task_id \<Rightarrow> string \<Rightarrow> hlc \<Rightarrow> doc_state \<Rightarrow> outcome" where
  "apply_remove_tag t key h st =
    (if \<not> valid_tag_key key then (st, Inl (Unsupported ''RemoveTag with a bad key''))
     else case content_slot st t of None \<Rightarrow> (st, Inl (UnknownTask t))
     | Some i \<Rightarrow>
         let line = slot_line st i in
         case description_of line of None \<Rightarrow> (st, Inl (Opaque i))
         | Some desc \<Rightarrow>
             let saved = text_history_of st t; (st1, held) = remove_tag_in_description t desc h key st in
             case with_description st1 t line held of
               Inl e \<Rightarrow> (restore_text t saved st1, Inl e)
             | Inr new_line \<Rightarrow> (replace_entry i (ETask t new_line) st1, Inr ()))"

section \<open>Placements\<close>

definition place_ghost :: "task_id \<Rightarrow> task_id option \<Rightarrow> hlc \<Rightarrow> doc_state \<Rightarrow> outcome" where
  "place_ghost t after h st =
    (case content_slot st t of None \<Rightarrow> (st, Inl (UnknownTask t))
     | Some s \<Rightarrow>
         (case slot_after st after h of Inl e \<Rightarrow> (st, Inl e)
          | Inr sp \<Rightarrow>
              (rehome_onto t h (hide_entry (sp_at sp)
                 (insert_entry sp (ETask t (entry_line (ds_entries st ! s))) h st)), Inr ())))"

definition PREFIX_FIELDS :: "field list" where
  "PREFIX_FIELDS = [FCompleted, FCompletionDate, FCreationDate, FPriority]"

text \<open>The loop of \<open>merged_line\<close> over the fields a newer op set.\<close>

fun keep_fields :: "owned_line \<Rightarrow> field list \<Rightarrow> owned_line \<Rightarrow> owned_line option" where
  "keep_fields current [] line = Some line"
| "keep_fields current (f # fs) line =
    (case Option.bind (field_value_of current f) (rewrite_prefix line f) of
       None \<Rightarrow> None | Some line' \<Rightarrow> keep_fields current fs line')"

definition merged_line ::
    "task_id \<Rightarrow> owned_line \<Rightarrow> owned_line \<Rightarrow> hlc \<Rightarrow> doc_state \<Rightarrow> doc_state \<times> (state_error + owned_line)" where
  "merged_line t current inserted h st =
    (let newer = (\<lambda>f. is_stale_field st t f h);
         kept = filter newer PREFIX_FIELDS;
         taken = filter (\<lambda>f. \<not> newer f) PREFIX_FIELDS
     in case keep_fields current kept inserted of
          None \<Rightarrow> (st, Inl (Unsupported ''insert again over this line''))
        | Some line \<Rightarrow>
            (case description_of line of None \<Rightarrow> (st, Inl (Unsupported ''a blank''))
             | Some desc \<Rightarrow>
                 let (hist, held) = history_reset apply_text_edits desc h (history_or_new st t desc);
                     st1 = put_history t hist st
                 in case Edit_set_description Edit_new held of
                      Inl _ \<Rightarrow> (st1, Inl (Unsupported ''line break''))
                    | Inr edit \<Rightarrow> (fold (\<lambda>f. record_field t f h) taken st1, Inr (apply_edit line edit))))"

definition show_newest :: "task_id \<Rightarrow> nat \<Rightarrow> doc_state \<Rightarrow> doc_state" where
  "show_newest t added st =
    (let newest = max_by_key (\<lambda>s. (ds_stamps st ! s, s = added))
           (filter (\<lambda>s. entry_id (ds_entries st ! s) = Some t) (slots st));
         live = live_slot st t
     in if newest = live then st
        else
          let h1 = (case live of Some l \<Rightarrow> (ds_hidden st)[l := True] | None \<Rightarrow> ds_hidden st);
              h2 = (case newest of Some n \<Rightarrow> h1[n := False] | None \<Rightarrow> h1)
          in reindex (st\<lparr>ds_hidden := h2\<rparr>))"

definition set_all_lines :: "task_id \<Rightarrow> owned_line \<Rightarrow> doc_state \<Rightarrow> doc_state" where
  "set_all_lines t l st =
    st\<lparr>ds_entries := map (\<lambda>e. if entry_id e = Some t then ETask t l else e) (ds_entries st)\<rparr>"

definition reinsert :: "task_id \<Rightarrow> task_id option \<Rightarrow> owned_line \<Rightarrow> hlc \<Rightarrow> doc_state \<Rightarrow> outcome" where
  "reinsert t after line h st =
    (case slot_after st after h of Inl e \<Rightarrow> (st, Inl e)
     | Inr sp \<Rightarrow>
         (case content_slot st t of None \<Rightarrow> (st, Inl (UnknownTask t))
          | Some s \<Rightarrow>
              (case merged_line t (entry_line (ds_entries st ! s)) line h st of
                 (st1, Inl e) \<Rightarrow> (st1, Inl e)
               | (st1, Inr merged) \<Rightarrow>
                   let was_live = (live_slot st1 t \<noteq> None);
                       st2 = hide_entry (sp_at sp) (insert_entry sp (ETask t merged) h st1);
                       l = life_of st2 t;
                       l1 = l\<lparr>reborn := latest (reborn l) h\<rparr>;
                       st3 = st2\<lparr>ds_life := (ds_life st2)(t \<mapsto> l1)\<rparr>;
                       st4 = (if was_live \<or> (case died l1 of None \<Rightarrow> True | Some d \<Rightarrow> d \<le> h)
                              then show_newest t (sp_at sp) st3 else st3)
                   in (rehome_onto t h (set_all_lines t merged st4), Inr ()))))"

definition apply_insert :: "task_id \<Rightarrow> task_id option \<Rightarrow> string \<Rightarrow> hlc \<Rightarrow> doc_state \<Rightarrow> outcome" where
  "apply_insert t after line h st =
    (if length (ds_visible st) + 1 > MAX_LINES_PER_FILE then (st, Inl (TooManyLines (length (ds_visible st) + 1)))
     else
       let owned = from_bytes line (ds_ending st) in
       if ds_mode st = Tagged \<and> id_of owned \<noteq> Some t then (st, Inl (IdMismatch t))
       else if has_placement st t then reinsert t after owned h st
       else case slot_after st after h of Inl e \<Rightarrow> (st, Inl e)
         | Inr sp \<Rightarrow> (insert_entry sp (ETask t owned) h st, Inr ()))"

definition move_task :: "task_id \<Rightarrow> task_id option \<Rightarrow> file_path \<Rightarrow> hlc \<Rightarrow> doc_state \<Rightarrow> outcome" where
  "move_task t after to_file h st =
    (if to_file \<noteq> ds_path st then
       (case live_slot st t of
          Some from \<Rightarrow> (hide_entry from st, Inr ())
        | None \<Rightarrow> (st, if has_placement st t then Inr () else Inl (UnknownTask t)))
     else if after = Some t then (st, Inl (UnknownTask t))
     else case anchor_slot st after h of Inl e \<Rightarrow> (st, Inl e)
     | Inr _ \<Rightarrow>
         (case live_slot st t of None \<Rightarrow> place_ghost t after h st
          | Some from \<Rightarrow>
              if is_stale_move st from h then place_ghost t after h st
              else
                let e = ds_entries st ! from; st1 = hide_entry from st in
                (case slot_after st1 after h of Inl er \<Rightarrow> (st1, Inl er)
                 | Inr sp \<Rightarrow> (rehome_onto t h (insert_entry sp e h st1), Inr ()))))"

definition blank_insert :: "task_id option \<Rightarrow> hlc \<Rightarrow> doc_state \<Rightarrow> outcome" where
  "blank_insert after h st =
    (if length (ds_visible st) + 1 > MAX_LINES_PER_FILE then (st, Inl (TooManyLines (length (ds_visible st) + 1)))
     else case slot_after st after h of Inl e \<Rightarrow> (st, Inl e)
     | Inr sp \<Rightarrow> (insert_entry sp (EBlank (from_bytes [] (ds_ending st))) h st, Inr ()))"

definition blank_remove :: "task_id option \<Rightarrow> hlc \<Rightarrow> doc_state \<Rightarrow> outcome" where
  "blank_remove after h st =
    (case slot_after st after h of Inl e \<Rightarrow> (st, Inl e)
     | Inr sp \<Rightarrow>
         let st1 = insert_entry sp (EBlank (from_bytes [] (ds_ending st))) h st
         in (hide_entry (sp_at sp) (st1\<lparr>ds_erasers := (ds_erasers st1)[sp_at sp := True]\<rparr>), Inr ()))"

section \<open>Apply\<close>

fun reshapes :: "op_kind \<Rightarrow> bool" where
  "reshapes (OSetField _ f _) \<longleftrightarrow> f = FDeleted"
| "reshapes (OEditText _ _) \<longleftrightarrow> False"
| "reshapes (ONotesEdit _ _) \<longleftrightarrow> False"
| "reshapes (ORemoveTag _ _) \<longleftrightarrow> False"
| "reshapes _ \<longleftrightarrow> True"

text \<open>The \<open>match\<close> of \<open>apply_inner\<close>.\<close>

fun op_effect :: "op_kind \<Rightarrow> hlc \<Rightarrow> doc_state \<Rightarrow> outcome" where
  "op_effect (OInsert t after line) h st = apply_insert t after line h st"
| "op_effect (OSetField t f v) h st = apply_set_field t f v h st"
| "op_effect (OEditText t edits) h st = apply_edit_text t edits h st"
| "op_effect (ORemoveTag t key) h st = apply_remove_tag t key h st"
| "op_effect (OMove t after to_file) h st = move_task t after to_file h st"
| "op_effect (OBlankInsert after) h st = blank_insert after h st"
| "op_effect (OBlankRemove after) h st = blank_remove after h st"
| "op_effect (ONotesEdit _ _) h st = (st, Inl (Unsupported ''NotesEdit''))"

definition apply_inner :: "op \<Rightarrow> doc_state \<Rightarrow> outcome" where
  "apply_inner o1 st =
    (case op_effect (o_kind o1) (o_hlc o1) st of
       (st1, Inl e) \<Rightarrow> (st1, Inl e)
     | (st1, Inr _) \<Rightarrow> (prune_ghosts (if reshapes (o_kind o1) then settle_erasers st1 else st1), Inr ()))"

definition ds_apply :: "op \<Rightarrow> doc_state \<Rightarrow> outcome" where
  "ds_apply o1 st = apply_inner o1 st"

text \<open>\<open>apply_leniently\<close> of \<open>apply.rs\<close>: one round over the operations of a commit, the rounds, and the commits.\<close>

fun lenient_round :: "doc_state \<Rightarrow> op list \<Rightarrow> doc_state \<times> (op \<times> state_error) list" where
  "lenient_round st [] = (st, [])"
| "lenient_round st (o1 # os) =
    (case ds_apply o1 st of
       (st1, Inr _) \<Rightarrow> lenient_round st1 os
     | (st1, Inl e) \<Rightarrow> (let (st2, failed) = lenient_round st1 os in (st2, (o1, e) # failed)))"

lemma lenient_round_shrinks: "lenient_round st os = (st', failed) \<Longrightarrow> length failed \<le> length os"
  by (induction st os arbitrary: st' failed rule: lenient_round.induct)
     (fastforce split: prod.splits sum.splits)+

function lenient_rounds :: "doc_state \<Rightarrow> op list \<Rightarrow> doc_state \<times> (op \<times> state_error) list" where
  "lenient_rounds st pending =
    (case lenient_round st pending of (st1, failed) \<Rightarrow>
       if failed = [] \<or> length failed = length pending then (st1, failed)
       else lenient_rounds st1 (map fst failed))"
  by pat_completeness auto
termination
  by (relation "measure (length \<circ> snd)") (auto dest!: sym lenient_round_shrinks)

declare lenient_rounds.simps [simp del]

text \<open>\<open>chunk_by\<close>: maximal runs of operations with one stamp.\<close>

function commits :: "op list \<Rightarrow> op list list" where
  "commits [] = []"
| "commits (o1 # os) =
    (o1 # takeWhile (\<lambda>p. o_hlc p = o_hlc o1) os) # commits (dropWhile (\<lambda>p. o_hlc p = o_hlc o1) os)"
  by pat_completeness auto
termination
  by (relation "measure length") (auto simp: le_imp_less_Suc length_dropWhile_le)

fun apply_commits :: "doc_state \<Rightarrow> op list list \<Rightarrow> doc_state \<times> (op \<times> state_error) list" where
  "apply_commits st [] = (st, [])"
| "apply_commits st (g # gs) =
    (let (st1, failed) = lenient_rounds st g; (st2, skipped) = apply_commits st1 gs in (st2, failed @ skipped))"

definition apply_leniently :: "op list \<Rightarrow> doc_state \<Rightarrow> doc_state \<times> (op \<times> state_error) list" where
  "apply_leniently os st = apply_commits st (commits os)"

end
