(* ===== verification/DocOk.thy ===== *)
theory DocOk
  imports DocApply
begin

text \<open>
  The invariant of a document. \<open>cells\<close> reads the five vectors of the state as one list; each operation
  on the vectors is an operation on the list. \<open>doc_ok\<close> says that the vectors are in step, that the
  visible view shows exactly the slots not hidden, that a kept \<open>BlankRemove\<close> is a hidden blank, and that
  no task is shown twice. Every operation keeps it, refused or not.
\<close>

section \<open>The vectors as one list\<close>

type_synonym cell = "entry \<times> hlc \<times> bool \<times> parent \<times> bool"

abbreviation c_entry :: "cell \<Rightarrow> entry" where "c_entry c \<equiv> fst c"
abbreviation c_stamp :: "cell \<Rightarrow> hlc" where "c_stamp c \<equiv> fst (snd c)"
abbreviation c_hidden :: "cell \<Rightarrow> bool" where "c_hidden c \<equiv> fst (snd (snd c))"
abbreviation c_parent :: "cell \<Rightarrow> parent" where "c_parent c \<equiv> fst (snd (snd (snd c)))"
abbreviation c_eraser :: "cell \<Rightarrow> bool" where "c_eraser c \<equiv> snd (snd (snd (snd c)))"

definition cells :: "doc_state \<Rightarrow> cell list" where
  "cells st = zip (ds_entries st) (zip (ds_stamps st) (zip (ds_hidden st) (zip (ds_parents st) (ds_erasers st))))"

definition in_step :: "doc_state \<Rightarrow> bool" where
  "in_step st \<longleftrightarrow> length (ds_stamps st) = length (ds_entries st) \<and> length (ds_hidden st) = length (ds_entries st) \<and>
     length (ds_parents st) = length (ds_entries st) \<and> length (ds_erasers st) = length (ds_entries st)"

definition view_ok :: "doc_state \<Rightarrow> bool" where
  "view_ok st \<longleftrightarrow> ds_visible st = filter (\<lambda>s. \<not> ds_hidden st ! s) (slots st)"

definition shows_task :: "task_id \<Rightarrow> cell \<Rightarrow> bool" where
  "shows_task t c \<longleftrightarrow> \<not> c_hidden c \<and> entry_id (c_entry c) = Some t"

definition cell_ok :: "cell \<Rightarrow> bool" where
  "cell_ok c \<longleftrightarrow> (c_eraser c \<longrightarrow> c_hidden c \<and> entry_id (c_entry c) = None)"

definition shown_count :: "task_id \<Rightarrow> cell list \<Rightarrow> nat" where
  "shown_count t cs = length (filter (shows_task t) cs)"

definition cells_ok :: "cell list \<Rightarrow> bool" where
  "cells_ok cs \<longleftrightarrow> list_all cell_ok cs \<and> (\<forall>t. shown_count t cs \<le> 1)"

definition doc_ok :: "doc_state \<Rightarrow> bool" where
  "doc_ok st \<longleftrightarrow> in_step st \<and> view_ok st \<and> cells_ok (cells st)"

lemma zip_insert_at: "length xs = length ys \<Longrightarrow> zip (insert_at i x xs) (insert_at i y ys) = insert_at i (x, y) (zip xs ys)"
  by (simp add: insert_at_def take_zip drop_zip)

lemma zip_remove_at: "length xs = length ys \<Longrightarrow> zip (remove_at i xs) (remove_at i ys) = remove_at i (zip xs ys)"
  by (simp add: remove_at_def take_zip drop_zip)

lemma zip_drain: "length xs = length ys \<Longrightarrow> zip (drain a b xs) (drain a b ys) = drain a b (zip xs ys)"
  by (simp add: drain_def take_zip drop_zip)

lemma zip_slice: "zip (str_slice xs a b) (str_slice ys a b) = str_slice (zip xs ys) a b"
  by (simp add: str_slice_def take_zip drop_zip)

lemma zip_splice_in:
  "length xs = length ys \<Longrightarrow> length us = length vs \<Longrightarrow>
   zip (splice_in i us xs) (splice_in i vs ys) = splice_in i (zip us vs) (zip xs ys)"
  by (simp add: splice_in_def take_zip drop_zip)

lemma zip_update_left: "i < length ys \<Longrightarrow> zip (xs[i := x]) ys = (zip xs ys)[i := (x, ys ! i)]"
  by (metis list_update_id zip_update)

lemma zip_update_right: "i < length xs \<Longrightarrow> zip xs (ys[i := y]) = (zip xs ys)[i := (xs ! i, y)]"
  by (metis list_update_id zip_update)

lemma length_insert_at [simp]: "i \<le> length xs \<Longrightarrow> length (insert_at i x xs) = length xs + 1"
  by (simp add: insert_at_def)

lemma length_remove_at [simp]: "i < length xs \<Longrightarrow> length (remove_at i xs) = length xs - 1"
  by (simp add: remove_at_def)

lemma length_insert_at_eq: "length xs = length ys \<Longrightarrow> length (insert_at i x xs) = length (insert_at i y ys)"
  by (simp add: insert_at_def)

lemma length_remove_at_eq: "length xs = length ys \<Longrightarrow> length (remove_at i xs) = length (remove_at i ys)"
  by (simp add: remove_at_def)

lemma length_drain [simp]: "a \<le> b \<Longrightarrow> b \<le> length xs \<Longrightarrow> length (drain a b xs) = length xs - (b - a)"
  by (simp add: drain_def)

lemma length_drain_eq: "length xs = length ys \<Longrightarrow> length (drain a b xs) = length (drain a b ys)"
  by (simp add: drain_def)

lemma length_splice_in_eq:
  "length xs = length ys \<Longrightarrow> length us = length vs \<Longrightarrow> length (splice_in i us xs) = length (splice_in i vs ys)"
  by (simp add: splice_in_def)

lemma length_slice_eq: "length xs = length ys \<Longrightarrow> length (str_slice xs a b) = length (str_slice ys a b)"
  by (simp add: str_slice_def)

lemmas zip_steps = zip_insert_at zip_remove_at zip_drain zip_slice zip_splice_in
lemmas length_steps = length_insert_at_eq length_remove_at_eq length_drain_eq length_splice_in_eq length_slice_eq

lemma length_cells [simp]: "in_step st \<Longrightarrow> length (cells st) = length (ds_entries st)"
  by (simp add: in_step_def cells_def)

lemma nth_cells:
  "in_step st \<Longrightarrow> s < length (ds_entries st) \<Longrightarrow>
   cells st ! s = (ds_entries st ! s, ds_stamps st ! s, ds_hidden st ! s, ds_parents st ! s, ds_erasers st ! s)"
  by (simp add: in_step_def cells_def)

lemma set_slots [simp]: "s \<in> set (slots st) \<longleftrightarrow> s < length (ds_entries st)"
  by (simp add: slots_def)

lemma in_step_reindex [simp]: "in_step (reindex st) = in_step st"
  by (simp add: in_step_def reindex_def)

lemma cells_reindex [simp]: "cells (reindex st) = cells st"
  by (simp add: cells_def reindex_def)

lemma view_ok_reindex [simp]: "view_ok (reindex st)"
  by (simp add: view_ok_def reindex_def slots_def)

lemma doc_ok_reindex: "doc_ok (reindex st) \<longleftrightarrow> in_step st \<and> cells_ok (cells st)"
  by (simp add: doc_ok_def)

lemma filter_upt_map: "map (\<lambda>s. f (xs ! s)) (filter (\<lambda>s. P (xs ! s)) [0..<length xs]) = map f (filter P xs)"
proof -
  have "map (\<lambda>s. f (xs ! s)) (filter (\<lambda>s. P (xs ! s)) [0..<length xs]) =
      map f (filter P (map ((!) xs) [0..<length xs]))"
    unfolding filter_map by (simp add: comp_def)
  then show ?thesis by (simp add: map_nth)
qed

text \<open>The document shown is the unhidden cells, in order.\<close>

lemma visible_entries_cells:
  assumes "in_step st" and "view_ok st"
  shows "visible_entries st = map c_entry (filter (\<lambda>c. \<not> c_hidden c) (cells st))"
proof -
  have n: "cells st ! s = (ds_entries st ! s, ds_stamps st ! s, ds_hidden st ! s, ds_parents st ! s, ds_erasers st ! s)"
    if "s \<in> set [0..<length (cells st)]" for s using that assms(1) nth_cells by simp
  have "map c_entry (filter (\<lambda>c. \<not> c_hidden c) (cells st)) =
      map (\<lambda>s. c_entry (cells st ! s)) (filter (\<lambda>s. \<not> c_hidden (cells st ! s)) [0..<length (cells st)])"
    by (rule filter_upt_map [of fst "cells st" "\<lambda>c. \<not> c_hidden c", symmetric])
  also have "filter (\<lambda>s. \<not> c_hidden (cells st ! s)) [0..<length (cells st)] = ds_visible st"
    unfolding assms(2) [unfolded view_ok_def] slots_def length_cells [OF assms(1), symmetric]
    by (rule filter_cong [OF refl]) (simp add: n)
  also have "map (\<lambda>s. c_entry (cells st ! s)) (ds_visible st) = map (\<lambda>s. ds_entries st ! s) (ds_visible st)"
    using assms by (intro map_cong [OF refl]) (simp add: view_ok_def nth_cells)
  finally show ?thesis by (simp add: visible_entries_def)
qed

lemma shown_count_simps [simp]:
  "shown_count t [] = 0"
  "shown_count t (c # cs) = (if shows_task t c then 1 else 0) + shown_count t cs"
  "shown_count t (as @ bs) = shown_count t as + shown_count t bs"
  by (auto simp: shown_count_def)

lemma shown_count_0: "shown_count t cs = 0 \<longleftrightarrow> (\<forall>c \<in> set cs. \<not> shows_task t c)"
  by (simp add: shown_count_def filter_empty_conv)

lemma shown_count_split: "shown_count t (take i cs) + shown_count t (drop i cs) = shown_count t cs"
  by (metis append_take_drop_id shown_count_simps(3))

lemma shown_count_insert_at [simp]: "shown_count t (insert_at i c cs) = (if shows_task t c then 1 else 0) + shown_count t cs"
  using shown_count_split [of t i cs] by (simp add: insert_at_def)

lemma shown_count_update:
  assumes "i < length cs"
  shows "shown_count t (cs[i := c]) + (if shows_task t (cs ! i) then 1 else 0) =
     shown_count t cs + (if shows_task t c then 1 else 0)"
proof -
  have "shown_count t cs = shown_count t (take i cs @ cs ! i # drop (Suc i) cs)"
    using assms by (simp only: id_take_nth_drop [symmetric])
  then show ?thesis using assms by (simp add: upd_conv_take_nth_drop)
qed

lemma list_all_insert_at [simp]: "list_all P (insert_at i c cs) \<longleftrightarrow> P c \<and> list_all P cs"
proof -
  have "list_all P cs \<longleftrightarrow> list_all P (take i cs) \<and> list_all P (drop i cs)"
    by (metis append_take_drop_id list_all_append)
  then show ?thesis by (auto simp: insert_at_def)
qed

lemma list_all_update: "list_all P cs \<Longrightarrow> P c \<Longrightarrow> list_all P (cs[i := c])"
  by (auto simp: list_all_iff dest: set_update_subset_insert [THEN subsetD])

section \<open>Primitive changes\<close>

lemma in_step_insert_entry [simp]: "in_step st \<Longrightarrow> in_step (insert_entry sp e h st)"
  by (simp add: in_step_def insert_entry_def reindex_def insert_at_def)

lemma cells_insert_entry:
  "in_step st \<Longrightarrow> cells (insert_entry sp e h st) = insert_at (sp_at sp) (e, h, False, sp_parent sp, False) (cells st)"
  unfolding insert_entry_def cells_reindex by (simp add: cells_def in_step_def zip_steps length_steps)

lemma view_ok_insert_entry [simp]: "view_ok (insert_entry sp e h st)"
  by (simp add: insert_entry_def)

lemma in_step_hide_entry [simp]: "in_step (hide_entry s st) = in_step st"
  by (simp add: in_step_def hide_entry_def reindex_def)

lemma view_ok_hide_entry [simp]: "view_ok (hide_entry s st)"
  by (simp add: hide_entry_def)

definition hide_cell :: "cell \<Rightarrow> cell" where
  "hide_cell c = (c_entry c, c_stamp c, True, c_parent c, c_eraser c)"

definition set_cell_entry :: "entry \<Rightarrow> cell \<Rightarrow> cell" where
  "set_cell_entry e c = (e, snd c)"

lemma cells_hide_entry:
  "in_step st \<Longrightarrow> s < length (ds_entries st) \<Longrightarrow> cells (hide_entry s st) = (cells st)[s := hide_cell (cells st ! s)]"
  unfolding hide_entry_def cells_reindex
  by (simp add: cells_def in_step_def zip_update_left zip_update_right hide_cell_def)

lemma in_step_replace_entry [simp]: "in_step (replace_entry s e st) = in_step st"
  by (simp add: in_step_def replace_entry_def)

lemma view_ok_replace_entry [simp]: "view_ok (replace_entry s e st) = view_ok st"
  by (simp add: view_ok_def replace_entry_def slots_def)

lemma cells_replace_entry:
  "in_step st \<Longrightarrow> s < length (ds_entries st) \<Longrightarrow>
   cells (replace_entry s e st) = (cells st)[s := set_cell_entry e (cells st ! s)]"
  by (simp add: replace_entry_def cells_def in_step_def zip_update_left set_cell_entry_def)

lemma cells_ok_insert:
  "cells_ok cs \<Longrightarrow> cell_ok c \<Longrightarrow> (\<And>t. shows_task t c \<Longrightarrow> shown_count t cs = 0) \<Longrightarrow> cells_ok (insert_at i c cs)"
  by (simp add: cells_ok_def)

lemma cells_ok_update:
  assumes "cells_ok cs" "i < length cs" "cell_ok c" "\<And>t. shows_task t c \<Longrightarrow> shows_task t (cs ! i)"
  shows "cells_ok (cs[i := c])"
proof -
  have "shown_count t (cs[i := c]) \<le> 1" for t
  proof -
    have "shown_count t cs \<le> 1" using assms(1) by (simp add: cells_ok_def)
    then show ?thesis using assms(4) [of t] shown_count_update [OF assms(2), of t c] by (auto split: if_splits)
  qed
  then show ?thesis using assms by (auto simp: cells_ok_def list_all_update)
qed

lemma cells_ok_nth: "cells_ok cs \<Longrightarrow> i < length cs \<Longrightarrow> cell_ok (cs ! i)"
  by (simp add: cells_ok_def list_all_length)

lemma cells_ok_hide: "cells_ok cs \<Longrightarrow> i < length cs \<Longrightarrow> cells_ok (cs[i := hide_cell (cs ! i)])"
  using cells_ok_nth by (intro cells_ok_update) (auto simp: hide_cell_def cell_ok_def shows_task_def)

lemma doc_ok_hide_entry: "doc_ok st \<Longrightarrow> s < length (ds_entries st) \<Longrightarrow> doc_ok (hide_entry s st)"
  by (simp add: doc_ok_def cells_hide_entry cells_ok_hide)

lemma doc_ok_replace_entry:
  assumes "doc_ok st" "s < length (ds_entries st)" "entry_id (ds_entries st ! s) = entry_id e"
  shows "doc_ok (replace_entry s e st)"
proof -
  have "cells_ok ((cells st)[s := set_cell_entry e (cells st ! s)])"
    using assms cells_ok_nth [of "cells st" s]
    by (intro cells_ok_update) (auto simp: doc_ok_def set_cell_entry_def nth_cells cell_ok_def shows_task_def)
  then show ?thesis using assms by (simp add: doc_ok_def cells_replace_entry)
qed

text \<open>The merge metadata beside the vectors does not enter the invariant.\<close>

lemma doc_ok_metadata [simp]:
  "doc_ok (st\<lparr>ds_field_stamps := x\<rparr>) = doc_ok st"
  "doc_ok (st\<lparr>ds_text_history := y\<rparr>) = doc_ok st"
  "doc_ok (st\<lparr>ds_life := z\<rparr>) = doc_ok st"
  by (simp_all add: doc_ok_def in_step_def view_ok_def cells_def slots_def)

section \<open>Slots\<close>

lemma live_slot_Some:
  "live_slot st t = Some s \<Longrightarrow> s < length (ds_entries st) \<and> \<not> ds_hidden st ! s \<and> entry_id (ds_entries st ! s) = Some t"
  by (auto simp: live_slot_def find_Some_iff slots_def)

lemma live_slot_None:
  "live_slot st t = None \<longleftrightarrow> (\<forall>s < length (ds_entries st). entry_id (ds_entries st ! s) = Some t \<longrightarrow> ds_hidden st ! s)"
  by (auto simp: live_slot_def find_None_iff)

lemma shown_count_live:
  assumes "in_step st"
  shows "shown_count t (cells st) = 0 \<longleftrightarrow> live_slot st t = None"
proof -
  have "(\<forall>c \<in> set (cells st). \<not> shows_task t c) \<longleftrightarrow> (\<forall>s < length (ds_entries st). \<not> shows_task t (cells st ! s))"
    using assms by (auto simp: all_set_conv_all_nth)
  then show ?thesis using assms by (auto simp: shown_count_0 live_slot_None shows_task_def nth_cells)
qed

lemma max_by_key_Some: "max_by_key k xs = Some x \<Longrightarrow> x \<in> set xs \<and> (\<forall>y \<in> set xs. k y \<le> k x)"
proof (induction xs arbitrary: x)
  case (Cons a xs)
  show ?case
  proof (cases "max_by_key k xs")
    case None
    then have "xs = []" by (cases xs) (auto split: option.splits)
    then show ?thesis using Cons.prems by simp
  next
    case (Some y)
    then show ?thesis using Cons.prems Cons.IH [OF Some] by (auto split: if_splits)
  qed
qed simp

lemma max_by_key_None [simp]: "max_by_key k xs = None \<longleftrightarrow> xs = []"
  by (cases xs) (auto split: option.split)

lemma min_by_key_Some: "min_by_key k xs = Some x \<Longrightarrow> x \<in> set xs \<and> (\<forall>y \<in> set xs. k x \<le> k y)"
proof (induction xs arbitrary: x)
  case (Cons a xs)
  show ?case
  proof (cases "min_by_key k xs")
    case None
    then have "xs = []" by (cases xs) (auto split: option.splits)
    then show ?thesis using Cons.prems by simp
  next
    case (Some y)
    then show ?thesis using Cons.prems Cons.IH [OF Some] by (auto split: if_splits)
  qed
qed simp

lemma min_by_key_None [simp]: "min_by_key k xs = None \<longleftrightarrow> xs = []"
  by (cases xs) (auto split: option.split)

lemma content_slot_Some:
  "content_slot st t = Some s \<Longrightarrow> s < length (ds_entries st) \<and> entry_id (ds_entries st ! s) = Some t"
  by (auto simp: content_slot_def split: option.splits dest: live_slot_Some max_by_key_Some)

lemma find_Some_set: "List.find P xs = Some x \<Longrightarrow> x \<in> set xs \<and> P x"
  by (auto simp: find_Some_iff)

lemma anchor_slot_Inr:
  "anchor_slot st after h = Inr (Some s) \<Longrightarrow> s < length (ds_entries st) \<and> entry_id (ds_entries st ! s) = after"
  by (auto simp: anchor_slot_def Let_def split: option.splits
      dest!: max_by_key_Some min_by_key_Some find_Some_set)

lemma skip_newer_le: "at \<le> length sts \<Longrightarrow> skip_newer sts at h \<le> length sts"
  using length_takeWhile_le [of "\<lambda>p. p > h" "drop at sts"] by (simp add: skip_newer_def)

lemma slot_after_le:
  assumes "in_step st" and "slot_after st after h = Inr sp"
  shows "sp_at sp \<le> length (ds_entries st)"
proof -
  obtain a where a: "anchor_slot st after h = Inr a" using assms(2) by (auto simp: slot_after_def split: sum.splits)
  let ?at = "case a of None \<Rightarrow> 0 | Some s \<Rightarrow> s + 1"
  have "sp_at sp = skip_newer (ds_stamps st) ?at h" using assms(2) a by (auto simp: slot_after_def)
  moreover have "?at \<le> length (ds_stamps st)"
    using anchor_slot_Inr [of st after h] a assms(1) by (auto simp: in_step_def Suc_le_eq split: option.splits)
  ultimately show ?thesis using skip_newer_le assms(1) unfolding in_step_def by metis
qed

section \<open>Moving a block\<close>

lemma block_loop_bounds:
  "e < length (ds_parents st) \<Longrightarrow> e < block_loop st ms e \<and> block_loop st ms e \<le> length (ds_parents st)"
proof (induction st ms e rule: block_loop.induct)
  case (1 st members e)
  let ?ms = "case entry_id (ds_entries st ! e) of Some i \<Rightarrow> (i, ds_stamps st ! e) # members | None \<Rightarrow> members"
  show ?case
  proof (cases "case get (ds_parents st) (e + 1) of Some (Some p) \<Rightarrow> p \<in> set ?ms | _ \<Rightarrow> False")
    case True
    then have "e + 1 < length (ds_parents st)" by (auto simp: get_def split: option.splits if_splits)
    from "1.IH" [OF refl refl True this] True show ?thesis
      by (subst (1 2) block_loop.simps) (simp add: Let_def)
  next
    case False
    then show ?thesis using "1.prems" by (subst (1 2) block_loop.simps) (simp add: Let_def)
  qed
qed

lemma mset_splice_in: "mset (splice_in i ys xs) = mset ys + mset xs"
  by (simp add: splice_in_def) (metis append_take_drop_id mset_append)

lemma mset_slice_drain: "a \<le> b \<Longrightarrow> mset (str_slice xs a b) + mset (drain a b xs) = mset xs"
proof -
  assume "a \<le> b"
  then have "xs = take a xs @ str_slice xs a b @ drop b xs"
    by (simp add: str_slice_def drop_take) (metis append_take_drop_id drop_drop le_add_diff_inverse2)
  then have "mset xs = mset (take a xs) + mset (str_slice xs a b) + mset (drop b xs)" by (metis append_assoc mset_append)
  then show ?thesis by (simp add: drain_def)
qed

lemma cells_ok_mset: "mset cs = mset cs' \<Longrightarrow> cells_ok cs = cells_ok cs'"
proof -
  assume m: "mset cs = mset cs'"
  have "shown_count t cs = shown_count t cs'" for t
    unfolding shown_count_def using m by (metis mset_filter size_mset)
  moreover have "set cs = set cs'" using m by (metis set_mset_mset)
  ultimately show ?thesis by (simp add: cells_ok_def list_all_iff)
qed

definition reparent :: "parent \<Rightarrow> cell \<Rightarrow> cell" where
  "reparent p c = (c_entry c, c_stamp c, c_hidden c, p, c_eraser c)"

lemma splice_in_update_head:
  "ys \<noteq> [] \<Longrightarrow> i \<le> length xs \<Longrightarrow> splice_in i (ys[0 := y]) xs = (splice_in i ys xs)[i := y]"
  by (cases ys) (simp_all add: splice_in_def list_update_append)

lemma splice_in_nth_head: "ys \<noteq> [] \<Longrightarrow> i \<le> length xs \<Longrightarrow> splice_in i ys xs ! i = ys ! 0"
  by (simp add: splice_in_def nth_append)

lemma cells_ok_moved:
  assumes ok: "cells_ok cs" and he: "head < e" "e \<le> length cs" and at: "at \<le> length (drain head e cs)"
  shows "cells_ok (splice_in at ((str_slice cs head e)[0 := reparent p (str_slice cs head e ! 0)]) (drain head e cs))"
proof -
  let ?b = "str_slice cs head e"
  have ne: "?b \<noteq> []" using he by (auto simp: str_slice_def)
  have ok1: "cells_ok (splice_in at ?b (drain head e cs))"
  proof -
    have "mset (splice_in at ?b (drain head e cs)) = mset cs"
      unfolding mset_splice_in using he(1) by (intro mset_slice_drain) simp
    then show ?thesis using ok cells_ok_mset by blast
  qed
  have at': "at < length (splice_in at ?b (drain head e cs))" using at ne length_greater_0_conv [of ?b] by (simp del: length_greater_0_conv add: splice_in_def)
  have "cell_ok (?b ! 0)" using cells_ok_nth [OF ok1 at'] splice_in_nth_head [OF ne at] by simp
  then show ?thesis unfolding splice_in_update_head [OF ne at]
    using ok1 at' splice_in_nth_head [OF ne at]
    by (intro cells_ok_update) (auto simp: reparent_def cell_ok_def shows_task_def)
qed

lemma zip_block:
  assumes "length es = n" "length ss = n" "length hs = n" "length ps = n" "length rs = n" "head < e" "e \<le> n"
  shows "zip (splice_in i (str_slice es head e) (drain head e es)) (zip (splice_in i (str_slice ss head e) (drain head e ss))
     (zip (splice_in i (str_slice hs head e) (drain head e hs)) (zip (splice_in i ((str_slice ps head e)[0 := p]) (drain head e ps))
       (splice_in i (str_slice rs head e) (drain head e rs))))) =
    (let cs = zip es (zip ss (zip hs (zip ps rs))) in
     splice_in i ((str_slice cs head e)[0 := reparent p (str_slice cs head e ! 0)]) (drain head e cs))"
proof -
  have l: "length (str_slice xs head e) = e - head" if "length xs = n" for xs :: "'z list" using that assms(6,7) by simp
  have "zip (str_slice es head e) (zip (str_slice ss head e) (zip (str_slice hs head e) (zip ((str_slice ps head e)[0 := p]) (str_slice rs head e)))) =
      (zip (str_slice es head e) (zip (str_slice ss head e) (zip (str_slice hs head e) (zip (str_slice ps head e) (str_slice rs head e)))))
        [0 := (str_slice es head e ! 0, str_slice ss head e ! 0, str_slice hs head e ! 0, p, str_slice rs head e ! 0)]"
    using assms by (simp add: zip_update_left zip_update_right l)
  moreover have "str_slice (zip es (zip ss (zip hs (zip ps rs)))) head e =
      zip (str_slice es head e) (zip (str_slice ss head e) (zip (str_slice hs head e) (zip (str_slice ps head e) (str_slice rs head e))))"
    by (simp only: zip_slice)
  moreover have "drain head e (zip es (zip ss (zip hs (zip ps rs)))) =
      zip (drain head e es) (zip (drain head e ss) (zip (drain head e hs) (zip (drain head e ps) (drain head e rs))))"
    using assms by (simp add: zip_drain)
  ultimately show ?thesis using assms
    by (simp add: zip_splice_in reparent_def Let_def)
qed

lemma move_block_moved:
  assumes step: "in_step st" and head: "head < length (ds_entries st)" and mb: "move_block head t placed st = (st', True)"
  obtains e at where "head < e" "e \<le> length (cells st)" "at \<le> length (drain head e (cells st))" "in_step st'" "view_ok st'"
    "cells st' = splice_in at ((str_slice (cells st) head e)[0 := reparent (Some (t, placed)) (str_slice (cells st) head e ! 0)])
      (drain head e (cells st))"
proof -
  let ?e = "block_end st head"
  have he: "head < ?e" "?e \<le> length (ds_entries st)"
    using block_loop_bounds [of head st "[]"] head step by (auto simp: block_end_def in_step_def)
  obtain anchor0 where found: "List.find (\<lambda>s. entry_id (ds_entries st ! s) = Some t \<and> ds_stamps st ! s = placed) (slots st) = Some anchor0"
    and out: "\<not> (head \<le> anchor0 \<and> anchor0 < ?e)"
    using mb by (auto simp: move_block_def Let_def split: option.splits if_splits)
  define anchor where "anchor = (if anchor0 > head then anchor0 - (?e - head) else anchor0)"
  define at where "at = skip_newer (drain head ?e (ds_stamps st)) (anchor + 1) (ds_stamps st ! head)"
  have a0: "anchor0 < length (ds_entries st)" using found find_Some_set by fastforce
  have "anchor + 1 \<le> length (drain head ?e (ds_stamps st))"
    using a0 out he head step by (auto simp: anchor_def drain_def in_step_def)
  then have at: "at \<le> length (drain head ?e (ds_stamps st))" unfolding at_def by (rule skip_newer_le)
  have st': "st' = reindex (st\<lparr>
      ds_entries := splice_in at (str_slice (ds_entries st) head ?e) (drain head ?e (ds_entries st)),
      ds_stamps := splice_in at (str_slice (ds_stamps st) head ?e) (drain head ?e (ds_stamps st)),
      ds_hidden := splice_in at (str_slice (ds_hidden st) head ?e) (drain head ?e (ds_hidden st)),
      ds_parents := splice_in at ((str_slice (ds_parents st) head ?e)[0 := Some (t, placed)]) (drain head ?e (ds_parents st)),
      ds_erasers := splice_in at (str_slice (ds_erasers st) head ?e) (drain head ?e (ds_erasers st))\<rparr>)"
    using mb found out unfolding move_block_def Let_def at_def anchor_def by (auto split: if_splits)
  have len: "length (str_slice (cells st) head ?e) = ?e - head" "length (str_slice (ds_stamps st) head ?e) = ?e - head"
    "length (str_slice (ds_hidden st) head ?e) = ?e - head" "length (str_slice (ds_parents st) head ?e) = ?e - head"
    "length (str_slice (ds_erasers st) head ?e) = ?e - head" "length (str_slice (ds_entries st) head ?e) = ?e - head"
    using he step by (simp_all add: in_step_def)
  show ?thesis
  proof (rule that)
    show "cells st' = splice_in at ((str_slice (cells st) head ?e)[0 := reparent (Some (t, placed)) (str_slice (cells st) head ?e ! 0)])
      (drain head ?e (cells st))"
      unfolding st' cells_reindex using step he len
      unfolding cells_def by (simp add: zip_block [where n = "length (ds_entries st)"] in_step_def Let_def)
    show "in_step st'" unfolding st' in_step_reindex
      using step len by (simp add: in_step_def splice_in_def drain_def)
    show "view_ok st'" unfolding st' by simp
    show "at \<le> length (drain head ?e (cells st))" using at step by (simp add: drain_def in_step_def)
  qed (use he step in simp_all)
qed

lemma move_block_stays: "move_block head t placed st = (st', False) \<Longrightarrow> st' = st"
  by (auto simp: move_block_def Let_def split: option.splits if_splits)

lemma doc_ok_move_block:
  assumes ok: "doc_ok st" and head: "head < length (ds_entries st)" and mb: "move_block head t placed st = (st', b)"
  shows "doc_ok st'"
proof (cases b)
  case True
  have "in_step st" using ok by (simp add: doc_ok_def)
  moreover have "move_block head t placed st = (st', True)" using mb True by simp
  ultimately obtain e at where "head < e" "e \<le> length (cells st)" "at \<le> length (drain head e (cells st))" "in_step st'" "view_ok st'"
    "cells st' = splice_in at ((str_slice (cells st) head e)[0 := reparent (Some (t, placed)) (str_slice (cells st) head e ! 0)])
      (drain head e (cells st))"
    using move_block_moved head by blast
  then show ?thesis using cells_ok_moved [of "cells st" head e at] ok by (simp add: doc_ok_def)
qed (use mb ok move_block_stays [of head t placed st st'] in auto)

lemma doc_ok_rehome_loop: "doc_ok st \<Longrightarrow> doc_ok (rehome_loop n t placed st)"
proof (induction n arbitrary: st)
  case (Suc n)
  show ?case
  proof (cases "List.find (\<lambda>s. follows_older st s t placed) (rev (slots st))")
    case (Some head)
    then have "head < length (ds_entries st)" using find_Some_set by fastforce
    then have "doc_ok st'" if "move_block head t placed st = (st', b)" for st' b
      using doc_ok_move_block [OF Suc.prems _ that] by simp
    then show ?thesis using Some Suc.IH by (auto split: prod.split bool.split)
  qed (simp add: Suc.prems)
qed simp

lemma doc_ok_rehome_onto: "doc_ok st \<Longrightarrow> doc_ok (rehome_onto t placed st)"
  by (simp add: rehome_onto_def doc_ok_rehome_loop)

section \<open>Erasers\<close>

lemma cells_ok_pointwise:
  assumes "cells_ok cs" "length cs' = length cs"
    and "\<And>s. s < length cs \<Longrightarrow> cell_ok (cs' ! s)"
    and "\<And>s t. s < length cs \<Longrightarrow> shows_task t (cs' ! s) = shows_task t (cs ! s)"
  shows "cells_ok cs'"
proof -
  have c: "shown_count t xs = length (filter id (map (shows_task t) xs))" for t xs
    by (simp add: shown_count_def filter_map comp_def)
  have "map (shows_task t) cs' = map (shows_task t) cs" for t
    using assms(2,4) by (auto intro: nth_equalityI)
  then show ?thesis using assms by (simp add: cells_ok_def c list_all_length)
qed

lemma is_blank_id: "is_blank st s \<longleftrightarrow> entry_id (ds_entries st ! s) = None"
  by (auto simp: is_blank_def split: entry.split)

definition settled_hidden :: "doc_state \<Rightarrow> bool list" where
  "settled_hidden st = map (\<lambda>s. if is_blank st s \<and> \<not> ds_erasers st ! s then s \<in> snd ` set (claims st) else ds_hidden st ! s)
     (slots st)"

lemma settle_erasers_eq:
  assumes "in_step st" "view_ok st"
  shows "settle_erasers st = (if True \<in> set (ds_erasers st) then reindex (st\<lparr>ds_hidden := settled_hidden st\<rparr>) else st)"
proof -
  let ?st1 = "st\<lparr>ds_hidden := settled_hidden st\<rparr>"
  have "?st1 = reindex ?st1" if "\<not> list_ex (\<lambda>s. ds_hidden st ! s \<noteq> settled_hidden st ! s) (slots st)"
  proof -
    have "settled_hidden st = ds_hidden st"
      using that assms(1) by (intro nth_equalityI) (auto simp: settled_hidden_def list_ex_iff in_step_def slots_def)
    then show ?thesis using assms(2) by (simp add: view_ok_def reindex_def slots_def)
  qed
  moreover have "settle_erasers st = (if True \<notin> set (ds_erasers st) then st
      else if list_ex (\<lambda>s. ds_hidden st ! s \<noteq> settled_hidden st ! s) (slots st) then reindex ?st1 else ?st1)"
    by (simp only: settle_erasers_def Let_def settled_hidden_def set_map)
  ultimately show ?thesis by presburger
qed

lemma length_settled_hidden [simp]: "length (settled_hidden st) = length (ds_entries st)"
  by (simp add: settled_hidden_def slots_def)

lemma nth_settled_hidden:
  "s < length (ds_entries st) \<Longrightarrow> settled_hidden st ! s =
    (if is_blank st s \<and> \<not> ds_erasers st ! s then s \<in> snd ` set (claims st) else ds_hidden st ! s)"
  by (simp add: settled_hidden_def slots_def)

lemma in_step_hidden: "in_step st \<Longrightarrow> length hs = length (ds_entries st) \<Longrightarrow> in_step (st\<lparr>ds_hidden := hs\<rparr>)"
  by (simp add: in_step_def)

lemma doc_ok_settle_erasers:
  assumes "doc_ok st"
  shows "doc_ok (settle_erasers st)"
proof (cases "True \<in> set (ds_erasers st)")
  case True
  let ?st1 = "st\<lparr>ds_hidden := settled_hidden st\<rparr>"
  have step: "in_step st" and v: "view_ok st" and ok: "cells_ok (cells st)" using assms by (auto simp: doc_ok_def)
  have step1: "in_step ?st1" using step by (simp add: in_step_hidden)
  have "cells_ok (cells ?st1)"
  proof (rule cells_ok_pointwise [OF ok])
    fix s t assume "s < length (cells st)"
    then have s: "s < length (ds_entries st)" using step by simp
    have c: "cell_ok (cells st ! s)" using cells_ok_nth [OF ok] s step by simp
    show "cell_ok (cells ?st1 ! s)" "shows_task t (cells ?st1 ! s) = shows_task t (cells st ! s)"
      using c s step step1
      by (auto simp: nth_cells cell_ok_def shows_task_def nth_settled_hidden is_blank_id)
  qed (use step step1 in simp)
  then show ?thesis using True step1 by (simp add: settle_erasers_eq [OF step v] doc_ok_reindex)
qed (use assms in \<open>simp add: settle_erasers_def\<close>)

lemma claim_loop_Some:
  "claim_loop st mine taken old ss = Some b \<Longrightarrow> b \<in> set ss \<and> is_blank st b \<and> \<not> ds_erasers st ! b \<and> b \<notin> set taken"
  by (induction st mine taken old ss rule: claim_loop.induct) (auto split: if_splits)

lemma claim_Some:
  "claim st s taken = Some b \<Longrightarrow> s < b \<and> b < length (ds_entries st) \<and> is_blank st b \<and> \<not> ds_erasers st ! b \<and> b \<notin> set taken"
  by (auto simp: claim_def dest!: claim_loop_Some)

definition claims_inv :: "doc_state \<Rightarrow> (nat \<times> nat) list \<Rightarrow> bool" where
  "claims_inv st cs \<longleftrightarrow> distinct (map snd cs) \<and>
     (\<forall>(s, b) \<in> set cs. s < length (ds_entries st) \<and> ds_erasers st ! s \<and> b < length (ds_entries st) \<and> is_blank st b \<and> \<not> ds_erasers st ! b)"

lemma claims_loop_inv:
  "claims_inv st cs \<Longrightarrow> (\<forall>s \<in> set ss. s < length (ds_entries st) \<and> ds_erasers st ! s) \<Longrightarrow> claims_inv st (claims_loop st cs ss)"
proof (induction st cs ss rule: claims_loop.induct)
  case (2 st cs s ss)
  show ?case
  proof (cases "claim st s (map snd cs)")
    case None
    then show ?thesis using 2 by simp
  next
    case (Some b)
    have "claims_inv st ((s, b) # cs)" using 2(3,4) claim_Some [OF Some] by (auto simp: claims_inv_def)
    then show ?thesis using Some 2 by simp
  qed
qed simp

lemma claims_inv: "claims_inv st (claims st)"
  unfolding claims_def by (rule claims_loop_inv) (auto simp: claims_inv_def)

text \<open>What the claims depend on: not on which blanks are hidden.\<close>

definition same_shape :: "doc_state \<Rightarrow> doc_state \<Rightarrow> bool" where
  "same_shape a b \<longleftrightarrow> length (ds_entries a) = length (ds_entries b) \<and>
     (\<forall>s < length (ds_entries a). is_blank a s = is_blank b s \<and> ds_erasers a ! s = ds_erasers b ! s \<and>
        ds_stamps a ! s = ds_stamps b ! s \<and> (is_blank a s \<or> ds_hidden a ! s = ds_hidden b ! s))"

lemma claim_loop_cong:
  "same_shape a b \<Longrightarrow> \<forall>s \<in> set ss. s < length (ds_entries a) \<Longrightarrow> claim_loop a mine taken old ss = claim_loop b mine taken old ss"
proof (induction ss arbitrary: old)
  case (Cons s ss)
  then have "is_blank a s = is_blank b s" "ds_erasers a ! s = ds_erasers b ! s" "ds_stamps a ! s = ds_stamps b ! s"
    "(ds_hidden a ! s \<and> \<not> is_blank a s) = (ds_hidden b ! s \<and> \<not> is_blank b s)" by (auto simp: same_shape_def)
  then show ?case using Cons by (simp only: claim_loop.simps) simp
qed simp

lemma claim_cong:
  assumes "same_shape a b" and "s < length (ds_entries a)"
  shows "claim a s taken = claim b s taken"
proof -
  have "claim_loop a mine taken None [s + 1..<length (ds_entries a)] = claim_loop b mine taken None [s + 1..<length (ds_entries a)]" for mine
    by (rule claim_loop_cong [OF assms(1)]) simp
  then show ?thesis using assms by (simp add: claim_def same_shape_def)
qed

lemma claims_loop_cong:
  "same_shape a b \<Longrightarrow> \<forall>s \<in> set ss. s < length (ds_entries a) \<Longrightarrow> claims_loop a cs ss = claims_loop b cs ss"
  by (induction ss arbitrary: cs) (auto simp: claim_cong split: option.split)

lemma claims_cong:
  assumes "same_shape a b"
  shows "claims a = claims b"
proof -
  have "filter (\<lambda>s. ds_erasers a ! s) (slots a) = filter (\<lambda>s. ds_erasers b ! s) (slots b)"
    using assms by (auto simp: same_shape_def slots_def intro!: filter_cong)
  moreover have "claims_loop a [] (filter (\<lambda>s. ds_erasers a ! s) (slots a)) =
      claims_loop b [] (filter (\<lambda>s. ds_erasers a ! s) (slots a))"
    by (rule claims_loop_cong [OF assms]) simp
  ultimately show ?thesis unfolding claims_def by simp
qed

definition settled :: "doc_state \<Rightarrow> bool" where
  "settled st \<longleftrightarrow> (\<forall>b \<in> snd ` set (claims st). ds_hidden st ! b)"

lemma claims_Nil: "in_step st \<Longrightarrow> True \<notin> set (ds_erasers st) \<Longrightarrow> claims st = []"
proof -
  assume "in_step st" "True \<notin> set (ds_erasers st)"
  then have "filter (\<lambda>s. ds_erasers st ! s) (slots st) = []"
    unfolding filter_empty_conv in_step_def by (metis nth_mem set_slots)
  then show ?thesis by (simp add: claims_def)
qed

lemma reindex_simps [simp]:
  "ds_entries (reindex st) = ds_entries st" "ds_hidden (reindex st) = ds_hidden st"
  "ds_stamps (reindex st) = ds_stamps st" "ds_erasers (reindex st) = ds_erasers st" "ds_parents (reindex st) = ds_parents st"
  by (simp_all add: reindex_def)

lemma settled_settle_erasers:
  assumes "in_step st" "view_ok st"
  shows "settled (settle_erasers st)"
proof (cases "True \<in> set (ds_erasers st)")
  case True
  let ?st1 = "reindex (st\<lparr>ds_hidden := settled_hidden st\<rparr>)"
  have "same_shape ?st1 st" by (auto simp: same_shape_def nth_settled_hidden is_blank_def)
  then have c: "claims ?st1 = claims st" by (rule claims_cong)
  have "settled_hidden st ! b" if "b \<in> snd ` set (claims st)" for b
    using that claims_inv [of st] nth_settled_hidden [of b st] by (force simp: claims_inv_def)
  then show ?thesis using True by (simp add: settle_erasers_eq [OF assms] settled_def c)
qed (use assms in \<open>simp add: settle_erasers_def settled_def claims_Nil\<close>)

section \<open>Pruning ghosts\<close>

lemma claims_loop_fst:
  "distinct (map fst cs) \<Longrightarrow> distinct ss \<Longrightarrow> set ss \<inter> fst ` set cs = {} \<Longrightarrow> distinct (map fst (claims_loop st cs ss))"
  by (induction ss arbitrary: cs) (auto split: option.split)

lemma claims_fst: "distinct (map fst (claims st))"
  unfolding claims_def by (rule claims_loop_fst) (auto simp: slots_def)

definition drops :: "(nat \<times> nat) list \<Rightarrow> nat \<Rightarrow> nat list" where
  "drops cs s = s # (case map_of cs s of Some b \<Rightarrow> [b] | None \<Rightarrow> [])"

lemma pick_drop_take:
  "\<exists>k. pick_drop cs need dr ss = dr @ concat (map (drops cs) (take k ss)) \<and>
     (need \<le> length (pick_drop cs need dr ss) \<or> length ss \<le> k)"
proof (induction cs need dr ss rule: pick_drop.induct)
  case (2 cs need dr s ss)
  show ?case
  proof (cases "need \<le> length dr")
    case True
    then show ?thesis by (intro exI [of _ 0]) simp
  next
    case False
    then obtain k where "pick_drop cs need (dr @ drops cs s) ss = (dr @ drops cs s) @ concat (map (drops cs) (take k ss)) \<and>
      (need \<le> length (pick_drop cs need (dr @ drops cs s) ss) \<or> length ss \<le> k)"
      using "2" [OF False] unfolding drops_def by blast
    moreover have "pick_drop cs need dr (s # ss) = pick_drop cs need (dr @ drops cs s) ss"
      using False by (simp add: drops_def)
    ultimately show ?thesis by (intro exI [of _ "Suc k"]) auto
  qed
qed simp

lemma set_drops: "set (concat (map (drops cs) ss)) \<subseteq> set ss \<union> snd ` set cs"
proof -
  have "set (drops cs s) \<subseteq> {s} \<union> snd ` set cs" for s
    using map_of_SomeD [of cs s] by (force simp: drops_def split: option.split)
  then show ?thesis by fastforce
qed

lemma distinct_drops:
  assumes "distinct (map snd cs)"
  shows "distinct ss \<Longrightarrow> set ss \<inter> snd ` set cs = {} \<Longrightarrow> distinct (concat (map (drops cs) ss))"
proof (induction ss)
  case (Cons s ss)
  have "b \<notin> set (concat (map (drops cs) ss))" if b: "map_of cs s = Some b" for b
  proof
    assume "b \<in> set (concat (map (drops cs) ss))"
    then obtain s' where s': "s' \<in> set ss" "b = s' \<or> map_of cs s' = Some b"
      by (auto simp: drops_def split: option.splits)
    have "(s, b) \<in> set cs" using b by (rule map_of_SomeD)
    then have "b \<noteq> s'" using Cons.prems(2) s'(1) by force
    then have "(s', b) \<in> set cs" using s'(2) map_of_SomeD by fastforce
    with \<open>(s, b) \<in> set cs\<close> have "s' = s" using assms inj_onD [of snd "set cs" "(s, b)" "(s', b)"] by (simp add: distinct_map)
    then show False using s'(1) Cons.prems(1) by simp
  qed
  moreover have "s \<notin> set (concat (map (drops cs) ss))"
  proof
    assume "s \<in> set (concat (map (drops cs) ss))"
    then have "s \<in> set ss \<union> snd ` set cs" using set_drops by (rule subsetD [rotated])
    then show False using Cons.prems by auto
  qed
  moreover have "map_of cs s \<noteq> Some s" using Cons.prems(2) map_of_SomeD [of cs s s] by force
  moreover have "distinct (concat (map (drops cs) ss))" using Cons by simp
  ultimately have "distinct (drops cs s @ concat (map (drops cs) ss))"
    unfolding drops_def [of cs s] by (auto simp del: set_concat set_map split: option.split)
  then show ?case by simp
qed simp

lemma remove_at_nth: "j < i \<Longrightarrow> i < length xs \<Longrightarrow> remove_at i xs ! j = xs ! j"
  by (simp add: remove_at_def nth_append)

lemma filter_remove_at: "i < length xs \<Longrightarrow> \<not> P (xs ! i) \<Longrightarrow> filter P (remove_at i xs) = filter P xs"
proof -
  assume a: "i < length xs" "\<not> P (xs ! i)"
  then have "filter P xs = filter P (take i xs @ xs ! i # drop (Suc i) xs)" by (simp only: id_take_nth_drop [symmetric])
  then show ?thesis using a by (simp add: remove_at_def)
qed

lemma fold_remove_at:
  "sorted_wrt (>) is \<Longrightarrow> \<forall>i \<in> set is. i < length xs \<and> \<not> P (xs ! i) \<Longrightarrow>
   filter P (fold remove_at is xs) = filter P xs \<and> length (fold remove_at is xs) = length xs - length is"
proof (induction "is" arbitrary: xs)
  case (Cons i "is")
  have "\<forall>j \<in> set is. j < length (remove_at i xs) \<and> \<not> P (remove_at i xs ! j)"
    using Cons.prems by (auto simp: remove_at_nth)
  then have "filter P (fold remove_at is (remove_at i xs)) = filter P (remove_at i xs) \<and>
      length (fold remove_at is (remove_at i xs)) = length (remove_at i xs) - length is"
    using Cons by simp
  then show ?case using Cons.prems by (simp add: filter_remove_at)
qed simp

lemma in_step_remove_slot [simp]: "in_step st \<Longrightarrow> in_step (remove_slot s st)"
  by (simp add: in_step_def remove_slot_def remove_at_def)

lemma cells_remove_slot: "in_step st \<Longrightarrow> cells (remove_slot s st) = remove_at s (cells st)"
  by (simp add: cells_def remove_slot_def in_step_def zip_steps length_steps)

lemma fold_remove_slot:
  "in_step st \<Longrightarrow> in_step (fold remove_slot is st) \<and> cells (fold remove_slot is st) = fold remove_at is (cells st)"
  by (induction "is" arbitrary: st) (simp_all add: cells_remove_slot)

lemma shown_count_remove_at: "shown_count t (remove_at i cs) \<le> shown_count t cs"
proof -
  have "shown_count t (drop (i + 1) cs) \<le> shown_count t (drop i cs)"
    using shown_count_split [of t 1 "drop i cs"] by (simp add: add.commute)
  then show ?thesis using shown_count_split [of t i cs] by (simp add: remove_at_def)
qed

lemma cells_ok_remove_at: "cells_ok cs \<Longrightarrow> cells_ok (remove_at i cs)"
  using shown_count_remove_at [of _ i cs] set_take_subset [of i cs] set_drop_subset [of "i + 1" cs]
  by (fastforce simp: cells_ok_def list_all_iff remove_at_def intro: le_trans)

lemma cells_ok_fold_remove_at: "cells_ok cs \<Longrightarrow> cells_ok (fold remove_at is cs)"
  by (induction "is" arbitrary: cs) (simp_all add: cells_ok_remove_at)

lemma forget_absent_core [simp]:
  "in_step (forget_absent st) = in_step st" "cells (forget_absent st) = cells st"
  by (simp_all add: forget_absent_def in_step_def cells_def)

lemma doc_ok_prune_ghosts_to: "doc_ok st \<Longrightarrow> doc_ok (prune_ghosts_to mx st)"
  using fold_remove_slot [of st] by (simp add: prune_ghosts_to_def Let_def doc_ok_def cells_ok_fold_remove_at)

lemma doc_ok_prune_ghosts: "doc_ok st \<Longrightarrow> doc_ok (prune_ghosts st)"
  by (simp add: prune_ghosts_def prune_ghosts_past_def doc_ok_prune_ghosts_to)

text \<open>How many ghosts a document keeps.\<close>

definition ghost_count :: "doc_state \<Rightarrow> nat" where
  "ghost_count st = length (ds_entries st) - length (ds_visible st)"

lemma length_visible_cells:
  assumes "in_step st" "view_ok st"
  shows "length (ds_visible st) = length (filter (\<lambda>c. \<not> c_hidden c) (cells st))"
  using visible_entries_cells [OF assms] by (metis length_map visible_entries_def)

lemma ghost_count_cells:
  assumes "in_step st" "view_ok st"
  shows "ghost_count st = length (filter c_hidden (cells st))"
  using sum_length_filter_compl [of c_hidden "cells st"] assms
  by (simp add: ghost_count_def length_visible_cells)

lemma hidden_slots_count:
  assumes "in_step st" "view_ok st"
  shows "length (filter (\<lambda>s. ds_hidden st ! s) (slots st)) = ghost_count st"
  using sum_length_filter_compl [of "\<lambda>s. ds_hidden st ! s" "slots st"] assms
  by (simp add: ghost_count_def view_ok_def slots_def)

definition oldest_ghosts :: "doc_state \<Rightarrow> nat list" where
  "oldest_ghosts st = sort_key (\<lambda>s. ds_stamps st ! s) (filter (\<lambda>s. ds_hidden st ! s \<and> s \<notin> snd ` set (claims st)) (slots st))"

lemma set_oldest_ghosts:
  "set (oldest_ghosts st) = {s. s < length (ds_entries st) \<and> ds_hidden st ! s \<and> s \<notin> snd ` set (claims st)}"
  by (auto simp: oldest_ghosts_def)

lemma distinct_oldest_ghosts: "distinct (oldest_ghosts st)"
  by (simp add: oldest_ghosts_def slots_def)

definition doomed :: "nat \<Rightarrow> doc_state \<Rightarrow> nat list" where
  "doomed mx st = pick_drop (claims st) (ghost_count st - mx) [] (oldest_ghosts st)"

lemma doomed_take:
  obtains k where "doomed mx st = concat (map (drops (claims st)) (take k (oldest_ghosts st)))"
    and "ghost_count st - mx \<le> length (doomed mx st) \<or> length (oldest_ghosts st) \<le> k"
  using pick_drop_take [of "claims st" "ghost_count st - mx" "[]" "oldest_ghosts st"] unfolding doomed_def by auto

lemma prune_ghosts_to_doomed:
  "prune_ghosts_to mx st = (if ghost_count st \<le> mx then st
     else reindex (forget_absent (fold remove_slot (rev (sort (doomed mx st))) st)))"
  by (simp add: prune_ghosts_to_def doomed_def oldest_ghosts_def ghost_count_def Let_def)

lemma doomed_hidden:
  assumes "settled st" and "s \<in> set (doomed mx st)"
  shows "s < length (ds_entries st)" "ds_hidden st ! s"
proof -
  obtain k where k: "doomed mx st = concat (map (drops (claims st)) (take k (oldest_ghosts st)))"
    by (rule doomed_take)
  have "s \<in> set (take k (oldest_ghosts st)) \<union> snd ` set (claims st)"
    using assms(2) unfolding k by (rule subsetD [OF set_drops])
  then have "s \<in> set (oldest_ghosts st) \<or> s \<in> snd ` set (claims st)" using in_set_takeD by fastforce
  then show "s < length (ds_entries st)" "ds_hidden st ! s"
    using assms(1) claims_inv [of st] by (auto simp: settled_def claims_inv_def set_oldest_ghosts)
qed

lemma distinct_doomed: "distinct (doomed mx st)"
proof -
  obtain k where k: "doomed mx st = concat (map (drops (claims st)) (take k (oldest_ghosts st)))"
    by (rule doomed_take)
  have "set (take k (oldest_ghosts st)) \<inter> snd ` set (claims st) = {}"
    using set_take_subset [of k "oldest_ghosts st"] by (auto simp: set_oldest_ghosts)
  then show ?thesis unfolding k using claims_inv [of st] distinct_oldest_ghosts
    by (intro distinct_drops) (auto simp: claims_inv_def)
qed

lemma ghosts_doomed:
  assumes ok: "doc_ok st" and b: "b < length (ds_entries st)" "ds_hidden st ! b"
  shows "b \<in> set (concat (map (drops (claims st)) (oldest_ghosts st)))"
proof (cases "b \<in> snd ` set (claims st)")
  case False
  then have "b \<in> set (oldest_ghosts st)" using b by (simp add: set_oldest_ghosts)
  then show ?thesis by (auto simp: drops_def)
next
  case True
  then obtain s where s: "(s, b) \<in> set (claims st)" by auto
  then have e: "s < length (ds_entries st)" "ds_erasers st ! s" using claims_inv [of st] by (auto simp: claims_inv_def)
  then have "ds_hidden st ! s"
    using cells_ok_nth [of "cells st" s] ok by (auto simp: doc_ok_def cell_ok_def nth_cells)
  moreover have "s \<notin> snd ` set (claims st)" using e claims_inv [of st] by (auto simp: claims_inv_def)
  ultimately have "s \<in> set (oldest_ghosts st)" using e by (simp add: set_oldest_ghosts)
  moreover have "b \<in> set (drops (claims st) s)" using s claims_fst by (simp add: drops_def)
  ultimately show ?thesis by auto
qed

lemma doomed_enough:
  assumes ok: "doc_ok st"
  shows "ghost_count st - mx \<le> length (doomed mx st)"
proof -
  obtain k where k: "doomed mx st = concat (map (drops (claims st)) (take k (oldest_ghosts st)))"
    "ghost_count st - mx \<le> length (doomed mx st) \<or> length (oldest_ghosts st) \<le> k" by (rule doomed_take)
  have "ghost_count st \<le> length (doomed mx st)" if "length (oldest_ghosts st) \<le> k"
  proof -
    let ?hs = "filter (\<lambda>s. ds_hidden st ! s) (slots st)"
    have "set ?hs \<subseteq> set (doomed mx st)"
      using ghosts_doomed [OF ok] k(1) that by (auto simp del: set_concat)
    then have "card (set ?hs) \<le> card (set (doomed mx st))" by (intro card_mono) auto
    moreover have "card (set ?hs) = length ?hs" by (rule distinct_card) (simp add: slots_def)
    ultimately show ?thesis using hidden_slots_count [of st] ok distinct_card [OF distinct_doomed [of mx st]]
      by (simp add: doc_ok_def)
  qed
  then show ?thesis using k(2) by linarith
qed

lemma sorted_wrt_rev_sort: "distinct xs \<Longrightarrow> sorted_wrt (>) (rev (sort xs :: nat list))"
  by (simp add: sorted_wrt_rev strict_sorted_iff)

lemma prune_ghosts_to_view:
  assumes ok: "doc_ok st" and st: "settled st"
  shows "visible_entries (prune_ghosts_to mx st) = visible_entries st" "ghost_count (prune_ghosts_to mx st) \<le> mx"
proof -
  let ?dr = "rev (sort (doomed mx st))"
  let ?st1 = "reindex (forget_absent (fold remove_slot ?dr st))"
  have step: "in_step st" "view_ok st" using ok by (auto simp: doc_ok_def)
  have step1: "in_step ?st1" "view_ok ?st1" using fold_remove_slot [OF step(1)] by simp_all
  have cells1: "cells ?st1 = fold remove_at ?dr (cells st)" using fold_remove_slot [OF step(1)] by simp
  have "\<forall>i \<in> set ?dr. i < length (cells st) \<and> \<not> \<not> c_hidden (cells st ! i)"
    using doomed_hidden [OF st] step by (simp add: nth_cells)
  from fold_remove_at [OF sorted_wrt_rev_sort [OF distinct_doomed] this]
  have f: "filter (\<lambda>c. \<not> c_hidden c) (cells ?st1) = filter (\<lambda>c. \<not> c_hidden c) (cells st)"
    "length (cells ?st1) = length (cells st) - length (doomed mx st)" unfolding cells1 by simp_all
  have "visible_entries ?st1 = visible_entries st"
    using visible_entries_cells [OF step1] visible_entries_cells [OF step] f(1) by simp
  then show "visible_entries (prune_ghosts_to mx st) = visible_entries st" by (simp add: prune_ghosts_to_doomed)
  have "length (ds_entries ?st1) = length (ds_entries st) - length (doomed mx st)"
    using f(2) length_cells [OF step1(1)] length_cells [OF step(1)] by simp
  moreover have "length (ds_visible ?st1) = length (ds_visible st)"
    using length_visible_cells [OF step1] length_visible_cells [OF step] f(1) by simp
  ultimately have "ghost_count ?st1 \<le> mx" using doomed_enough [OF ok, of mx] by (simp add: ghost_count_def)
  then show "ghost_count (prune_ghosts_to mx st) \<le> mx" by (simp add: prune_ghosts_to_doomed)
qed

section \<open>Every operation keeps the invariant\<close>

lemma doc_ok_insert_entry:
  assumes "doc_ok st" "slot_after st after h = Inr sp" "\<And>t. entry_id e = Some t \<Longrightarrow> live_slot st t = None"
  shows "doc_ok (insert_entry sp e h st)"
proof -
  have "cells_ok (insert_at (sp_at sp) (e, h, False, sp_parent sp, False) (cells st))"
    using assms shown_count_live [of st]
    by (intro cells_ok_insert) (auto simp: doc_ok_def cell_ok_def shows_task_def)
  then show ?thesis using assms(1) by (simp add: doc_ok_def cells_insert_entry)
qed

lemma length_insert_entry:
  "sp_at sp \<le> length (ds_entries st) \<Longrightarrow> length (ds_entries (insert_entry sp e h st)) = length (ds_entries st) + 1"
  by (simp add: insert_entry_def)

lemma insert_at_update: "i \<le> length xs \<Longrightarrow> (insert_at i x xs)[i := y] = insert_at i y xs"
  by (simp add: insert_at_def list_update_append)

lemma insert_at_nth [simp]: "i \<le> length xs \<Longrightarrow> insert_at i x xs ! i = x"
  by (simp add: insert_at_def nth_append)

text \<open>A placement added as a ghost, or as an eraser, shows nothing.\<close>

lemma doc_ok_insert_hidden:
  assumes ok: "doc_ok st" and sp: "slot_after st after h = Inr sp"
  shows "doc_ok (hide_entry (sp_at sp) (insert_entry sp e h st))"
proof -
  have le: "sp_at sp \<le> length (ds_entries st)" using slot_after_le [OF _ sp] ok by (simp add: doc_ok_def)
  have step: "in_step st" using ok by (simp add: doc_ok_def)
  have "cells (hide_entry (sp_at sp) (insert_entry sp e h st)) = insert_at (sp_at sp) (e, h, True, sp_parent sp, False) (cells st)"
    using le step by (simp add: cells_hide_entry cells_insert_entry length_insert_entry insert_at_update hide_cell_def)
  moreover have "cells_ok (insert_at (sp_at sp) (e, h, True, sp_parent sp, False) (cells st))"
    using ok by (intro cells_ok_insert) (auto simp: doc_ok_def cell_ok_def shows_task_def)
  ultimately show ?thesis using step by (simp add: doc_ok_def)
qed

lemma cells_erasers:
  "in_step st \<Longrightarrow> i < length (ds_entries st) \<Longrightarrow>
   cells (st\<lparr>ds_erasers := (ds_erasers st)[i := True]\<rparr>) =
     (cells st)[i := (c_entry (cells st ! i), c_stamp (cells st ! i), c_hidden (cells st ! i), c_parent (cells st ! i), True)]"
  by (simp add: cells_def in_step_def zip_update_right)

lemma doc_ok_blank_remove: "doc_ok st \<Longrightarrow> doc_ok (fst (blank_remove after h st))"
proof (cases "slot_after st after h")
  case (Inr sp)
  assume ok: "doc_ok st"
  let ?e = "EBlank (from_bytes [] (ds_ending st))"
  let ?st1 = "insert_entry sp ?e h st"
  let ?st2 = "?st1\<lparr>ds_erasers := (ds_erasers ?st1)[sp_at sp := True]\<rparr>"
  have step: "in_step st" using ok by (simp add: doc_ok_def)
  have le: "sp_at sp \<le> length (ds_entries st)" using slot_after_le [OF step Inr] .
  have lt: "sp_at sp < length (ds_entries ?st1)" using le by (simp add: length_insert_entry)
  have step2: "in_step ?st2" using in_step_insert_entry [OF step, of sp ?e h] by (simp add: in_step_def)
  have "cells (hide_entry (sp_at sp) ?st2) = insert_at (sp_at sp) (?e, h, True, sp_parent sp, True) (cells st)"
    using le lt step step2
    by (simp add: cells_hide_entry cells_erasers cells_insert_entry insert_at_update hide_cell_def)
  moreover have "cells_ok (insert_at (sp_at sp) (?e, h, True, sp_parent sp, True) (cells st))"
    using ok by (intro cells_ok_insert) (auto simp: doc_ok_def cell_ok_def shows_task_def)
  ultimately show ?thesis using Inr step2 by (simp add: blank_remove_def Let_def doc_ok_def)
qed (simp add: blank_remove_def)

lemma doc_ok_blank_insert: "doc_ok st \<Longrightarrow> doc_ok (fst (blank_insert after h st))"
  by (auto simp: blank_insert_def intro!: doc_ok_insert_entry split: sum.split)

lemma doc_ok_place_ghost: "doc_ok st \<Longrightarrow> doc_ok (fst (place_ghost t after h st))"
  using doc_ok_insert_hidden doc_ok_rehome_onto
  by (auto simp: place_ghost_def split: sum.split option.split)

lemma live_slot_hide:
  assumes "doc_ok st" "live_slot st t = Some s"
  shows "live_slot (hide_entry s st) t = None"
proof -
  have s: "s < length (ds_entries st)" "shows_task t (cells st ! s)" and step: "in_step st"
    using live_slot_Some [OF assms(2)] assms(1) by (auto simp: doc_ok_def nth_cells shows_task_def)
  have "shown_count t (cells st) \<le> 1" using assms(1) by (simp add: doc_ok_def cells_ok_def)
  moreover have "\<not> shows_task t (hide_cell (cells st ! s))" by (simp add: shows_task_def hide_cell_def)
  ultimately have "shown_count t (cells (hide_entry s st)) = 0"
    using shown_count_update [of s "cells st" t "hide_cell (cells st ! s)"] s step by (simp add: cells_hide_entry)
  then show ?thesis using shown_count_live step by simp
qed

lemma doc_ok_move_task: "doc_ok st \<Longrightarrow> doc_ok (fst (move_task t after to_file h st))"
proof -
  assume ok: "doc_ok st"
  have hide: "doc_ok (hide_entry s st)" if "live_slot st t = Some s" for s
    using live_slot_Some [OF that] ok by (simp add: doc_ok_hide_entry)
  have "doc_ok (rehome_onto t h (insert_entry sp (ds_entries st ! s) h (hide_entry s st)))"
    if "live_slot st t = Some s" "slot_after (hide_entry s st) after h = Inr sp" for s sp
    using live_slot_Some [OF that(1)] live_slot_hide [OF ok that(1)] hide [OF that(1)]
    by (intro doc_ok_rehome_onto doc_ok_insert_entry [OF _ that(2)]) auto
  then show ?thesis using ok hide doc_ok_place_ghost [OF ok]
    by (auto simp: move_task_def Let_def split: option.split sum.split)
qed

text \<open>The text and field operations change merge metadata and the line of one placement.\<close>

definition metadata_only :: "doc_state \<Rightarrow> doc_state \<Rightarrow> bool" where
  "metadata_only st st' \<longleftrightarrow> (\<exists>fs th lf. st' = st\<lparr>ds_field_stamps := fs, ds_text_history := th, ds_life := lf\<rparr>)"

lemma metadata_onlyD:
  assumes "metadata_only st st'"
  shows "doc_ok st' = doc_ok st" "ds_entries st' = ds_entries st" "ds_hidden st' = ds_hidden st" "ds_stamps st' = ds_stamps st"
    "ds_parents st' = ds_parents st" "ds_erasers st' = ds_erasers st" "ds_visible st' = ds_visible st"
    "ds_mode st' = ds_mode st" "ds_path st' = ds_path st" "ds_ending st' = ds_ending st"
    "live_slot st' = live_slot st" "slot_after st' = slot_after st" "slots st' = slots st"
proof -
  obtain fs th lf where st': "st' = st\<lparr>ds_field_stamps := fs, ds_text_history := th, ds_life := lf\<rparr>"
    using assms by (auto simp: metadata_only_def)
  show "doc_ok st' = doc_ok st" unfolding st' by simp
  show "live_slot st' = live_slot st" "slots st' = slots st" unfolding st' by (auto simp: live_slot_def slots_def)
  show "slot_after st' = slot_after st" unfolding st'
    by (intro ext) (simp add: slot_after_def anchor_slot_def slots_def cong: option.case_cong sum.case_cong)
qed (use assms in \<open>auto simp: metadata_only_def\<close>)

lemma metadata_only_refl [simp]: "metadata_only st st"
  unfolding metadata_only_def by (intro exI [of _ "ds_field_stamps st"] exI [of _ "ds_text_history st"] exI [of _ "ds_life st"]) simp

lemma metadata_only_trans: "metadata_only a b \<Longrightarrow> metadata_only b c \<Longrightarrow> metadata_only a c"
  by (force simp: metadata_only_def)

lemma metadata_only_steps [simp]:
  "metadata_only st (st\<lparr>ds_field_stamps := x\<rparr>)" "metadata_only st (st\<lparr>ds_text_history := y\<rparr>)" "metadata_only st (st\<lparr>ds_life := z\<rparr>)"
proof -
  have "metadata_only st (st\<lparr>ds_field_stamps := x, ds_text_history := y, ds_life := z\<rparr>)" for x y z
    by (auto simp: metadata_only_def)
  from this [of "ds_life st" "ds_text_history st" x] this [of "ds_life st" y "ds_field_stamps st"]
    this [of z "ds_text_history st" "ds_field_stamps st"]
  show "metadata_only st (st\<lparr>ds_field_stamps := x\<rparr>)" "metadata_only st (st\<lparr>ds_text_history := y\<rparr>)"
    "metadata_only st (st\<lparr>ds_life := z\<rparr>)" by simp_all
qed

lemma metadata_only_ops [simp]:
  "metadata_only st (put_history t h st)" "metadata_only st (forget_text t st)" "metadata_only st (record_field t f s st)"
  "metadata_only st (restore_text t sv st)"
  by (simp_all add: put_history_def forget_text_def record_field_def restore_text_def)

lemma metadata_only_history:
  "edit_description t c h es st = (st1, r) \<Longrightarrow> metadata_only st st1"
  "set_pri_in_description t c h p st = (st1, r2) \<Longrightarrow> metadata_only st st1"
  "clear_pri_in_description t c st = (st1, r3) \<Longrightarrow> metadata_only st st1"
  "remove_tag_in_description t c h k st = (st1, r3) \<Longrightarrow> metadata_only st st1"
  by (auto simp: edit_description_def set_pri_in_description_def clear_pri_in_description_def
      remove_tag_in_description_def Let_def split: prod.splits if_splits option.splits)

lemma metadata_only_keep_in_history: "keep_in_history t a b h st = (st1, l) \<Longrightarrow> metadata_only st st1"
  by (auto simp: keep_in_history_def split: option.splits prod.splits if_splits sum.splits
      dest: metadata_only_history metadata_only_trans [OF metadata_only_history(2) metadata_only_ops(2)])

lemma metadata_only_fold_record: "metadata_only st (fold (\<lambda>f. record_field t f h) fs st)"
proof (induction fs arbitrary: st)
  case (Cons f fs)
  have "metadata_only st (record_field t f h st)" by simp
  from metadata_only_trans [OF this Cons.IH] show ?case by simp
qed simp

lemma metadata_only_merged_line: "merged_line t c i h st = (st1, r) \<Longrightarrow> metadata_only st st1"
  using metadata_only_trans [OF metadata_only_ops(1) metadata_only_fold_record]
  by (auto simp: merged_line_def Let_def split: option.splits prod.splits sum.splits)

lemma metadata_only_note_death: "note_death t h st = (st1, b) \<Longrightarrow> metadata_only st st1"
  by (auto simp: note_death_def Let_def)

lemma doc_ok_replace_content:
  assumes "doc_ok st" "content_slot st t = Some i" "metadata_only st st1"
  shows "doc_ok (replace_entry i (ETask t l) st1)"
  using assms(1) content_slot_Some [OF assms(2)] metadata_onlyD(1,2) [OF assms(3)]
  by (intro doc_ok_replace_entry) auto

lemma doc_ok_set_deleted: "doc_ok st \<Longrightarrow> doc_ok (fst (set_deleted t v h st))"
proof -
  assume ok: "doc_ok st"
  have "doc_ok st1" "live_slot st1 t = Some s \<Longrightarrow> doc_ok (hide_entry s st1)" if "note_death t h st = (st1, b)" for st1 b s
    using metadata_onlyD(1) [OF metadata_only_note_death [OF that]] ok live_slot_Some [of st1 t s]
    by (auto intro: doc_ok_hide_entry)
  then show ?thesis using ok by (auto simp: set_deleted_def Let_def split: field_value.split bool.split option.split prod.split)
qed

lemma doc_ok_clear_done_priority:
  "doc_ok st \<Longrightarrow> content_slot st t = Some i \<Longrightarrow> doc_ok (fst (clear_done_priority t i l d h st))"
  using metadata_onlyD(1) metadata_only_history(3) doc_ok_replace_content
  by (force simp: clear_done_priority_def record_field_def Let_def split: prod.split sum.split)

lemma doc_ok_apply_set_field:
  assumes ok: "doc_ok st"
  shows "doc_ok (fst (apply_set_field t f v h st))"
proof (cases "f = FDeleted")
  case False
  show ?thesis
  proof (cases "content_slot st t")
    case (Some i)
    let ?l = "slot_line st i"
    consider (stale) "is_stale_field st t f h"
      | (clear) d where "\<not> is_stale_field st t f h" "(if f = FPriority \<and> v = VPriority None then done_description ?l else None) = Some d"
      | (bad) "\<not> is_stale_field st t f h" "(if f = FPriority \<and> v = VPriority None then done_description ?l else None) = None" "rewrite_prefix ?l f v = None"
      | (set) n where "\<not> is_stale_field st t f h" "(if f = FPriority \<and> v = VPriority None then done_description ?l else None) = None" "rewrite_prefix ?l f v = Some n"
      by (metis not_None_eq)
    then show ?thesis
    proof cases
      case stale
      then show ?thesis using False Some ok doc_ok_replace_content [OF ok Some metadata_only_refl]
        by (simp add: apply_set_field_def Let_def split: option.split)
    next
      case clear
      then show ?thesis using False Some doc_ok_clear_done_priority [OF ok Some]
        by (simp only: apply_set_field_def Let_def if_False option.case)
    next
      case bad
      then show ?thesis using False Some ok by (simp only: apply_set_field_def Let_def if_False option.case fst_conv)
    next
      case set
      obtain st1 kept where k: "(if description_of ?l = description_of n then (st, n) else keep_in_history t ?l n h st) = (st1, kept)"
        by fastforce
      then have "metadata_only st st1" using metadata_only_keep_in_history by (auto split: if_splits)
      then have "doc_ok (record_field t f h (replace_entry i (ETask t kept) st1))"
        using doc_ok_replace_content [OF ok Some] by (simp add: record_field_def)
      then show ?thesis using set False Some k by (simp only: apply_set_field_def Let_def if_False option.case prod.case fst_conv)
    qed
  qed (use ok False in \<open>simp add: apply_set_field_def\<close>)
qed (simp add: apply_set_field_def doc_ok_set_deleted [OF ok])

lemma doc_ok_apply_edit_text:
  assumes ok: "doc_ok st"
  shows "doc_ok (fst (apply_edit_text t es h st))"
proof (cases "content_slot st t")
  case (Some i)
  have "doc_ok (restore_text t sv st1)" "doc_ok (replace_entry i (ETask t l) st1)"
    if "edit_description t d h es st = (st1, r)" for d st1 r l sv
    using metadata_only_history(1) [OF that] ok metadata_onlyD(1) doc_ok_replace_content [OF ok Some]
    by (auto simp: restore_text_def)
  then show ?thesis using Some ok by (auto simp: apply_edit_text_def Let_def split: option.split prod.split sum.split)
qed (simp add: apply_edit_text_def ok)

lemma doc_ok_apply_remove_tag:
  assumes ok: "doc_ok st"
  shows "doc_ok (fst (apply_remove_tag t k h st))"
proof (cases "content_slot st t")
  case (Some i)
  have "doc_ok (restore_text t sv st1)" "doc_ok (replace_entry i (ETask t l) st1)"
    if "remove_tag_in_description t d h k st = (st1, r)" for d st1 r l sv
    using metadata_only_history(4) [OF that] ok metadata_onlyD(1) doc_ok_replace_content [OF ok Some]
    by (auto simp: restore_text_def)
  then show ?thesis using Some ok by (auto simp: apply_remove_tag_def Let_def split: option.split prod.split sum.split)
qed (simp add: apply_remove_tag_def ok)

definition show_slot :: "nat \<Rightarrow> doc_state \<Rightarrow> doc_state" where
  "show_slot n st = reindex (st\<lparr>ds_hidden := (ds_hidden st)[n := False]\<rparr>)"

lemma doc_ok_show_slot:
  assumes ok: "doc_ok st" and n: "n < length (ds_entries st)" "entry_id (ds_entries st ! n) = Some t" and live: "live_slot st t = None"
  shows "doc_ok (show_slot n st)"
proof -
  let ?c = "(ds_entries st ! n, ds_stamps st ! n, False, ds_parents st ! n, ds_erasers st ! n)"
  have step: "in_step st" and cok: "cells_ok (cells st)" using ok by (auto simp: doc_ok_def)
  have cells': "cells (st\<lparr>ds_hidden := (ds_hidden st)[n := False]\<rparr>) = (cells st)[n := ?c]"
    using step n by (simp add: cells_def in_step_def zip_update_left zip_update_right)
  have "shown_count u ((cells st)[n := ?c]) \<le> 1" for u
  proof (cases "u = t")
    case True
    have "shown_count t (cells st) = 0" using live shown_count_live [OF step] by simp
    then show ?thesis using shown_count_update [of n "cells st" t ?c] n step True by (auto split: if_splits)
  next
    case False
    then have "\<not> shows_task u ?c" using n by (simp add: shows_task_def)
    moreover have "shown_count u (cells st) \<le> 1" using cok by (simp add: cells_ok_def)
    ultimately show ?thesis using shown_count_update [of n "cells st" u ?c] n step by (auto split: if_splits)
  qed
  moreover have "cell_ok ?c" using cells_ok_nth [OF cok, of n] n step by (simp add: cell_ok_def nth_cells)
  ultimately have "cells_ok ((cells st)[n := ?c])" using cok by (simp add: cells_ok_def list_all_update)
  then show ?thesis using cells' step by (simp add: show_slot_def doc_ok_reindex in_step_def)
qed

lemma doc_ok_show_newest:
  assumes ok: "doc_ok st"
  shows "doc_ok (show_newest t added st)"
proof -
  let ?ps = "filter (\<lambda>s. entry_id (ds_entries st ! s) = Some t) (slots st)"
  let ?new = "max_by_key (\<lambda>s. (ds_stamps st ! s, s = added)) ?ps"
  show ?thesis
  proof (cases "?new = live_slot st t")
    case False
    have "?ps \<noteq> []" if "live_slot st t = Some s" for s using live_slot_Some [OF that] by (auto simp: filter_empty_conv)
    with False obtain n where n: "?new = Some n" by (cases ?new; cases "live_slot st t") auto
    then have n': "n < length (ds_entries st)" "entry_id (ds_entries st ! n) = Some t" using max_by_key_Some by fastforce+
    show ?thesis
    proof (cases "live_slot st t")
      case None
      then have "show_newest t added st = show_slot n st" using False n by (simp add: show_newest_def show_slot_def Let_def)
      then show ?thesis using doc_ok_show_slot [OF ok n' None] by simp
    next
      case (Some l)
      then have "show_newest t added st = show_slot n (hide_entry l st)" using False n
        by (simp add: show_newest_def show_slot_def hide_entry_def reindex_def slots_def Let_def)
      moreover have "doc_ok (hide_entry l st)" using live_slot_Some [OF Some] ok by (simp add: doc_ok_hide_entry)
      ultimately show ?thesis using doc_ok_show_slot [of "hide_entry l st" n t] n' live_slot_hide [OF ok Some]
        by (simp add: hide_entry_def)
    qed
  qed (use ok in \<open>simp add: show_newest_def\<close>)
qed

lemma doc_ok_set_all_lines:
  assumes ok: "doc_ok st"
  shows "doc_ok (set_all_lines t l st)"
proof -
  let ?st1 = "set_all_lines t l st"
  have step: "in_step st" "in_step ?st1" and v: "view_ok ?st1"
    using ok by (auto simp: doc_ok_def in_step_def set_all_lines_def view_ok_def slots_def)
  have "cells_ok (cells ?st1)"
  proof (rule cells_ok_pointwise)
    show "cells_ok (cells st)" using ok by (simp add: doc_ok_def)
    show len: "length (cells ?st1) = length (cells st)" using step by (simp add: set_all_lines_def)
    fix s u assume "s < length (cells st)"
    then have s: "s < length (ds_entries st)" "s < length (ds_entries ?st1)" using step len by auto
    have "cell_ok (cells st ! s)" using ok s step by (intro cells_ok_nth) (auto simp: doc_ok_def)
    then show "cell_ok (cells ?st1 ! s)" "shows_task u (cells ?st1 ! s) = shows_task u (cells st ! s)"
      using nth_cells [OF step(1) s(1)] nth_cells [OF step(2) s(2)] s(1)
      by (auto simp: set_all_lines_def cell_ok_def shows_task_def)
  qed
  then show ?thesis using step v by (simp add: doc_ok_def)
qed

lemma doc_ok_reinsert:
  assumes ok: "doc_ok st"
  shows "doc_ok (fst (reinsert t after l h st))"
proof (cases "slot_after st after h")
  case (Inr sp)
  show ?thesis
  proof (cases "content_slot st t")
    case (Some s)
    obtain st1 r where m: "merged_line t (entry_line (ds_entries st ! s)) l h st = (st1, r)" by fastforce
    note md = metadata_onlyD [OF metadata_only_merged_line [OF m]]
    have ok1: "doc_ok st1" and sp1: "slot_after st1 after h = Inr sp" using md ok Inr by simp_all
    have "doc_ok (rehome_onto t h (set_all_lines t n (if b then show_newest t (sp_at sp) st3 else st3)))"
      if "st3 = (hide_entry (sp_at sp) (insert_entry sp e h st1))\<lparr>ds_life := lf\<rparr>" for n b st3 lf e
      using doc_ok_insert_hidden [OF ok1 sp1, of e] unfolding that
      by (auto intro!: doc_ok_rehome_onto doc_ok_set_all_lines doc_ok_show_newest)
    then show ?thesis using Inr Some m ok1 by (auto simp: reinsert_def Let_def split: sum.split)
  qed (use ok Inr in \<open>simp add: reinsert_def\<close>)
qed (use ok in \<open>simp add: reinsert_def\<close>)

lemma has_placement_live: "\<not> has_placement st t \<Longrightarrow> live_slot st t = None"
  by (auto simp: has_placement_def live_slot_None list_ex_iff)

lemma doc_ok_apply_insert: "doc_ok st \<Longrightarrow> doc_ok (fst (apply_insert t after l h st))"
  using doc_ok_reinsert has_placement_live
  by (auto simp: apply_insert_def Let_def intro!: doc_ok_insert_entry split: sum.split)

lemmas doc_ok_ops = doc_ok_apply_insert doc_ok_apply_set_field doc_ok_apply_edit_text doc_ok_apply_remove_tag
  doc_ok_move_task doc_ok_blank_insert doc_ok_blank_remove

lemma doc_ok_op_effect: "doc_ok st \<Longrightarrow> doc_ok (fst (op_effect k h st))"
  by (cases k) (simp_all add: doc_ok_ops)

lemma ds_apply_doc_ok: "doc_ok st \<Longrightarrow> doc_ok (fst (ds_apply o1 st))"
  using doc_ok_op_effect [of st "o_kind o1" "o_hlc o1"] doc_ok_prune_ghosts doc_ok_settle_erasers
  by (auto simp: ds_apply_def apply_inner_def split: prod.split sum.split)

section \<open>Refused operations\<close>

lemma anchor_slot_hide: "anchor_slot st after h = Inr a \<Longrightarrow> \<exists>b. anchor_slot (hide_entry s st) after h = Inr b"
proof (cases after)
  case (Some i)
  assume a: "anchor_slot st after h = Inr a"
  have "filter (\<lambda>s. entry_id (ds_entries st ! s) = Some i) (slots st) \<noteq> []"
  proof
    assume "filter (\<lambda>s. entry_id (ds_entries st ! s) = Some i) (slots st) = []"
    then have "anchor_slot st after h = Inl (UnknownTask i)"
      unfolding anchor_slot_def Some Let_def option.case by (simp only: filter.simps max_by_key.simps min_by_key.simps find.simps option.case)
    then show False using a by simp
  qed
  then have "min_by_key (\<lambda>s. ds_stamps st ! s) (filter (\<lambda>s. entry_id (ds_entries st ! s) = Some i) (slots st)) \<noteq> None"
    by simp
  then show ?thesis unfolding Some
    by (auto simp: anchor_slot_def hide_entry_def slots_def Let_def split: option.split)
qed (simp add: anchor_slot_def)

lemma slot_after_hide: "anchor_slot st after h = Inr a \<Longrightarrow> \<exists>sp. slot_after (hide_entry s st) after h = Inr sp"
  using anchor_slot_hide [of st after h a s] by (auto simp: slot_after_def)

lemma move_task_Inl: "move_task t after f h st = (st', Inl e) \<Longrightarrow> st' = st"
proof -
  assume m: "move_task t after f h st = (st', Inl e)"
  have "slot_after (hide_entry s st) after h \<noteq> Inl er" if "anchor_slot st after h = Inr a" for s a er
    using slot_after_hide [OF that, of s] by auto
  then show ?thesis using m
    by (auto simp: move_task_def place_ghost_def Let_def split: if_splits option.splits sum.splits)
qed

lemma edit_text_Inl: "apply_edit_text t es h st = (st', Inl e) \<Longrightarrow> st' = st"
  by (auto simp: apply_edit_text_def edit_description_def restore_text_def put_history_def text_history_of_def Let_def
      split: option.splits prod.splits sum.splits)

lemma remove_tag_Inl: "apply_remove_tag t k h st = (st', Inl e) \<Longrightarrow> st' = st"
  by (auto simp: apply_remove_tag_def remove_tag_in_description_def restore_text_def put_history_def text_history_of_def Let_def
      split: option.splits prod.splits sum.splits if_splits)

text \<open>The two operations that may leave merge metadata behind when they are refused: an insert again, and
  a priority cleared on a done line.\<close>

definition may_keep_history :: "op_kind \<Rightarrow> doc_state \<Rightarrow> bool" where
  "may_keep_history k st \<longleftrightarrow>
    (case k of OInsert t _ _ \<Rightarrow> has_placement st t
     | OSetField t f v \<Rightarrow> f = FPriority \<and> v = VPriority None
     | _ \<Rightarrow> False)"

lemma set_field_Inl:
  assumes "apply_set_field t f v h st = (st', Inl e)"
  shows "metadata_only st st'" "\<not> (f = FPriority \<and> v = VPriority None) \<Longrightarrow> st' = st"
proof -
  have "metadata_only st st'" if "clear_done_priority t i l d h st = (st', Inl e)" for i l d
    using that metadata_only_history(3) by (auto simp: clear_done_priority_def Let_def split: prod.splits sum.splits)
  then show "metadata_only st st'" using assms
    by (auto simp: apply_set_field_def set_deleted_def Let_def split: if_splits option.splits prod.splits field_value.splits bool.splits)
  show "st' = st" if "\<not> (f = FPriority \<and> v = VPriority None)" using assms that
    by (auto simp: apply_set_field_def set_deleted_def Let_def split: if_splits option.splits prod.splits field_value.splits bool.splits)
qed

lemma insert_Inl:
  assumes "apply_insert t after l h st = (st', Inl e)"
  shows "metadata_only st st'" "\<not> has_placement st t \<Longrightarrow> st' = st"
proof -
  have "metadata_only st st'" if "reinsert t after x h st = (st', Inl e)" for x
    using that metadata_only_merged_line by (auto simp: reinsert_def Let_def split: option.splits prod.splits sum.splits)
  then show "metadata_only st st'" using assms by (auto simp: apply_insert_def Let_def split: if_splits sum.splits)
  show "st' = st" if "\<not> has_placement st t" using assms that by (auto simp: apply_insert_def Let_def split: if_splits sum.splits)
qed

lemma op_effect_Inl:
  assumes "op_effect k h st = (st', Inl e)"
  shows "metadata_only st st'" "\<not> may_keep_history k st \<Longrightarrow> st' = st"
proof -
  have "metadata_only st st' \<and> (\<not> may_keep_history k st \<longrightarrow> st' = st)"
    using assms set_field_Inl insert_Inl move_task_Inl edit_text_Inl remove_tag_Inl
    by (cases k) (fastforce simp: may_keep_history_def blank_insert_def blank_remove_def Let_def split: if_splits sum.splits)+
  then show "metadata_only st st'" "\<not> may_keep_history k st \<Longrightarrow> st' = st" by auto
qed

end
