(* ===== verification/Document.thy ===== *)
theory Document
  imports DocOk
begin

text \<open>
  What a document promises: the bytes it was read from come back, every reachable state keeps the
  invariant and the bound on ghosts, a refused operation leaves the document alone, and what the
  operations do to the lines shown.
\<close>

section \<open>Reading and writing\<close>

lemma entries_of_lines: "entries_of k ls ids = Inr es \<Longrightarrow> map entry_line es = ls"
proof (induction k ls ids arbitrary: es rule: entries_of.induct)
  case (2 k l ls ids)
  have "entry_line en = l" if "entry_of k l i = Inr en" for i en
    using that by (auto simp: entry_of_def split: option.splits line_kind.splits)
  then show ?case using 2 by (auto split: sum.splits)
qed simp

lemma entries_of_ids:
  "entries_of k ls ids = Inr es \<Longrightarrow> length (filter (\<lambda>e. entry_id e = Some t) es) \<le> count_list ids (Some t)"
proof (induction k ls ids arbitrary: es rule: entries_of.induct)
  case (2 k l ls ids)
  let ?i = "case ids of [] \<Rightarrow> None | i # _ \<Rightarrow> i"
  obtain en es' where e: "entry_of k l ?i = Inr en" "entries_of (k + 1) ls (tl ids) = Inr es'" "es = en # es'"
    using 2(2) by (auto split: sum.splits)
  have "entry_id en = Some t \<Longrightarrow> ids \<noteq> [] \<and> hd ids = Some t"
    using e(1) by (cases ids) (auto simp: entry_of_def split: option.splits line_kind.splits)
  moreover have "length (filter (\<lambda>e. entry_id e = Some t) es') \<le> count_list (tl ids) (Some t)" using 2(1) e by simp
  ultimately show ?case using e(3) by (cases ids) auto
qed simp

lemma visible_entries_fresh: "from_file path f ids mode = Inr st \<Longrightarrow> visible_entries st = ds_entries st"
  by (auto simp: from_file_def visible_entries_def Let_def map_nth split: if_splits sum.splits)

text \<open>C18: a document read from a file and not yet changed writes back the file's bytes, whatever ids its
  lines were given.\<close>

theorem from_file_to_bytes:
  assumes "from_file path (parse_file bytes) ids mode = Inr st"
  shows "ds_to_bytes st = bytes"
proof -
  obtain es where es: "entries_of 0 (f_lines (parse_file bytes)) ids = Inr es" "ds_entries st = es"
    "ds_bom st = f_bom (parse_file bytes)" "ds_ending st = f_ending (parse_file bytes)"
    "ds_trailing_newline st = f_trailing_newline (parse_file bytes)"
    using assms by (auto simp: from_file_def Let_def split: if_splits sum.splits)
  then have "ds_to_bytes st = to_bytes (parse_file bytes)"
    using visible_entries_fresh [OF assms] entries_of_lines [OF es(1)]
    by (auto simp: ds_to_bytes_def es intro!: arg_cong [of _ _ to_bytes] todo_file.equality)
  then show ?thesis using to_bytes_parse by simp
qed

theorem from_file_to_bytes_witness:
  "\<exists>st. from_file ''todo.txt'' (parse_file [CHR ''a'', LF, LF, CHR ''b'']) [Some 1, None, Some 2] Sidecar = Inr st \<and>
     ds_to_bytes st = [CHR ''a'', LF, LF, CHR ''b'']"
proof -
  let ?f = "parse_file [CHR ''a'', LF, LF, CHR ''b'']"
  have "length (f_lines ?f) = 3" by code_simp
  then have n: "length (f_lines ?f) \<le> MAX_LINES_PER_FILE" by (simp add: MAX_LINES_PER_FILE_def)
  have "\<not> isl (entries_of 0 (f_lines ?f) [Some 1, None, Some 2])" by code_simp
  then obtain es where "entries_of 0 (f_lines ?f) [Some 1, None, Some 2] = Inr es"
    by (cases "entries_of 0 (f_lines ?f) [Some 1, None, Some 2]") auto
  then obtain st where "from_file ''todo.txt'' ?f [Some 1, None, Some 2] Sidecar = Inr st" using n by (simp add: from_file_def Let_def)
  with from_file_to_bytes [OF this] show ?thesis by blast
qed

section \<open>Reachable documents\<close>

text \<open>A document starts as a file whose tasks have different ids and takes operations, applied or refused.\<close>

inductive reachable :: "doc_state \<Rightarrow> bool" where
  start: "from_file path f ids mode = Inr st \<Longrightarrow> \<forall>t. count_list ids (Some t) \<le> 1 \<Longrightarrow> reachable st"
| step: "reachable st \<Longrightarrow> reachable (fst (ds_apply o1 st))"

lemma from_file_doc_ok:
  assumes "from_file path f ids mode = Inr st" and "\<forall>t. count_list ids (Some t) \<le> 1"
  shows "doc_ok st" "ghost_count st = 0"
proof -
  obtain es where es: "entries_of 0 (f_lines f) ids = Inr es" "st = \<lparr>ds_path = path, ds_entries = es,
      ds_hidden = replicate (length es) False, ds_visible = [0..<length es], ds_stamps = replicate (length es) unplaced,
      ds_parents = replicate (length es) None, ds_erasers = replicate (length es) False,
      ds_field_stamps = Map.empty, ds_text_history = Map.empty, ds_life = Map.empty,
      ds_bom = f_bom f, ds_ending = f_ending f, ds_trailing_newline = f_trailing_newline f, ds_mode = mode\<rparr>"
    using assms(1) by (auto simp: from_file_def Let_def split: if_splits sum.splits)
  have cells: "cells st = map (\<lambda>e. (e, unplaced, False, None, False)) es"
    by (rule nth_equalityI) (auto simp: es(2) cells_def)
  have "shown_count t (cells st) = length (filter (\<lambda>e. entry_id e = Some t) es)" for t
    unfolding cells shown_count_def filter_map by (simp add: comp_def shows_task_def)
  then have "shown_count t (cells st) \<le> 1" for t using entries_of_ids [OF es(1), of t] assms(2) le_trans by metis
  moreover have "list_all cell_ok (cells st)" unfolding cells by (simp add: list_all_iff cell_ok_def)
  ultimately show "doc_ok st"
    by (simp add: doc_ok_def cells_ok_def in_step_def view_ok_def es(2) slots_def)
  show "ghost_count st = 0" by (simp add: ghost_count_def es(2))
qed

lemma op_effect_ghosts:
  assumes "op_effect k h st = (st', Inr ())" "\<not> reshapes k"
  shows "ghost_count st' = ghost_count st"
proof -
  have "metadata_only st st1 \<Longrightarrow> ghost_count (replace_entry i e st1) = ghost_count st" for st1 i e
    using metadata_onlyD(2,7) [of st st1] by (simp add: ghost_count_def replace_entry_def)
  moreover have "ghost_count (record_field t f s st1) = ghost_count st1" for t f s st1
    by (simp add: ghost_count_def record_field_def)
  ultimately show ?thesis using assms metadata_only_history metadata_only_keep_in_history
    by (cases k) (fastforce simp: apply_set_field_def apply_edit_text_def apply_remove_tag_def clear_done_priority_def Let_def
      split: if_splits option.splits prod.splits sum.splits)+
qed

lemma prune_ghosts_bound:
  assumes "doc_ok st" "settled st \<or> ghost_count st \<le> MAX_GHOSTS_PER_FILE"
  shows "ghost_count (prune_ghosts st) \<le> MAX_GHOSTS_PER_FILE" "visible_entries (prune_ghosts st) = visible_entries st"
proof -
  have "ghost_count (prune_ghosts_to GHOSTS_AFTER_PRUNE st) \<le> MAX_GHOSTS_PER_FILE" if "settled st"
    using prune_ghosts_to_view(2) [OF assms(1) that, of GHOSTS_AFTER_PRUNE]
    by (simp add: GHOSTS_AFTER_PRUNE_def MAX_GHOSTS_PER_FILE_def)
  then show "ghost_count (prune_ghosts st) \<le> MAX_GHOSTS_PER_FILE" using assms(2)
    by (auto simp: prune_ghosts_def prune_ghosts_past_def ghost_count_def [of st, symmetric])
  show "visible_entries (prune_ghosts st) = visible_entries st"
    using assms(2) prune_ghosts_to_view(1) [OF assms(1)]
    by (auto simp: prune_ghosts_def prune_ghosts_past_def ghost_count_def [of st, symmetric])
qed

text \<open>After the \<open>match\<close> of \<open>apply_inner\<close>: settling the erasers is all that changes the lines shown.\<close>

definition settle_after :: "op_kind \<Rightarrow> doc_state \<Rightarrow> doc_state" where
  "settle_after k st = (if reshapes k then settle_erasers st else st)"

lemma ds_apply_Inr:
  assumes ok: "doc_ok st" and gh: "ghost_count st \<le> MAX_GHOSTS_PER_FILE" and ap: "op_effect (o_kind o1) (o_hlc o1) st = (st1, Inr ())"
  shows "ds_apply o1 st = (prune_ghosts (settle_after (o_kind o1) st1), Inr ())"
    "visible_entries (prune_ghosts (settle_after (o_kind o1) st1)) = visible_entries (settle_after (o_kind o1) st1)"
    "ghost_count (prune_ghosts (settle_after (o_kind o1) st1)) \<le> MAX_GHOSTS_PER_FILE"
proof -
  have ok1: "doc_ok st1" using doc_ok_op_effect [OF ok, of "o_kind o1" "o_hlc o1"] ap by simp
  have "settled (settle_after (o_kind o1) st1) \<or> ghost_count (settle_after (o_kind o1) st1) \<le> MAX_GHOSTS_PER_FILE"
    using op_effect_ghosts [OF ap] gh settled_settle_erasers [of st1] ok1 by (auto simp: settle_after_def doc_ok_def)
  moreover have "doc_ok (settle_after (o_kind o1) st1)" using ok1 doc_ok_settle_erasers by (simp add: settle_after_def)
  ultimately show "visible_entries (prune_ghosts (settle_after (o_kind o1) st1)) = visible_entries (settle_after (o_kind o1) st1)"
    "ghost_count (prune_ghosts (settle_after (o_kind o1) st1)) \<le> MAX_GHOSTS_PER_FILE" using prune_ghosts_bound by auto
qed (use ap in \<open>simp add: ds_apply_def apply_inner_def settle_after_def\<close>)

lemma ds_apply_Inl: "ds_apply o1 st = (st', Inl e) \<longleftrightarrow> op_effect (o_kind o1) (o_hlc o1) st = (st', Inl e)"
  by (auto simp: ds_apply_def apply_inner_def split: prod.splits sum.splits)

lemma ds_apply_ghosts:
  assumes "doc_ok st" "ghost_count st \<le> MAX_GHOSTS_PER_FILE"
  shows "ghost_count (fst (ds_apply o1 st)) \<le> MAX_GHOSTS_PER_FILE"
proof -
  obtain st1 r where e: "op_effect (o_kind o1) (o_hlc o1) st = (st1, r)" by fastforce
  show ?thesis
  proof (cases r)
    case (Inl er)
    then have "ds_apply o1 st = (st1, Inl er)" using e ds_apply_Inl by simp
    moreover have "ghost_count st1 = ghost_count st"
      using metadata_onlyD(2,7) [OF op_effect_Inl(1)] e Inl by (simp add: ghost_count_def)
    ultimately show ?thesis using assms by simp
  next
    case (Inr u)
    then show ?thesis using ds_apply_Inr(1,3) [OF assms] e by simp
  qed
qed

lemma reachable_inv: "reachable st \<Longrightarrow> doc_ok st \<and> ghost_count st \<le> MAX_GHOSTS_PER_FILE"
  by (induction rule: reachable.induct) (auto simp: from_file_doc_ok ds_apply_doc_ok ds_apply_ghosts)

lemma shown_once: "doc_ok st \<Longrightarrow> count_list (line_ids st) (Some t) \<le> 1"
proof -
  assume ok: "doc_ok st"
  have "count_list (map entry_id (map c_entry (filter (\<lambda>c. \<not> c_hidden c) cs))) (Some t) = shown_count t cs" for cs
    by (induction cs) (auto simp: shows_task_def)
  then show ?thesis using ok visible_entries_cells [of st] by (simp add: line_ids_def doc_ok_def cells_ok_def)
qed

text \<open>C9: along any sequence of operations, applied or refused, from any file whose tasks have different
  ids, no task is ever shown on two lines, every line shown is one of the slots not hidden, the
  vectors stay in step, and the hidden placements stay within their bound.\<close>

theorem reachable_documents:
  assumes "reachable st"
  shows "count_list (line_ids st) (Some t) \<le> 1 \<and>
    ds_visible st = filter (\<lambda>s. \<not> ds_hidden st ! s) (slots st) \<and>
    length (ds_stamps st) = length (ds_entries st) \<and> length (ds_hidden st) = length (ds_entries st) \<and>
    length (ds_parents st) = length (ds_entries st) \<and> length (ds_erasers st) = length (ds_entries st) \<and>
    length (ds_entries st) - length (ds_visible st) \<le> MAX_GHOSTS_PER_FILE"
  using reachable_inv [OF assms] shown_once
  by (auto simp: doc_ok_def view_ok_def in_step_def ghost_count_def)

text \<open>An empty document, and an operation that adds a line to it.\<close>

definition empty_doc :: doc_state where
  "empty_doc = \<lparr>ds_path = ''todo.txt'', ds_entries = [], ds_hidden = [], ds_visible = [], ds_stamps = [], ds_parents = [],
     ds_erasers = [], ds_field_stamps = Map.empty, ds_text_history = Map.empty, ds_life = Map.empty, ds_bom = False,
     ds_ending = Lf, ds_trailing_newline = False, ds_mode = Sidecar\<rparr>"

definition user_op :: "hlc \<Rightarrow> op_kind \<Rightarrow> op" where
  "user_op h k = \<lparr>o_id = 0, o_hlc = h, o_principal = User 1, o_file = ''todo.txt'', o_kind = k\<rparr>"

lemma reachable_empty: "reachable empty_doc"
proof -
  have "parse_file [] = \<lparr>f_lines = [], f_bom = False, f_ending = Lf, f_trailing_newline = False\<rparr>" by code_simp
  then have "from_file ''todo.txt'' (parse_file []) [] Sidecar = Inr empty_doc"
    by (simp add: from_file_def empty_doc_def)
  then show ?thesis by (rule reachable.start) simp
qed

theorem reachable_documents_witness:
  "let st = fst (ds_apply (user_op (Hlc 1 0 1) (OInsert 7 None ''a'')) empty_doc) in
     count_list (line_ids st) (Some 7) \<le> 1 \<and> length (ds_entries st) - length (ds_visible st) \<le> MAX_GHOSTS_PER_FILE"
  using reachable_documents [OF reachable.step [OF reachable_empty]] unfolding Let_def by blast

section \<open>Refused operations\<close>

text \<open>C19: an operation that is refused leaves the document, its placements and its bytes as they were; and
  unless it inserts a task again or clears the priority of a done line, it leaves the whole state as it was,
  merge metadata included.\<close>

theorem refused_unchanged:
  assumes "ds_apply o1 st = (st', Inl e)"
  shows "ds_to_bytes st' = ds_to_bytes st \<and> doc_eq st' st \<and> ds_entries st' = ds_entries st \<and>
    ds_hidden st' = ds_hidden st \<and> ds_stamps st' = ds_stamps st \<and> (\<not> may_keep_history (o_kind o1) st \<longrightarrow> st' = st)"
proof -
  have o: "op_effect (o_kind o1) (o_hlc o1) st = (st', Inl e)" using assms ds_apply_Inl by simp
  then obtain fs th lf where "st' = st\<lparr>ds_field_stamps := fs, ds_text_history := th, ds_life := lf\<rparr>"
    using op_effect_Inl(1) unfolding metadata_only_def by blast
  then show ?thesis using op_effect_Inl(2) [OF o] by (auto simp: ds_to_bytes_def doc_eq_def visible_entries_def)
qed

theorem refused_unchanged_witness:
  "\<exists>e. ds_apply (user_op (Hlc 1 0 1) (OEditText 7 [])) empty_doc = (empty_doc, Inl e) \<and> ds_to_bytes empty_doc = ds_to_bytes empty_doc"
proof -
  have "ds_apply (user_op (Hlc 1 0 1) (OEditText 7 [])) empty_doc = (empty_doc, Inl (UnknownTask 7))"
    by (simp add: ds_apply_def apply_inner_def user_op_def empty_doc_def apply_edit_text_def content_slot_def live_slot_def slots_def)
  with refused_unchanged [OF this] show ?thesis by blast
qed

text \<open>A done line that holds a bare carriage return: clearing its priority is refused, since the line
  editor takes no line break, but the text history the operation began is kept.\<close>

definition cr_doc :: doc_state where
  "cr_doc = empty_doc\<lparr>ds_entries := [ETask 7 (from_bytes (''x a'' @ [CR] @ ''b pri:A'') Lf)], ds_hidden := [False],
     ds_visible := [0], ds_stamps := [unplaced], ds_parents := [None], ds_erasers := [False]\<rparr>"

text \<open>\<open>apply\<close> is documented to leave the state unchanged on an error. On that line it does not: the refused
  operation leaves a history whose base has lost the tag the line still shows.\<close>

theorem refused_clear_keeps_history:
  "\<exists>st' e h. ds_apply (user_op (Hlc 1 0 1) (OSetField 7 FPriority (VPriority None))) cr_doc = (st', Inl e) \<and>
     ds_text_history cr_doc 7 = None \<and> ds_text_history st' 7 = Some h \<and>
     h_base h = ''a'' @ [CR] @ ''b'' \<and> description_of (slot_line st' 0) = Some (''a'' @ [CR] @ ''b pri:A'')"
proof -
  let ?r = "op_effect (OSetField 7 FPriority (VPriority None)) (Hlc 1 0 1) cr_doc"
  have "map_option h_base (ds_text_history (fst ?r) 7) = Some (''a'' @ [CR] @ ''b'')" by code_simp
  moreover have "isl (snd ?r)" by code_simp
  moreover have "description_of (slot_line (fst ?r) 0) = Some (''a'' @ [CR] @ ''b pri:A'')" by code_simp
  moreover have "ds_text_history cr_doc 7 = None" by code_simp
  ultimately show ?thesis
    by (cases ?r) (auto simp: ds_apply_Inl user_op_def isl_def)
qed

section \<open>What the operations do to the lines shown\<close>

definition cell_task :: "cell \<Rightarrow> (task_id \<times> owned_line) option" where
  "cell_task c = (if c_hidden c then None else map_option (\<lambda>i. (i, entry_line (c_entry c))) (entry_id (c_entry c)))"

lemma map_filter_map: "List.map_filter f xs = map the (filter (\<lambda>x. x \<noteq> None) (map f xs))"
  by (induction xs) (auto simp: List.map_filter_def)

lemma task_lines_cells: "in_step st \<Longrightarrow> view_ok st \<Longrightarrow> task_lines st = List.map_filter cell_task (cells st)"
proof -
  assume a: "in_step st" "view_ok st"
  have "List.map_filter (\<lambda>e. map_option (\<lambda>i. (i, entry_line e)) (entry_id e)) (map c_entry (filter (\<lambda>c. \<not> c_hidden c) cs)) =
      List.map_filter cell_task cs" for cs
    by (induction cs) (auto simp: List.map_filter_def cell_task_def)
  then show ?thesis using visible_entries_cells [OF a] by (simp add: task_lines_def)
qed

lemma task_lines_settle_erasers:
  assumes ok: "doc_ok st"
  shows "task_lines (settle_erasers st) = task_lines st"
proof (cases "True \<in> set (ds_erasers st)")
  case True
  let ?st1 = "st\<lparr>ds_hidden := settled_hidden st\<rparr>"
  have step: "in_step st" "view_ok st" "in_step ?st1" using ok by (auto simp: doc_ok_def in_step_hidden)
  have "map cell_task (cells ?st1) = map cell_task (cells st)"
    using step by (intro nth_equalityI)
      (auto simp: nth_cells nth_settled_hidden is_blank_id cell_task_def split: option.split)
  then show ?thesis
    using True step by (simp add: settle_erasers_eq task_lines_cells map_filter_map)
qed (simp add: settle_erasers_def)

lemma task_lines_prune:
  assumes "doc_ok st" "settled st \<or> ghost_count st \<le> MAX_GHOSTS_PER_FILE"
  shows "task_lines (prune_ghosts st) = task_lines st"
  using prune_ghosts_bound(2) [OF assms] by (simp add: task_lines_def)

lemma task_lines_apply:
  assumes ok: "doc_ok st" and gh: "ghost_count st \<le> MAX_GHOSTS_PER_FILE" and ap: "op_effect (o_kind o1) (o_hlc o1) st = (st1, Inr ())"
  shows "task_lines (fst (ds_apply o1 st)) = task_lines st1"
proof -
  have "doc_ok st1" using doc_ok_op_effect [OF ok, of "o_kind o1" "o_hlc o1"] ap by simp
  then show ?thesis using ds_apply_Inr(1,2) [OF ok gh ap] task_lines_settle_erasers
    by (simp add: task_lines_def settle_after_def)
qed

lemma cell_task_id: "cell_task c = Some (t, l) \<Longrightarrow> shows_task t c"
  by (auto simp: cell_task_def shows_task_def split: if_splits)

lemma map_filter_not_shown:
  "shown_count t cs = 0 \<Longrightarrow> filter (\<lambda>(i, _). i \<noteq> t) (List.map_filter cell_task cs) = List.map_filter cell_task cs"
  by (induction cs) (auto simp: List.map_filter_def dest: cell_task_id split: if_splits)

lemma map_filter_update_shown:
  assumes "s < length cs" "shows_task t (cs ! s)" "shown_count t cs \<le> 1"
  obtains as bs where "cs = as @ cs ! s # bs" "\<And>c. cs[s := c] = as @ c # bs" "shown_count t as = 0" "shown_count t bs = 0"
proof
  show split: "cs = take s cs @ cs ! s # drop (Suc s) cs" using assms(1) by (rule id_take_nth_drop)
  show "cs[s := c] = take s cs @ c # drop (Suc s) cs" for c using assms(1) by (simp add: upd_conv_take_nth_drop)
  have "shown_count t cs = shown_count t (take s cs) + (1 + shown_count t (drop (Suc s) cs))"
    by (subst split) (simp add: assms(2))
  then show "shown_count t (take s cs) = 0" "shown_count t (drop (Suc s) cs) = 0" using assms(3) by auto
qed

lemma map_filter_append: "List.map_filter f (xs @ ys) = List.map_filter f xs @ List.map_filter f ys"
  by (simp add: List.map_filter_def)

lemma map_filter_Cons: "List.map_filter f (x # xs) = (case f x of None \<Rightarrow> [] | Some y \<Rightarrow> [y]) @ List.map_filter f xs"
  by (auto simp: List.map_filter_def)

lemmas map_filter_simps = map_filter_append map_filter_Cons

lemma task_lines_hide:
  assumes ok: "doc_ok st" and l: "live_slot st t = Some s"
  shows "task_lines (hide_entry s st) = filter (\<lambda>(i, _). i \<noteq> t) (task_lines st)"
proof -
  have step: "in_step st" "view_ok st" and s: "s < length (cells st)" "shows_task t (cells st ! s)" "shown_count t (cells st) \<le> 1"
    using ok live_slot_Some [OF l] by (auto simp: doc_ok_def cells_ok_def nth_cells shows_task_def)
  obtain as bs where ab: "cells st = as @ cells st ! s # bs" "\<And>c. (cells st)[s := c] = as @ c # bs"
    "shown_count t as = 0" "shown_count t bs = 0" by (rule map_filter_update_shown [OF s]) auto
  have "task_lines (hide_entry s st) = List.map_filter cell_task (as @ hide_cell (cells st ! s) # bs)"
    using s(1) step ab(2) by (simp add: task_lines_cells cells_hide_entry)
  also have "\<dots> = List.map_filter cell_task as @ List.map_filter cell_task bs"
    by (simp add: map_filter_simps cell_task_def hide_cell_def)
  also have "\<dots> = filter (\<lambda>(i, _). i \<noteq> t) (List.map_filter cell_task (as @ cells st ! s # bs))"
    using map_filter_not_shown [OF ab(3)] map_filter_not_shown [OF ab(4)] s(2)
    by (simp add: map_filter_simps) (auto simp: cell_task_def shows_task_def)
  finally show ?thesis using ab(1) step by (simp add: task_lines_cells)
qed

lemma task_lines_metadata: "metadata_only st st1 \<Longrightarrow> task_lines st1 = task_lines st"
  using metadata_onlyD(2,7) [of st st1] by (simp add: task_lines_def visible_entries_def)

text \<open>What is shown without one task: the entries of the file but the task's own.\<close>

abbreviation without_task :: "task_id \<Rightarrow> entry list \<Rightarrow> entry list" where
  "without_task t \<equiv> filter (\<lambda>e. entry_id e \<noteq> Some t)"

lemma without_task_not_shown:
  "shown_count t cs = 0 \<Longrightarrow>
    without_task t (map c_entry (filter (\<lambda>c. \<not> c_hidden c) cs)) = map c_entry (filter (\<lambda>c. \<not> c_hidden c) cs)"
  by (induction cs) (auto simp: shows_task_def split: if_splits)

lemma visible_entries_hide:
  assumes ok: "doc_ok st" and l: "live_slot st t = Some s"
  shows "visible_entries (hide_entry s st) = without_task t (visible_entries st)"
proof -
  have step: "in_step st" "view_ok st" and s: "s < length (cells st)" "shows_task t (cells st ! s)" "shown_count t (cells st) \<le> 1"
    using ok live_slot_Some [OF l] by (auto simp: doc_ok_def cells_ok_def nth_cells shows_task_def)
  obtain as bs where ab: "cells st = as @ cells st ! s # bs" "\<And>c. (cells st)[s := c] = as @ c # bs"
    "shown_count t as = 0" "shown_count t bs = 0" by (rule map_filter_update_shown [OF s]) auto
  let ?v = "\<lambda>cs. map c_entry (filter (\<lambda>c. \<not> c_hidden c) cs)"
  have "visible_entries (hide_entry s st) = ?v (as @ hide_cell (cells st ! s) # bs)"
    using s(1) step ab(2) by (simp add: visible_entries_cells cells_hide_entry)
  also have "\<dots> = without_task t (?v (as @ cells st ! s # bs))"
    using without_task_not_shown [OF ab(3)] without_task_not_shown [OF ab(4)] s(2) by (simp add: hide_cell_def shows_task_def)
  finally show ?thesis using ab(1) step by (simp add: visible_entries_cells)
qed

lemma visible_entries_settled: "True \<notin> set (ds_erasers st) \<Longrightarrow> visible_entries (settle_after k st) = visible_entries st"
  by (simp add: settle_after_def settle_erasers_def)

text \<open>C20: a delete of a task the document has ever held, not older than the newest re-insert of that task, succeeds and takes
  exactly that task's line from the list of the task lines: the other tasks keep their lines and their order, and a task
  already gone changes nothing. Where the document keeps no eraser of a blank line the same holds of the whole file, blank
  lines included; with an eraser kept, blank lines may be hidden or shown again when the erasers are settled.\<close>

theorem delete_removes_line:
  assumes "reachable st" and "has_placement st t"
    and "case reborn (life_of st t) of None \<Rightarrow> True | Some r \<Rightarrow> r \<le> o_hlc o1"
    and "o_kind o1 = OSetField t FDeleted (VBool True)"
  shows "snd (ds_apply o1 st) = Inr () \<and> task_lines (fst (ds_apply o1 st)) = filter (\<lambda>(i, _). i \<noteq> t) (task_lines st) \<and>
    (True \<notin> set (ds_erasers st) \<longrightarrow>
      visible_entries (fst (ds_apply o1 st)) = filter (\<lambda>e. entry_id e \<noteq> Some t) (visible_entries st))"
proof -
  have ok: "doc_ok st" and gh: "ghost_count st \<le> MAX_GHOSTS_PER_FILE" using reachable_inv [OF assms(1)] by auto
  obtain st1 where d: "note_death t (o_hlc o1) st = (st1, True)" using assms(3) by (auto simp: note_death_def Let_def)
  note md = metadata_onlyD [OF metadata_only_note_death [OF d]] and tl = task_lines_metadata [OF metadata_only_note_death [OF d]]
  define st2 where "st2 = (case live_slot st1 t of Some s \<Rightarrow> hide_entry s st1 | None \<Rightarrow> st1)"
  have e: "op_effect (o_kind o1) (o_hlc o1) st = (st2, Inr ())"
    using assms(2,4) d by (simp add: apply_set_field_def set_deleted_def st2_def split: option.split)
  have v: "visible_entries st1 = visible_entries st" using md(2,7) by (simp add: visible_entries_def)
  have "task_lines st2 = filter (\<lambda>(i, _). i \<noteq> t) (task_lines st) \<and> visible_entries st2 = without_task t (visible_entries st)"
  proof (cases "live_slot st t")
    case None
    then have "shown_count t (cells st) = 0" using shown_count_live ok by (simp add: doc_ok_def)
    then show ?thesis using map_filter_not_shown [of t "cells st"] without_task_not_shown [of t "cells st"] None md ok v tl
        task_lines_cells [of st] visible_entries_cells [of st] by (simp add: st2_def doc_ok_def)
  next
    case (Some s)
    then show ?thesis using task_lines_hide [of st1 t s] visible_entries_hide [of st1 t s] md ok v tl by (simp add: st2_def)
  qed
  moreover have "ds_erasers st2 = ds_erasers st" using md(6) by (simp add: st2_def hide_entry_def reindex_def split: option.split)
  ultimately show ?thesis
    using task_lines_apply [OF ok gh e] ds_apply_Inr(1,2) [OF ok gh e] visible_entries_settled [of st2] by simp
qed

text \<open>A document of one line, reached by one insert.\<close>

definition one_line_doc :: doc_state where
  "one_line_doc = empty_doc\<lparr>ds_entries := [ETask 7 (from_bytes ''a'' Lf)], ds_hidden := [False],
     ds_visible := [0], ds_stamps := [Hlc 1 0 1], ds_parents := [None], ds_erasers := [False]\<rparr>"

lemma one_line_doc: "ds_apply (user_op (Hlc 1 0 1) (OInsert 7 None ''a'')) empty_doc = (one_line_doc, Inr ())"
  by (simp add: ds_apply_def apply_inner_def user_op_def empty_doc_def one_line_doc_def apply_insert_def has_placement_def
      slot_after_def anchor_slot_def skip_newer_def insert_entry_def insert_at_def reindex_def slots_def settle_erasers_def
      prune_ghosts_def prune_ghosts_past_def MAX_LINES_PER_FILE_def)

lemma reachable_one_line: "reachable one_line_doc"
  using reachable.step [OF reachable_empty, of "user_op (Hlc 1 0 1) (OInsert 7 None ''a'')"] by (simp add: one_line_doc)

theorem delete_removes_line_witness:
  "task_lines (fst (ds_apply (user_op (Hlc 2 0 1) (OSetField 7 FDeleted (VBool True))) one_line_doc)) = []"
proof -
  let ?o = "user_op (Hlc 2 0 1) (OSetField 7 FDeleted (VBool True))"
  have "has_placement one_line_doc 7" "case reborn (life_of one_line_doc 7) of None \<Rightarrow> True | Some r \<Rightarrow> r \<le> o_hlc ?o"
    by (simp_all add: has_placement_def one_line_doc_def life_of_def empty_doc_def)
  moreover have "o_kind ?o = OSetField 7 FDeleted (VBool True)" by (simp add: user_op_def)
  ultimately have "task_lines (fst (ds_apply ?o one_line_doc)) = filter (\<lambda>(i, _). i \<noteq> 7) (task_lines one_line_doc)"
    using delete_removes_line [OF reachable_one_line] by blast
  also have "task_lines one_line_doc = [(7, from_bytes ''a'' Lf)]"
    by (simp add: task_lines_def visible_entries_def one_line_doc_def List.map_filter_def)
  finally show ?thesis by simp
qed

text \<open>The operations that rewrite one line: the task they name.\<close>

fun rewritten_task :: "op_kind \<Rightarrow> task_id option" where
  "rewritten_task (OSetField t f _) = (if f = FDeleted then None else Some t)"
| "rewritten_task (OEditText t _) = Some t"
| "rewritten_task (ORemoveTag t _) = Some t"
| "rewritten_task _ = None"

lemma metadata_only_replace: "metadata_only st st1 \<Longrightarrow> metadata_only (replace_entry i e st) (replace_entry i e st1)"
proof -
  assume "metadata_only st st1"
  then obtain fs th lf where "st1 = st\<lparr>ds_field_stamps := fs, ds_text_history := th, ds_life := lf\<rparr>"
    by (auto simp: metadata_only_def)
  then have "replace_entry i e st1 = (replace_entry i e st)\<lparr>ds_field_stamps := fs, ds_text_history := th, ds_life := lf\<rparr>"
    by (simp add: replace_entry_def)
  then show ?thesis unfolding metadata_only_def by blast
qed

lemma replace_entry_same: "content_slot st t = Some i \<Longrightarrow> replace_entry i (ETask t (slot_line st i)) st = st"
proof -
  assume "content_slot st t = Some i"
  then have "ds_entries st ! i = ETask t (slot_line st i)"
    using content_slot_Some by (cases "ds_entries st ! i") (fastforce simp: slot_line_def)+
  then have "(ds_entries st)[i := ETask t (slot_line st i)] = ds_entries st" by (metis list_update_id)
  then show ?thesis by (simp add: replace_entry_def)
qed

lemma apply_set_field_rewrites:
  assumes "apply_set_field t f v h st = (st', Inr ())" "f \<noteq> FDeleted"
  shows "\<exists>i l. content_slot st t = Some i \<and> metadata_only (replace_entry i (ETask t l) st) st'"
proof -
  obtain i where i: "content_slot st t = Some i" using assms by (auto simp: apply_set_field_def split: option.splits)
  have rep: "metadata_only (replace_entry i (ETask t l) st) (record_field t g h (replace_entry i (ETask t l) st1))"
    if "metadata_only st st1" for l st1 g
    using metadata_only_trans [OF metadata_only_replace [OF that] metadata_only_ops(3)] .
  have clear: "\<exists>l. metadata_only (replace_entry i (ETask t l) st) st'"
    if "clear_done_priority t i ln d h st = (st', Inr ())" for ln d
    using that rep metadata_only_history(3) by (fastforce simp: clear_done_priority_def Let_def split: prod.splits sum.splits)
  have set: "\<exists>l. metadata_only (replace_entry i (ETask t l) st) st'"
    if "(let (st1, kept) = (if description_of ln = description_of n then (st, n) else keep_in_history t ln n h st)
         in (record_field t f h (replace_entry i (ETask t kept) st1), Inr ())) = (st', Inr ())" for ln n
    using that rep [OF metadata_only_refl, of n f] rep [OF metadata_only_keep_in_history]
    by (cases "description_of ln = description_of n") (force split: prod.splits)+
  have same: "metadata_only (replace_entry i (ETask t (slot_line st i)) st) st" using replace_entry_same [OF i] by simp
  show ?thesis
  proof (cases "is_stale_field st t f h")
    case True
    then show ?thesis using assms i same
      by (auto simp: apply_set_field_def Let_def split: option.splits if_splits)
        (metis metadata_only_refl)
  next
    case False
    then show ?thesis using assms i clear set
      by (cases "if f = FPriority \<and> v = VPriority None then done_description (slot_line st i) else None")
        (fastforce simp: apply_set_field_def Let_def split: option.splits)+
  qed
qed

lemma op_effect_rewrites:
  assumes "op_effect k h st = (st', Inr ())" "rewritten_task k = Some t"
  shows "\<exists>i l. content_slot st t = Some i \<and> metadata_only (replace_entry i (ETask t l) st) st'"
proof -
  have "\<exists>i l. content_slot st t = Some i \<and> metadata_only (replace_entry i (ETask t l) st) st'"
    if "apply_edit_text t es h st = (st', Inr ())" for es
    using that metadata_only_replace [OF metadata_only_history(1)]
    by (fastforce simp: apply_edit_text_def Let_def split: option.splits prod.splits sum.splits)
  moreover have "\<exists>i l. content_slot st t = Some i \<and> metadata_only (replace_entry i (ETask t l) st) st'"
    if "apply_remove_tag t key h st = (st', Inr ())" for key
    using that metadata_only_replace [OF metadata_only_history(4)]
    by (fastforce simp: apply_remove_tag_def Let_def split: option.splits prod.splits sum.splits if_splits)
  ultimately show ?thesis using assms apply_set_field_rewrites by (cases k) (auto split: if_splits)
qed

lemma task_lines_replace:
  assumes ok: "doc_ok st" and i: "content_slot st t = Some i"
  shows "task_lines (replace_entry i (ETask t l) st) = map (\<lambda>(j, x). if j = t then (j, l) else (j, x)) (task_lines st)"
    (is "_ = map ?f _")
proof -
  have step: "in_step st" "view_ok st" and n: "i < length (cells st)" "shown_count t (cells st) \<le> 1"
    using ok content_slot_Some [OF i] by (auto simp: doc_ok_def cells_ok_def)
  have idle: "map ?f (List.map_filter cell_task cs) = List.map_filter cell_task cs" if "shown_count t cs = 0" for cs
    using that by (induction cs) (auto simp: List.map_filter_def dest: cell_task_id split: if_splits)
  have c: "cells (replace_entry i (ETask t l) st) = (cells st)[i := set_cell_entry (ETask t l) (cells st ! i)]"
    using content_slot_Some [OF i] step by (simp add: cells_replace_entry)
  have id: "entry_id (c_entry (cells st ! i)) = Some t" using content_slot_Some [OF i] step by (simp add: nth_cells)
  show ?thesis
  proof (cases "ds_hidden st ! i")
    case False
    then have sh: "shows_task t (cells st ! i)" using content_slot_Some [OF i] step by (simp add: nth_cells shows_task_def)
    obtain as bs where ab: "cells st = as @ cells st ! i # bs" "\<And>c. (cells st)[i := c] = as @ c # bs"
      "shown_count t as = 0" "shown_count t bs = 0" by (rule map_filter_update_shown [OF n(1) sh n(2)]) auto
    have "List.map_filter cell_task ((cells st)[i := set_cell_entry (ETask t l) (cells st ! i)]) =
        List.map_filter cell_task as @ (t, l) # List.map_filter cell_task bs"
      unfolding ab(2) using sh by (simp add: map_filter_simps cell_task_def set_cell_entry_def shows_task_def)
    also have "\<dots> = map ?f (List.map_filter cell_task (as @ cells st ! i # bs))"
      using idle [OF ab(3)] idle [OF ab(4)] sh by (simp add: map_filter_simps) (simp add: cell_task_def shows_task_def)
    finally show ?thesis using ab(1) step c by (simp add: task_lines_cells)
  next
    case True
    have live: "live_slot st t = None"
    proof (rule ccontr)
      assume "live_slot st t \<noteq> None"
      then show False using True i live_slot_Some [of st t i] by (auto simp: content_slot_def)
    qed
    have "cell_task (set_cell_entry (ETask t l) (cells st ! i)) = cell_task (cells st ! i)"
      using True content_slot_Some [OF i] step by (simp add: cell_task_def set_cell_entry_def nth_cells)
    then have "map cell_task ((cells st)[i := set_cell_entry (ETask t l) (cells st ! i)]) = map cell_task (cells st)"
      by (simp add: map_update) (metis length_map list_update_id n(1) nth_map)
    then show ?thesis using live idle [of "cells st"] shown_count_live [of st t] step c by (simp add: task_lines_cells map_filter_map)
  qed
qed

lemma ds_path_prune [simp]: "ds_path (prune_ghosts st) = ds_path st"
proof -
  have "ds_path (fold remove_slot dr st1) = ds_path st1" for dr st1 by (induction dr arbitrary: st1) (simp_all add: remove_slot_def)
  then show ?thesis by (simp add: prune_ghosts_def prune_ghosts_past_def prune_ghosts_to_def forget_absent_def reindex_def Let_def)
qed

lemma ds_path_settle_after [simp]: "ds_path (settle_after k st) = ds_path st"
  by (simp add: settle_after_def settle_erasers_def reindex_def Let_def)

lemma rewrite_step:
  assumes "reachable st" and "ds_apply o1 st = (st', Inr ())" and "rewritten_task (o_kind o1) = Some t"
  shows "\<exists>l. ds_path st' = ds_path st \<and> task_lines st' = map (\<lambda>(i, x). if i = t then (i, l) else (i, x)) (task_lines st)"
proof -
  have ok: "doc_ok st" and gh: "ghost_count st \<le> MAX_GHOSTS_PER_FILE" using reachable_inv [OF assms(1)] by auto
  obtain st1 where e: "op_effect (o_kind o1) (o_hlc o1) st = (st1, Inr ())"
    using assms(2) by (auto simp: ds_apply_def apply_inner_def split: prod.splits sum.splits)
  obtain i l where "content_slot st t = Some i" "metadata_only (replace_entry i (ETask t l) st) st1"
    using op_effect_rewrites [OF e assms(3)] by blast
  then have "ds_path st1 = ds_path st" "task_lines st1 = map (\<lambda>(i, x). if i = t then (i, l) else (i, x)) (task_lines st)"
    using task_lines_replace [OF ok] task_lines_metadata metadata_onlyD(9) by (simp_all add: replace_entry_def)
  then show ?thesis using task_lines_apply [OF ok gh e] ds_apply_Inr(1) [OF ok gh e] assms(2) by auto
qed

text \<open>C21: an operation on one task's fields, text or tags never adds, removes or moves a line, and rewrites
  no line but that task's.\<close>

theorem rewrites_one_line:
  assumes "reachable st" and "ds_apply o1 st = (st', Inr ())" and "rewritten_task (o_kind o1) = Some t"
  shows "\<exists>l. task_lines st' = map (\<lambda>(i, x). if i = t then (i, l) else (i, x)) (task_lines st)"
  using rewrite_step [OF assms] by blast

theorem rewrites_one_line_witness:
  "\<exists>st' l. ds_apply (user_op (Hlc 2 0 1) (OEditText 7 [TInsert 1 ''b''])) one_line_doc = (st', Inr ()) \<and>
     task_lines st' = map (\<lambda>(i, x). if i = 7 then (i, l) else (i, x)) (task_lines one_line_doc)"
proof -
  let ?o = "user_op (Hlc 2 0 1) (OEditText 7 [TInsert 1 ''b''])"
  let ?r = "apply_edit_text 7 [TInsert 1 ''b''] (Hlc 2 0 1) one_line_doc"
  have "\<not> isl (snd ?r)" by code_simp
  then obtain st1 where "?r = (st1, Inr ())" by (cases ?r; cases "snd ?r") auto
  then have "snd (ds_apply ?o one_line_doc) = Inr ()" by (simp add: ds_apply_def apply_inner_def user_op_def)
  then obtain st' where st': "ds_apply ?o one_line_doc = (st', Inr ())" by (cases "ds_apply ?o one_line_doc") auto
  with rewrites_one_line [OF reachable_one_line st', of 7] show ?thesis by (auto simp: user_op_def)
qed

end
