(* ===== verification/DocConverge.thy ===== *)
theory DocConverge
  imports Document
begin

text \<open>
  Concurrent placements converge: two devices that get two inserts in the two possible orders end with
  the same state, whatever anchors the inserts name, blanks and erasers included. The pure core is
  \<open>skip_newer_commute\<close>: the spots the replicated-array rule picks do not depend on the order.
\<close>

section \<open>Spots\<close>

lemma skip_newer_iff:
  assumes "i \<le> length S"
  shows "skip_newer S i h = p \<longleftrightarrow>
    i \<le> p \<and> p \<le> length S \<and> (\<forall>k. i \<le> k \<and> k < p \<longrightarrow> S ! k > h) \<and> (p < length S \<longrightarrow> \<not> S ! p > h)"
    (is "_ \<longleftrightarrow> ?R p")
proof -
  let ?p = "skip_newer S i h"
  let ?w = "takeWhile (\<lambda>x. x > h) (drop i S)"
  have le: "?p \<le> length S" using skip_newer_le [OF assms] .
  have all: "S ! k > h" if "i \<le> k" "k < ?p" for k
  proof -
    have "k - i < length ?w" using that by (simp add: skip_newer_def)
    then have "drop i S ! (k - i) > h" using nth_mem [of "k - i" ?w] by (metis set_takeWhileD takeWhile_nth)
    then show ?thesis using that assms by simp
  qed
  have stop: "\<not> S ! ?p > h" if "?p < length S"
    using that nth_length_takeWhile [of "\<lambda>x. x > h" "drop i S"] assms by (simp add: skip_newer_def)
  have ok: "?R ?p" using le all stop by (auto simp: skip_newer_def)
  have "q = ?p" if "?R q" for q
  proof (rule ccontr)
    assume "q \<noteq> ?p"
    then consider "q < ?p" | "?p < q" by linarith
    then show False using that ok by cases auto
  qed
  with ok show ?thesis by blast
qed

lemma nth_insert_at: "p \<le> length xs \<Longrightarrow> k \<le> length xs \<Longrightarrow>
    insert_at p x xs ! k = (if k < p then xs ! k else if k = p then x else xs ! (k - 1))"
  by (auto simp: insert_at_def nth_append nth_Cons' min_def)

definition shift :: "nat \<Rightarrow> nat \<Rightarrow> nat" where
  "shift p s = (if s < p then s else s + 1)"

text \<open>Two spots found one after the other, in either order.\<close>

lemma skip_newer_commute:
  assumes i: "i \<le> length S" and j: "j \<le> length S" and h: "h1 \<noteq> h2"
    and p: "p = skip_newer S i h1" and q: "q = skip_newer S j h2"
    and q': "q' = skip_newer (insert_at p h1 S) (if j \<le> p then j else j + 1) h2"
    and p': "p' = skip_newer (insert_at q h2 S) (if i \<le> q then i else i + 1) h1"
  shows "(p \<le> q \<and> q' = q + 1 \<and> p' = p) \<or> (q \<le> p \<and> p' = p + 1 \<and> q' = q)"
proof -
  have P: "i \<le> p" "p \<le> length S" "\<And>k. i \<le> k \<Longrightarrow> k < p \<Longrightarrow> S ! k > h1" "p < length S \<Longrightarrow> \<not> S ! p > h1"
    using p skip_newer_iff [OF i, of h1 p] by auto
  have Q: "j \<le> q" "q \<le> length S" "\<And>k. j \<le> k \<Longrightarrow> k < q \<Longrightarrow> S ! k > h2" "q < length S \<Longrightarrow> \<not> S ! q > h2"
    using q skip_newer_iff [OF j, of h2 q] by auto
  note n = nth_insert_at [OF P(2)] nth_insert_at [OF Q(2)]
  have qv: "skip_newer (insert_at p h1 S) (if j \<le> p then j else j + 1) h2 = r \<longleftrightarrow>
      (if j \<le> p then j else j + 1) \<le> r \<and> r \<le> length S + 1 \<and>
      (\<forall>k. (if j \<le> p then j else j + 1) \<le> k \<and> k < r \<longrightarrow> insert_at p h1 S ! k > h2) \<and>
      (r < length S + 1 \<longrightarrow> \<not> insert_at p h1 S ! r > h2)" for r
    using skip_newer_iff [of "if j \<le> p then j else j + 1" "insert_at p h1 S" h2 r] P(2) j by simp
  have pv: "skip_newer (insert_at q h2 S) (if i \<le> q then i else i + 1) h1 = r \<longleftrightarrow>
      (if i \<le> q then i else i + 1) \<le> r \<and> r \<le> length S + 1 \<and>
      (\<forall>k. (if i \<le> q then i else i + 1) \<le> k \<and> k < r \<longrightarrow> insert_at q h2 S ! k > h1) \<and>
      (r < length S + 1 \<longrightarrow> \<not> insert_at q h2 S ! r > h1)" for r
    using skip_newer_iff [of "if i \<le> q then i else i + 1" "insert_at q h2 S" h1 r] Q(2) i by simp
  consider (lt) "p < q" | (gt) "q < p" | (eq) "p = q" by linarith
  then show ?thesis
  proof cases
    case lt
    have h12: "j \<le> p \<Longrightarrow> h1 > h2" using P(4) Q(3) [of p] lt Q(2) by force
    have "q' = q + 1" unfolding q' qv using lt P Q h12 by (auto simp: n not_le)
    moreover have "p' = p" unfolding p' pv using lt P Q by (auto simp: n)
    ultimately show ?thesis using lt by simp
  next
    case gt
    have h21: "i \<le> q \<Longrightarrow> h2 > h1" using Q(4) P(3) [of q] gt P(2) by force
    have "p' = p + 1" unfolding p' pv using gt P Q h21 by (auto simp: n not_le)
    moreover have "q' = q" unfolding q' qv using gt P Q by (auto simp: n)
    ultimately show ?thesis using gt by simp
  next
    case eq
    show ?thesis
    proof (cases "h1 > h2")
      case True
      have "q' = q + 1" unfolding q' qv using eq P Q True by (auto simp: n)
      moreover have "p' = p" unfolding p' pv using eq P Q True by (auto simp: n)
      ultimately show ?thesis using eq by simp
    next
      case False
      then have "h2 > h1" using h by simp
      then have "p' = p + 1" unfolding p' pv using eq P Q by (auto simp: n)
      moreover have "q' = q" unfolding q' qv using eq P Q \<open>h2 > h1\<close> by (auto simp: n)
      ultimately show ?thesis using eq by simp
    qed
  qed
qed

lemma insert_at_commute: "p \<le> q \<Longrightarrow> q \<le> length xs \<Longrightarrow> insert_at (q + 1) b (insert_at p a xs) = insert_at p a (insert_at q b xs)"
proof -
  assume pq: "p \<le> q" "q \<le> length xs"
  have "insert_at (q + 1) b (insert_at p a xs) = take p xs @ a # drop p (take q xs) @ b # drop q xs"
    using pq by (simp add: insert_at_def min_def drop_take take_Cons' drop_Cons' Suc_diff_le)
  also have "\<dots> = insert_at p a (insert_at q b xs)"
    using pq by (simp add: insert_at_def min_def drop_take)
  finally show ?thesis .
qed

section \<open>Anchors\<close>

lemma filter_upt_shift:
  assumes "p \<le> n" "\<not> P p"
  shows "filter P [0..<n + 1] = map (shift p) (filter (\<lambda>s. P (shift p s)) [0..<n])"
proof -
  have n: "[0..<n + 1] = [0..<p] @ p # map Suc [p..<n]" "[0..<n] = [0..<p] @ [p..<n]"
    using assms(1) by (metis map_Suc_upt upt_add_eq_append upt_rec le_add1 le_imp_less_Suc Suc_eq_plus1 le_SucI le_add_diff_inverse zero_le)
      (metis assms(1) le_add_diff_inverse upt_add_eq_append zero_le)
  have "map (shift p) (filter (\<lambda>s. P (shift p s)) [0..<p]) = filter P [0..<p]"
    by (rule trans [of _ "map (\<lambda>x. x) (filter P [0..<p])"], rule map_cong) (auto simp: shift_def intro!: filter_cong)
  moreover have "map (shift p) (filter (\<lambda>s. P (shift p s)) [p..<n]) = filter P (map Suc [p..<n])"
    unfolding filter_map by (rule map_cong) (auto simp: shift_def intro!: filter_cong)
  ultimately show ?thesis unfolding n using assms(2) by simp
qed

lemma max_by_key_map: "max_by_key k (map f xs) = map_option f (max_by_key (\<lambda>x. k (f x)) xs)"
  by (induction xs) (auto split: option.split)

lemma min_by_key_map: "min_by_key k (map f xs) = map_option f (min_by_key (\<lambda>x. k (f x)) xs)"
  by (induction xs) (auto split: option.split)

lemma find_map_shift: "List.find P (map f xs) = map_option f (List.find (\<lambda>x. P (f x)) xs)"
  by (induction xs) auto

lemma max_by_key_cong: "(\<And>x. x \<in> set xs \<Longrightarrow> k x = k' x) \<Longrightarrow> max_by_key k xs = max_by_key k' xs"
proof (induction xs)
  case (Cons x xs)
  then have "max_by_key k xs = max_by_key k' xs" by simp
  then show ?case using Cons.prems max_by_key_Some [of k' xs] by (auto split: option.split)
qed simp

lemma min_by_key_cong: "(\<And>x. x \<in> set xs \<Longrightarrow> k x = k' x) \<Longrightarrow> min_by_key k xs = min_by_key k' xs"
proof (induction xs)
  case (Cons x xs)
  then have "min_by_key k xs = min_by_key k' xs" by simp
  then show ?case using Cons.prems min_by_key_Some [of k' xs] by (auto split: option.split)
qed simp

lemma find_cong: "(\<And>x. x \<in> set xs \<Longrightarrow> P x = Q x) \<Longrightarrow> List.find P xs = List.find Q xs"
  by (induction xs) auto

lemma nth_insert_shift: "p \<le> length xs \<Longrightarrow> s < length xs \<Longrightarrow> insert_at p x xs ! shift p s = xs ! s"
  by (auto simp: nth_insert_at shift_def)

lemma insert_entry_fields [simp]:
  "ds_entries (insert_entry sp e h st) = insert_at (sp_at sp) e (ds_entries st)"
  "ds_stamps (insert_entry sp e h st) = insert_at (sp_at sp) h (ds_stamps st)"
  "ds_hidden (insert_entry sp e h st) = insert_at (sp_at sp) False (ds_hidden st)"
  "ds_erasers (insert_entry sp e h st) = insert_at (sp_at sp) False (ds_erasers st)"
  "ds_mode (insert_entry sp e h st) = ds_mode st" "ds_ending (insert_entry sp e h st) = ds_ending st"
  by (simp_all add: insert_entry_def reindex_def)

lemma anchor_slot_insert:
  assumes step: "in_step st" and p: "sp_at sp \<le> length (ds_entries st)" and e: "after = None \<or> entry_id e \<noteq> after"
  shows "anchor_slot (insert_entry sp e h' st) after h =
    (case anchor_slot st after h of Inl x \<Rightarrow> Inl x | Inr a \<Rightarrow> Inr (map_option (shift (sp_at sp)) a))"
proof (cases after)
  case (Some i)
  let ?p = "sp_at sp" and ?st = "insert_entry sp e h' st"
  let ?P = "\<lambda>st s. entry_id (ds_entries st ! s) = Some i"
  define pl where "pl = filter (?P st) (slots st)"
  have len: "length (ds_stamps st) = length (ds_entries st)" "length (ds_hidden st) = length (ds_entries st)"
    using step by (auto simp: in_step_def)
  have old: "ds_entries ?st ! shift ?p s = ds_entries st ! s" "ds_stamps ?st ! shift ?p s = ds_stamps st ! s"
    "ds_hidden ?st ! shift ?p s = ds_hidden st ! s" if "s < length (ds_entries st)" for s
    using that p len by (simp_all add: nth_insert_shift)
  have "filter (?P ?st) (slots ?st) = map (shift ?p) (filter (\<lambda>s. ?P ?st (shift ?p s)) [0..<length (ds_entries st)])"
    using p e Some by (simp only: slots_def insert_entry_fields length_insert_at) (rule filter_upt_shift; simp)
  also have "filter (\<lambda>s. ?P ?st (shift ?p s)) [0..<length (ds_entries st)] = pl"
    unfolding pl_def slots_def by (rule filter_cong [OF refl]) (simp add: old del: insert_entry_fields)
  finally have pl': "filter (?P ?st) (slots ?st) = map (shift ?p) pl" .
  have in_pl: "s < length (ds_entries st)" if "s \<in> set pl" for s using that by (simp add: pl_def)
  have f: "filter (\<lambda>s. ds_stamps ?st ! s \<le> h) (map (shift ?p) pl) = map (shift ?p) (filter (\<lambda>s. ds_stamps st ! s \<le> h) pl)"
    unfolding filter_map comp_def by (rule arg_cong [of _ _ "map _"], rule filter_cong [OF refl]) (simp add: old in_pl del: insert_entry_fields)
  have "max_by_key (\<lambda>s. (ds_stamps ?st ! s, \<not> ds_hidden ?st ! s)) (map (shift ?p) (filter (\<lambda>s. ds_stamps st ! s \<le> h) pl)) =
      map_option (shift ?p) (max_by_key (\<lambda>s. (ds_stamps st ! s, \<not> ds_hidden st ! s)) (filter (\<lambda>s. ds_stamps st ! s \<le> h) pl))"
    unfolding max_by_key_map by (rule arg_cong [of _ _ "map_option _"], rule max_by_key_cong) (simp add: old in_pl del: insert_entry_fields)
  moreover have "List.find (\<lambda>s. \<not> ds_hidden ?st ! s) (map (shift ?p) pl) = map_option (shift ?p) (List.find (\<lambda>s. \<not> ds_hidden st ! s) pl)"
    unfolding find_map_shift by (rule arg_cong [of _ _ "map_option _"], rule find_cong) (simp add: old in_pl del: insert_entry_fields)
  moreover have "min_by_key (\<lambda>s. ds_stamps ?st ! s) (map (shift ?p) pl) = map_option (shift ?p) (min_by_key (\<lambda>s. ds_stamps st ! s) pl)"
    unfolding min_by_key_map by (rule arg_cong [of _ _ "map_option _"], rule min_by_key_cong) (simp add: old in_pl del: insert_entry_fields)
  ultimately show ?thesis unfolding Some anchor_slot_def option.case Let_def pl' f pl_def [symmetric]
    by (simp del: insert_entry_fields split: option.split)
qed (simp add: anchor_slot_def)

section \<open>Two placements\<close>

definition anchor_at :: "nat option \<Rightarrow> nat" where
  "anchor_at a = (case a of None \<Rightarrow> 0 | Some s \<Rightarrow> s + 1)"

definition anchor_parent :: "doc_state \<Rightarrow> nat option \<Rightarrow> parent" where
  "anchor_parent st a = Option.bind a (\<lambda>s. map_option (\<lambda>i. (i, ds_stamps st ! s)) (entry_id (ds_entries st ! s)))"

lemma slot_after_anchor:
  "slot_after st after h = (case anchor_slot st after h of Inl e \<Rightarrow> Inl e
     | Inr a \<Rightarrow> Inr \<lparr>sp_at = skip_newer (ds_stamps st) (anchor_at a) h, sp_parent = anchor_parent st a\<rparr>)"
  by (simp add: slot_after_def anchor_at_def anchor_parent_def split: sum.split)

lemma anchor_at_shift: "anchor_at (map_option (shift p) a) = (if anchor_at a \<le> p then anchor_at a else anchor_at a + 1)"
  by (auto simp: anchor_at_def shift_def split: option.split)

lemma slot_after_insert:
  assumes step: "in_step st" and p: "sp_at sp \<le> length (ds_entries st)" and e: "after = None \<or> entry_id e \<noteq> after"
    and a: "anchor_slot st after h = Inr a"
  shows "slot_after (insert_entry sp e h' st) after h = Inr
    \<lparr>sp_at = skip_newer (insert_at (sp_at sp) h' (ds_stamps st)) (if anchor_at a \<le> sp_at sp then anchor_at a else anchor_at a + 1) h,
     sp_parent = anchor_parent st a\<rparr>"
proof -
  have "anchor_parent (insert_entry sp e h' st) (map_option (shift (sp_at sp)) a) = anchor_parent st a"
    using a anchor_slot_Inr [of st after h] p step
    by (cases a) (auto simp: anchor_parent_def nth_insert_shift in_step_def)
  then show ?thesis
    unfolding slot_after_anchor [of "insert_entry sp e h' st"] anchor_slot_insert [OF step p e] a
    by (simp add: anchor_at_shift)
qed

text \<open>Two entries placed one after the other end in the same state in either order.\<close>

lemma insert_entry_commute:
  assumes step: "in_step st" and h: "h1 \<noteq> h2"
    and s1: "slot_after st a1 h1 = Inr sp1" and s2: "slot_after st a2 h2 = Inr sp2"
    and e1: "a2 = None \<or> entry_id e1 \<noteq> a2" and e2: "a1 = None \<or> entry_id e2 \<noteq> a1"
  obtains sp1' sp2' where "slot_after (insert_entry sp1 e1 h1 st) a2 h2 = Inr sp2'"
    and "slot_after (insert_entry sp2 e2 h2 st) a1 h1 = Inr sp1'"
    and "insert_entry sp2' e2 h2 (insert_entry sp1 e1 h1 st) = insert_entry sp1' e1 h1 (insert_entry sp2 e2 h2 st)"
proof -
  obtain x where x: "anchor_slot st a1 h1 = Inr x" using s1 by (auto simp: slot_after_anchor split: sum.splits)
  obtain y where y: "anchor_slot st a2 h2 = Inr y" using s2 by (auto simp: slot_after_anchor split: sum.splits)
  let ?S = "ds_stamps st"
  have len: "length ?S = length (ds_entries st)" using step by (simp add: in_step_def)
  have sp1: "sp1 = \<lparr>sp_at = skip_newer ?S (anchor_at x) h1, sp_parent = anchor_parent st x\<rparr>"
    using s1 x by (simp add: slot_after_anchor)
  have sp2: "sp2 = \<lparr>sp_at = skip_newer ?S (anchor_at y) h2, sp_parent = anchor_parent st y\<rparr>"
    using s2 y by (simp add: slot_after_anchor)
  have le: "sp_at sp1 \<le> length (ds_entries st)" "sp_at sp2 \<le> length (ds_entries st)"
    using slot_after_le [OF step s1] slot_after_le [OF step s2] by auto
  have ij: "anchor_at x \<le> length ?S" "anchor_at y \<le> length ?S"
    using anchor_slot_Inr [of st a1 h1] anchor_slot_Inr [of st a2 h2] x y len
    by (auto simp: anchor_at_def Suc_le_eq split: option.split)
  note q = slot_after_insert [OF step le(1) e1 y, of h1] and p = slot_after_insert [OF step le(2) e2 x, of h2]
  define q' where "q' = skip_newer (insert_at (sp_at sp1) h1 ?S) (if anchor_at y \<le> sp_at sp1 then anchor_at y else anchor_at y + 1) h2"
  define p' where "p' = skip_newer (insert_at (sp_at sp2) h2 ?S) (if anchor_at x \<le> sp_at sp2 then anchor_at x else anchor_at x + 1) h1"
  have "(sp_at sp1 \<le> sp_at sp2 \<and> q' = sp_at sp2 + 1 \<and> p' = sp_at sp1) \<or> (sp_at sp2 \<le> sp_at sp1 \<and> p' = sp_at sp1 + 1 \<and> q' = sp_at sp2)"
    using skip_newer_commute [OF ij h _ _ q'_def p'_def] sp1 sp2 by simp
  then have com: "insert_at q' c2 (insert_at (sp_at sp1) c1 xs) = insert_at p' c1 (insert_at (sp_at sp2) c2 xs)"
    if "length xs = length (ds_entries st)" for c1 c2 and xs :: "'x list"
    using insert_at_commute [of "sp_at sp1" "sp_at sp2" xs] insert_at_commute [of "sp_at sp2" "sp_at sp1" xs] le that by auto
  have parents: "sp_parent sp1 = anchor_parent st x" "sp_parent sp2 = anchor_parent st y" using sp1 sp2 by simp_all
  show ?thesis
  proof
    show "slot_after (insert_entry sp1 e1 h1 st) a2 h2 = Inr \<lparr>sp_at = q', sp_parent = anchor_parent st y\<rparr>"
      "slot_after (insert_entry sp2 e2 h2 st) a1 h1 = Inr \<lparr>sp_at = p', sp_parent = anchor_parent st x\<rparr>"
      using q p by (simp_all add: q'_def p'_def)
    show "insert_entry \<lparr>sp_at = q', sp_parent = anchor_parent st y\<rparr> e2 h2 (insert_entry sp1 e1 h1 st) =
      insert_entry \<lparr>sp_at = p', sp_parent = anchor_parent st x\<rparr> e1 h1 (insert_entry sp2 e2 h2 st)"
      using step unfolding insert_entry_def reindex_def slots_def in_step_def
      by (simp add: com parents)
  qed
qed

section \<open>Erasers forget which blanks were hidden\<close>

text \<open>Two states that differ at most in which blanks are hidden.\<close>

definition blanks_apart :: "doc_state \<Rightarrow> doc_state \<Rightarrow> bool" where
  "blanks_apart a b \<longleftrightarrow> b = a\<lparr>ds_hidden := ds_hidden b, ds_visible := ds_visible b\<rparr> \<and>
     length (ds_hidden a) = length (ds_hidden b) \<and>
     (\<forall>s < length (ds_entries a). \<not> (is_blank a s \<and> \<not> ds_erasers a ! s) \<longrightarrow> ds_hidden a ! s = ds_hidden b ! s)"

lemma blanks_apart_fields:
  assumes "blanks_apart a b"
  shows "ds_entries b = ds_entries a" "ds_stamps b = ds_stamps a" "ds_parents b = ds_parents a" "ds_erasers b = ds_erasers a"
proof -
  have b: "b = a\<lparr>ds_hidden := ds_hidden b, ds_visible := ds_visible b\<rparr>" using assms by (simp add: blanks_apart_def)
  show "ds_entries b = ds_entries a" by (subst b) simp
  show "ds_stamps b = ds_stamps a" by (subst b) simp
  show "ds_parents b = ds_parents a" by (subst b) simp
  show "ds_erasers b = ds_erasers a" by (subst b) simp
qed

lemma settle_blanks_apart:
  assumes ba: "blanks_apart a b" and step: "in_step a" "view_ok a" "in_step b" "view_ok b" and er: "True \<in> set (ds_erasers a)"
  shows "settle_erasers a = settle_erasers b"
proof -
  note f = blanks_apart_fields [OF ba]
  have "same_shape a b" using ba f by (auto simp: same_shape_def blanks_apart_def is_blank_def)
  then have c: "claims a = claims b" by (rule claims_cong)
  have "settled_hidden a = settled_hidden b"
    using ba f c by (intro nth_equalityI) (auto simp: nth_settled_hidden blanks_apart_def is_blank_def)
  moreover have "reindex (a\<lparr>ds_hidden := x\<rparr>) = reindex (b\<lparr>ds_hidden := x\<rparr>)" for x
  proof -
    have b: "b = a\<lparr>ds_hidden := ds_hidden b, ds_visible := ds_visible b\<rparr>" using ba by (simp add: blanks_apart_def)
    show ?thesis by (subst b) (simp add: reindex_def slots_def)
  qed
  ultimately show ?thesis using step er f by (simp add: settle_erasers_eq)
qed

lemma blanks_apart_settle:
  assumes "in_step st" "view_ok st"
  shows "blanks_apart st (settle_erasers st)"
  using assms by (auto simp: blanks_apart_def settle_erasers_eq nth_settled_hidden in_step_def reindex_def)

lemma blanks_apart_insert:
  assumes ba: "blanks_apart a b" and step: "in_step a" and p: "sp_at sp \<le> length (ds_entries a)"
  shows "blanks_apart (insert_entry sp e h a) (insert_entry sp e h b)"
proof -
  have b: "b = a\<lparr>ds_hidden := ds_hidden b, ds_visible := ds_visible b\<rparr>"
    and hid: "\<And>s. s < length (ds_entries a) \<Longrightarrow> \<not> (is_blank a s \<and> \<not> ds_erasers a ! s) \<Longrightarrow> ds_hidden a ! s = ds_hidden b ! s"
    using ba by (auto simp: blanks_apart_def)
  have len: "length (ds_hidden a) = length (ds_entries a)" "length (ds_hidden b) = length (ds_entries a)" "length (ds_erasers a) = length (ds_entries a)"
    using ba step by (auto simp: blanks_apart_def in_step_def)
  have "insert_at (sp_at sp) False (ds_hidden a) ! s = insert_at (sp_at sp) False (ds_hidden b) ! s"
    if "s < length (ds_entries a) + 1" "\<not> (is_blank (insert_entry sp e h a) s \<and> \<not> insert_at (sp_at sp) False (ds_erasers a) ! s)" for s
    using that p len hid [of s] hid [of "s - 1"] by (auto simp: nth_insert_at is_blank_def split: if_splits)
  moreover have "insert_entry sp e h b = (insert_entry sp e h a)\<lparr>ds_hidden := ds_hidden (insert_entry sp e h b), ds_visible := ds_visible (insert_entry sp e h b)\<rparr>"
    by (subst (1) b) (simp add: insert_entry_def reindex_def slots_def blanks_apart_fields [OF ba])
  ultimately show ?thesis using p len unfolding blanks_apart_def by (auto simp: length_insert_at_eq)
qed

lemma blanks_apart_slot_after:
  assumes ba: "blanks_apart a b" and step: "in_step a" and e: "list_all cell_ok (cells a)"
  shows "slot_after b after h = slot_after a after h"
proof -
  note f = blanks_apart_fields [OF ba]
  have hid: "ds_hidden b ! s = ds_hidden a ! s" if "s < length (ds_entries a)" "entry_id (ds_entries a ! s) = Some i" for s i
    using that ba by (auto simp: blanks_apart_def is_blank_id)
  have "anchor_slot b after h = anchor_slot a after h"
  proof (cases after)
    case (Some i)
    let ?pl = "filter (\<lambda>s. entry_id (ds_entries a ! s) = Some i) (slots a)"
    have "max_by_key (\<lambda>s. (ds_stamps a ! s, \<not> ds_hidden b ! s)) (filter (\<lambda>s. ds_stamps a ! s \<le> h) ?pl) =
        max_by_key (\<lambda>s. (ds_stamps a ! s, \<not> ds_hidden a ! s)) (filter (\<lambda>s. ds_stamps a ! s \<le> h) ?pl)"
      by (rule max_by_key_cong) (use hid in auto)
    moreover have "List.find (\<lambda>s. \<not> ds_hidden b ! s) ?pl = List.find (\<lambda>s. \<not> ds_hidden a ! s) ?pl"
      by (rule find_cong) (use hid in auto)
    moreover have "slots b = slots a" by (simp add: slots_def f)
    ultimately show ?thesis unfolding Some anchor_slot_def option.case Let_def f by (simp only:)
  qed (simp add: anchor_slot_def)
  then show ?thesis by (simp add: slot_after_anchor anchor_parent_def f split: sum.split)
qed

section \<open>Concurrent inserts\<close>

text \<open>What an insert of a task that is not here does before ghosts are pruned.\<close>

lemma insert_fresh:
  assumes "\<not> has_placement st t" "apply_insert t after l h st = (st1, Inr ())"
  obtains sp where "slot_after st after h = Inr sp" "st1 = insert_entry sp (ETask t (from_bytes l (ds_ending st))) h st"
    "\<not> (ds_mode st = Tagged \<and> id_of (from_bytes l (ds_ending st)) \<noteq> Some t)"
  using assms by (auto simp: apply_insert_def Let_def split: if_splits sum.splits)

lemma insert_fresh_ok:
  assumes "\<not> has_placement st t" "slot_after st after h = Inr sp" "length (ds_visible st) < MAX_LINES_PER_FILE"
    "\<not> (ds_mode st = Tagged \<and> id_of (from_bytes l (ds_ending st)) \<noteq> Some t)"
  shows "apply_insert t after l h st = (insert_entry sp (ETask t (from_bytes l (ds_ending st))) h st, Inr ())"
  using assms by (auto simp: apply_insert_def Let_def)

lemma no_prune: "length (ds_entries st) \<le> MAX_GHOSTS_PER_FILE \<Longrightarrow> prune_ghosts st = st"
  by (simp add: prune_ghosts_def prune_ghosts_past_def)

lemma settle_erasers_fields [simp]:
  "ds_entries (settle_erasers st) = ds_entries st" "ds_mode (settle_erasers st) = ds_mode st" "ds_ending (settle_erasers st) = ds_ending st"
  by (simp_all add: settle_erasers_def reindex_def Let_def)

lemma has_placement_insert: "sp_at sp \<le> length (ds_entries st) \<Longrightarrow>
    has_placement (insert_entry sp e h st) t \<longleftrightarrow> entry_id e = Some t \<or> has_placement st t"
proof -
  assume "sp_at sp \<le> length (ds_entries st)"
  have "set (insert_at (sp_at sp) e (ds_entries st)) = insert e (set (ds_entries st))"
    by (metis (no_types, lifting) Un_insert_right append_take_drop_id insert_at_def list.simps(15) set_append)
  then show ?thesis by (auto simp: has_placement_def list_ex_iff)
qed

lemma has_placement_settle [simp]: "has_placement (settle_erasers st) t = has_placement st t"
  by (simp add: has_placement_def)

text \<open>The second insert after the first one's erasers were settled, and the erasers settled again.\<close>

lemma settle_insert_settle:
  assumes ok: "doc_ok st" and sp: "slot_after st after h = Inr sp"
    and ne: "\<And>t. entry_id e = Some t \<Longrightarrow> live_slot st t = None"
  shows "slot_after (settle_erasers st) after h = Inr sp"
    and "settle_erasers (insert_entry sp e h (settle_erasers st)) = settle_erasers (insert_entry sp e h st)"
proof -
  have step: "in_step st" "view_ok st" and c: "list_all cell_ok (cells st)" using ok by (auto simp: doc_ok_def cells_ok_def)
  have ba: "blanks_apart st (settle_erasers st)" using blanks_apart_settle [OF step] .
  show "slot_after (settle_erasers st) after h = Inr sp" using blanks_apart_slot_after [OF ba step(1) c] sp by simp
  have le: "sp_at sp \<le> length (ds_entries st)" using slot_after_le [OF step(1) sp] .
  show "settle_erasers (insert_entry sp e h (settle_erasers st)) = settle_erasers (insert_entry sp e h st)"
  proof (cases "True \<in> set (ds_erasers st)")
    case True
    then have "True \<in> set (take (sp_at sp) (ds_erasers st)) \<union> set (drop (sp_at sp) (ds_erasers st))"
      by (metis append_take_drop_id set_append)
    then have "True \<in> set (ds_erasers (insert_entry sp e h st))" by (auto simp: insert_at_def)
    moreover have "in_step (settle_erasers st)" using doc_ok_settle_erasers [OF ok] by (simp add: doc_ok_def)
    ultimately show ?thesis
      using settle_blanks_apart [OF blanks_apart_insert [OF ba step(1) le]] step(1)
      by (metis in_step_insert_entry view_ok_insert_entry)
  qed (simp add: settle_erasers_def)
qed

text \<open>C10: two inserts made apart, of two tasks the document does not hold, by operations with different
  stamps, give the same state in both orders of arrival: same lines in the same order, same merge metadata.
  It holds for any anchors (the top, the same task, two tasks, shown or ghosts) other than the other
  insert's own task, with blanks and kept removals of blanks around, while the document is within the
  number of placements that are never pruned.\<close>

theorem concurrent_inserts_converge:
  assumes "reachable st" and "length (ds_entries st) + 2 \<le> MAX_GHOSTS_PER_FILE"
    and "\<not> has_placement st t1" "\<not> has_placement st t2" "t1 \<noteq> t2" "a1 \<noteq> Some t2" "a2 \<noteq> Some t1"
    and "o_kind p = OInsert t1 a1 l1" "o_kind q = OInsert t2 a2 l2" "o_hlc p \<noteq> o_hlc q"
    and "ds_apply p st = (st1, Inr ())" "ds_apply q st = (st2, Inr ())"
  shows "ds_apply q st1 = ds_apply p st2 \<and> snd (ds_apply q st1) = Inr ()"
proof -
  have ok: "doc_ok st" using reachable_inv [OF assms(1)] by simp
  then have step: "in_step st" by (simp add: doc_ok_def)
  define b1 where "b1 = from_bytes l1 (ds_ending st)"
  define b2 where "b2 = from_bytes l2 (ds_ending st)"
  have ap: "ds_apply x s = (prune_ghosts (settle_erasers s'), Inr ())" if "o_kind x = OInsert t a l" "apply_insert t a l (o_hlc x) s = (s', Inr ())" for x s s' t a l
    using that by (simp add: ds_apply_def apply_inner_def)
  obtain u1 where u1: "apply_insert t1 a1 l1 (o_hlc p) st = (u1, Inr ())" "st1 = prune_ghosts (settle_erasers u1)"
    using assms(8,11) by (auto simp: ds_apply_def apply_inner_def split: prod.splits sum.splits)
  obtain u2 where u2: "apply_insert t2 a2 l2 (o_hlc q) st = (u2, Inr ())" "st2 = prune_ghosts (settle_erasers u2)"
    using assms(9,12) by (auto simp: ds_apply_def apply_inner_def split: prod.splits sum.splits)
  obtain sp1 where sp1: "slot_after st a1 (o_hlc p) = Inr sp1" "u1 = insert_entry sp1 (ETask t1 b1) (o_hlc p) st"
    and g1: "\<not> (ds_mode st = Tagged \<and> id_of b1 \<noteq> Some t1)" using insert_fresh [OF assms(3) u1(1)] b1_def by metis
  obtain sp2 where sp2: "slot_after st a2 (o_hlc q) = Inr sp2" "u2 = insert_entry sp2 (ETask t2 b2) (o_hlc q) st"
    and g2: "\<not> (ds_mode st = Tagged \<and> id_of b2 \<noteq> Some t2)" using insert_fresh [OF assms(4) u2(1)] b2_def by metis
  have le: "sp_at sp1 \<le> length (ds_entries st)" "sp_at sp2 \<le> length (ds_entries st)"
    using slot_after_le [OF step] sp1 sp2 by auto
  have oku: "doc_ok u1" "doc_ok u2"
    using doc_ok_apply_insert [OF ok, of t1 a1 l1 "o_hlc p"] doc_ok_apply_insert [OF ok, of t2 a2 l2 "o_hlc q"] u1 u2 by simp_all
  have small: "length (ds_entries u1) = length (ds_entries st) + 1" "length (ds_entries u2) = length (ds_entries st) + 1"
    using le sp1 sp2 by simp_all
  have st12: "st1 = settle_erasers u1" "st2 = settle_erasers u2"
    using u1 u2 small assms(2) by (simp_all add: no_prune)
  have fresh: "\<not> has_placement u1 t2" "\<not> has_placement u2 t1"
    using has_placement_insert le sp1(2) sp2(2) assms(3-5) by auto
  obtain sp1' sp2' where c: "slot_after u1 a2 (o_hlc q) = Inr sp2'" "slot_after u2 a1 (o_hlc p) = Inr sp1'"
    "insert_entry sp2' (ETask t2 b2) (o_hlc q) u1 = insert_entry sp1' (ETask t1 b1) (o_hlc p) u2"
    unfolding sp1(2) sp2(2)
    by (rule insert_entry_commute [OF step assms(10) sp1(1) sp2(1), of "ETask t1 b1" "ETask t2 b2"]) (use assms(6,7) in auto)
  have s1: "slot_after st1 a2 (o_hlc q) = Inr sp2'"
      "settle_erasers (insert_entry sp2' (ETask t2 b2) (o_hlc q) st1) = settle_erasers (insert_entry sp2' (ETask t2 b2) (o_hlc q) u1)"
    unfolding st12 using settle_insert_settle [OF oku(1) c(1), of "ETask t2 b2"] has_placement_live [OF fresh(1)] by auto
  have s2: "slot_after st2 a1 (o_hlc p) = Inr sp1'"
      "settle_erasers (insert_entry sp1' (ETask t1 b1) (o_hlc p) st2) = settle_erasers (insert_entry sp1' (ETask t1 b1) (o_hlc p) u2)"
    unfolding st12 using settle_insert_settle [OF oku(2) c(2), of "ETask t1 b1"] has_placement_live [OF fresh(2)] by auto
  have vis: "length (ds_visible x) < MAX_LINES_PER_FILE" if "doc_ok x" "length (ds_entries x) \<le> length (ds_entries st) + 1" for x
  proof -
    have "length (ds_visible x) \<le> length (ds_entries x)"
      using that(1) by (simp add: doc_ok_def view_ok_def slots_def) (metis diff_zero length_filter_le length_upt)
    then show ?thesis using that(2) assms(2) by (simp add: MAX_LINES_PER_FILE_def MAX_GHOSTS_PER_FILE_def)
  qed
  have "apply_insert t2 a2 l2 (o_hlc q) st1 = (insert_entry sp2' (ETask t2 b2) (o_hlc q) st1, Inr ())"
    using insert_fresh_ok [of st1 t2 a2 "o_hlc q" sp2' l2] s1(1) fresh(1) vis [of st1] doc_ok_settle_erasers [OF oku(1)] small g2
    by (simp add: st12 sp1(2) b2_def)
  moreover have "apply_insert t1 a1 l1 (o_hlc p) st2 = (insert_entry sp1' (ETask t1 b1) (o_hlc p) st2, Inr ())"
    using insert_fresh_ok [of st2 t1 a1 "o_hlc p" sp1' l1] s2(1) fresh(2) vis [of st2] doc_ok_settle_erasers [OF oku(2)] small g1
    by (simp add: st12 sp2(2) b1_def)
  ultimately show ?thesis using ap [OF assms(9)] ap [OF assms(8)] s1(2) s2(2) c(3) by simp
qed

lemma one_line_insert: "snd (ds_apply (user_op h (OInsert t (Some 7) ''b'')) one_line_doc) = Inr ()" if "t \<noteq> 7"
proof -
  have "\<exists>a. anchor_slot one_line_doc (Some 7) h = Inr a"
    by (simp add: anchor_slot_def one_line_doc_def slots_def Let_def)
  then obtain sp where "slot_after one_line_doc (Some 7) h = Inr sp" by (auto simp: slot_after_anchor)
  moreover have "\<not> has_placement one_line_doc t" using that by (simp add: has_placement_def one_line_doc_def)
  ultimately have "snd (apply_insert t (Some 7) ''b'' h one_line_doc) = Inr ()"
    by (simp add: apply_insert_def one_line_doc_def empty_doc_def MAX_LINES_PER_FILE_def Let_def)
  then show ?thesis
    by (cases "apply_insert t (Some 7) ''b'' h one_line_doc") (simp add: ds_apply_def apply_inner_def user_op_def)
qed

theorem concurrent_inserts_converge_witness:
  "\<exists>st1 st2. ds_apply (user_op (Hlc 2 0 1) (OInsert 8 (Some 7) ''b'')) one_line_doc = (st1, Inr ()) \<and>
     ds_apply (user_op (Hlc 3 0 2) (OInsert 9 (Some 7) ''b'')) one_line_doc = (st2, Inr ()) \<and>
     ds_apply (user_op (Hlc 3 0 2) (OInsert 9 (Some 7) ''b'')) st1 = ds_apply (user_op (Hlc 2 0 1) (OInsert 8 (Some 7) ''b'')) st2"
proof -
  let ?p = "user_op (Hlc 2 0 1) (OInsert 8 (Some 7) ''b'')" and ?q = "user_op (Hlc 3 0 2) (OInsert 9 (Some 7) ''b'')"
  obtain st1 where 1: "ds_apply ?p one_line_doc = (st1, Inr ())" using one_line_insert [of 8 "Hlc 2 0 1"] by (cases "ds_apply ?p one_line_doc") auto
  obtain st2 where 2: "ds_apply ?q one_line_doc = (st2, Inr ())" using one_line_insert [of 9 "Hlc 3 0 2"] by (cases "ds_apply ?q one_line_doc") auto
  have n: "\<not> has_placement one_line_doc 8" "\<not> has_placement one_line_doc 9" by (simp_all add: has_placement_def one_line_doc_def)
  have "length (ds_entries one_line_doc) + 2 \<le> MAX_GHOSTS_PER_FILE" by (simp add: one_line_doc_def MAX_GHOSTS_PER_FILE_def)
  then have "ds_apply ?q st1 = ds_apply ?p st2"
    using concurrent_inserts_converge [OF reachable_one_line _ n, of "Some 7" "Some 7" ?p "''b''" ?q "''b''" st1 st2] 1 2
    by (simp add: user_op_def)
  with 1 2 show ?thesis by blast
qed

end
