(* ===== verification/Merge3.thy ===== *)
theory Merge3
  imports Types
begin

text \<open>
  \<open>merge3.rs\<close>: the three-way merge of todo.txt text that \<open>txtodo merge-driver\<close> runs for git. Lines
  are compared by their exact text. The specification is a law per distinct line, \<open>merged_count\<close>: how
  many copies the result holds, given the copies in the base and on both sides. \<open>merge3_count\<close> proves
  the detailed algorithm (two passes, counting maps, positional inserts) implements it.
\<close>

section \<open>Definitions\<close>

definition merge_lines :: "string \<Rightarrow> string list" where
  "merge_lines text =
    (let body = (if ends_with text [LF] then take (length text - 1) text else text) in
     if body = [] \<and> text = [] then [] else split_on (\<lambda>c. c = LF) body)"

text \<open>The counting maps are total functions: a missing key reads as zero everywhere in the source.\<close>

definition counts :: "string list \<Rightarrow> string \<Rightarrow> nat" where
  "counts ls = fold (\<lambda>l m. m(l := m l + 1)) ls (\<lambda>_. 0)"

definition want :: "string list \<Rightarrow> string list \<Rightarrow> string list \<Rightarrow> string \<Rightarrow> nat" where
  "want base ours theirs ln =
    (let b = counts base ln; o' = counts ours ln; t = counts theirs ln;
         deleted = max (b - o') (b - t);
         added = max (o' - b) (t - b)
     in (b - min deleted b) + added)"

definition take_ours :: "(string \<Rightarrow> nat) \<Rightarrow> string \<Rightarrow> string list \<times> (string \<Rightarrow> nat) \<Rightarrow> string list \<times> (string \<Rightarrow> nat)" where
  "take_ours w ln st =
    (let (out, taken) = st in
     if taken ln < w ln then (out @ [ln], taken(ln := taken ln + 1)) else (out, taken))"

text \<open>The owed copies: one entry per line of theirs whose copies ours did not supply.\<close>

definition owed_of :: "(string \<Rightarrow> nat) \<Rightarrow> string list \<Rightarrow> (string \<Rightarrow> nat) \<Rightarrow> string \<Rightarrow> nat" where
  "owed_of w theirs taken ln = (if ln \<in> set theirs then w ln - taken ln else 0)"

text \<open>Which copies are extra, counting from the end of theirs; the second component is \<open>from_end\<close>.\<close>

fun extras :: "(string \<Rightarrow> nat) \<Rightarrow> string list \<Rightarrow> bool list \<times> (string \<Rightarrow> nat)" where
  "extras owed [] = ([], \<lambda>_. 0)"
| "extras owed (l # ls) =
     (let (flags, seen) = extras owed ls in ((seen l < owed l) # flags, seen(l := seen l + 1)))"

fun rposition :: "('a \<Rightarrow> bool) \<Rightarrow> 'a list \<Rightarrow> nat option" where
  "rposition P [] = None"
| "rposition P (x # xs) =
     (case rposition P xs of Some i \<Rightarrow> Some (Suc i) | None \<Rightarrow> if P x then Some 0 else None)"

definition vec_insert :: "'a list \<Rightarrow> nat \<Rightarrow> 'a \<Rightarrow> 'a list" where
  "vec_insert xs i x = take i xs @ x # drop i xs"

definition place :: "bool \<times> string \<Rightarrow> string list \<times> nat option \<Rightarrow> string list \<times> nat option" where
  "place fl st =
    (let (extra, ln) = fl; (out, after) = st in
     if extra then
       (let at = (case after of None \<Rightarrow> 0 | Some a \<Rightarrow> a + 1) in (vec_insert out at ln, Some at))
     else case rposition (\<lambda>l. l = ln) out of Some i \<Rightarrow> (out, Some i) | None \<Rightarrow> (out, after))"

definition insert_theirs :: "string list \<Rightarrow> string list \<Rightarrow> (string \<Rightarrow> nat) \<Rightarrow> string list" where
  "insert_theirs out theirs owed = fst (fold place (zip (fst (extras owed theirs)) theirs) (out, None))"

definition merge3_lines :: "string list \<Rightarrow> string list \<Rightarrow> string list \<Rightarrow> string list" where
  "merge3_lines base ours theirs =
    (let w = want base ours theirs;
         (out, taken) = fold (take_ours w) ours ([], \<lambda>_. 0)
     in insert_theirs out theirs (owed_of w theirs taken))"

definition merge_join :: "string list \<Rightarrow> string \<Rightarrow> string \<Rightarrow> string" where
  "merge_join out ours theirs =
    (if out = [] then []
     else join [LF] out @ (if ends_with ours [LF] \<or> ends_with theirs [LF] then [LF] else []))"

definition merge3 :: "string \<Rightarrow> string \<Rightarrow> string \<Rightarrow> string" where
  "merge3 base ours theirs =
    merge_join (merge3_lines (merge_lines base) (merge_lines ours) (merge_lines theirs)) ours theirs"

section \<open>The law per line\<close>

text \<open>Copies of a line in the result: what both sides left of the base, plus the larger addition.\<close>

definition merged_count :: "nat \<Rightarrow> nat \<Rightarrow> nat \<Rightarrow> nat" where
  "merged_count b o' t = min b (min o' t) + (max (max o' t) b - b)"

lemma fold_counts: "fold (\<lambda>l m. m(l := m l + 1)) ls m = (\<lambda>l. m l + count_list ls l)"
  by (induction ls arbitrary: m) (auto simp: fun_eq_iff)

lemma counts_count_list: "counts ls = count_list ls"
  unfolding counts_def fold_counts by simp

lemma merged_count_arith:
  "(b - min (max (b - x) (b - t)) b) + max (x - b) (t - b) = merged_count b x t"
  by (simp add: merged_count_def min_def max_def) arith

lemma want_merged_count:
  "want base ours theirs l = merged_count (count_list base l) (count_list ours l) (count_list theirs l)"
  unfolding want_def Let_def counts_count_list by (rule merged_count_arith)

lemma take_ours_step:
  "take_ours w l (out, taken) = (if taken l < w l then (out @ [l], taken(l := taken l + 1)) else (out, taken))"
  by (simp add: take_ours_def)

lemma take_ours_counts:
  "fold (take_ours w) xs (out, taken) = (out', taken') \<Longrightarrow> taken = count_list out \<Longrightarrow> \<forall>l. taken l \<le> w l \<Longrightarrow>
     taken' = count_list out' \<and> (\<forall>l. taken' l = min (taken l + count_list xs l) (w l))"
proof (induction xs arbitrary: out taken)
  case Nil
  then show ?case by (auto simp: min_absorb1)
next
  case (Cons x xs)
  show ?case
  proof (cases "taken x < w x")
    case True
    let ?t = "taken(x := taken x + 1)"
    have "fold (take_ours w) xs (out @ [x], ?t) = (out', taken')"
      using Cons.prems(1) True by (simp add: take_ours_step)
    moreover have "?t = count_list (out @ [x])" using Cons.prems(2) by (auto simp: fun_eq_iff)
    moreover have "\<forall>l. ?t l \<le> w l" using Cons.prems(3) True by auto
    ultimately have "taken' = count_list out'" "\<forall>l. taken' l = min (?t l + count_list xs l) (w l)"
      using Cons.IH by blast+
    then show ?thesis by auto
  next
    case False
    then have f: "fold (take_ours w) xs (out, taken) = (out', taken')"
      using Cons.prems(1) by (simp add: take_ours_step)
    have "taken x = w x" using False Cons.prems(3) by (meson le_neq_implies_less)
    then show ?thesis using Cons.IH [OF f Cons.prems(2,3)] by auto
  qed
qed

lemma extras_seen: "snd (extras owed ls) = count_list ls"
  by (induction ls) (auto simp: case_prod_beta Let_def fun_eq_iff)

lemma length_extras [simp]: "length (fst (extras owed ls)) = length ls"
  by (induction ls) (auto simp: case_prod_beta Let_def)

definition flagged :: "string \<Rightarrow> (bool \<times> string) list \<Rightarrow> nat" where
  "flagged k fls = length (filter (\<lambda>(f, l). f \<and> l = k) fls)"

lemma flagged_extras: "flagged k (zip (fst (extras owed ls)) ls) = min (owed k) (count_list ls k)"
proof (induction ls)
  case Nil
  then show ?case by (simp add: flagged_def)
next
  case (Cons l ls)
  have "snd (extras owed ls) l = count_list ls l" by (simp add: extras_seen)
  with Cons show ?case by (auto simp: flagged_def case_prod_beta Let_def)
qed

lemma count_vec_insert [simp]: "count_list (vec_insert xs i x) k = count_list xs k + (if x = k then 1 else 0)"
proof -
  have "count_list (take i xs) k + count_list (drop i xs) k = count_list xs k"
    by (metis append_take_drop_id count_list_append)
  then show ?thesis by (auto simp: vec_insert_def)
qed

lemma rposition_Some: "rposition P xs = Some i \<Longrightarrow> i < length xs \<and> P (xs ! i)"
  by (induction xs arbitrary: i) (auto split: option.splits if_splits)

text \<open>An insert position is always within the list, so \<open>Vec::insert\<close> cannot panic.\<close>

definition slot_ok :: "string list \<times> nat option \<Rightarrow> bool" where
  "slot_ok st = (case snd st of None \<Rightarrow> True | Some a \<Rightarrow> a < length (fst st))"

lemma place_slot_ok: "slot_ok st \<Longrightarrow> slot_ok (place fl st)"
  by (cases st; cases fl)
    (auto simp: place_def slot_ok_def vec_insert_def Let_def dest: rposition_Some split: option.splits)

lemma fold_place_count:
  "count_list (fst (fold place fls st)) k = count_list (fst st) k + flagged k fls"
proof (induction fls arbitrary: st)
  case Nil
  then show ?case by (simp add: flagged_def)
next
  case (Cons fl fls)
  obtain f l out after where "fl = (f, l)" "st = (out, after)" by (cases fl; cases st)
  with Cons [of "place fl st"] show ?case
    by (auto simp: place_def flagged_def Let_def split: option.splits)
qed

lemma merged_count_bounds:
  "merged_count b o' t - min o' (merged_count b o' t) \<le> t"
  "0 < merged_count b o' t - min o' (merged_count b o' t) \<Longrightarrow> 0 < t"
  unfolding merged_count_def by linarith+

lemma merge3_lines_count:
  "count_list (merge3_lines base ours theirs) k =
     merged_count (count_list base k) (count_list ours k) (count_list theirs k)"
proof -
  define w where "w = want base ours theirs"
  obtain out taken where f: "fold (take_ours w) ours ([], \<lambda>_. 0) = (out, taken)" by (cases "fold (take_ours w) ours ([], \<lambda>_. 0)")
  have t: "taken = count_list out" "taken k = min (count_list ours k) (w k)"
    using take_ours_counts [OF f] by (auto simp: fun_eq_iff)
  have "count_list (merge3_lines base ours theirs) k =
      count_list out k + min (owed_of w theirs taken k) (count_list theirs k)"
    unfolding merge3_lines_def insert_theirs_def w_def [symmetric] Let_def f prod.case
    by (simp add: fold_place_count flagged_extras)
  moreover have "owed_of w theirs taken k = w k - taken k"
  proof (cases "k \<in> set theirs")
    case False
    then have "count_list theirs k = 0" by (simp add: count_list_0_iff)
    then show ?thesis using False t(2) merged_count_bounds [of "count_list base k" "count_list ours k" 0]
      by (simp add: owed_of_def w_def want_merged_count)
  qed (simp add: owed_of_def)
  moreover have "w k - taken k \<le> count_list theirs k"
    using merged_count_bounds(1) [of "count_list base k" "count_list ours k" "count_list theirs k"] t(2)
    by (simp add: w_def want_merged_count)
  ultimately show ?thesis using t by (auto simp: w_def want_merged_count)
qed

text \<open>C13: the merge law. For every line, the merged text holds exactly the copies the specification
  gives: a deletion by either side stands, an addition by either side stands, and no line is lost or
  doubled otherwise.\<close>

theorem merge3_count:
  "count_list (merge3_lines base ours theirs) k =
     merged_count (count_list base k) (count_list ours k) (count_list theirs k)"
  by (rule merge3_lines_count)

text \<open>Which side is called ours changes the order of the merged lines only: every line has the same
  number of copies either way.\<close>

theorem merge3_symmetric:
  "count_list (merge3_lines base ours theirs) k = count_list (merge3_lines base theirs ours) k"
  unfolding merge3_lines_count by (simp add: merged_count_def min.commute max.commute)

section \<open>An unchanged side\<close>

lemma extras_none: "\<forall>l. owed l = 0 \<Longrightarrow> fst (extras owed ls) = replicate (length ls) False"
  by (induction ls) (auto simp: case_prod_beta Let_def)

lemma fold_place_none: "fst (fold place (zip (replicate (length ls) False) ls) st) = fst st"
proof (induction ls arbitrary: st)
  case (Cons l ls)
  have "fst (place (False, l) st) = fst st"
    by (cases st) (auto simp: place_def split: option.splits)
  with Cons show ?case by simp
qed simp

lemma take_ours_all:
  assumes "\<forall>l. taken l + count_list xs l \<le> w l"
  shows "fold (take_ours w) xs (out, taken) = (out @ xs, \<lambda>l. taken l + count_list xs l)"
  using assms
proof (induction xs arbitrary: out taken)
  case (Cons x xs)
  let ?t = "taken(x := taken x + 1)"
  have "taken x < w x" using Cons.prems [THEN spec, of x] by simp
  moreover have "?t l + count_list xs l \<le> w l" for l using Cons.prems [THEN spec, of l] by (auto split: if_splits)
  moreover have "(\<lambda>l. ?t l + count_list xs l) = (\<lambda>l. taken l + count_list (x # xs) l)" by (auto simp: fun_eq_iff)
  ultimately show ?case using Cons.IH [of ?t "out @ [x]"] by (simp add: take_ours_step del: fun_upd_apply)
qed simp

lemma merge3_lines_unchanged: "merge3_lines base ours base = ours"
proof -
  have w: "want base ours base = count_list ours"
    by (auto simp: fun_eq_iff want_merged_count merged_count_def)
  have "fold (take_ours (count_list ours)) ours ([], \<lambda>_. 0) = (ours, count_list ours)"
    using take_ours_all [of "\<lambda>_. 0" ours "count_list ours" "[]"] by simp
  then show ?thesis
    by (simp add: merge3_lines_def w insert_theirs_def extras_none fold_place_none owed_of_def)
qed

lemma join_merge_lines:
  assumes "ends_with text [LF]"
  shows "merge_join (merge_lines text) text other = text"
proof -
  obtain r where r: "text = r @ [LF]"
    using assms unfolding ends_with_def by (metis append_take_drop_id)
  then have "merge_lines text = split_on (\<lambda>c. c = LF) r"
    using assms by (simp add: merge_lines_def ends_with_def)
  with r assms show ?thesis by (simp add: merge_join_def join_split_on)
qed

text \<open>When theirs is unchanged since the base, merging gives ours, byte for byte.\<close>

theorem merge3_theirs_unchanged:
  assumes "ends_with ours [LF]"
  shows "merge3 base ours base = ours"
  by (simp add: merge3_def merge3_lines_unchanged join_merge_lines [OF assms])

theorem merge3_theirs_unchanged_witness:
  "merge3 ''a'' [CHR ''b'', LF] ''a'' = [CHR ''b'', LF]"
proof -
  have "ends_with [CHR ''b'', LF] [LF]" by (simp add: ends_with_def)
  then show ?thesis by (rule merge3_theirs_unchanged)
qed

text \<open>The converse does not hold when theirs moved lines. With ours unchanged, a reordering made by
  theirs is dropped: the result follows ours.\<close>

theorem merge3_ours_unchanged_order:
  "merge3 [CHR ''a'', LF, CHR ''b'', LF] [CHR ''a'', LF, CHR ''b'', LF] [CHR ''b'', LF, CHR ''a'', LF] =
     [CHR ''a'', LF, CHR ''b'', LF]"
  by code_simp

end
