(* ===== verification/Diff.thy ===== *)
theory Diff
  imports TextHistory
begin

text \<open>
  \<open>diff.rs\<close> of \<open>txtodo-core\<close>: Myers' greedy diff, the line diff with its move pairing and the text diff.
  The V array is the list the code updates in place, and the trace the copies it keeps. A panic of the
  code (\<open>unreachable!\<close>) is \<open>None\<close>. The theorems: the algorithm returns within its bound on every input,
  the steps it returns turn the first list into the second, and the text edits made of them, applied by
  \<open>textedit.rs\<close>, rebuild the target text.
\<close>

section \<open>Definitions\<close>

datatype line_diff =
    DKeep (df_from: nat) (df_to: nat)
  | DInsert (df_to: nat)
  | DDelete (df_from: nat)
  | DChange (df_from: nat) (df_to: nat)
  | DMove (df_from: nat) (df_to: nat)

datatype key = KId ulid | KContent "64 word"

definition fnv1a :: "string \<Rightarrow> 64 word" where
  "fnv1a bs = fold (\<lambda>b h. (h XOR of_nat (byte_val b)) * 0x00000100000001b3) bs 0xcbf29ce484222325"

definition key_of :: "owned_line \<Rightarrow> key" where
  "key_of l =
    (let i = Option.bind (ol_raw l) (\<lambda>r. case parse_line r Lenient of Inl _ \<Rightarrow> None
               | Inr ln \<Rightarrow> (case l_kind ln of TaskLine t \<Rightarrow> task_ulid t | Blank \<Rightarrow> None))
     in case i of None \<Rightarrow> KContent (fnv1a (ol_bytes l)) | Some u \<Rightarrow> KId u)"

datatype step = SKeep nat nat | SDelete nat | SInsert nat

text \<open>The inner \<open>while\<close> of \<open>myers\<close>: along matching elements.\<close>

function snake :: "'a list \<Rightarrow> 'a list \<Rightarrow> nat \<Rightarrow> nat \<Rightarrow> nat \<times> nat" where
  "snake a b x y =
    (if x < length a \<and> y < length b \<and> a ! x = b ! y then snake a b (x + 1) (y + 1) else (x, y))"
  by pat_completeness auto
termination
  by (relation "measure (\<lambda>(a, b, x, y). length a - x)") auto

declare snake.simps [simp del]

text \<open>The loop over the diagonals of one round, from \<open>k\<close> on: the array after it, and whether the end of
  both lists was reached. Indices are \<open>isize\<close> in the source and integers here; \<open>x - k\<close> is never
  negative (\<open>furthest_ge\<close>), so the cast back to \<open>usize\<close> is \<open>nat\<close>.\<close>

function k_loop :: "'a list \<Rightarrow> 'a list \<Rightarrow> nat \<Rightarrow> nat \<Rightarrow> int \<Rightarrow> nat list \<Rightarrow> nat list \<times> bool" where
  "k_loop a b off d k v =
    (if k > int d then (v, False)
     else
       let ki = nat (k + int off);
           down = (k = - int d \<or> (k \<noteq> int d \<and> v ! (ki - 1) < v ! (ki + 1)));
           x0 = (if down then v ! (ki + 1) else v ! (ki - 1) + 1);
           y0 = nat (int x0 - k);
           (x, y) = snake a b x0 y0;
           v1 = v[ki := x]
       in if x \<ge> length a \<and> y \<ge> length b then (v1, True) else k_loop a b off d (k + 2) v1)"
  by pat_completeness auto
termination
  by (relation "measure (\<lambda>(a, b, off, d, k, v). nat (int d + 1 - k))") auto

declare k_loop.simps [simp del]

text \<open>The inner \<open>while\<close> of \<open>backtrack\<close>, with the steps pushed so far.\<close>

function back_snake :: "int \<Rightarrow> int \<Rightarrow> int \<Rightarrow> int \<Rightarrow> step list \<Rightarrow> int \<times> int \<times> step list" where
  "back_snake px py x y steps =
    (if x > px \<and> y > py then back_snake px py (x - 1) (y - 1) (steps @ [SKeep (nat (x - 1)) (nat (y - 1))])
     else (x, y, steps))"
  by pat_completeness auto
termination
  by (relation "measure (\<lambda>(px, py, x, y, steps). nat (x - px))") auto

declare back_snake.simps [simp del]

text \<open>One turn of the loop of \<open>backtrack\<close>, on the position and the steps pushed so far.\<close>

definition back_round :: "nat \<Rightarrow> nat \<times> nat list \<Rightarrow> int \<times> int \<times> step list \<Rightarrow> int \<times> int \<times> step list" where
  "back_round off dv st =
    (let (dn, v) = dv; (x, y, steps) = st;
         d = int dn; k = x - y;
         at = (\<lambda>kk. int (v ! nat (kk + int off)));
         down = (k = - d \<or> (k \<noteq> d \<and> at (k - 1) < at (k + 1)));
         prev_k = (if down then k + 1 else k - 1);
         prev_x = (if d = 0 then 0 else at prev_k);
         prev_y = (if d = 0 then 0 else at prev_k - prev_k);
         (x1, y1, steps1) = back_snake prev_x prev_y x y steps
     in if d > 0 then (prev_x, prev_y, steps1 @ [if down then SInsert (nat prev_y) else SDelete (nat prev_x)])
        else (x1, y1, steps1))"

definition backtrack :: "nat list list \<Rightarrow> nat \<Rightarrow> nat \<Rightarrow> nat \<Rightarrow> step list" where
  "backtrack trace n m off =
    rev (snd (snd (fold (back_round off) (rev (enumerate 0 trace)) (int n, int m, []))))"

text \<open>The outer \<open>for\<close> of \<open>myers\<close>.\<close>

function d_loop :: "'a list \<Rightarrow> 'a list \<Rightarrow> nat \<Rightarrow> nat \<Rightarrow> nat list \<Rightarrow> nat list list \<Rightarrow> step list option" where
  "d_loop a b mx d v trace =
    (if d > mx then None
     else case k_loop a b mx d (- int d) v of
       (v1, found) \<Rightarrow>
         if found then Some (backtrack (trace @ [v]) (length a) (length b) mx)
         else d_loop a b mx (d + 1) v1 (trace @ [v]))"
  by pat_completeness auto
termination
  by (relation "measure (\<lambda>(a, b, mx, d, v, trace). mx + 1 - d)") auto

declare d_loop.simps [simp del]

definition myers :: "'a list \<Rightarrow> 'a list \<Rightarrow> step list option" where
  "myers a b = (let mx = length a + length b in d_loop a b mx 0 (replicate (2 * mx + 2) 0) [])"

subsection \<open>Line diffs\<close>

text \<open>One turn of \<open>pair_moves\<close> at index \<open>i\<close> after another.\<close>

function pair_moves_from :: "nat \<Rightarrow> key list \<Rightarrow> key list \<Rightarrow> line_diff list \<Rightarrow> line_diff list" where
  "pair_moves_from i ka kb out =
    (if i \<ge> length out then out
     else case out ! i of
       DDelete from \<Rightarrow>
         (case ka ! from of
            KId u \<Rightarrow>
              (case find_index (\<lambda>d. case d of DInsert to \<Rightarrow> kb ! to = KId u | _ \<Rightarrow> False) out of
                 Some j \<Rightarrow>
                   pair_moves_from i ka kb
                     (let out1 = out[i := DMove from (df_to (out ! j))] in take j out1 @ drop (j + 1) out1)
               | None \<Rightarrow> pair_moves_from (i + 1) ka kb out)
          | _ \<Rightarrow> pair_moves_from (i + 1) ka kb out)
     | _ \<Rightarrow> pair_moves_from (i + 1) ka kb out)"
  by pat_completeness auto
termination
proof (relation "measure (\<lambda>(i, ka, kb, out). length out - i + length out)")
qed (auto simp: find_index_Some Let_def)

declare pair_moves_from.simps [simp del]

definition pair_moves :: "line_diff list \<Rightarrow> key list \<Rightarrow> key list \<Rightarrow> line_diff list" where
  "pair_moves out ka kb = pair_moves_from 0 ka kb out"

definition line_step :: "todo_file \<Rightarrow> todo_file \<Rightarrow> step \<Rightarrow> line_diff" where
  "line_step a b s =
    (case s of
       SKeep i j \<Rightarrow> (if ol_bytes (f_lines a ! i) = ol_bytes (f_lines b ! j) then DKeep i j else DChange i j)
     | SDelete i \<Rightarrow> DDelete i
     | SInsert j \<Rightarrow> DInsert j)"

definition diff_lines :: "todo_file \<Rightarrow> todo_file \<Rightarrow> line_diff list option" where
  "diff_lines a b =
    (let ka = map key_of (f_lines a); kb = map key_of (f_lines b)
     in map_option (\<lambda>steps. pair_moves (map (line_step a b) steps) ka kb) (myers ka kb))"

subsection \<open>Text diffs\<close>

definition edit_step :: "string list \<Rightarrow> step \<Rightarrow> text_edit list \<Rightarrow> text_edit list" where
  "edit_step cb s out =
    (case s of
       SDelete i \<Rightarrow>
         (case (if out = [] then None else Some (last out)) of
            Some (TDelete at len) \<Rightarrow> if at + len = i then butlast out @ [TDelete at (len + 1)] else out @ [TDelete i 1]
          | _ \<Rightarrow> out @ [TDelete i 1])
     | SInsert j \<Rightarrow>
         (case (if out = [] then None else Some (last out)) of
            Some (TInsert at text) \<Rightarrow>
              if at + length (chars text) = j then butlast out @ [TInsert at (text @ cb ! j)] else out @ [TInsert j (cb ! j)]
          | _ \<Rightarrow> out @ [TInsert j (cb ! j)])
     | SKeep _ _ \<Rightarrow> out)"

definition diff_text :: "string \<Rightarrow> string \<Rightarrow> text_edit list option" where
  "diff_text a b = map_option (\<lambda>steps. fold (edit_step (chars b)) steps []) (myers (chars a) (chars b))"

section \<open>The furthest points\<close>

lemma snake_step: "x < length a \<and> y < length b \<and> a ! x = b ! y \<Longrightarrow> snake a b x y = snake a b (x + 1) (y + 1)"
  by (subst snake.simps) simp

lemma snake_stop: "\<not> (x < length a \<and> y < length b \<and> a ! x = b ! y) \<Longrightarrow> snake a b x y = (x, y)"
  by (subst snake.simps) (simp only: if_False)

lemma snake_run:
  obtains s where "snake a b x y = (x + s, y + s)"
    and "\<forall>i < s. x + i < length a \<and> y + i < length b \<and> a ! (x + i) = b ! (y + i)"
proof -
  have "\<exists>s. snake a b x y = (x + s, y + s) \<and> (\<forall>i < s. x + i < length a \<and> y + i < length b \<and> a ! (x + i) = b ! (y + i))"
  proof (induction a b x y rule: snake.induct)
    case (1 a b x y)
    show ?case
    proof (cases "x < length a \<and> y < length b \<and> a ! x = b ! y")
      case True
      from "1.IH" [OF True] obtain s where s: "snake a b (x + 1) (y + 1) = (x + 1 + s, y + 1 + s)"
        "\<forall>i < s. x + 1 + i < length a \<and> y + 1 + i < length b \<and> a ! (x + 1 + i) = b ! (y + 1 + i)" by blast
      have "x + i < length a \<and> y + i < length b \<and> a ! (x + i) = b ! (y + i)" if "i < Suc s" for i
        using that s(2) True by (cases i) auto
      then show ?thesis using s(1) snake_step [OF True] by (intro exI [of _ "Suc s"]) simp
    next
      case False
      then show ?thesis using snake_stop by (intro exI [of _ 0]) simp
    qed
  qed
  then show ?thesis using that by blast
qed

lemma snake_outside: "x \<ge> length a \<or> y \<ge> length b \<Longrightarrow> snake a b x y = (x, y)"
  by (rule snake_stop) auto

lemma snake_le: "fst (snake a b x y) > length a \<Longrightarrow> snake a b x y = (x, y)" "snd (snake a b x y) > length b \<Longrightarrow> snake a b x y = (x, y)"
proof -
  obtain s where s: "snake a b x y = (x + s, y + s)"
    "\<forall>i < s. x + i < length a \<and> y + i < length b \<and> a ! (x + i) = b ! (y + i)" by (rule snake_run)
  have "s = 0 \<or> x + s \<le> length a \<and> y + s \<le> length b" using s(2) by (cases s) (auto simp: Suc_le_eq dest: spec [of _ "s - 1"])
  then show "fst (snake a b x y) > length a \<Longrightarrow> snake a b x y = (x, y)" "snd (snake a b x y) > length b \<Longrightarrow> snake a b x y = (x, y)"
    using s(1) by auto
qed

text \<open>The point the algorithm reaches on diagonal \<open>k\<close> with \<open>d\<close> edits, as a recursion over the rounds.\<close>

definition start_x :: "(int \<Rightarrow> nat) \<Rightarrow> nat \<Rightarrow> int \<Rightarrow> nat" where
  "start_x R d k = (if k = - int d \<or> (k \<noteq> int d \<and> R (k - 1) < R (k + 1)) then R (k + 1) else R (k - 1) + 1)"

fun furthest :: "'a list \<Rightarrow> 'a list \<Rightarrow> nat \<Rightarrow> int \<Rightarrow> nat" where
  "furthest a b 0 k = fst (snake a b 0 0)"
| "furthest a b (Suc d) k =
    (let x0 = start_x (furthest a b d) (Suc d) k in fst (snake a b x0 (nat (int x0 - k))))"

declare furthest.simps(2) [simp del]

definition on_round :: "nat \<Rightarrow> int \<Rightarrow> bool" where
  "on_round d k \<longleftrightarrow> - int d \<le> k \<and> k \<le> int d \<and> even (int d - k)"

lemma on_round_0 [simp]: "on_round 0 k \<longleftrightarrow> k = 0"
  by (auto simp: on_round_def)

lemma on_round_pred:
  assumes "on_round (Suc d) k"
  shows "k \<noteq> - int (Suc d) \<Longrightarrow> on_round d (k - 1)" "k \<noteq> int (Suc d) \<Longrightarrow> on_round d (k + 1)"
  using assms by (auto simp: on_round_def) presburger+

lemma on_round_Suc: "on_round d k \<Longrightarrow> on_round (Suc d) (k + 1)" "on_round d k \<Longrightarrow> on_round (Suc d) (k - 1)"
  by (auto simp: on_round_def)

lemma start_x_ge:
  assumes "on_round (Suc d) k"
  shows "on_round d (k + 1) \<Longrightarrow> R (k + 1) \<le> start_x R (Suc d) k"
    and "on_round d (k - 1) \<Longrightarrow> R (k - 1) + 1 \<le> start_x R (Suc d) k"
  by (auto simp: on_round_def start_x_def)

lemma start_x_cases:
  assumes "on_round (Suc d) k"
  obtains (down) "on_round d (k + 1)" "start_x R (Suc d) k = R (k + 1)"
      "k = - int (Suc d) \<or> (k \<noteq> int (Suc d) \<and> R (k - 1) < R (k + 1))"
    | (right) "on_round d (k - 1)" "start_x R (Suc d) k = R (k - 1) + 1"
      "\<not> (k = - int (Suc d) \<or> (k \<noteq> int (Suc d) \<and> R (k - 1) < R (k + 1)))"
proof (cases "k = - int (Suc d) \<or> (k \<noteq> int (Suc d) \<and> R (k - 1) < R (k + 1))")
  case True
  then have "on_round d (k + 1)" using on_round_pred(2) [OF assms] by auto
  then show ?thesis using True down by (auto simp: start_x_def)
next
  case False
  then have "on_round d (k - 1)" using on_round_pred(1) [OF assms] by auto
  then show ?thesis using False right by (auto simp: start_x_def)
qed

text \<open>No point lies left of or above the grid, and every round goes further.\<close>

lemma furthest_ge: "on_round d k \<Longrightarrow> k \<le> int (furthest a b d k)"
  and furthest_far: "on_round d k \<Longrightarrow> int d + k \<le> 2 * int (furthest a b d k)"
proof (induction d arbitrary: k)
  case 0
  {
    case 1
    then show ?case by simp
  next
    case 2
    then show ?case by simp
  }
next
  case (Suc d)
  have "k \<le> int (furthest a b (Suc d) k) \<and> int (Suc d) + k \<le> 2 * int (furthest a b (Suc d) k)" if k: "on_round (Suc d) k" for k
  proof -
    let ?x0 = "start_x (furthest a b d) (Suc d) k"
    have "k \<le> int ?x0 \<and> int (Suc d) + k \<le> 2 * int ?x0"
      using Suc.IH [of "k + 1"] Suc.IH [of "k - 1"] by (cases rule: start_x_cases [OF k, of "furthest a b d"]) auto
    moreover obtain s where "snake a b ?x0 (nat (int ?x0 - k)) = (?x0 + s, nat (int ?x0 - k) + s)" by (rule snake_run)
    then have "furthest a b (Suc d) k = ?x0 + s" by (simp add: furthest.simps(2) Let_def)
    ultimately show ?thesis by simp
  qed
  then show "k \<le> int (furthest a b (Suc d) k)" "int (Suc d) + k \<le> 2 * int (furthest a b (Suc d) k)" if "on_round (Suc d) k" for k
    using that by blast+
qed

lemma furthest_start:
  assumes "on_round (Suc d) k"
  shows "start_x (furthest a b d) (Suc d) k \<le> furthest a b (Suc d) k"
proof -
  let ?x0 = "start_x (furthest a b d) (Suc d) k"
  obtain s where "snake a b ?x0 (nat (int ?x0 - k)) = (?x0 + s, nat (int ?x0 - k) + s)" by (rule snake_run)
  then show ?thesis by (simp add: furthest.simps(2) Let_def)
qed

text \<open>A point past the right edge was reached one round earlier on the diagonal before, up to one column;
  and the same below the bottom edge. So the first point past both ends is the corner itself.\<close>

lemma furthest_past_right:
  "on_round d k \<Longrightarrow> furthest a b d k > length a \<Longrightarrow>
   \<exists>e. d = Suc e \<and> on_round e (k - 1) \<and> furthest a b d k \<le> furthest a b e (k - 1) + 1"
proof (induction d arbitrary: k)
  case 0
  then show ?case using snake_le(1) [of a b 0 0] by fastforce
next
  case (Suc d)
  let ?R = "furthest a b d" and ?x0 = "start_x (furthest a b d) (Suc d) k"
  have x: "furthest a b (Suc d) k = ?x0"
    using Suc.prems(2) snake_le(1) [of a b ?x0 "nat (int ?x0 - k)"] by (simp add: furthest.simps(2) Let_def)
  from Suc.prems(1) show ?case
  proof (cases rule: start_x_cases [where R = ?R])
    case down
    then have "?R (k + 1) > length a" using x Suc.prems(2) by simp
    from Suc.IH [OF down(1) this] obtain e where e: "d = Suc e" "on_round e k" "?R (k + 1) \<le> furthest a b e k + 1" by auto
    have "on_round d (k - 1)" using on_round_Suc(2) [OF e(2)] e(1) by simp
    moreover have "furthest a b e k \<le> ?R (k - 1)"
      using start_x_ge(1) [of e "k - 1" "furthest a b e"] furthest_start [of e "k - 1" a b] calculation e by simp
    ultimately show ?thesis using x down e(3) by auto
  next
    case right
    then show ?thesis using x by auto
  qed
qed

lemma furthest_past_bottom:
  "on_round d k \<Longrightarrow> int (furthest a b d k) - k > int (length b) \<Longrightarrow>
   \<exists>e. d = Suc e \<and> on_round e (k + 1) \<and> furthest a b d k \<le> furthest a b e (k + 1)"
proof (induction d arbitrary: k)
  case 0
  obtain s where "snake a b 0 0 = (0 + s, 0 + s)" by (rule snake_run)
  then show ?case using 0 snake_le(2) [of b a 0 0] by fastforce
next
  case (Suc d)
  let ?R = "furthest a b d" and ?x0 = "start_x (furthest a b d) (Suc d) k"
  have ge: "k \<le> int ?x0"
    using furthest_ge [of d "k + 1" a b] furthest_ge [of d "k - 1" a b] by (cases rule: start_x_cases [OF Suc.prems(1), of ?R]) auto
  obtain s where s: "snake a b ?x0 (nat (int ?x0 - k)) = (?x0 + s, nat (int ?x0 - k) + s)" by (rule snake_run)
  have "snd (snake a b ?x0 (nat (int ?x0 - k))) > length b"
    using Suc.prems(2) s ge by (simp add: furthest.simps(2) Let_def)
  then have x: "furthest a b (Suc d) k = ?x0"
    using snake_le(2) by (fastforce simp: furthest.simps(2) Let_def)
  from Suc.prems(1) show ?case
  proof (cases rule: start_x_cases [where R = ?R])
    case down
    then show ?thesis using x by auto
  next
    case right
    then have "int (?R (k - 1)) - (k - 1) > int (length b)" using x Suc.prems(2) by simp
    from Suc.IH [OF right(1) this] obtain e where e: "d = Suc e" "on_round e k" "?R (k - 1) \<le> furthest a b e k" by auto
    have "on_round d (k + 1)" using on_round_Suc(1) [OF e(2)] e(1) by simp
    moreover have "furthest a b e k + 1 \<le> ?R (k + 1)"
      using start_x_ge(2) [of e "k + 1" "furthest a b e"] furthest_start [of e "k + 1" a b] calculation e by simp
    ultimately show ?thesis using x right e(3) by auto
  qed
qed

definition at_end :: "'a list \<Rightarrow> 'a list \<Rightarrow> nat \<Rightarrow> int \<Rightarrow> bool" where
  "at_end a b d k \<longleftrightarrow> furthest a b d k \<ge> length a \<and> int (furthest a b d k) - k \<ge> int (length b)"

lemma first_end_is_corner:
  assumes k: "on_round d k" "at_end a b d k" and first: "\<And>e j. e < d \<Longrightarrow> on_round e j \<Longrightarrow> \<not> at_end a b e j"
  shows "furthest a b d k = length a" "k = int (length a) - int (length b)"
proof -
  have "\<not> furthest a b d k > length a"
  proof
    assume "furthest a b d k > length a"
    from furthest_past_right [OF k(1) this] obtain e where "d = Suc e" "on_round e (k - 1)" "furthest a b d k \<le> furthest a b e (k - 1) + 1" by blast
    moreover from this have "at_end a b e (k - 1)" using k(2) \<open>furthest a b d k > length a\<close> by (auto simp: at_end_def)
    ultimately show False using first by blast
  qed
  then show x: "furthest a b d k = length a" using k(2) by (simp add: at_end_def)
  have "\<not> int (furthest a b d k) - k > int (length b)"
  proof
    assume "int (furthest a b d k) - k > int (length b)"
    from furthest_past_bottom [OF k(1) this] obtain e where "d = Suc e" "on_round e (k + 1)" "furthest a b d k \<le> furthest a b e (k + 1)" by blast
    moreover from this have "at_end a b e (k + 1)"
      using k(2) \<open>int (furthest a b d k) - k > int (length b)\<close> by (auto simp: at_end_def)
    ultimately show False using first by blast
  qed
  then show "k = int (length a) - int (length b)" using k(2) x by (simp add: at_end_def)
qed

lemma end_within_bound: "\<exists>k. on_round (length a + length b) k \<and> at_end a b (length a + length b) k"
proof (intro exI conjI)
  let ?k = "int (length a) - int (length b)"
  show "on_round (length a + length b) ?k" by (auto simp: on_round_def)
  then show "at_end a b (length a + length b) ?k"
    using furthest_far [of "length a + length b" ?k a b] by (simp add: at_end_def)
qed

section \<open>The array holds the furthest points\<close>

definition holds_round :: "'a list \<Rightarrow> 'a list \<Rightarrow> nat \<Rightarrow> nat \<Rightarrow> nat list \<Rightarrow> bool" where
  "holds_round a b mx d v \<longleftrightarrow> (\<forall>k. on_round d k \<longrightarrow> v ! nat (k + int mx) = furthest a b d k)"

definition before_round :: "'a list \<Rightarrow> 'a list \<Rightarrow> nat \<Rightarrow> nat \<Rightarrow> nat list \<Rightarrow> bool" where
  "before_round a b mx d v \<longleftrightarrow> length v = 2 * mx + 2 \<and>
     (case d of 0 \<Rightarrow> v ! (mx + 1) = 0 | Suc e \<Rightarrow> holds_round a b mx e v)"

text \<open>What one round reads: the choice of the code is that of the specification.\<close>

lemma round_reads:
  assumes v: "before_round a b mx (Suc e) v" and k: "on_round (Suc e) k" and mx: "Suc e \<le> mx"
  shows "on_round e (k + 1) \<Longrightarrow> v ! (nat (k + int mx) + 1) = furthest a b e (k + 1)"
    and "on_round e (k - 1) \<Longrightarrow> v ! (nat (k + int mx) - 1) = furthest a b e (k - 1)"
    and "(k = - int (Suc e) \<or> (k \<noteq> int (Suc e) \<and> v ! (nat (k + int mx) - 1) < v ! (nat (k + int mx) + 1))) \<longleftrightarrow>
      (k = - int (Suc e) \<or> (k \<noteq> int (Suc e) \<and> furthest a b e (k - 1) < furthest a b e (k + 1)))"
proof -
  have hold: "v ! nat (j + int mx) = furthest a b e j" if "on_round e j" for j
    using v that by (simp add: before_round_def holds_round_def)
  have i: "nat (k + int mx) + 1 = nat ((k + 1) + int mx)" "k \<noteq> - int (Suc e) \<Longrightarrow> nat (k + int mx) - 1 = nat ((k - 1) + int mx)"
    using k mx by (auto simp: on_round_def)
  show up: "v ! (nat (k + int mx) + 1) = furthest a b e (k + 1)" if "on_round e (k + 1)" using hold [OF that] i(1) by simp
  have "k \<noteq> - int (Suc e)" if "on_round e (k - 1)" using that by (auto simp: on_round_def)
  then show low: "v ! (nat (k + int mx) - 1) = furthest a b e (k - 1)" if "on_round e (k - 1)" using hold that i(2) by simp
  show "(k = - int (Suc e) \<or> (k \<noteq> int (Suc e) \<and> v ! (nat (k + int mx) - 1) < v ! (nat (k + int mx) + 1))) \<longleftrightarrow>
      (k = - int (Suc e) \<or> (k \<noteq> int (Suc e) \<and> furthest a b e (k - 1) < furthest a b e (k + 1)))"
    using up low on_round_pred [OF k] by metis
qed

lemma round_start:
  assumes v: "before_round a b mx d v" and k: "on_round d k" and mx: "d \<le> mx"
    and x0: "x0 = (if k = - int d \<or> (k \<noteq> int d \<and> v ! (nat (k + int mx) - 1) < v ! (nat (k + int mx) + 1))
      then v ! (nat (k + int mx) + 1) else v ! (nat (k + int mx) - 1) + 1)"
  shows "fst (snake a b x0 (nat (int x0 - k))) = furthest a b d k" and "k \<le> int x0"
proof -
  have "fst (snake a b x0 (nat (int x0 - k))) = furthest a b d k \<and> k \<le> int x0"
  proof (cases d)
    case 0
    then have "x0 = 0" "k = 0" using v k x0 by (auto simp: before_round_def)
    then show ?thesis using 0 by simp
  next
    case (Suc e)
    note r = round_reads [OF v [unfolded Suc] k [unfolded Suc] mx [unfolded Suc]]
    have "x0 = start_x (furthest a b e) (Suc e) k"
      using k [unfolded Suc] r x0 [unfolded Suc] by (cases rule: start_x_cases [where R = "furthest a b e"]) (simp_all only: if_True if_False)
    moreover have "k \<le> int (start_x (furthest a b e) (Suc e) k)"
      using k [unfolded Suc] furthest_ge [of e "k + 1" a b] furthest_ge [of e "k - 1" a b]
      by (cases rule: start_x_cases [where R = "furthest a b e"]) auto
    ultimately show ?thesis using Suc by (simp add: furthest.simps(2) Let_def)
  qed
  then show "fst (snake a b x0 (nat (int x0 - k))) = furthest a b d k" "k \<le> int x0" by auto
qed

lemma before_round_update:
  assumes "before_round a b mx d v" "on_round d k" "d \<le> mx"
  shows "before_round a b mx d (v[nat (k + int mx) := x])"
proof (cases d)
  case 0
  then show ?thesis using assms by (simp add: before_round_def)
next
  case (Suc e)
  have "nat (j + int mx) \<noteq> nat (k + int mx)" if "on_round e j" for j
  proof -
    have "j \<noteq> k" using that assms(2) Suc by (auto simp: on_round_def)
    then show ?thesis using that assms(2,3) Suc by (auto simp: on_round_def)
  qed
  then have "(v[nat (k + int mx) := x]) ! nat (j + int mx) = v ! nat (j + int mx)" if "on_round e j" for j
    using that by (metis nth_list_update_neq)
  then show ?thesis using assms(1) Suc by (simp add: before_round_def holds_round_def)
qed

lemma k_loop_round:
  assumes "before_round a b mx d v" "d \<le> mx" "on_round d k \<or> k = int d + 2"
    "\<And>j. on_round d j \<Longrightarrow> j < k \<Longrightarrow> v ! nat (j + int mx) = furthest a b d j \<and> \<not> at_end a b d j"
    "k_loop a b mx d k v = (v', found)"
  shows "if found then \<exists>j. on_round d j \<and> at_end a b d j
    else before_round a b mx (Suc d) v' \<and> (\<forall>j. on_round d j \<longrightarrow> \<not> at_end a b d j)"
  using assms
proof (induction a b mx d k v arbitrary: v' found rule: k_loop.induct)
  case (1 a b mx d k v)
  show ?case
  proof (cases "k > int d")
    case True
    then have "v' = v" "\<not> found" using "1.prems"(5) by (subst (asm) k_loop.simps; simp)+
    moreover have "j < k" if "on_round d j" for j using that True by (simp add: on_round_def)
    ultimately show ?thesis using "1.prems"(1,4) by (auto simp: before_round_def holds_round_def)
  next
    case False
    then have k: "on_round d k" using "1.prems"(3) by auto
    define ki where "ki = nat (k + int mx)"
    define down where "down = (k = - int d \<or> (k \<noteq> int d \<and> v ! (ki - 1) < v ! (ki + 1)))"
    define x0 where "x0 = (if down then v ! (ki + 1) else v ! (ki - 1) + 1)"
    obtain s where s: "snake a b x0 (nat (int x0 - k)) = (x0 + s, nat (int x0 - k) + s)" by (rule snake_run)
    note st = round_start [OF "1.prems"(1) k "1.prems"(2) x0_def [unfolded down_def ki_def]]
    have x: "x0 + s = furthest a b d k" and y: "int (nat (int x0 - k) + s) = int (x0 + s) - k" using st s by auto
    have e: "at_end a b d k \<longleftrightarrow> x0 + s \<ge> length a \<and> nat (int x0 - k) + s \<ge> length b"
      unfolding at_end_def x [symmetric] y [symmetric] by linarith
    have eq: "k_loop a b mx d k v = (if at_end a b d k then (v[ki := x0 + s], True) else k_loop a b mx d (k + 2) (v[ki := x0 + s]))"
      using False unfolding e by (subst k_loop.simps)
        (simp only: if_False Let_def prod.case ki_def [symmetric] down_def [symmetric] x0_def [symmetric] s)
    show ?thesis
    proof (cases "at_end a b d k")
      case True
      then show ?thesis using eq "1.prems"(5) k by auto
    next
      case nend: False
      let ?v = "v[ki := x0 + s]"
      have len: "ki < length v" using "1.prems"(1,2) k by (auto simp: before_round_def on_round_def ki_def)
      have next_k: "on_round d (k + 2) \<or> k + 2 = int d + 2" using k unfolding on_round_def by presburger
      have set_j: "?v ! nat (j + int mx) = furthest a b d j \<and> \<not> at_end a b d j" if "on_round d j" "j < k + 2" for j
      proof (cases "j = k")
        case True
        then show ?thesis using nend x len by (simp add: ki_def)
      next
        case False
        then have "j < k" using that k unfolding on_round_def by presburger
        moreover have "nat (j + int mx) \<noteq> ki" using False that(1) k "1.prems"(2) by (auto simp: on_round_def ki_def)
        ultimately show ?thesis using "1.prems"(4) that(1) by simp
      qed
      have "k_loop a b mx d (k + 2) ?v = (v', found)" using eq nend "1.prems"(5) by simp
      with "1.IH" [OF False ki_def down_def x0_def refl s [symmetric] refl refl]
      show ?thesis using before_round_update [OF "1.prems"(1) k "1.prems"(2)] "1.prems"(2) next_k set_j nend e
        by (simp add: ki_def [symmetric])
    qed
  qed
qed

section \<open>Walking back\<close>

text \<open>The specification of a script: from position \<open>x\<close> of the first list and \<open>y\<close> of the second, the steps
  consume both lists to their ends, keeping only equal elements.\<close>

fun runs :: "'a list \<Rightarrow> 'a list \<Rightarrow> nat \<Rightarrow> nat \<Rightarrow> step list \<Rightarrow> bool" where
  "runs a b x y [] \<longleftrightarrow> x = length a \<and> y = length b"
| "runs a b x y (SKeep i j # s) \<longleftrightarrow> i = x \<and> j = y \<and> x < length a \<and> y < length b \<and> a ! x = b ! y \<and> runs a b (x + 1) (y + 1) s"
| "runs a b x y (SDelete i # s) \<longleftrightarrow> i = x \<and> x < length a \<and> runs a b (x + 1) y s"
| "runs a b x y (SInsert j # s) \<longleftrightarrow> j = y \<and> y < length b \<and> runs a b x (y + 1) s"

lemma back_snake_runs:
  assumes "0 \<le> px" "0 \<le> py" "px \<le> x" "py \<le> y" "runs a b (nat x) (nat y) (rev steps)"
    "\<And>t. 0 < t \<Longrightarrow> t \<le> min (x - px) (y - py) \<Longrightarrow>
       nat (x - t) < length a \<and> nat (y - t) < length b \<and> a ! nat (x - t) = b ! nat (y - t)"
  shows "\<exists>steps'. back_snake px py x y steps = (x - min (x - px) (y - py), y - min (x - px) (y - py), steps') \<and>
    runs a b (nat (x - min (x - px) (y - py))) (nat (y - min (x - px) (y - py))) (rev steps')"
  using assms
proof (induction px py x y steps rule: back_snake.induct)
  case (1 px py x y steps)
  show ?case
  proof (cases "x > px \<and> y > py")
    case True
    let ?steps = "steps @ [SKeep (nat (x - 1)) (nat (y - 1))]"
    have m: "min (x - px) (y - py) = min (x - 1 - px) (y - 1 - py) + 1" by auto
    have i: "nat (x - 1) + 1 = nat x" "nat (y - 1) + 1 = nat y" using True "1.prems"(1,2) by auto
    have r: "runs a b (nat (x - 1)) (nat (y - 1)) (rev ?steps)"
      using "1.prems"(5) "1.prems"(6) [of 1] True i by simp
    have match: "nat (x - 1 - t) < length a \<and> nat (y - 1 - t) < length b \<and> a ! nat (x - 1 - t) = b ! nat (y - 1 - t)"
      if "0 < t" "t \<le> min (x - 1 - px) (y - 1 - py)" for t
      using "1.prems"(6) [of "t + 1"] that m by (simp add: algebra_simps)
    have "back_snake px py x y steps = back_snake px py (x - 1) (y - 1) ?steps"
      using True by (subst back_snake.simps) simp
    then show ?thesis using "1.IH" [OF True "1.prems"(1,2) _ _ r match] True m by (simp add: algebra_simps)
  next
    case False
    then have "min (x - px) (y - py) = 0" using "1.prems"(3,4) by auto
    moreover have "back_snake px py x y steps = (x, y, steps)" using False by (subst back_snake.simps) (simp only: if_False)
    ultimately show ?thesis using "1.prems"(5) by simp
  qed
qed

text \<open>One round back: from the point a round reached to the point of the round before, with the steps
  between them in front.\<close>

lemma back_round_runs:
  assumes v: "before_round a b mx d v" and mx: "d \<le> mx" and k: "on_round d (x - y)" and x: "x = int (furthest a b d (x - y))"
    and xy: "x \<le> int (length a)" "0 \<le> y" "y \<le> int (length b)" and r: "runs a b (nat x) (nat y) (rev steps)"
    and b: "back_round mx (d, v) (x, y, steps) = (x', y', steps')"
  shows "case d of 0 \<Rightarrow> x' = 0 \<and> y' = 0 \<and> runs a b 0 0 (rev steps')
    | Suc e \<Rightarrow> on_round e (x' - y') \<and> x' = int (furthest a b e (x' - y')) \<and> x' \<le> int (length a) \<and>
        0 \<le> y' \<and> y' \<le> int (length b) \<and> runs a b (nat x') (nat y') (rev steps')"
proof (cases d)
  case 0
  obtain s where s: "snake a b 0 0 = (0 + s, 0 + s)" "\<forall>i < s. 0 + i < length a \<and> 0 + i < length b \<and> a ! (0 + i) = b ! (0 + i)"
    by (rule snake_run)
  then have p: "x = int s" "y = int s" using k x 0 by auto
  have "nat (int s - t) < length a \<and> nat (int s - t) < length b \<and> a ! nat (int s - t) = b ! nat (int s - t)" if "0 < t" "t \<le> int s" for t
    using s(2) [rule_format, of "nat (int s - t)"] that by simp
  then obtain st where "back_snake 0 0 x y steps = (0, 0, st)" "runs a b 0 0 (rev st)"
    using back_snake_runs [of 0 0 x y a b steps] r p by auto
  then show ?thesis using b 0 by (auto simp: back_round_def Let_def)
next
  case (Suc e)
  define k' where "k' = x - y"
  let ?R = "furthest a b e" and ?x0 = "start_x (furthest a b e) (Suc e) k'"
  have k'': "on_round (Suc e) k'" using k Suc by (simp add: k'_def)
  note rd = round_reads [OF v [unfolded Suc] k'' mx [unfolded Suc]]
  define y0 where "y0 = nat (int ?x0 - k')"
  obtain s where s: "snake a b ?x0 y0 = (?x0 + s, y0 + s)"
    "\<forall>i < s. ?x0 + i < length a \<and> y0 + i < length b \<and> a ! (?x0 + i) = b ! (y0 + i)" by (rule snake_run)
  have x': "x = int (?x0 + s)" using x s Suc by (simp add: furthest.simps(2) Let_def k'_def [symmetric] y0_def [symmetric])
  have "k' \<le> int ?x0"
    using k'' furthest_ge [of e "k' + 1" a b] furthest_ge [of e "k' - 1" a b]
    by (cases rule: start_x_cases [where R = ?R]) auto
  then have y0: "int y0 = int ?x0 - k'" by (simp add: y0_def)
  moreover have "y = x - k'" by (simp add: k'_def)
  ultimately have y': "y = int (y0 + s)" using x' by simp
  have nn: "nat (k' - 1 + int mx) = nat (k' + int mx) - 1" "nat (k' + 1 + int mx) = nat (k' + int mx) + 1"
    using k'' mx Suc by (auto simp: on_round_def)
  have match: "nat (x - t) < length a \<and> nat (y - t) < length b \<and> a ! nat (x - t) = b ! nat (y - t)" if "0 < t" "t \<le> int s" for t
  proof -
    have "nat (x - t) = ?x0 + nat (int s - t)" "nat (y - t) = y0 + nat (int s - t)" using that x' y' by auto
    then show ?thesis using s(2) [rule_format, of "nat (int s - t)"] that by simp
  qed
  let ?down = "k' = - int (Suc e) \<or> (k' \<noteq> int (Suc e) \<and> ?R (k' - 1) < ?R (k' + 1))"
  have c: "(k' = - int d \<or> (k' \<noteq> int d \<and> int (v ! nat (k' - 1 + int mx)) < int (v ! nat (k' + 1 + int mx)))) = ?down"
    unfolding nn Suc of_nat_less_iff by (rule rd(3))
  have rpk: "int (v ! nat ((if ?down then k' + 1 else k' - 1) + int mx)) = int (?R (if ?down then k' + 1 else k' - 1))"
    using rd(1,2) on_round_pred [OF k''] by (cases ?down) (simp_all only: if_True if_False nn, auto)
  have round: "back_round mx (d, v) (x, y, steps) =
      (let pk = (if ?down then k' + 1 else k' - 1); px = int (?R pk); py = int (?R pk) - pk;
           (x1, y1, steps1) = back_snake px py x y steps
       in (px, py, steps1 @ [if ?down then SInsert (nat py) else SDelete (nat px)]))"
  proof -
    have d: "int d = 0 \<longleftrightarrow> False" "int d > 0 \<longleftrightarrow> True" using Suc by auto
    show ?thesis unfolding back_round_def Let_def prod.case k'_def [symmetric] c rpk d if_True if_False ..
  qed
  from k'' show ?thesis
  proof (cases rule: start_x_cases [where R = ?R])
    case down
    let ?px = "int (?R (k' + 1))" and ?py = "int (?R (k' + 1)) - (k' + 1)"
    have p: "?px = int ?x0" "?py = int y0 - 1" "0 \<le> ?py" using down(2) y0 furthest_ge [OF down(1), of a b] by auto
    have m: "min (x - ?px) (y - ?py) = int s" using p x' y' by simp
    obtain st where st: "back_snake ?px ?py x y steps = (x - int s, y - int s, st)" "runs a b (nat (x - int s)) (nat (y - int s)) (rev st)"
      using back_snake_runs [of ?px ?py x y a b steps, unfolded m] p x' y' r match by auto
    have res: "x' = ?px" "y' = ?py" "steps' = st @ [SInsert (nat ?py)]"
      using b round down(3) st(1) by (auto simp: Let_def)
    have i: "nat (x - int s) = nat ?px" "nat (y - int s) = nat ?py + 1" "nat ?py < length b" using p x' y' xy by auto
    have "runs a b (nat ?px) (nat ?py) (rev steps')" using st(2) i unfolding res(3) by simp
    moreover have "x' - y' = k' + 1" unfolding res by simp
    moreover have "x' \<le> int (length a)" "0 \<le> y'" "y' \<le> int (length b)" using res p x' y' xy by auto
    ultimately show ?thesis using down(1) unfolding Suc nat.case res(1,2) by simp
  next
    case right
    let ?px = "int (?R (k' - 1))" and ?py = "int (?R (k' - 1)) - (k' - 1)"
    have p: "?px = int ?x0 - 1" "?py = int y0" "0 \<le> ?py" using right(2) y0 furthest_ge [OF right(1), of a b] by auto
    have m: "min (x - ?px) (y - ?py) = int s" using p x' y' by simp
    obtain st where st: "back_snake ?px ?py x y steps = (x - int s, y - int s, st)" "runs a b (nat (x - int s)) (nat (y - int s)) (rev st)"
      using back_snake_runs [of ?px ?py x y a b steps, unfolded m] p x' y' r match by auto
    have res: "x' = ?px" "y' = ?py" "steps' = st @ [SDelete (nat ?px)]"
      using b round right(3) st(1) by (auto simp: Let_def)
    have i: "nat (x - int s) = nat ?px + 1" "nat (y - int s) = nat ?py" "nat ?px < length a"
      using p x' y' xy right(2) by auto
    have "runs a b (nat ?px) (nat ?py) (rev steps')" using st(2) i unfolding res(3) by simp
    moreover have "x' - y' = k' - 1" unfolding res by simp
    moreover have "x' \<le> int (length a)" "0 \<le> y'" "y' \<le> int (length b)" using res p x' y' xy by auto
    ultimately show ?thesis using right(1) unfolding Suc nat.case res(1,2) by simp
  qed
qed

lemma backtrack_runs:
  assumes "\<forall>e < length T. before_round a b mx e (T ! e)" "length T = Suc d" "d \<le> mx" "on_round d (x - y)"
    "x = int (furthest a b d (x - y))" "x \<le> int (length a)" "0 \<le> y" "y \<le> int (length b)" "runs a b (nat x) (nat y) (rev steps)"
  shows "runs a b 0 0 (rev (snd (snd (fold (back_round mx) (rev (enumerate 0 T)) (x, y, steps)))))"
  using assms
proof (induction d arbitrary: T x y steps)
  case 0
  then obtain v where T: "T = [v]" by (cases T) auto
  obtain x' y' st where b: "back_round mx (0, v) (x, y, steps) = (x', y', st)" by (cases "back_round mx (0, v) (x, y, steps)")
  have "before_round a b mx 0 v" using "0.prems"(1) T by simp
  from back_round_runs [OF this _ "0.prems"(4-9) b] have "runs a b 0 0 (rev st)" by simp
  then show ?case using b T by simp
next
  case (Suc d)
  obtain T' v where T: "T = T' @ [v]" "length T' = Suc d" using Suc.prems(2) by (cases T rule: rev_cases) auto
  have v: "before_round a b mx (Suc d) v" "\<forall>e < length T'. before_round a b mx e (T' ! e)"
    using Suc.prems(1) T by (auto simp: nth_append split: if_splits)
  obtain x' y' st where b: "back_round mx (Suc d, v) (x, y, steps) = (x', y', st)" by (cases "back_round mx (Suc d, v) (x, y, steps)")
  from back_round_runs [OF v(1) Suc.prems(3-9) b]
  have "runs a b 0 0 (rev (snd (snd (fold (back_round mx) (rev (enumerate 0 T')) (x', y', st)))))"
    using Suc.IH [OF v(2) T(2)] Suc.prems(3) by simp
  then show ?case using b T by (simp add: enumerate_append_eq)
qed

text \<open>The outer loop: it returns, and what it returns is a script from the first list to the second.\<close>

lemma d_loop_runs:
  assumes "mx = length a + length b" "d \<le> mx" "before_round a b mx d v" "length trace = d"
    "\<forall>e < d. before_round a b mx e (trace ! e)" "\<forall>e < d. \<forall>j. on_round e j \<longrightarrow> \<not> at_end a b e j"
  shows "\<exists>steps. d_loop a b mx d v trace = Some steps \<and> runs a b 0 0 steps"
  using assms
proof (induction a b mx d v trace rule: d_loop.induct)
  case (1 a b mx d v trace)
  obtain v1 found where k: "k_loop a b mx d (- int d) v = (v1, found)" by fastforce
  have "on_round d (- int d)" by (simp add: on_round_def)
  then have loop: "if found then \<exists>j. on_round d j \<and> at_end a b d j
      else before_round a b mx (Suc d) v1 \<and> (\<forall>j. on_round d j \<longrightarrow> \<not> at_end a b d j)"
    using k_loop_round [OF "1.prems"(3,2) _ _ k] by (auto simp: on_round_def)
  have T: "\<forall>e < length (trace @ [v]). before_round a b mx e ((trace @ [v]) ! e)"
    using "1.prems"(3-5) by (auto simp: nth_append less_Suc_eq)
  show ?case
  proof (cases found)
    case True
    then obtain j where j: "on_round d j" "at_end a b d j" using loop by auto
    note c = first_end_is_corner [OF j] "1.prems"(6)
    have x: "furthest a b d j = length a" "j = int (length a) - int (length b)" using first_end_is_corner [OF j] "1.prems"(6) by auto
    have "runs a b 0 0 (backtrack (trace @ [v]) (length a) (length b) mx)"
      unfolding backtrack_def using backtrack_runs [OF T, of d "int (length a)" "int (length b)" "[]"] "1.prems"(2,4) j x by simp
    then show ?thesis using True k "1.prems"(2) by (subst d_loop.simps) simp
  next
    case False
    then have n: "before_round a b mx (Suc d) v1" "\<forall>j. on_round d j \<longrightarrow> \<not> at_end a b d j" using loop by auto
    have "d \<noteq> mx" using n(2) end_within_bound [of a b] "1.prems"(1) by auto
    then have "d + 1 \<le> mx" using "1.prems"(2) by simp
    moreover have "\<not> d > mx" using "1.prems"(2) by simp
    ultimately have "\<exists>steps. d_loop a b mx (d + 1) v1 (trace @ [v]) = Some steps \<and> runs a b 0 0 steps"
      using "1.IH" [OF _ k [symmetric] False] n T "1.prems"(1,4,6) by (auto simp: less_Suc_eq)
    then show ?thesis using False k \<open>\<not> d > mx\<close> by (subst d_loop.simps) simp
  qed
qed

lemma myers_runs: "\<exists>steps. myers a b = Some steps \<and> runs a b 0 0 steps"
proof -
  let ?mx = "length a + length b"
  have "replicate (2 * ?mx + 2) (0::nat) ! (?mx + 1) = 0" by (rule nth_replicate) simp
  then have "before_round a b ?mx 0 (replicate (2 * ?mx + 2) 0)" unfolding before_round_def by simp
  then show ?thesis unfolding myers_def Let_def by (intro d_loop_runs) auto
qed

section \<open>The edits of a text diff rebuild the target\<close>

text \<open>One edit of \<open>textedit.rs\<close> on the target so far and the cursor, and the edits of a list one after
  another: the loop of the code, seen from its end.\<close>

fun splice1 :: "string list \<Rightarrow> text_edit \<Rightarrow> string list \<times> nat \<Rightarrow> (string list \<times> nat) option" where
  "splice1 src (TDelete at len) (out, cursor) =
    (if at + len \<le> length src \<and> at \<ge> cursor then Some (out @ str_slice src cursor at, at + len) else None)"
| "splice1 src (TInsert at text) (out, cursor) =
    (let e = cursor + (at - length out)
     in if length out \<le> at \<and> e \<le> length src then Some (out @ str_slice src cursor e @ chars text, e) else None)"

fun spliced :: "string list \<Rightarrow> text_edit list \<Rightarrow> string list \<times> nat \<Rightarrow> (string list \<times> nat) option" where
  "spliced src [] st = Some st"
| "spliced src (e # es) st = Option.bind (splice1 src e st) (spliced src es)"

lemma spliced_append: "spliced src (es @ fs) st = Option.bind (spliced src es st) (spliced src fs)"
proof (induction es arbitrary: st)
  case (Cons e es)
  have "spliced src (es @ fs) = (\<lambda>st. Option.bind (spliced src es st) (spliced src fs))" using Cons.IH by blast
  then show ?case by (simp add: bind_assoc)
qed simp

lemma spliced_snoc: "spliced src (es @ [e]) st = Option.bind (spliced src es st) (splice1 src e)"
  by (simp add: spliced_append cong: Option.bind_cong)

lemma splice_loop_spliced:
  "spliced src es (out, cursor) = Some (out', cursor') \<Longrightarrow> splice_loop src i es out cursor = Inr (out' @ drop cursor' src)"
  by (induction src i es out cursor rule: splice_loop.induct) (auto simp: Let_def split: if_splits)

text \<open>The edits so far bring the target as far as the steps have come.\<close>

definition caught_up :: "string list \<Rightarrow> string list \<Rightarrow> nat \<Rightarrow> nat \<Rightarrow> text_edit list \<Rightarrow> bool" where
  "caught_up src tgt x y es \<longleftrightarrow> texts_ok es \<and> x \<le> length src \<and> y \<le> length tgt \<and>
     (\<exists>out cursor. spliced src es ([], 0) = Some (out, cursor) \<and> cursor \<le> x \<and> out @ str_slice src cursor x = take y tgt)"

lemma caught_up_start: "caught_up src tgt 0 0 []"
  by (simp add: caught_up_def)

lemma slice_snoc: "c \<le> x \<Longrightarrow> x < length s \<Longrightarrow> str_slice s c (Suc x) = str_slice s c x @ [s ! x]"
  by (simp add: str_slice_def Suc_diff_le take_Suc_conv_app_nth)

lemma caught_up_keep:
  assumes "caught_up src tgt x y es" "x < length src" "y < length tgt" "src ! x = tgt ! y"
  shows "caught_up src tgt (Suc x) (Suc y) es"
proof -
  from assms(1) obtain out c where o: "spliced src es ([], 0) = Some (out, c)" "c \<le> x" "out @ str_slice src c x = take y tgt"
    by (auto simp: caught_up_def)
  then have "out @ str_slice src c (Suc x) = take (Suc y) tgt"
    using assms(2-4) by (simp add: slice_snoc take_Suc_conv_app_nth flip: append_assoc)
  then show ?thesis using assms o by (auto simp: caught_up_def intro!: exI [of _ out] exI [of _ c])
qed

lemma caught_up_delete:
  assumes "caught_up src tgt x y es" "x < length src"
  shows "caught_up src tgt (Suc x) y (edit_step cb (SDelete x) es)"
proof -
  from assms(1) obtain out c where o: "texts_ok es" "y \<le> length tgt" "spliced src es ([], 0) = Some (out, c)" "c \<le> x"
      "out @ str_slice src c x = take y tgt"
    by (auto simp: caught_up_def)
  have new: "caught_up src tgt (Suc x) y (es @ [TDelete x 1])"
    using o assms(2) by (simp add: caught_up_def spliced_snoc)
  have merged: "caught_up src tgt (Suc x) y (fs @ [TDelete at (len + 1)])" if fs: "es = fs @ [TDelete at len]" and x: "at + len = x" for fs at len
  proof -
    obtain o' c' where f: "spliced src fs ([], 0) = Some (o', c')" "splice1 src (TDelete at len) (o', c') = Some (out, c)"
      using o(3) fs by (auto simp: spliced_snoc bind_eq_Some_conv)
    then have "c = x" "out = o' @ str_slice src c' at" "c' \<le> at" using x by (auto split: if_splits)
    then show ?thesis using f(1) fs o x assms(2) by (simp add: caught_up_def spliced_snoc)
  qed
  show ?thesis
  proof (cases es rule: rev_cases)
    case (snoc fs e)
    then show ?thesis using new merged by (cases e) (auto simp: edit_step_def)
  qed (use new in \<open>simp add: edit_step_def\<close>)
qed

lemma caught_up_insert:
  assumes "caught_up src tgt x y es" "y < length tgt" "utf8_char (tgt ! y)"
  shows "caught_up src tgt x (Suc y) (edit_step tgt (SInsert y) es)"
proof -
  from assms(1) obtain out c where o: "texts_ok es" "x \<le> length src" "spliced src es ([], 0) = Some (out, c)" "c \<le> x"
      "out @ str_slice src c x = take y tgt"
    by (auto simp: caught_up_def)
  have u: "chars (tgt ! y) = [tgt ! y]" "utf8_valid (tgt ! y)"
    using chars_concat [of "[tgt ! y]"] utf8_valid_concat [of "[tgt ! y]"] assms(3) by auto
  have "length (out @ str_slice src c x) = y" unfolding o(5) using assms(2) by simp
  then have y: "y = length out + (x - c)" using o(2,4) by simp
  have new: "caught_up src tgt x (Suc y) (es @ [TInsert y (tgt ! y)])"
    using o y u assms(2) by (simp add: caught_up_def spliced_snoc Let_def take_Suc_conv_app_nth flip: append_assoc)
  have merged: "caught_up src tgt x (Suc y) (fs @ [TInsert at (w @ tgt ! y)])"
    if fs: "es = fs @ [TInsert at w]" and at: "at + length (chars w) = y" for fs at w
  proof -
    obtain o' c' where f: "spliced src fs ([], 0) = Some (o', c')" "splice1 src (TInsert at w) (o', c') = Some (out, c)"
      using o(3) fs by (auto simp: spliced_snoc bind_eq_Some_conv)
    then have c: "length o' \<le> at" "c = c' + (at - length o')" "c \<le> length src" "out = o' @ str_slice src c' c @ chars w"
      by (auto simp: Let_def split: if_splits)
    then have "length out = y" using at by simp
    then have "c = x" using y o(4) by simp
    moreover have "chars (w @ tgt ! y) = chars w @ [tgt ! y]" "utf8_valid (w @ tgt ! y)"
      using o(1) fs u chars_append utf8_valid_append by auto
    ultimately show ?thesis using f(1) c fs o assms(2)
      by (simp add: caught_up_def spliced_snoc Let_def take_Suc_conv_app_nth)
  qed
  show ?thesis
  proof (cases es rule: rev_cases)
    case (snoc fs e)
    then show ?thesis using new merged by (cases e) (auto simp: edit_step_def)
  qed (use new in \<open>simp add: edit_step_def\<close>)
qed

lemma caught_up_runs:
  "runs src tgt x y steps \<Longrightarrow> caught_up src tgt x y es \<Longrightarrow> list_all utf8_char tgt \<Longrightarrow>
   caught_up src tgt (length src) (length tgt) (fold (edit_step tgt) steps es)"
proof (induction src tgt x y steps arbitrary: es rule: runs.induct)
  case (2 a b x y i j s)
  then show ?case using caught_up_keep [of a b x y es] by (simp add: edit_step_def)
next
  case (3 a b x y i s)
  then show ?case using caught_up_delete [of a b x y es b] by simp
next
  case (4 a b x y j s)
  then show ?case using caught_up_insert [of a b x y es] by (simp add: list_all_length)
qed simp

lemma spliced_whole: "caught_up src tgt (length src) (length tgt) es \<Longrightarrow> splice_loop src i es [] 0 = Inr tgt"
  using splice_loop_spliced [of src es "[]" 0 _ _ i] by (force simp: caught_up_def str_slice_def)

section \<open>Line diffs account for every line\<close>

definition froms :: "line_diff \<Rightarrow> nat list" where
  "froms d = (case d of DInsert _ \<Rightarrow> [] | _ \<Rightarrow> [df_from d])"

definition tos :: "line_diff \<Rightarrow> nat list" where
  "tos d = (case d of DDelete _ \<Rightarrow> [] | _ \<Rightarrow> [df_to d])"

text \<open>What an entry claims about the two lines it names.\<close>

definition entry_true :: "todo_file \<Rightarrow> todo_file \<Rightarrow> line_diff \<Rightarrow> bool" where
  "entry_true a b d =
    (case d of
       DKeep i j \<Rightarrow> ol_bytes (f_lines a ! i) = ol_bytes (f_lines b ! j)
     | DChange i j \<Rightarrow> key_of (f_lines a ! i) = key_of (f_lines b ! j) \<and> ol_bytes (f_lines a ! i) \<noteq> ol_bytes (f_lines b ! j)
     | DMove i j \<Rightarrow> key_of (f_lines a ! i) = key_of (f_lines b ! j) \<and> (\<exists>u. key_of (f_lines a ! i) = KId u)
     | _ \<Rightarrow> True)"

text \<open>A deletion and an insertion of a line with the same identifier, which should be a move.\<close>

definition pairable :: "key list \<Rightarrow> key list \<Rightarrow> line_diff list \<Rightarrow> line_diff \<Rightarrow> bool" where
  "pairable ka kb out d \<longleftrightarrow> (\<exists>i j u. d = DDelete i \<and> DInsert j \<in> set out \<and> ka ! i = KId u \<and> kb ! j = KId u)"

lemma runs_froms: "runs a b x y steps \<Longrightarrow> concat (map (froms \<circ> line_step f g) steps) = [x..<length a]"
  by (induction a b x y steps rule: runs.induct) (auto simp: froms_def line_step_def upt_conv_Cons)

lemma runs_tos: "runs a b x y steps \<Longrightarrow> concat (map (tos \<circ> line_step f g) steps) = [y..<length b]"
  by (induction a b x y steps rule: runs.induct) (auto simp: tos_def line_step_def upt_conv_Cons)

lemma runs_true:
  "runs (map key_of (f_lines a)) (map key_of (f_lines b)) x y steps \<Longrightarrow> list_all (entry_true a b) (map (line_step a b) steps)"
  by (induction "map key_of (f_lines a)" "map key_of (f_lines b)" x y steps rule: runs.induct)
    (auto simp: entry_true_def line_step_def)

text \<open>One pairing: the deletion at \<open>i\<close> becomes the move, and the insertion at \<open>j\<close> goes.\<close>

definition paired :: "nat \<Rightarrow> nat \<Rightarrow> line_diff \<Rightarrow> line_diff list \<Rightarrow> line_diff list" where
  "paired i j d out = (let out1 = out[i := d] in take j out1 @ drop (j + 1) out1)"

lemma mset_paired:
  assumes "i < length out" "j < length out" "i \<noteq> j"
  shows "add_mset (out ! i) (add_mset (out ! j) (mset (paired i j d out))) = add_mset d (mset out)"
proof -
  let ?o = "out[i := d]"
  have "mset ?o = add_mset (?o ! j) (mset (take j ?o @ drop (j + 1) ?o))"
    using assms(2) by (subst (1) id_take_nth_drop [of j ?o]) simp_all
  then have "mset ?o = add_mset (out ! j) (mset (paired i j d out))" using assms by (simp add: paired_def Let_def)
  moreover have "add_mset (out ! i) (mset ?o) = add_mset d (mset out)" using assms(1) by (simp add: mset_update)
  ultimately show ?thesis by simp
qed

lemma sum_paired:
  assumes "i < length out" "j < length out" "i \<noteq> j" "out ! i = DDelete f" "out ! j = DInsert t"
  shows "mset (concat (map froms (paired i j (DMove f t) out))) = mset (concat (map froms out))"
    and "mset (concat (map tos (paired i j (DMove f t) out))) = mset (concat (map tos out))"
    and "set (paired i j (DMove f t) out) \<subseteq> insert (DMove f t) (set out)"
proof -
  let ?p = "paired i j (DMove f t) out"
  have m: "add_mset (DDelete f) (add_mset (DInsert t) (mset ?p)) = add_mset (DMove f t) (mset out)"
    using mset_paired [OF assms(1-3)] assms(4,5) by simp
  have "mset (concat (map h xs)) = \<Sum>\<^sub># (image_mset (mset \<circ> h) (mset xs))" for h :: "line_diff \<Rightarrow> nat list" and xs
    by (induction xs) auto
  note sums = this
  show "mset (concat (map froms ?p)) = mset (concat (map froms out))"
    using arg_cong [OF m, of "\<lambda>M. \<Sum>\<^sub># (image_mset (mset \<circ> froms) M)"] by (simp add: sums froms_def)
  show "mset (concat (map tos ?p)) = mset (concat (map tos out))"
    using arg_cong [OF m, of "\<lambda>M. \<Sum>\<^sub># (image_mset (mset \<circ> tos) M)"] by (simp add: sums tos_def)
  have "set_mset (mset ?p) \<subseteq> set_mset (add_mset (DMove f t) (mset out))" unfolding m [symmetric] by auto
  then show "set ?p \<subseteq> insert (DMove f t) (set out)" by simp
qed

lemma take_paired: "i < length out \<Longrightarrow> j < length out \<Longrightarrow> i \<noteq> j \<Longrightarrow> set (take i (paired i j d out)) \<subseteq> insert d (set (take i out))"
proof (cases "j < i")
  case True
  assume i: "i < length out"
  then have "take i (paired i j d out) = take j out @ take (i - j) (drop (j + 1) (out[i := d]))"
    using True by (simp add: paired_def Let_def min_def)
  moreover have "take (i - j) (drop (j + 1) (out[i := d])) = drop (j + 1) (take (i + 1) (out[i := d]))"
    using True by (simp add: drop_take)
  moreover have "take (i + 1) (out[i := d]) = take i out @ [d]" using i by (simp add: take_Suc_conv_app_nth)
  ultimately have "take i (paired i j d out) = take j out @ drop (j + 1) (take i out) @ [d]" using True i by simp
  moreover have "set (take j out) \<subseteq> set (take i out)" using True by (intro set_take_subset_set_take) simp
  ultimately show ?thesis using set_drop_subset [of "j + 1" "take i out"] by auto
next
  case False
  assume "j < length out"
  then show ?thesis using False by (simp add: paired_def Let_def subset_insertI)
qed

definition diff_ok :: "todo_file \<Rightarrow> todo_file \<Rightarrow> line_diff list \<Rightarrow> bool" where
  "diff_ok a b out \<longleftrightarrow> list_all (entry_true a b) out \<and>
     mset (concat (map froms out)) = mset [0..<length (f_lines a)] \<and> mset (concat (map tos out)) = mset [0..<length (f_lines b)]"

lemma diff_ok_in_range:
  assumes "diff_ok a b out"
  shows "DDelete i \<in> set out \<Longrightarrow> i < length (f_lines a)" "DInsert j \<in> set out \<Longrightarrow> j < length (f_lines b)"
proof -
  have "set (concat (map froms out)) = {..<length (f_lines a)}" "set (concat (map tos out)) = {..<length (f_lines b)}"
    using assms mset_eq_setD [of _ "[0..<length (f_lines a)]"] mset_eq_setD [of _ "[0..<length (f_lines b)]"]
    by (auto simp: diff_ok_def atLeast0LessThan simp del: set_concat)
  then show "DDelete i \<in> set out \<Longrightarrow> i < length (f_lines a)" "DInsert j \<in> set out \<Longrightarrow> j < length (f_lines b)"
    by (force simp: froms_def, force simp: tos_def)
qed

lemma diff_ok_paired:
  assumes ok: "diff_ok a b out" and i: "i < length out" "out ! i = DDelete f" and j: "j < length out" "out ! j = DInsert t"
    and k: "map key_of (f_lines a) ! f = KId u" "map key_of (f_lines b) ! t = KId u"
  shows "diff_ok a b (paired i j (DMove f t) out)"
proof -
  have ne: "i \<noteq> j" using i j by auto
  have "f < length (f_lines a)" "t < length (f_lines b)" using diff_ok_in_range [OF ok] i j nth_mem by metis+
  then have "entry_true a b (DMove f t)" using k by (simp add: entry_true_def)
  then show ?thesis using ok sum_paired [OF i(1) j(1) ne i(2) j(2)] by (auto simp: diff_ok_def list_all_iff)
qed

abbreviation unpaired :: "key list \<Rightarrow> key list \<Rightarrow> line_diff list \<Rightarrow> line_diff list \<Rightarrow> bool" where
  "unpaired ka kb out ds \<equiv> list_all (\<lambda>d. \<not> pairable ka kb out d) ds"

lemma unpaired_next: "unpaired ka kb out (take i out) \<Longrightarrow> i < length out \<Longrightarrow> \<not> pairable ka kb out (out ! i) \<Longrightarrow> unpaired ka kb out (take (i + 1) out)"
  by (simp add: take_Suc_conv_app_nth)

lemma unpaired_paired:
  assumes "unpaired ka kb out (take i out)" "i < length out" "j < length out" "out ! i = DDelete f" "out ! j = DInsert t"
  shows "unpaired ka kb (paired i j (DMove f t) out) (take i (paired i j (DMove f t) out))"
proof -
  have ne: "i \<noteq> j" using assms by auto
  have "\<not> pairable ka kb (paired i j (DMove f t) out) d" if "d \<in> insert (DMove f t) (set (take i out))" for d
    using that assms(1) sum_paired(3) [OF assms(2,3) ne assms(4,5)] by (auto simp: list_all_iff pairable_def)
  then show ?thesis using take_paired [OF assms(2,3) ne] by (auto simp: list_all_iff)
qed

lemma pair_moves_from_ok:
  "ka = map key_of (f_lines a) \<Longrightarrow> kb = map key_of (f_lines b) \<Longrightarrow> diff_ok a b out \<Longrightarrow> unpaired ka kb out (take i out) \<Longrightarrow>
   (let res = pair_moves_from i ka kb out in diff_ok a b res \<and> unpaired ka kb res res)"
proof (induction i ka kb out rule: pair_moves_from.induct)
  case (1 i ka kb out)
  let ?P = "\<lambda>u d. case d of DInsert t \<Rightarrow> kb ! t = KId u | _ \<Rightarrow> False"
  show ?case
  proof (cases "i < length out")
    case False
    then show ?thesis using "1.prems" by (simp add: pair_moves_from.simps [of i])
  next
    case True
    note next_ok = unpaired_next [OF "1.prems"(4) True]
    show ?thesis
    proof (cases "out ! i")
      case (DDelete f)
      show ?thesis
      proof (cases "ka ! f")
        case (KId u)
        let ?P = "\<lambda>d. case d of DInsert t \<Rightarrow> kb ! t = KId u | _ \<Rightarrow> False"
        show ?thesis
        proof (cases "find_index ?P out")
          case None
          then have "\<not> pairable ka kb out (out ! i)" using DDelete KId by (auto simp: find_index_None pairable_def)
          moreover have "pair_moves_from i ka kb out = pair_moves_from (i + 1) ka kb out"
            using True DDelete KId None by (subst pair_moves_from.simps) simp
          ultimately show ?thesis using "1.IH"(3) [OF _ DDelete KId None "1.prems"(1-3)] True next_ok by simp
        next
          case (Some j)
          then obtain t where t: "j < length out" "out ! j = DInsert t" "kb ! t = KId u"
            by (auto simp: find_index_Some split: line_diff.splits)
          have r: "pair_moves_from i ka kb out = pair_moves_from i ka kb (paired i j (DMove f t) out)"
            using True DDelete KId Some t by (subst pair_moves_from.simps) (simp add: paired_def)
          have "diff_ok a b (paired i j (DMove f t) out)"
            using diff_ok_paired [OF "1.prems"(3) True DDelete t(1,2)] KId t(3) "1.prems"(1,2) by simp
          moreover note unpaired_paired [OF "1.prems"(4) True t(1) DDelete t(2)]
          ultimately show ?thesis using "1.IH"(4) [OF _ DDelete KId Some "1.prems"(1,2)] True t(2) unfolding r
            by (simp add: paired_def)
        qed
      next
        case (KContent h)
        then have "\<not> pairable ka kb out (out ! i)" using DDelete by (auto simp: pairable_def)
        moreover have "pair_moves_from i ka kb out = pair_moves_from (i + 1) ka kb out"
          using True DDelete KContent by (subst pair_moves_from.simps) simp
        ultimately show ?thesis using "1.IH"(5) [OF _ DDelete KContent "1.prems"(1-3)] True next_ok by simp
      qed
    qed (use True "1.IH"(1,2,6,7) "1.prems" next_ok in \<open>simp add: pair_moves_from.simps [of i] pairable_def\<close>)+
  qed
qed

lemma diff_lines_ok:
  "\<exists>ds. diff_lines a b = Some ds \<and> diff_ok a b ds \<and> unpaired (map key_of (f_lines a)) (map key_of (f_lines b)) ds ds"
proof -
  let ?ka = "map key_of (f_lines a)" and ?kb = "map key_of (f_lines b)"
  obtain steps where s: "myers ?ka ?kb = Some steps" "runs ?ka ?kb 0 0 steps" using myers_runs by blast
  have "diff_ok a b (map (line_step a b) steps)"
    unfolding diff_ok_def using runs_froms [OF s(2)] runs_tos [OF s(2)] runs_true [OF s(2)] by simp
  then show ?thesis using pair_moves_from_ok [OF refl refl, of a b _ 0] s(1)
    by (simp add: diff_lines_def pair_moves_def Let_def)
qed

lemma diff_text_rebuilds:
  assumes "utf8_valid a" "utf8_valid b"
  shows "\<exists>es. diff_text a b = Some es \<and> (length es \<le> MAX_TEXT_EDITS \<longrightarrow> apply_text_edits a es = Inr b)"
proof -
  obtain steps where s: "myers (chars a) (chars b) = Some steps" "runs (chars a) (chars b) 0 0 steps" using myers_runs by blast
  have "splice_loop (chars a) 0 (fold (edit_step (chars b)) steps []) [] 0 = Inr (chars b)"
    by (rule spliced_whole [OF caught_up_runs [OF s(2) caught_up_start utf8_valid_chars [OF assms(2)]]])
  then show ?thesis using s(1) by (auto simp: diff_text_def apply_text_edits_def apply_text_edits_core_def)
qed

section \<open>The properties\<close>

text \<open>C31: myers returns on every input (the unreachable panic after its loop is unreachable: a path is found
  within as many rounds as both lists have elements), and the steps it returns run through both lists from
  start to end: every Delete and Insert takes the next element of its list and every Keep pairs the next
  elements of both, which are equal.\<close>

theorem myers_returns: "\<exists>steps. myers a b = Some steps \<and> runs a b 0 0 steps"
  by (rule myers_runs)

text \<open>C30: the edits diff_text computes from one text to another, applied to the first by apply_text_edits,
  give the second, as long as they are no more than an operation may hold.\<close>

theorem diff_text_roundtrip:
  assumes "utf8_valid a" "utf8_valid b"
  shows "\<exists>es. diff_text a b = Some es \<and> (length es \<le> MAX_TEXT_EDITS \<longrightarrow> apply_text_edits a es = Inr b)"
  by (rule diff_text_rebuilds [OF assms])

lemma diff_text_roundtrip_witness:
  "diff_text ''abXc'' ''aYbc'' = Some [TInsert 1 ''Y'', TDelete 2 1] \<and>
   apply_text_edits ''abXc'' [TInsert 1 ''Y'', TDelete 2 1] = Inr ''aYbc''"
proof -
  have d: "diff_text ''abXc'' ''aYbc'' = Some [TInsert 1 ''Y'', TDelete 2 1]" by code_simp
  have "utf8_valid ''abXc''" "utf8_valid ''aYbc''" by code_simp+
  from diff_text_roundtrip [OF this] d show ?thesis by (simp add: MAX_TEXT_EDITS_def)
qed

text \<open>C34: diff_lines returns on every pair of files, and its entries account for every line of both exactly
  once: each line of the old file is kept, changed, moved or deleted by one entry and each line of the new one
  kept, changed, moved or inserted by one. A kept line has the same bytes on both sides, a changed one the
  same key and other bytes, a moved one the same identifier, and no identifier is left both deleted and
  inserted.\<close>

theorem diff_lines_accounts:
  "\<exists>ds. diff_lines a b = Some ds \<and> list_all (entry_true a b) ds \<and>
     mset (concat (map froms ds)) = mset [0..<length (f_lines a)] \<and>
     mset (concat (map tos ds)) = mset [0..<length (f_lines b)] \<and>
     list_all (\<lambda>d. \<not> pairable (map key_of (f_lines a)) (map key_of (f_lines b)) ds d) ds"
  using diff_lines_ok by (simp add: diff_ok_def)

end
