(* ===== verification/NotesState.thy ===== *)
theory NotesState
  imports TextHistory
begin

text \<open>
  \<open>notes_state.rs\<close> of \<open>txtodo-engine\<close>: one notes document, its text verbatim and the history of its
  edits. The theorems: whatever operations a device applies, the text is valid UTF-8 within the size bound
  and is the replay of the bounded history kept beside it, and a refused operation leaves everything as it was;
  two devices that apply the same edits in different orders hold the same notes.
\<close>

section \<open>Definitions\<close>

definition MAX_NOTES_BYTES :: nat where
  "MAX_NOTES_BYTES = 8 * 1024 * 1024"

datatype notes_state_error =
    NotUtf8
  | TooManyBytes nat
  | NotesText text_edit_error
  | NotesUnsupported string
  | WrongFile file_path

record notes_state =
  ns_path :: file_path
  ns_text :: string
  ns_history :: "text_history option"

text \<open>\<open>PartialEq\<close>: the history is merge metadata and does not count.\<close>

definition notes_eq :: "notes_state \<Rightarrow> notes_state \<Rightarrow> bool" where
  "notes_eq s t \<longleftrightarrow> ns_path s = ns_path t \<and> ns_text s = ns_text t"

definition NotesState_empty :: "file_path \<Rightarrow> notes_state" where
  "NotesState_empty path = \<lparr>ns_path = path, ns_text = [], ns_history = None\<rparr>"

definition NotesState_from_bytes :: "file_path \<Rightarrow> string \<Rightarrow> notes_state_error + notes_state" where
  "NotesState_from_bytes path bytes =
    (if length bytes > MAX_NOTES_BYTES then Inl (TooManyBytes (length bytes))
     else if \<not> utf8_valid bytes then Inl NotUtf8
     else Inr \<lparr>ns_path = path, ns_text = bytes, ns_history = None\<rparr>)"

definition notes_to_bytes :: "notes_state \<Rightarrow> string" where
  "notes_to_bytes s = ns_text s"

fun op_kind_name :: "op_kind \<Rightarrow> string" where
  "op_kind_name (OInsert _ _ _) = ''Insert''"
| "op_kind_name (OSetField _ _ _) = ''SetField''"
| "op_kind_name (OEditText _ _) = ''EditText''"
| "op_kind_name (OMove _ _ _) = ''Move''"
| "op_kind_name (ONotesEdit _ _) = ''NotesEdit''"
| "op_kind_name (OBlankInsert _) = ''BlankInsert''"
| "op_kind_name (OBlankRemove _) = ''BlankRemove''"
| "op_kind_name (ORemoveTag _ _) = ''RemoveTag''"

text \<open>\<open>get_or_insert_with\<close> puts a new history into the state before the edit runs; on an error the saved
  one is put back.\<close>

definition notes_apply :: "op \<Rightarrow> notes_state \<Rightarrow> notes_state \<times> (notes_state_error + unit)" where
  "notes_apply o1 s =
    (case o_kind o1 of
       ONotesEdit file edits \<Rightarrow>
         if file \<noteq> ns_path s \<or> o_file o1 \<noteq> ns_path s then (s, Inl (WrongFile file))
         else
           let saved = ns_history s;
               history = (case ns_history s of Some h \<Rightarrow> h | None \<Rightarrow> TextHistory_new (ns_text s));
               (history1, r) = history_apply (apply_notes_edits, MAX_EDITS_PER_NOTES) (ns_text s) (o_hlc o1) edits history;
               s1 = s\<lparr>ns_history := Some history1\<rparr>;
               res = (case r of
                        Inl e \<Rightarrow> Inl (NotesText e)
                      | Inr t \<Rightarrow> if length t > MAX_NOTES_BYTES then Inl (TooManyBytes (length t)) else Inr t)
           in (case res of
                 Inr t \<Rightarrow> (s1\<lparr>ns_text := t\<rparr>, Inr ())
               | Inl e \<Rightarrow> (s1\<lparr>ns_history := saved\<rparr>, Inl e))
     | k \<Rightarrow> (s, Inl (NotesUnsupported (op_kind_name k))))"

definition notes_apply_edits :: "text_edit list \<Rightarrow> notes_state \<Rightarrow> notes_state \<times> (notes_state_error + unit)" where
  "notes_apply_edits edits s =
    (case apply_notes_edits (ns_text s) edits of
       Inl e \<Rightarrow> (s, Inl (NotesText e))
     | Inr t \<Rightarrow>
         if length t > MAX_NOTES_BYTES then (s, Inl (TooManyBytes (length t)))
         else (s\<lparr>ns_text := t, ns_history := None\<rparr>, Inr ()))"

definition adopt_history :: "notes_state \<Rightarrow> notes_state \<Rightarrow> notes_state" where
  "adopt_history replayed s = (if ns_text replayed = ns_text s then s\<lparr>ns_history := ns_history replayed\<rparr> else s)"

section \<open>Refusals\<close>

lemma notes_apply_Inl: "notes_apply o1 s = (s', Inl e) \<Longrightarrow> s' = s"
  by (auto simp: notes_apply_def Let_def split: op_kind.splits if_splits prod.splits sum.splits option.splits)

lemma notes_apply_edits_Inl: "notes_apply_edits es s = (s', Inl e) \<Longrightarrow> s' = s"
  by (auto simp: notes_apply_edits_def split: if_splits sum.splits)

section \<open>The invariant\<close>

text \<open>The changes of a notes history are splices of valid texts.\<close>

definition splice_ok :: "hlc \<times> change \<Rightarrow> bool" where
  "splice_ok hc \<longleftrightarrow> (case snd hc of Splice es \<Rightarrow> texts_ok es | _ \<Rightarrow> False)"

definition history_ok :: "text_history \<Rightarrow> string \<Rightarrow> bool" where
  "history_ok h t \<longleftrightarrow> holds apply_notes_edits h t \<and> length (h_edits h) \<le> MAX_EDITS_PER_NOTES \<and>
     utf8_valid (h_base h) \<and> list_all splice_ok (h_edits h)"

definition notes_ok :: "notes_state \<Rightarrow> bool" where
  "notes_ok s \<longleftrightarrow> utf8_valid (ns_text s) \<and> length (ns_text s) \<le> MAX_NOTES_BYTES \<and>
     (case ns_history s of None \<Rightarrow> True | Some h \<Rightarrow> history_ok h (ns_text s))"

lemma change_valid: "splice_ok hc \<Longrightarrow> utf8_valid t \<Longrightarrow> utf8_valid (change_or_skip apply_notes_edits hc t)"
  using splice_valid by (auto simp: splice_ok_def change_or_skip_def apply_notes_edits_def split: change.splits sum.splits)

lemma replay_valid: "list_all splice_ok es \<Longrightarrow> utf8_valid t \<Longrightarrow> utf8_valid (fold (change_or_skip apply_notes_edits) es t)"
  by (induction es arbitrary: t) (auto simp: change_valid)

lemma trim_valid:
  "utf8_valid (h_base h) \<Longrightarrow> list_all splice_ok (h_edits h) \<Longrightarrow>
   utf8_valid (h_base (trim apply_notes_edits mx h)) \<and> list_all splice_ok (h_edits (trim apply_notes_edits mx h))"
proof (induction apply_notes_edits mx h rule: trim.induct)
  case (1 mx h)
  then show ?case by (subst (1 2) trim.simps) (auto simp: change_valid split: list.split)
qed

lemma history_ok_new: "utf8_valid t \<Longrightarrow> history_ok (TextHistory_new t) t"
  using holds_new [of apply_notes_edits t] by (simp add: history_ok_def TextHistory_new_def)

lemma history_ok_apply:
  assumes ok: "history_ok h t" and es: "texts_ok es"
    and r: "history_apply (apply_notes_edits, MAX_EDITS_PER_NOTES) t st es h = (h', Inr t')"
  shows "history_ok h' t'"
proof -
  let ?how = "(apply_notes_edits, MAX_EDITS_PER_NOTES)"
  have r': "record_change ?how t st (Splice es) h = (h', Inr t')" using r by (simp add: history_apply_def)
  have "holds apply_notes_edits h' t'" using record_change_holds [OF _ r'] ok by (simp add: history_ok_def)
  moreover have "h' = h \<or> (\<exists>es'. h' = trim apply_notes_edits MAX_EDITS_PER_NOTES (h\<lparr>h_edits := es'\<rparr>) \<and> list_all splice_ok es')"
  proof -
    have old: "list_all splice_ok (h_edits h)" and new: "splice_ok (st, Splice es)"
      using ok es by (simp_all add: history_ok_def splice_ok_def)
    have "list_all splice_ok (take n (h_edits h))" "list_all splice_ok (drop n (h_edits h))" for n
      using old list_all_append [of splice_ok "take n (h_edits h)" "drop n (h_edits h)"] by simp_all
    then show ?thesis using r' old new by (auto simp: record_change_def Let_def split: if_splits sum.splits)
  qed
  then have "length (h_edits h') \<le> MAX_EDITS_PER_NOTES \<and> utf8_valid (h_base h') \<and> list_all splice_ok (h_edits h')"
    using ok trim_valid [of "h\<lparr>h_edits := _\<rparr>"] trim_bound by (auto simp: history_ok_def)
  ultimately show ?thesis by (simp add: history_ok_def)
qed

lemma history_ok_valid: "history_ok h t \<Longrightarrow> utf8_valid t"
  using replay_valid [of "h_edits h" "h_base h"] by (simp add: history_ok_def holds_def replay_def)

definition op_texts_ok :: "op \<Rightarrow> bool" where
  "op_texts_ok o1 \<longleftrightarrow> (case o_kind o1 of ONotesEdit _ es \<Rightarrow> texts_ok es | _ \<Rightarrow> True)"

text \<open>What an applied edit did: it was recorded in the history, begun at the text when there was none.\<close>

definition history_or_begun :: "notes_state \<Rightarrow> text_history" where
  "history_or_begun s = (case ns_history s of Some h \<Rightarrow> h | None \<Rightarrow> TextHistory_new (ns_text s))"

lemma notes_apply_Inr:
  assumes "notes_apply o1 s = (s', Inr ())"
  obtains es h where "o_kind o1 = ONotesEdit (ns_path s) es" "ns_path s' = ns_path s"
    "history_apply (apply_notes_edits, MAX_EDITS_PER_NOTES) (ns_text s) (o_hlc o1) es (history_or_begun s) = (h, Inr (ns_text s'))"
    "ns_history s' = Some h" "length (ns_text s') \<le> MAX_NOTES_BYTES"
  using assms
  by (auto simp: notes_apply_def history_or_begun_def Let_def split: op_kind.splits if_splits prod.splits sum.splits option.splits)

lemma notes_ok_history: "notes_ok s \<Longrightarrow> history_ok (history_or_begun s) (ns_text s)"
  by (auto simp: notes_ok_def history_or_begun_def history_ok_new split: option.split)

lemma notes_ok_apply: "notes_ok s \<Longrightarrow> op_texts_ok o1 \<Longrightarrow> notes_ok (fst (notes_apply o1 s))"
proof (cases "notes_apply o1 s" rule: prod.exhaust)
  case (Pair s' r)
  assume ok: "notes_ok s" "op_texts_ok o1"
  show ?thesis
  proof (cases r)
    case (Inl e)
    then show ?thesis using Pair notes_apply_Inl [of o1 s s' e] ok by simp
  next
    case (Inr u)
    then have "notes_apply o1 s = (s', Inr ())" using Pair by simp
    then obtain es h where e: "o_kind o1 = ONotesEdit (ns_path s) es" "ns_history s' = Some h" "length (ns_text s') \<le> MAX_NOTES_BYTES"
      "history_apply (apply_notes_edits, MAX_EDITS_PER_NOTES) (ns_text s) (o_hlc o1) es (history_or_begun s) = (h, Inr (ns_text s'))"
      by (rule notes_apply_Inr)
    then have "history_ok h (ns_text s')"
      using history_ok_apply [OF notes_ok_history [OF ok(1)]] ok(2) by (simp add: op_texts_ok_def)
    then show ?thesis using Pair e history_ok_valid by (simp add: notes_ok_def)
  qed
qed

lemma notes_ok_apply_edits: "notes_ok s \<Longrightarrow> texts_ok es \<Longrightarrow> notes_ok (fst (notes_apply_edits es s))"
  using splice_valid [of "ns_text s" es]
  by (auto simp: notes_apply_edits_def notes_ok_def apply_notes_edits_def split: sum.splits option.splits)

lemma notes_ok_adopt: "notes_ok s \<Longrightarrow> notes_ok t \<Longrightarrow> notes_ok (adopt_history t s)"
  by (auto simp: notes_ok_def adopt_history_def split: option.splits)

text \<open>The states a device can bring a notes document to.\<close>

inductive notes_reachable :: "notes_state \<Rightarrow> bool" where
  start: "notes_reachable (NotesState_empty path)"
| read: "NotesState_from_bytes path bytes = Inr s \<Longrightarrow> notes_reachable s"
| operation: "notes_reachable s \<Longrightarrow> op_texts_ok o1 \<Longrightarrow> notes_reachable (fst (notes_apply o1 s))"
| edits: "notes_reachable s \<Longrightarrow> texts_ok es \<Longrightarrow> notes_reachable (fst (notes_apply_edits es s))"
| adopt: "notes_reachable s \<Longrightarrow> notes_reachable t \<Longrightarrow> notes_reachable (adopt_history t s)"

lemma notes_reachable_ok: "notes_reachable s \<Longrightarrow> notes_ok s"
proof (induction rule: notes_reachable.induct)
  case (read path bytes s)
  then show ?case by (auto simp: NotesState_from_bytes_def notes_ok_def split: if_splits)
qed (simp_all add: NotesState_empty_def notes_ok_def [of "NotesState_empty _"] notes_ok_apply notes_ok_apply_edits notes_ok_adopt,
     simp add: notes_ok_def)

section \<open>Convergence\<close>

fun notes_apply_all :: "op list \<Rightarrow> notes_state \<Rightarrow> notes_state option" where
  "notes_apply_all [] s = Some s"
| "notes_apply_all (o1 # os) s =
    (case notes_apply o1 s of (s1, Inr _) \<Rightarrow> notes_apply_all os s1 | (_, Inl _) \<Rightarrow> None)"

definition edit_entry :: "op \<Rightarrow> hlc \<times> change" where
  "edit_entry o1 = (o_hlc o1, Splice (case o_kind o1 of ONotesEdit _ es \<Rightarrow> es | _ \<Rightarrow> []))"

lemma fst_edit_entry [simp]: "fst (edit_entry o1) = o_hlc o1" "fst \<circ> edit_entry = o_hlc"
  by (auto simp: edit_entry_def)

lemma notes_apply_all_log:
  "notes_apply_all os s = Some s' \<Longrightarrow>
   notes_log.accept_all (map edit_entry os) (history_or_begun s, ns_text s) = Some (history_or_begun s', ns_text s')"
proof (induction os arbitrary: s)
  case (Cons o1 os)
  then obtain s1 where s1: "notes_apply o1 s = (s1, Inr ())" "notes_apply_all os s1 = Some s'"
    by (auto split: prod.splits sum.splits)
  from s1(1) have "take_change apply_notes_edits MAX_EDITS_PER_NOTES (edit_entry o1) (history_or_begun s, ns_text s) =
      Some (history_or_begun s1, ns_text s1)"
  proof (rule notes_apply_Inr)
    fix es h
    assume "o_kind o1 = ONotesEdit (ns_path s) es" "ns_history s1 = Some h"
      "history_apply (apply_notes_edits, MAX_EDITS_PER_NOTES) (ns_text s) (o_hlc o1) es (history_or_begun s) = (h, Inr (ns_text s1))"
    then show ?thesis by (simp add: take_change_def edit_entry_def history_apply_def history_or_begun_def [of s1])
  qed
  then show ?case using Cons.IH [OF s1(2)] by simp
qed simp

section \<open>The properties\<close>

text \<open>C35: every notes document a device can reach holds valid UTF-8 text within the size bound, and the history
  kept beside it holds a bounded number of edits, in stamp order, whose replay is that text; so the bytes
  written to the file read back as the same document. An operation that is refused, for whatever reason, leaves
  the document and its history as they were.\<close>

theorem notes_reachable_invariant:
  assumes "notes_reachable s"
  shows "utf8_valid (notes_to_bytes s) \<and> length (notes_to_bytes s) \<le> MAX_NOTES_BYTES \<and>
    (case ns_history s of None \<Rightarrow> True
       | Some h \<Rightarrow> length (h_edits h) \<le> MAX_EDITS_PER_NOTES \<and> sorted (map fst (h_edits h)) \<and>
           replay apply_notes_edits h = notes_to_bytes s) \<and>
    (\<exists>t. NotesState_from_bytes (ns_path s) (notes_to_bytes s) = Inr t \<and> notes_eq t s) \<and>
    (\<forall>o1. snd (notes_apply o1 s) = Inr () \<or> fst (notes_apply o1 s) = s)"
proof -
  have "snd (notes_apply o1 s) = Inr () \<or> fst (notes_apply o1 s) = s" for o1
    using notes_apply_Inl [of o1 s] by (cases "notes_apply o1 s"; cases "snd (notes_apply o1 s)") auto
  then show ?thesis using notes_reachable_ok [OF assms]
    by (auto simp: notes_ok_def history_ok_def holds_def stamps_sorted_def notes_to_bytes_def NotesState_from_bytes_def
        notes_eq_def split: option.splits)
qed

definition notes_op :: "hlc \<Rightarrow> text_edit list \<Rightarrow> op" where
  "notes_op h es = \<lparr>o_id = 2, o_hlc = h, o_principal = User 1, o_file = ''a/notes.md'', o_kind = ONotesEdit ''a/notes.md'' es\<rparr>"

theorem notes_reachable_invariant_witness:
  "\<exists>s h. s = fst (notes_apply (notes_op (Hlc 1 0 1) [TInsert 0 ''hi'']) (NotesState_empty ''a/notes.md'')) \<and>
     ns_text s = ''hi'' \<and> ns_history s = Some h \<and> replay apply_notes_edits h = ''hi''"
proof -
  let ?s = "fst (notes_apply (notes_op (Hlc 1 0 1) [TInsert 0 ''hi'']) (NotesState_empty ''a/notes.md''))"
  have v: "op_texts_ok (notes_op (Hlc 1 0 1) [TInsert 0 ''hi''])" by code_simp
  have t: "ns_text ?s = ''hi''" "ns_history ?s \<noteq> None"
    by (simp_all add: notes_apply_def notes_op_def NotesState_empty_def history_apply_def record_change_def TextHistory_new_def
        Hlc_zero_least leD apply_notes_edits_def apply_text_edits_core_def MAX_TEXT_EDITS_def MAX_NOTES_BYTES_def Let_def)
  obtain h where "ns_history ?s = Some h" using t(2) by auto
  with notes_reachable_invariant [OF notes_reachable.operation [OF notes_reachable.start [of "''a/notes.md''"] v]] t(1)
  show ?thesis by (simp add: notes_to_bytes_def)
qed

text \<open>Notes edits converge. Two devices that read the same notes file and apply the same differently stamped
  edits, in any two orders and refusing none, within the number a history keeps, hold equal notes.\<close>

theorem notes_converge:
  assumes "NotesState_from_bytes path bytes = Inr s" and "mset os = mset ps" and "distinct (map o_hlc os)"
    and "length os \<le> MAX_EDITS_PER_NOTES" and "notes_apply_all os s = Some s1" and "notes_apply_all ps s = Some s2"
  shows "ns_text s1 = ns_text s2"
proof -
  let ?h = "TextHistory_new (ns_text s)"
  have h: "history_or_begun s = ?h"
    using assms(1) by (auto simp: NotesState_from_bytes_def history_or_begun_def split: if_splits)
  have "mset (map edit_entry os) = mset (map edit_entry ps)" using assms(2) by simp
  then show ?thesis
    using notes_log.accept_all_converge(2) [OF begun_new [of "ns_text s"], of "map edit_entry os" "map edit_entry ps"
        "(history_or_begun s1, ns_text s1)" "(history_or_begun s2, ns_text s2)"]
      notes_apply_all_log [OF assms(5)] notes_apply_all_log [OF assms(6)] assms(3,4) h
    by (simp add: TextHistory_new_def)
qed

theorem notes_converge_witness:
  "\<exists>s1 s2. notes_apply_all [notes_op (Hlc 1 0 1) [TInsert 0 ''b''], notes_op (Hlc 2 0 2) [TInsert 0 ''a'']] (NotesState_empty ''a/notes.md'') = Some s1 \<and>
     notes_apply_all [notes_op (Hlc 2 0 2) [TInsert 0 ''a''], notes_op (Hlc 1 0 1) [TInsert 0 ''b'']] (NotesState_empty ''a/notes.md'') = Some s2 \<and>
     ns_text s1 = ns_text s2"
proof -
  let ?o = "notes_op (Hlc 1 0 1) [TInsert 0 ''b'']" and ?p = "notes_op (Hlc 2 0 2) [TInsert 0 ''a'']"
  let ?s = "NotesState_empty ''a/notes.md''"
  have r: "NotesState_from_bytes ''a/notes.md'' [] = Inr ?s"
    by (simp add: NotesState_from_bytes_def NotesState_empty_def utf8_valid.simps)
  have "notes_apply_all [?o, ?p] ?s \<noteq> None" "notes_apply_all [?p, ?o] ?s \<noteq> None"
    by (simp_all add: notes_apply_def notes_op_def NotesState_empty_def history_apply_def record_change_def TextHistory_new_def
        Hlc_zero_least leD apply_notes_edits_def apply_text_edits_core_def MAX_TEXT_EDITS_def MAX_NOTES_BYTES_def
        MAX_EDITS_PER_NOTES_def replay_def change_or_skip_def trim.simps less_hlc_def less_eq_hlc_def hlc_key_def Let_def)
  then obtain s1 s2 where s: "notes_apply_all [?o, ?p] ?s = Some s1" "notes_apply_all [?p, ?o] ?s = Some s2" by auto
  have "ns_text s1 = ns_text s2"
    by (rule notes_converge [OF r _ _ _ s]) (simp_all add: notes_op_def MAX_EDITS_PER_NOTES_def)
  then show ?thesis using s by blast
qed

end
