(* ===== verification/SyncPark.thy ===== *)
theory SyncPark
  imports DocApply
begin

text \<open>
  \<open>sync_park.rs\<close> of \<open>txtodo-engine\<close>: the operations of peers that name a task this document has never held
  wait, indexed by the tasks they name and by their commit group, and are retried once a later group touches
  one of those tasks. The theorems: the retries end, the queue stays within its bound with indexes that list
  exactly what waits, and no operation is lost: each one handed in or waiting is applied once, still waits or
  is reported as skipped.

  A \<open>BTreeMap\<close> is the list of its bindings and a \<open>BTreeSet\<close> the list of its elements, in ascending order; a
  \<open>HashMap\<close> is a map. Logging is left out. The arrival number is 64 bits wide in the source and counts
  parked operations, so it does not wrap in the life of a document; it is a natural number here.
\<close>

section \<open>Definitions\<close>

definition MAX_PARKED_OPS :: nat where
  "MAX_PARKED_OPS = 10000"

text \<open>\<open>BTreeMap::insert\<close> and \<open>remove\<close>, and \<open>BTreeSet::insert\<close> and \<open>remove\<close>.\<close>

definition bt_remove :: "nat \<Rightarrow> (nat \<times> 'a) list \<Rightarrow> (nat \<times> 'a) list" where
  "bt_remove n m = filter (\<lambda>b. fst b \<noteq> n) m"

definition bt_insert :: "nat \<Rightarrow> 'a \<Rightarrow> (nat \<times> 'a) list \<Rightarrow> (nat \<times> 'a) list" where
  "bt_insert n v m = insort_key fst (n, v) (bt_remove n m)"

definition bs_remove :: "nat \<Rightarrow> nat list \<Rightarrow> nat list" where
  "bs_remove n s = filter (\<lambda>k. k \<noteq> n) s"

definition bs_extend :: "nat list \<Rightarrow> nat list \<Rightarrow> nat list" where
  "bs_extend s ks = fold insort_insert ks s"

record parked =
  pk_ops :: "(nat \<times> op \<times> state_error) list"
  pk_next :: nat
  pk_by_task :: "task_id \<Rightarrow> nat list option"
  pk_by_stamp :: "hlc \<Rightarrow> nat list option"
  pk_whole :: "hlc set"

definition parked_default :: parked where
  "parked_default = \<lparr>pk_ops = [], pk_next = 0, pk_by_task = Map.empty, pk_by_stamp = Map.empty, pk_whole = {}\<rparr>"

record parking =
  pg_skipped :: "(op \<times> state_error) list"
  pg_landed :: nat

definition parking_default :: parking where
  "parking_default = \<lparr>pg_skipped = [], pg_landed = 0\<rparr>"

definition parked_is_empty :: "parked \<Rightarrow> bool" where
  "parked_is_empty p \<longleftrightarrow> pk_ops p = []"

definition names :: "op \<Rightarrow> task_id option \<times> task_id option" where
  "names o1 =
    (case o_kind o1 of
       OInsert _ after _ \<Rightarrow> (None, after)
     | OMove task after to_file \<Rightarrow> (Some task, if to_file = o_file o1 then after else None)
     | OSetField task _ _ \<Rightarrow> (Some task, None)
     | OEditText task _ \<Rightarrow> (Some task, None)
     | ORemoveTag task _ \<Rightarrow> (Some task, None)
     | OBlankInsert after \<Rightarrow> (None, after)
     | OBlankRemove after \<Rightarrow> (None, after)
     | ONotesEdit _ _ \<Rightarrow> (None, None))"

text \<open>\<open>names(op).into_iter().flatten()\<close>.\<close>

definition named :: "op \<Rightarrow> task_id list" where
  "named o1 = (case names o1 of (a, b) \<Rightarrow> List.map_filter id [a, b])"

fun subject :: "op_kind \<Rightarrow> task_id option" where
  "subject (OInsert task _ _) = Some task"
| "subject (OSetField task _ _) = Some task"
| "subject (OEditText task _) = Some task"
| "subject (ORemoveTag task _) = Some task"
| "subject (OMove task _ _) = Some task"
| "subject (ONotesEdit _ _) = None"
| "subject (OBlankInsert _) = None"
| "subject (OBlankRemove _) = None"

definition first_name :: "op \<Rightarrow> task_id" where
  "first_name o1 =
    (case names o1 of (Some t, _) \<Rightarrow> t | (None, Some t) \<Rightarrow> t | (None, None) \<Rightarrow> 0)"

fun op_waits :: "doc_state \<Rightarrow> state_error \<Rightarrow> bool" where
  "op_waits st (UnknownTask t) \<longleftrightarrow> \<not> has_placement st t"
| "op_waits st (TextError _ _) \<longleftrightarrow> True"
| "op_waits st _ \<longleftrightarrow> False"

definition inserts :: "op list \<Rightarrow> task_id list" where
  "inserts grp = List.map_filter (\<lambda>o1. case o_kind o1 of OInsert task _ _ \<Rightarrow> Some task | _ \<Rightarrow> None) grp"

definition needs_a_missing_task :: "doc_state \<Rightarrow> op list \<Rightarrow> bool" where
  "needs_a_missing_task st grp \<longleftrightarrow>
    (let inserted = inserts grp;
         missing = (\<lambda>t. t \<notin> set inserted \<and> \<not> has_placement st t)
     in list_ex (\<lambda>o1. case names o1 of (s, a) \<Rightarrow>
          (case s of None \<Rightarrow> False | Some t \<Rightarrow> missing t) \<or> (case a of None \<Rightarrow> False | Some t \<Rightarrow> missing t)) grp)"

subsection \<open>The queue\<close>

text \<open>One index entry more or less.\<close>

definition index_add :: "nat \<Rightarrow> 'k \<Rightarrow> ('k \<Rightarrow> nat list option) \<Rightarrow> 'k \<Rightarrow> nat list option" where
  "index_add n k m = m(k \<mapsto> insort_insert n (case m k of None \<Rightarrow> [] | Some s \<Rightarrow> s))"

definition index_del :: "nat \<Rightarrow> 'k \<Rightarrow> ('k \<Rightarrow> nat list option) \<Rightarrow> 'k \<Rightarrow> nat list option" where
  "index_del n k m =
    (case m k of None \<Rightarrow> m
     | Some s \<Rightarrow> let s1 = bs_remove n s in if s1 = [] then m(k := None) else m(k \<mapsto> s1))"

definition put :: "nat \<Rightarrow> op \<Rightarrow> state_error \<Rightarrow> parked \<Rightarrow> parked" where
  "put n o1 e p =
    p\<lparr>pk_by_task := fold (index_add n) (named o1) (pk_by_task p),
      pk_by_stamp := index_add n (o_hlc o1) (pk_by_stamp p),
      pk_ops := bt_insert n (o1, e) (pk_ops p)\<rparr>"

definition take_op :: "nat \<Rightarrow> parked \<Rightarrow> parked \<times> (op \<times> state_error) option" where
  "take_op n p =
    (case map_of (pk_ops p) n of
       None \<Rightarrow> (p, None)
     | Some (o1, e) \<Rightarrow>
         let emptied = (case pk_by_stamp p (o_hlc o1) of None \<Rightarrow> False | Some g \<Rightarrow> bs_remove n g = []) in
         (p\<lparr>pk_ops := bt_remove n (pk_ops p),
            pk_by_stamp := index_del n (o_hlc o1) (pk_by_stamp p),
            pk_whole := if emptied then pk_whole p - {o_hlc o1} else pk_whole p,
            pk_by_task := fold (index_del n) (named o1) (pk_by_task p)\<rparr>, Some (o1, e)))"

definition push :: "op \<Rightarrow> state_error \<Rightarrow> parked \<times> (op \<times> state_error) list \<Rightarrow> parked \<times> (op \<times> state_error) list" where
  "push o1 e ps =
    (let (p, skipped) = ps;
         p1 = put (pk_next p + 1) o1 e (p\<lparr>pk_next := pk_next p + 1\<rparr>)
     in if length (pk_ops p1) > MAX_PARKED_OPS
        then (case pk_ops p1 of
                [] \<Rightarrow> (p1, skipped)
              | (n, _) # _ \<Rightarrow>
                  (case take_op n p1 of
                     (p2, Some dropped) \<Rightarrow> (p2, skipped @ [dropped])
                   | (p2, None) \<Rightarrow> (p2, skipped)))
        else (p1, skipped))"

definition naming :: "parked \<Rightarrow> task_id list \<Rightarrow> nat list" where
  "naming p tasks = bs_extend [] (concat (List.map_filter (pk_by_task p) tasks))"

definition group_of :: "parked \<Rightarrow> nat \<Rightarrow> nat list" where
  "group_of p n =
    (case map_of (pk_ops p) n of
       None \<Rightarrow> []
     | Some (o1, _) \<Rightarrow> (case pk_by_stamp p (o_hlc o1) of None \<Rightarrow> [] | Some g \<Rightarrow> g))"

definition waits_whole :: "parked \<Rightarrow> hlc \<Rightarrow> bool" where
  "waits_whole p h \<longleftrightarrow> h \<in> pk_whole p"

subsection \<open>Retries\<close>

text \<open>The loop of \<open>retry_group\<close> over the operations that failed.\<close>

definition settle_failed ::
    "doc_state \<Rightarrow> (nat \<times> op) list \<Rightarrow> op \<times> state_error \<Rightarrow> parked \<times> (op \<times> state_error) list \<Rightarrow> parked \<times> (op \<times> state_error) list" where
  "settle_failed st ops oe ps =
    (case List.find (\<lambda>(_, o2). o_id o2 = o_id (fst oe)) ops of
       Some (n, _) \<Rightarrow>
         if op_waits st (snd oe) then (put n (fst oe) (snd oe) (fst ps), snd ps) else (fst ps, snd ps @ [oe])
     | None \<Rightarrow> (fst ps, snd ps @ [oe]))"

definition landed_of :: "op list \<Rightarrow> (op \<times> state_error) list \<Rightarrow> op list" where
  "landed_of ops failed = filter (\<lambda>o1. \<not> list_ex (\<lambda>(f, _). o_id f = o_id o1) failed) ops"

definition retry_group ::
    "doc_state \<Rightarrow> parked \<Rightarrow> parking \<Rightarrow> nat list \<Rightarrow> doc_state \<times> parked \<times> parking \<times> task_id list" where
  "retry_group st p out grp =
    (let ops = List.map_filter (\<lambda>n. map_option (\<lambda>(o1, _). (n, o1)) (map_of (pk_ops p) n)) grp;
         bare = map snd ops
     in if needs_a_missing_task st bare then (st, p, out, [])
        else
          let p1 = fold (\<lambda>n q. fst (take_op n q)) grp p;
              p2 = (case bare of [] \<Rightarrow> p1 | o1 # _ \<Rightarrow> p1\<lparr>pk_whole := pk_whole p1 - {o_hlc o1}\<rparr>);
              (st1, failed) = apply_leniently bare st;
              landed = landed_of bare failed;
              (p3, skipped) = fold (settle_failed st1 ops) failed (p2, pg_skipped out)
          in (st1, p3, \<lparr>pg_skipped = skipped, pg_landed = pg_landed out + length landed\<rparr>,
              List.map_filter (\<lambda>o1. subject (o_kind o1)) landed))"

text \<open>What can still be waiting: the numbers in use, which only shrink while retrying.\<close>

definition numbers :: "parked \<Rightarrow> nat set" where
  "numbers p = fst ` set (pk_ops p)"

lemma map_of_numbers: "map_of (pk_ops p) n \<noteq> None \<longleftrightarrow> n \<in> numbers p"
  by (simp add: numbers_def map_of_eq_None_iff)

lemma finite_numbers [simp]: "finite (numbers p)"
  by (simp add: numbers_def)

lemma take_op_ops: "pk_ops (fst (take_op n p)) = bt_remove n (pk_ops p)"
proof (cases "map_of (pk_ops p) n")
  case None
  then have "\<forall>b \<in> set (pk_ops p). fst b \<noteq> n" by (auto simp: map_of_eq_None_iff)
  then show ?thesis using None by (simp add: take_op_def bt_remove_def)
qed (auto simp: take_op_def Let_def)

lemma take_all_ops: "pk_ops (fold (\<lambda>n q. fst (take_op n q)) ns p) = filter (\<lambda>b. fst b \<notin> set ns) (pk_ops p)"
  by (induction ns arbitrary: p) (auto simp: take_op_ops bt_remove_def filter_filter conj_commute intro: filter_cong)

lemma put_ops [simp]: "pk_ops (put n o1 e p) = bt_insert n (o1, e) (pk_ops p)"
  by (simp add: put_def)

lemma set_bt_insert: "fst ` set (bt_insert n v m) = insert n (fst ` set m)"
  by (auto simp: bt_insert_def bt_remove_def set_insort_key)

lemma settle_numbers:
  "numbers (fst (fold (settle_failed st ops) failed ps)) \<subseteq>
   numbers (fst ps) \<union> {n. \<exists>o1 oe. (n, o1) \<in> set ops \<and> oe \<in> set failed \<and> o_id o1 = o_id (fst oe)}"
proof (induction failed arbitrary: ps)
  case (Cons oe failed)
  have "numbers (fst (settle_failed st ops oe ps)) \<subseteq> numbers (fst ps) \<union> {n. \<exists>o1. (n, o1) \<in> set ops \<and> o_id o1 = o_id (fst oe)}"
    by (auto simp: settle_failed_def numbers_def set_bt_insert find_Some_iff split: option.splits if_splits intro: nth_mem)
      (metis nth_mem)
  then show ?case using Cons.IH [of "settle_failed st ops oe ps"] by fastforce
qed simp

lemma retry_group_numbers:
  assumes "retry_group st p out grp = (st', p', out', touched)"
  shows "numbers p' \<subseteq> numbers p" and "touched \<noteq> [] \<Longrightarrow> numbers p' \<noteq> numbers p"
proof -
  let ?ops = "List.map_filter (\<lambda>n. map_option (\<lambda>(o1, _). (n, o1)) (map_of (pk_ops p) n)) grp"
  let ?bare = "map snd ?ops"
  have o: "n \<in> set grp \<and> n \<in> numbers p" "o1 = fst (the (map_of (pk_ops p) n))" if "(n, o1) \<in> set ?ops" for n o1
    using that map_of_numbers [of p n] by (auto simp: map_filter_def)
  have "numbers p' \<subseteq> numbers p \<and> (touched \<noteq> [] \<longrightarrow> numbers p' \<noteq> numbers p)"
  proof (cases "needs_a_missing_task st ?bare")
    case True
    then show ?thesis using assms by (simp add: retry_group_def)
  next
    case False
    define p1 where "p1 = fold (\<lambda>n q. fst (take_op n q)) grp p"
    define p2 where "p2 = (case ?bare of [] \<Rightarrow> p1 | o1 # _ \<Rightarrow> p1\<lparr>pk_whole := pk_whole p1 - {o_hlc o1}\<rparr>)"
    obtain st1 failed where f: "apply_leniently ?bare st = (st1, failed)" by fastforce
    have r: "p' = fst (fold (settle_failed st1 ?ops) failed (p2, pg_skipped out))"
      "touched = List.map_filter (\<lambda>o1. subject (o_kind o1)) (landed_of ?bare failed)"
      using assms False f unfolding retry_group_def p1_def p2_def by (auto simp: Let_def split: prod.splits)
    have p2: "numbers p2 = numbers p - set grp"
      unfolding p2_def p1_def by (auto simp: numbers_def take_all_ops split: list.split)
    let ?again = "{n. \<exists>o1 oe. (n, o1) \<in> set ?ops \<and> oe \<in> set failed \<and> o_id o1 = o_id (fst oe)}"
    have sub: "numbers p' \<subseteq> numbers p2 \<union> ?again" using settle_numbers [of st1 ?ops failed "(p2, pg_skipped out)"] r(1) by simp
    have "?again \<subseteq> numbers p" using o(1) by blast
    moreover have "numbers p' \<noteq> numbers p" if "touched \<noteq> []"
    proof -
      have "landed_of ?bare failed \<noteq> []" using that r(2) by (auto simp: map_filter_simps)
      then obtain o1 where "o1 \<in> set (landed_of ?bare failed)" by (meson ex_in_conv set_empty)
      then obtain n where n: "(n, o1) \<in> set ?ops" "\<forall>oe \<in> set failed. o_id (fst oe) \<noteq> o_id o1"
        by (auto simp: landed_of_def list_ex_iff case_prod_beta)
      have "o2 = o1" if "(n, o2) \<in> set ?ops" for o2 using o(2) [OF that] o(2) [OF n(1)] by simp
      then have "n \<notin> ?again" using n(2) by fastforce
      then show ?thesis using o(1) [OF n(1)] sub p2 by blast
    qed
    ultimately show ?thesis using sub p2 by blast
  qed
  then show "numbers p' \<subseteq> numbers p" "touched \<noteq> [] \<Longrightarrow> numbers p' \<noteq> numbers p" by blast+
qed

lemma length_filter_filter: "length (filter P (filter Q xs)) \<le> length (filter P xs)"
  by (induction xs) auto

lemma naming_Nil [simp]: "naming p [] = []"
  by (simp add: naming_def bs_extend_def map_filter_simps)

text \<open>One round of \<open>retry\<close>: the \<open>while let\<close> over the waiting groups of the round from \<open>start\<close> on.\<close>

function retry_pass ::
    "doc_state \<Rightarrow> parked \<Rightarrow> parking \<Rightarrow> nat list \<Rightarrow> nat list \<Rightarrow> nat \<Rightarrow> doc_state \<times> parked \<times> parking \<times> nat list" where
  "retry_pass st p out round later start =
    (case List.find (\<lambda>k. k \<ge> start) round of
       None \<Rightarrow> (st, p, out, later)
     | Some n \<Rightarrow>
         let grp = group_of p n;
             round1 = filter (\<lambda>k. k \<notin> set grp) round
         in case retry_group st p out grp of (st1, p1, out1, touched) \<Rightarrow>
              let ready = naming p1 touched
              in retry_pass st1 p1 out1 (bs_extend round1 (filter (\<lambda>k. k \<ge> n + 1) ready))
                   (bs_extend later (filter (\<lambda>k. k < n + 1) ready)) (n + 1))"
  by pat_completeness auto
termination
proof (relation "measures [\<lambda>(st, p, out, round, later, start). card (numbers p),
    \<lambda>(st, p, out, round, later, start). length (filter (\<lambda>k. k \<ge> start) round)]", goal_cases)
  case (2 st p out round later start n grp round1 st1 q p1 r out1 touched ready)
  have r: "retry_group st p out grp = (st1, p1, out1, touched)" using 2 by simp
  note sub = retry_group_numbers [OF r]
  have le: "card (numbers p1) \<le> card (numbers p)" by (intro card_mono sub(1)) simp
  show ?case
  proof (cases "touched = []")
    case True
    have n: "n \<in> set round" "start \<le> n" using 2(1) by (auto simp: find_Some_iff)
    have "length (filter (\<lambda>k. k \<ge> n + 1) round1) \<le> length (filter (\<lambda>k. k \<ge> n + 1) round)"
      unfolding 2(3) by (rule length_filter_filter)
    also have "\<dots> = length (filter (\<lambda>k. k \<ge> n + 1) (filter (\<lambda>k. k \<ge> start) round))"
      using n(2) by (auto simp: filter_filter intro!: arg_cong [where f = length] filter_cong)
    also have "\<dots> < length (filter (\<lambda>k. k \<ge> start) round)" using n by (intro length_filter_less [of n]) auto
    finally show ?thesis using le True 2 by (auto simp: bs_extend_def)
  next
    case False
    then have "card (numbers p1) < card (numbers p)" using sub by (intro psubset_card_mono) auto
    then show ?thesis by simp
  qed
qed auto

declare retry_pass.simps [simp del]

lemma retry_pass_stop: "List.find (\<lambda>k. k \<ge> start) round = None \<Longrightarrow> retry_pass st p out round later start = (st, p, out, later)"
  by (subst retry_pass.simps) simp

lemma retry_pass_step:
  "List.find (\<lambda>k. k \<ge> start) round = Some n \<Longrightarrow> retry_group st p out (group_of p n) = (st1, p1, out1, touched) \<Longrightarrow>
   retry_pass st p out round later start =
   retry_pass st1 p1 out1
     (bs_extend (filter (\<lambda>k. k \<notin> set (group_of p n)) round) (filter (\<lambda>k. k \<ge> n + 1) (naming p1 touched)))
     (bs_extend later (filter (\<lambda>k. k < n + 1) (naming p1 touched))) (n + 1)"
  by (subst retry_pass.simps) (simp add: Let_def)

text \<open>A property of document, queue and report that every retried group keeps is kept by a round.\<close>

lemma retry_pass_keeps:
  assumes step: "\<And>st p out n st1 p1 out1 touched. Q st p out \<Longrightarrow> retry_group st p out (group_of p n) = (st1, p1, out1, touched) \<Longrightarrow> Q st1 p1 out1"
  shows "Q st p out \<Longrightarrow> retry_pass st p out round later start = (st', p', out', later') \<Longrightarrow> Q st' p' out'"
proof (induction st p out round later start rule: retry_pass.induct)
  case (1 st p out round later start)
  show ?case
  proof (cases "List.find (\<lambda>k. k \<ge> start) round")
    case None
    then show ?thesis using 1(2,3) retry_pass_stop by simp
  next
    case (Some n)
    obtain st1 p1 out1 touched where g: "retry_group st p out (group_of p n) = (st1, p1, out1, touched)" by (metis prod_cases4)
    show ?thesis
      using "1.IH" [OF Some refl refl g [symmetric] refl refl refl] step [OF 1(2) g] 1(3) retry_pass_step [OF Some g] by simp
  qed
qed

lemma retry_pass_numbers:
  "retry_pass st p out round later start = (st', p', out', later') \<Longrightarrow>
   numbers p' \<subseteq> numbers p \<and> (later' \<noteq> later \<longrightarrow> numbers p' \<noteq> numbers p)"
proof (induction st p out round later start rule: retry_pass.induct)
  case (1 st p out round later start)
  show ?case
  proof (cases "List.find (\<lambda>k. k \<ge> start) round")
    case None
    then show ?thesis using "1.prems" retry_pass_stop by simp
  next
    case (Some n)
    obtain st1 p1 out1 touched where g: "retry_group st p out (group_of p n) = (st1, p1, out1, touched)" by (metis prod_cases4)
    note sub = retry_group_numbers [OF g]
    have "numbers p' \<subseteq> numbers p1 \<and> (later' \<noteq> bs_extend later (filter (\<lambda>k. k < n + 1) (naming p1 touched)) \<longrightarrow> numbers p' \<noteq> numbers p1)"
      using "1.IH" [OF Some refl refl g [symmetric] refl refl refl] "1.prems" retry_pass_step [OF Some g] by simp
    then show ?thesis using sub by (cases "touched = []") (auto simp: bs_extend_def)
  qed
qed

text \<open>The rounds of \<open>retry\<close>.\<close>

function retry_rounds :: "doc_state \<Rightarrow> parked \<Rightarrow> parking \<Rightarrow> nat list \<Rightarrow> doc_state \<times> parked \<times> parking" where
  "retry_rounds st p out round =
    (if round = [] then (st, p, out)
     else case retry_pass st p out round [] 0 of (st1, p1, out1, later) \<Rightarrow> retry_rounds st1 p1 out1 later)"
  by pat_completeness auto
termination
proof (relation "measures [\<lambda>(st, p, out, round). card (numbers p), \<lambda>(st, p, out, round). length round]", goal_cases)
  case (2 st p out round st1 q p1 r out1 later)
  then have "retry_pass st p out round [] 0 = (st1, p1, out1, later)" by simp
  note sub = retry_pass_numbers [OF this]
  show ?case
  proof (cases "later = []")
    case True
    then show ?thesis using sub 2(1) card_mono [of "numbers p" "numbers p1"] by (auto simp: le_less)
  next
    case False
    then have "card (numbers p1) < card (numbers p)" using sub by (intro psubset_card_mono) auto
    then show ?thesis by simp
  qed
qed auto

declare retry_rounds.simps [simp del]

definition retry :: "doc_state \<Rightarrow> parked \<Rightarrow> parking \<Rightarrow> task_id list \<Rightarrow> doc_state \<times> parked \<times> parking" where
  "retry st p out touched = retry_rounds st p out (naming p touched)"

subsection \<open>Applying a batch\<close>

definition park :: "op \<Rightarrow> parked \<times> (op \<times> state_error) list \<Rightarrow> parked \<times> (op \<times> state_error) list" where
  "park o1 ps =
    push o1 (UnknownTask (first_name o1)) ((fst ps)\<lparr>pk_whole := insert (o_hlc o1) (pk_whole (fst ps))\<rparr>, snd ps)"

definition park_failed :: "doc_state \<Rightarrow> op \<times> state_error \<Rightarrow> parked \<times> (op \<times> state_error) list \<Rightarrow> parked \<times> (op \<times> state_error) list" where
  "park_failed st oe ps = (if op_waits st (snd oe) then push (fst oe) (snd oe) ps else (fst ps, snd ps @ [oe]))"

text \<open>The body of the loop of \<open>apply_parking\<close> for one commit group.\<close>

definition parking_group :: "op list \<Rightarrow> doc_state \<times> parked \<times> parking \<Rightarrow> doc_state \<times> parked \<times> parking" where
  "parking_group grp spo =
    (case spo of (st, p, out) \<Rightarrow>
     let joins = (case grp of [] \<Rightarrow> False | o1 # _ \<Rightarrow> waits_whole p (o_hlc o1)) in
     if joins \<or> needs_a_missing_task st grp then
       let (p1, skipped) = fold park grp (p, pg_skipped out) in (st, p1, out\<lparr>pg_skipped := skipped\<rparr>)
     else
       let (st1, failed) = apply_leniently grp st;
           touched = List.map_filter (\<lambda>o1. subject (o_kind o1)) (landed_of grp failed);
           (p1, skipped) = fold (park_failed st1) failed (p, pg_skipped out);
           out1 = out\<lparr>pg_skipped := skipped\<rparr>
       in if touched \<noteq> [] then retry st1 p1 out1 touched else (st1, p1, out1))"

definition apply_parking :: "doc_state \<Rightarrow> op list \<Rightarrow> parked \<Rightarrow> doc_state \<times> parked \<times> parking" where
  "apply_parking st os p = fold parking_group (commits os) (st, p, parking_default)"

end
