(* ===== verification/Parking.thy ===== *)
theory Parking
  imports SyncPark Document "HOL-Library.Multiset"
begin

text \<open>
  The correctness of the waiting queue of \<open>SyncPark\<close>: its indexes, its bound, and that no operation is
  lost between the document, the queue and the report.
\<close>

section \<open>What applying a batch leniently does\<close>

text \<open>\<open>op_steps st os st'\<close>: the document goes from \<open>st\<close> to \<open>st'\<close> by applying the operations \<open>os\<close> in this order,
  each of them accepted; operations refused on the way do not count.\<close>

inductive op_steps :: "doc_state \<Rightarrow> op list \<Rightarrow> doc_state \<Rightarrow> bool" where
  rest: "op_steps st [] st"
| accepted: "ds_apply o1 st = (st1, Inr u) \<Longrightarrow> op_steps st1 os st2 \<Longrightarrow> op_steps st (o1 # os) st2"
| refused: "ds_apply o1 st = (st1, Inl e) \<Longrightarrow> op_steps st1 os st2 \<Longrightarrow> op_steps st os st2"

lemma op_steps_trans: "op_steps st os st1 \<Longrightarrow> op_steps st1 ps st2 \<Longrightarrow> op_steps st (os @ ps) st2"
  by (induction rule: op_steps.induct) (auto intro: op_steps.intros)

text \<open>What was done with a batch: some of it applied, the rest reported.\<close>

definition handled :: "doc_state \<Rightarrow> doc_state \<Rightarrow> op multiset \<Rightarrow> op multiset \<Rightarrow> bool" where
  "handled st st' given left \<longleftrightarrow> (\<exists>os. op_steps st os st' \<and> mset os + left = given)"

lemma handled_refl: "handled st st M M"
  by (auto simp: handled_def intro!: exI [of _ "[]"] op_steps.rest)

lemma handled_trans:
  assumes "handled st st1 M K" and "handled st1 st2 (K + N) L"
  shows "handled st st2 (M + N) L"
proof -
  obtain os ps where s: "op_steps st os st1" "mset os + K = M" "op_steps st1 ps st2" "mset ps + L = K + N"
    using assms by (auto simp: handled_def)
  have "mset (os @ ps) + L = mset os + (mset ps + L)" by (simp add: union_assoc)
  also have "\<dots> = M + N" unfolding s(4) using s(2) by (simp add: union_assoc)
  finally show ?thesis unfolding handled_def using op_steps_trans [OF s(1,3)] by blast
qed

lemma handled_more: "handled st st' M K \<Longrightarrow> handled st st' (M + N) (K + N)"
  by (auto simp: handled_def union_assoc [symmetric])

lemma handled_eq: "handled st st' M K \<Longrightarrow> M = M' \<Longrightarrow> K = K' \<Longrightarrow> handled st st' M' K'"
  by simp

lemma lenient_round_handled:
  "lenient_round st os = (st', failed) \<Longrightarrow> handled st st' (mset os) (mset (map fst failed))"
proof (induction st os arbitrary: st' failed rule: lenient_round.induct)
  case (1 st)
  then show ?case by (simp add: handled_refl)
next
  case (2 st o1 os)
  obtain st1 r where a: "ds_apply o1 st = (st1, r)" by fastforce
  show ?case
  proof (cases r)
    case (Inr u)
    then have "lenient_round st1 os = (st', failed)" using 2(3) a by simp
    then have "handled st1 st' (mset os) (mset (map fst failed))" using 2(1,2) a Inr by auto
    then obtain ps where p: "op_steps st1 ps st'" "mset ps + mset (map fst failed) = mset os" unfolding handled_def by blast
    then show ?thesis unfolding handled_def
      using op_steps.accepted [of o1 st st1 u ps st'] a Inr by (intro exI [of _ "o1 # ps"]) simp
  next
    case (Inl e)
    then obtain f where f: "lenient_round st1 os = (st', f)" "failed = (o1, e) # f" using 2(3) a by (auto split: prod.splits)
    then have "handled st1 st' (mset os) (mset (map fst f))" using 2(1,2) a Inl by auto
    then obtain ps where "op_steps st1 ps st'" "mset ps + mset (map fst f) = mset os" unfolding handled_def by blast
    then show ?thesis unfolding handled_def
      using op_steps.refused [of o1 st st1 e ps st'] a Inl f(2) by (intro exI [of _ ps]) simp
  qed
qed

lemma lenient_rounds_handled:
  "lenient_rounds st os = (st', failed) \<Longrightarrow> handled st st' (mset os) (mset (map fst failed))"
proof (induction st os arbitrary: st' failed rule: lenient_rounds.induct)
  case (1 st pending)
  obtain st1 f where f: "lenient_round st pending = (st1, f)" by fastforce
  note h = lenient_round_handled [OF f]
  show ?case
  proof (cases "f = [] \<or> length f = length pending")
    case True
    then have "st' = st1 \<and> failed = f" using 1(2) f by (subst (asm) lenient_rounds.simps) simp
    then show ?thesis using h by simp
  next
    case False
    then have "lenient_rounds st1 (map fst f) = (st', failed)" using 1(2) f by (subst (asm) lenient_rounds.simps) simp
    then have "handled st1 st' (mset (map fst f)) (mset (map fst failed))" using 1(1) [OF f [symmetric] _ ] False by blast
    then show ?thesis using handled_trans [OF h, of st' "{#}"] by simp
  qed
qed

lemma concat_commits: "concat (commits os) = os"
  by (induction os rule: commits.induct) auto

lemma apply_commits_handled:
  "apply_commits st gs = (st', failed) \<Longrightarrow> handled st st' (mset (concat gs)) (mset (map fst failed))"
proof (induction st gs arbitrary: st' failed rule: apply_commits.induct)
  case (1 st)
  then show ?case by (simp add: handled_refl)
next
  case (2 st g gs)
  obtain st1 f where f: "lenient_rounds st g = (st1, f)" by fastforce
  obtain k where k: "apply_commits st1 gs = (st', k)" "failed = f @ k" using 2(2) f by (auto split: prod.splits)
  have "handled st1 st' (mset (concat gs) + mset (map fst f)) (mset (map fst k) + mset (map fst f))"
    using 2(1) [OF f [symmetric] refl k(1)] by (rule handled_more)
  then show ?case using handled_trans [OF lenient_rounds_handled [OF f], of st' "mset (concat gs)"] k(2) by (simp add: union_commute)
qed

lemma leniently_handled:
  "apply_leniently os st = (st', failed) \<Longrightarrow> handled st st' (mset os) (mset (map fst failed))"
  using apply_commits_handled [of st "commits os"] by (simp add: apply_leniently_def concat_commits)

lemma handled_left: "handled st st' M K \<Longrightarrow> K \<subseteq># M"
  by (auto simp: handled_def)

section \<open>The queue and its indexes\<close>

definition waiting :: "parked \<Rightarrow> op list" where
  "waiting p = map (fst \<circ> snd) (pk_ops p)"

text \<open>The index a search key should have: the numbers of the waiting operations it belongs to.\<close>

definition index_of_ops :: "(op \<Rightarrow> 'k list) \<Rightarrow> (nat \<times> op \<times> state_error) list \<Rightarrow> 'k \<Rightarrow> nat list option" where
  "index_of_ops f q k = (let g = map fst (filter (\<lambda>b. k \<in> set (f (fst (snd b)))) q) in if g = [] then None else Some g)"

definition keys_ok :: "(nat \<times> 'a) list \<Rightarrow> bool" where
  "keys_ok q \<longleftrightarrow> sorted (map fst q) \<and> distinct (map fst q)"

definition park_ok :: "parked \<Rightarrow> bool" where
  "park_ok p \<longleftrightarrow> keys_ok (pk_ops p) \<and> (\<forall>n \<in> numbers p. n \<le> pk_next p) \<and>
     pk_by_stamp p = index_of_ops (\<lambda>o1. [o_hlc o1]) (pk_ops p) \<and> pk_by_task p = index_of_ops named (pk_ops p)"

definition whole_ok :: "parked \<Rightarrow> bool" where
  "whole_ok p \<longleftrightarrow> pk_whole p \<subseteq> o_hlc ` set (waiting p)"

lemma keys_ok_filter: "keys_ok q \<Longrightarrow> keys_ok (filter P q)"
  by (auto simp: keys_ok_def sorted_filter distinct_map_filter)

lemma keys_ok_remove: "keys_ok q \<Longrightarrow> keys_ok (bt_remove n q)"
  unfolding bt_remove_def by (rule keys_ok_filter)

lemma distinct_insort_key: "distinct (map fst q) \<Longrightarrow> n \<notin> fst ` set q \<Longrightarrow> distinct (map fst (insort_key fst (n, v) q))"
  by (induction q) (auto simp: set_insort_key)

lemma keys_ok_insert: "keys_ok q \<Longrightarrow> keys_ok (bt_insert n v q)"
  using keys_ok_remove [of q n] distinct_insort_key [of "bt_remove n q" n v]
  by (auto simp: keys_ok_def bt_insert_def sorted_insort_key bt_remove_def)

lemma keys_unique: "keys_ok q \<Longrightarrow> (n, v) \<in> set q \<Longrightarrow> (n, w) \<in> set q \<Longrightarrow> v = w"
  unfolding keys_ok_def by (metis map_of_is_SomeI option.inject)

lemma keys_same: "keys_ok q \<Longrightarrow> b \<in> set q \<Longrightarrow> c \<in> set q \<Longrightarrow> fst b = fst c \<Longrightarrow> b = c"
  by (metis keys_unique prod.collapse)

lemma keys_map_of: "keys_ok q \<Longrightarrow> map_of q n = Some v \<longleftrightarrow> (n, v) \<in> set q"
  by (simp add: keys_ok_def)

lemma remove_fresh: "n \<notin> fst ` set q \<Longrightarrow> bt_remove n q = q"
  by (auto simp: bt_remove_def filter_id_conv)

lemma insort_insert_idem: "insort_insert n (insort_insert n s) = insort_insert n (s :: nat list)"
  by (simp add: insort_insert_key_def set_insort_key)

lemma fold_index_add:
  "fold (index_add n) ts m k =
   (if k \<in> set ts then Some (insort_insert n (case m k of None \<Rightarrow> [] | Some s \<Rightarrow> s)) else m k)"
  by (induction ts arbitrary: m) (auto simp: index_add_def insort_insert_idem)

lemma fold_index_del:
  "fold (index_del n) ts m k =
   (if k \<in> set ts then (case m k of None \<Rightarrow> None | Some s \<Rightarrow> if bs_remove n s = [] then None else Some (bs_remove n s)) else m k)"
  by (induction ts arbitrary: m) (auto simp: index_del_def bs_remove_def Let_def split: option.splits)

lemma map_fst_insort: "map fst (insort_key fst x xs) = insort (fst x) (map fst xs)"
  by (induction xs) auto

lemma index_insert:
  assumes "keys_ok q" "n \<notin> fst ` set q"
  shows "index_of_ops f (bt_insert n (o1, e) q) = fold (index_add n) (f o1) (index_of_ops f q)"
proof
  fix k
  let ?P = "\<lambda>b. k \<in> set (f (fst (snd b)))"
  have i: "bt_insert n (o1, e) q = insort_key fst (n, o1, e) q" using assms(2) by (simp add: bt_insert_def remove_fresh)
  show "index_of_ops f (bt_insert n (o1, e) q) k = fold (index_add n) (f o1) (index_of_ops f q) k"
  proof (cases "k \<in> set (f o1)")
    case True
    have "map fst (filter ?P (bt_insert n (o1, e) q)) = insort n (map fst (filter ?P q))"
      unfolding i using assms(1) True by (subst filter_insort) (auto simp: keys_ok_def map_fst_insort)
    moreover have "n \<notin> set (map fst (filter ?P q))" using assms(2) by auto
    ultimately show ?thesis using True
      by (auto simp: index_of_ops_def fold_index_add Let_def insort_insert_key_def insort_is_Cons filter_empty_conv)
  next
    case False
    then have "filter ?P (bt_insert n (o1, e) q) = filter ?P q" unfolding i by (intro filter_insort_triv) simp
    then show ?thesis using False by (simp add: index_of_ops_def fold_index_add)
  qed
qed

lemma index_remove:
  assumes "keys_ok q" "(n, o1, e) \<in> set q"
  shows "index_of_ops f (bt_remove n q) = fold (index_del n) (f o1) (index_of_ops f q)"
proof
  fix k
  let ?P = "\<lambda>b. k \<in> set (f (fst (snd b)))"
  have r: "map fst (filter ?P (bt_remove n q)) = bs_remove n (map fst (filter ?P q))"
    by (simp add: bt_remove_def bs_remove_def filter_map comp_def) (meson conj_commute)
  show "index_of_ops f (bt_remove n q) k = fold (index_del n) (f o1) (index_of_ops f q) k"
  proof (cases "k \<in> set (f o1)")
    case True
    then show ?thesis by (auto simp: index_of_ops_def fold_index_del r Let_def bs_remove_def)
  next
    case False
    have "fst b \<noteq> n" if "b \<in> set q" "?P b" for b
    proof
      assume "fst b = n"
      then have "snd b = (o1, e)" using keys_unique [OF assms(1) _ assms(2)] that(1) by (metis prod.collapse)
      then show False using that(2) False by simp
    qed
    then have "filter ?P (bt_remove n q) = filter ?P q" unfolding bt_remove_def filter_filter by (intro filter_cong) auto
    then show ?thesis using False by (simp add: index_of_ops_def fold_index_del)
  qed
qed

lemma waiting_put: "n \<notin> numbers p \<Longrightarrow> mset (waiting (put n o1 e p)) = add_mset o1 (mset (waiting p))"
  by (simp add: waiting_def bt_insert_def remove_fresh numbers_def mset_insort)

lemma numbers_put [simp]: "numbers (put n o1 e p) = insert n (numbers p)"
  by (simp add: numbers_def set_bt_insert)

lemma put_fields [simp]: "pk_next (put n o1 e p) = pk_next p" "pk_whole (put n o1 e p) = pk_whole p"
  by (simp_all add: put_def)

lemma park_ok_put: "park_ok p \<Longrightarrow> n \<notin> numbers p \<Longrightarrow> n \<le> pk_next p \<Longrightarrow> park_ok (put n o1 e p)"
  using index_insert [of "pk_ops p" n "\<lambda>o1. [o_hlc o1]" o1 e] index_insert [of "pk_ops p" n named o1 e]
  by (auto simp: park_ok_def keys_ok_insert numbers_def set_bt_insert put_def)

lemma whole_ok_put: "whole_ok p \<Longrightarrow> n \<notin> numbers p \<Longrightarrow> whole_ok (put n o1 e p)"
  using mset_eq_setD [of "waiting (put n o1 e p)" "o1 # waiting p"] waiting_put [of n p o1 e] by (auto simp: whole_ok_def)

lemma take_op_None: "n \<notin> numbers p \<Longrightarrow> take_op n p = (p, None)"
  using map_of_numbers [of p n] by (simp add: take_op_def split: option.split)

lemma take_op_Some:
  assumes "park_ok p" "(n, o1, e) \<in> set (pk_ops p)"
  shows "snd (take_op n p) = Some (o1, e)" "park_ok (fst (take_op n p))" "pk_next (fst (take_op n p)) = pk_next p"
proof -
  have m: "map_of (pk_ops p) n = Some (o1, e)" using assms keys_map_of by (fastforce simp: park_ok_def)
  show "snd (take_op n p) = Some (o1, e)" "pk_next (fst (take_op n p)) = pk_next p" using m by (simp_all add: take_op_def Let_def)
  show "park_ok (fst (take_op n p))"
    using assms m index_remove [of "pk_ops p" n o1 e "\<lambda>o1. [o_hlc o1]"] index_remove [of "pk_ops p" n o1 e named]
    by (auto simp: park_ok_def take_op_def Let_def numbers_def keys_ok_filter bt_remove_def)
qed

lemma mset_remove_key:
  assumes "keys_ok q" "(n, v) \<in> set q"
  shows "mset q = add_mset (n, v) (mset (bt_remove n q))"
proof -
  obtain xs ys where q: "q = xs @ (n, v) # ys" using split_list [OF assms(2)] by blast
  then have "n \<notin> fst ` set xs" "n \<notin> fst ` set ys" using assms(1) by (auto simp: keys_ok_def)
  then have "bt_remove n q = xs @ ys" unfolding q using remove_fresh [of n xs] remove_fresh [of n ys] by (simp add: bt_remove_def)
  then show ?thesis using q by simp
qed

lemma waiting_take:
  assumes "park_ok p" "(n, o1, e) \<in> set (pk_ops p)"
  shows "mset (waiting p) = add_mset o1 (mset (waiting (fst (take_op n p))))"
  using mset_remove_key [of "pk_ops p" n "(o1, e)"] assms by (simp add: waiting_def take_op_ops park_ok_def)

abbreviation of_stamp :: "hlc \<Rightarrow> nat \<times> op \<times> state_error \<Rightarrow> bool" where
  "of_stamp h b \<equiv> o_hlc (fst (snd b)) = h"

lemma stamp_nonempty: "(n, o1, e) \<in> set q \<Longrightarrow> filter (of_stamp (o_hlc o1)) q \<noteq> []"
  by (induction q) auto

lemma group_index:
  assumes "park_ok p" "(n, o1, e) \<in> set (pk_ops p)"
  shows "pk_by_stamp p (o_hlc o1) = Some (map fst (filter (of_stamp (o_hlc o1)) (pk_ops p)))"
proof -
  have "(\<lambda>b. o_hlc o1 \<in> set [o_hlc (fst (snd b))]) = of_stamp (o_hlc o1)" by auto
  then show ?thesis using assms(1) stamp_nonempty [OF assms(2)] by (simp only: park_ok_def index_of_ops_def Let_def) simp
qed

lemma whole_ok_take:
  assumes "park_ok p" "whole_ok p"
  shows "whole_ok (fst (take_op n p))"
proof (cases "n \<in> numbers p")
  case False
  then show ?thesis using assms(2) by (simp add: take_op_None)
next
  case True
  then obtain o1 e where b: "(n, o1, e) \<in> set (pk_ops p)" by (auto simp: numbers_def)
  have m: "map_of (pk_ops p) n = Some (o1, e)" using assms(1) b keys_map_of by (fastforce simp: park_ok_def)
  let ?q = "fst (take_op n p)"
  have w: "set (waiting p) = insert o1 (set (waiting ?q))"
    using mset_eq_setD [of "waiting p" "o1 # waiting ?q"] waiting_take [OF assms(1) b] by simp
  have emptied: "h \<noteq> o_hlc o1" if "h \<in> pk_whole ?q" "o_hlc o1 \<notin> o_hlc ` set (waiting ?q)" for h
  proof -
    have "filter (\<lambda>b. o_hlc (fst (snd b)) = o_hlc o1) (bt_remove n (pk_ops p)) = []"
      using that(2) by (force simp: waiting_def take_op_ops filter_empty_conv image_iff)
    then have "bs_remove n (map fst (filter (\<lambda>b. o_hlc (fst (snd b)) = o_hlc o1) (pk_ops p))) = []"
      by (auto simp: bt_remove_def bs_remove_def filter_empty_conv)
    moreover note group_index [OF assms(1) b]
    ultimately show ?thesis using that(1) m by (auto simp: take_op_def Let_def)
  qed
  have sub: "pk_whole ?q \<subseteq> pk_whole p" using m by (auto simp: take_op_def Let_def)
  show ?thesis unfolding whole_ok_def
  proof
    fix h assume h: "h \<in> pk_whole ?q"
    then have "h = o_hlc o1 \<or> h \<in> o_hlc ` set (waiting ?q)" using sub assms(2) w by (auto simp: whole_ok_def)
    then show "h \<in> o_hlc ` set (waiting ?q)" using emptied [OF h] by blast
  qed
qed

lemma park_ok_take: "park_ok p \<Longrightarrow> park_ok (fst (take_op n p))"
  using take_op_Some(2) [of p n] take_op_None [of n p] by (cases "n \<in> numbers p") (auto simp: numbers_def)

lemma park_ok_takes: "park_ok p \<Longrightarrow> park_ok (fold (\<lambda>n q. fst (take_op n q)) ns p)"
  by (induction ns arbitrary: p) (auto simp: park_ok_take)

lemma whole_ok_takes: "park_ok p \<Longrightarrow> whole_ok p \<Longrightarrow> whole_ok (fold (\<lambda>n q. fst (take_op n q)) ns p)"
  by (induction ns arbitrary: p) (auto simp: park_ok_take whole_ok_take)

lemma next_takes: "pk_next (fold (\<lambda>n q. fst (take_op n q)) ns p) = pk_next p"
proof (induction ns arbitrary: p)
  case (Cons n ns)
  have "pk_next (fst (take_op n p)) = pk_next p" by (auto simp: take_op_def Let_def split: option.split)
  then show ?case using Cons by simp
qed simp

section \<open>Parking\<close>

abbreviation told :: "(op \<times> state_error) list \<Rightarrow> op multiset" where
  "told sk \<equiv> mset (map fst sk)"

definition bounded :: "parked \<Rightarrow> bool" where
  "bounded p \<longleftrightarrow> length (pk_ops p) \<le> MAX_PARKED_OPS"

lemma length_waiting: "length (pk_ops p) = size (mset (waiting p))"
  by (simp add: waiting_def)

lemma push_ok:
  assumes ok: "park_ok p" and w: "pk_whole p \<subseteq> insert (o_hlc o1) (o_hlc ` set (waiting p))" and b: "bounded p"
    and r: "push o1 e (p, sk) = (p', sk')"
  shows "park_ok p' \<and> whole_ok p' \<and> bounded p' \<and> mset (waiting p') + told sk' = add_mset o1 (mset (waiting p) + told sk)"
proof -
  define p0 where "p0 = p\<lparr>pk_next := pk_next p + 1\<rparr>"
  define p1 where "p1 = put (pk_next p + 1) o1 e p0"
  have n: "pk_next p + 1 \<notin> numbers p0" "park_ok p0" "waiting p0 = waiting p"
    using ok by (auto simp: park_ok_def p0_def numbers_def waiting_def)
  have p1: "park_ok p1" "mset (waiting p1) = add_mset o1 (mset (waiting p))"
    unfolding p1_def using park_ok_put [OF n(2,1)] waiting_put [OF n(1)] n(3) by (simp_all add: p0_def)
  have "set (waiting p1) = insert o1 (set (waiting p))"
    using mset_eq_setD [of "waiting p1" "o1 # waiting p"] p1(2) by simp
  then have w1: "whole_ok p1" using w by (auto simp: whole_ok_def p1_def p0_def)
  have l1: "length (pk_ops p1) = Suc (length (pk_ops p))" unfolding length_waiting p1(2) by simp
  show ?thesis
  proof (cases "length (pk_ops p1) > MAX_PARKED_OPS")
    case False
    then show ?thesis using r p1 w1 by (auto simp: push_def p1_def p0_def Let_def bounded_def)
  next
    case True
    then obtain k o2 e2 q where q: "pk_ops p1 = (k, o2, e2) # q" by (cases "pk_ops p1") auto
    then have t: "take_op k p1 = (fst (take_op k p1), Some (o2, e2))" "mset (waiting p1) = add_mset o2 (mset (waiting (fst (take_op k p1))))"
      using take_op_Some(1) [OF p1(1)] waiting_take [OF p1(1)] by (metis list.set_intros(1) prod.collapse, fastforce)
    then have "p' = fst (take_op k p1)" "sk' = sk @ [(o2, e2)]"
      using r True q unfolding push_def p1_def p0_def by (auto simp: Let_def split: prod.splits)
    moreover have "size (mset (waiting (fst (take_op k p1)))) = length (pk_ops p)" using t(2) p1(2) by (metis add_left_cancel plus_1_eq_Suc size_add_mset length_waiting)
    ultimately show ?thesis
      using t(2) p1 park_ok_take whole_ok_take [OF p1(1) w1] b by (simp add: bounded_def length_waiting)
  qed
qed

lemma park_all_ok:
  assumes "park_ok p" "whole_ok p" "bounded p" "fold park grp (p, sk) = (p', sk')"
  shows "park_ok p' \<and> whole_ok p' \<and> bounded p' \<and> mset (waiting p') + told sk' = mset grp + mset (waiting p) + told sk"
  using assms
proof (induction grp arbitrary: p sk)
  case (Cons o1 grp)
  let ?p = "p\<lparr>pk_whole := insert (o_hlc o1) (pk_whole p)\<rparr>"
  obtain p1 sk1 where s: "park o1 (p, sk) = (p1, sk1)" by fastforce
  have w: "waiting ?p = waiting p" by (simp add: waiting_def)
  have "park_ok ?p" "bounded ?p" "pk_whole ?p \<subseteq> insert (o_hlc o1) (o_hlc ` set (waiting ?p))"
    using Cons.prems(1-3) by (auto simp: park_ok_def numbers_def bounded_def whole_ok_def w)
  from push_ok [OF this(1,3,2), of "UnknownTask (first_name o1)" sk p1 sk1] s
  have "park_ok p1" "whole_ok p1" "bounded p1" "mset (waiting p1) + told sk1 = add_mset o1 (mset (waiting p) + told sk)"
    by (simp_all add: park_def w)
  then show ?case using Cons.IH [of p1 sk1] Cons.prems(4) s by (simp add: union_assoc)
qed simp

lemma park_failed_ok:
  assumes "park_ok p" "whole_ok p" "bounded p" "fold (park_failed st) failed (p, sk) = (p', sk')"
  shows "park_ok p' \<and> whole_ok p' \<and> bounded p' \<and> mset (waiting p') + told sk' = told failed + mset (waiting p) + told sk"
  using assms
proof (induction failed arbitrary: p sk)
  case (Cons oe failed)
  obtain p1 sk1 where s: "park_failed st oe (p, sk) = (p1, sk1)" by fastforce
  have "park_ok p1 \<and> whole_ok p1 \<and> bounded p1 \<and> mset (waiting p1) + told sk1 = add_mset (fst oe) (mset (waiting p) + told sk)"
  proof (cases "op_waits st (snd oe)")
    case True
    then show ?thesis using s Cons.prems(1-3) push_ok [of p "fst oe" "snd oe" sk p1 sk1] by (auto simp: park_failed_def whole_ok_def)
  next
    case False
    then show ?thesis using s Cons.prems(1-3) by (auto simp: park_failed_def)
  qed
  then show ?case using Cons.IH [of p1 sk1] Cons.prems(4) s by (simp add: union_assoc)
qed simp

section \<open>Retrying\<close>

text \<open>Putting the operations of a group that failed back at their numbers, or reporting them.\<close>

lemma find_by_id:
  assumes "distinct (map (o_id \<circ> snd) ops)" "(n, o1) \<in> set ops"
  shows "List.find (\<lambda>(_, o2). o_id o2 = o_id o1) ops = Some (n, o1)"
  using assms by (induction ops) (auto simp: image_iff)

lemma settle_all_ok:
  assumes "park_ok p" "whole_ok p" "distinct (map (o_id \<circ> snd) ops)" "distinct (map fst ops)"
    and "fst ` set failed \<subseteq> snd ` set ops" "distinct (map (o_id \<circ> fst) failed)"
    and "\<forall>(n, o1) \<in> set ops. n \<le> pk_next p \<and> (o1 \<in> fst ` set failed \<longrightarrow> n \<notin> numbers p)"
    and "fold (settle_failed st ops) failed (p, sk) = (p', sk')"
  shows "park_ok p' \<and> whole_ok p' \<and> mset (waiting p') + told sk' = told failed + mset (waiting p) + told sk"
  using assms
proof (induction failed arbitrary: p sk)
  case (Cons oe failed)
  obtain o1 e where oe: "oe = (o1, e)" by fastforce
  obtain n where n: "(n, o1) \<in> set ops" using Cons.prems(5) oe by auto
  have fnd: "List.find (\<lambda>(_, o2). o_id o2 = o_id o1) ops = Some (n, o1)" by (rule find_by_id [OF Cons.prems(3) n])
  have nn: "n \<notin> numbers p" "n \<le> pk_next p" using Cons.prems(7) n oe by auto
  obtain p1 sk1 where s: "settle_failed st ops oe (p, sk) = (p1, sk1)" by fastforce
  have step: "park_ok p1 \<and> whole_ok p1 \<and> mset (waiting p1) + told sk1 = add_mset o1 (mset (waiting p) + told sk) \<and>
      pk_next p1 = pk_next p \<and> numbers p1 \<subseteq> insert n (numbers p)"
  proof (cases "op_waits st e")
    case True
    then have "p1 = put n o1 e p" "sk1 = sk" using s fnd oe by (auto simp: settle_failed_def)
    then show ?thesis using Cons.prems(1,2) nn by (simp add: park_ok_put whole_ok_put waiting_put)
  next
    case False
    then have "p1 = p" "sk1 = sk @ [oe]" using s fnd oe by (auto simp: settle_failed_def)
    then show ?thesis using Cons.prems(1,2) oe by auto
  qed
  have others: "m \<le> pk_next p1 \<and> m \<notin> numbers p1" if m: "(m, o2) \<in> set ops" "o2 \<in> fst ` set failed" for m o2
  proof -
    have "o_id o2 \<noteq> o_id o1" using Cons.prems(6) m(2) oe by (auto simp: image_iff)
    then have "m \<noteq> n" using m(1) n Cons.prems(4) by (auto dest: eq_key_imp_eq_value)
    then show ?thesis using step Cons.prems(7) m by auto
  qed
  have "\<forall>(m, o2) \<in> set ops. m \<le> pk_next p1 \<and> (o2 \<in> fst ` set failed \<longrightarrow> m \<notin> numbers p1)"
    using others step Cons.prems(7) by auto
  then show ?case using Cons.IH [of p1 sk1] Cons.prems s step oe by (simp add: union_assoc)
qed simp

text \<open>The group of a waiting operation is every waiting operation with its stamp.\<close>

lemma lookup_all:
  assumes "keys_ok q" "set bs \<subseteq> set q"
  shows "List.map_filter (\<lambda>n. map_option (\<lambda>(o1, _). (n, o1)) (map_of q n)) (map fst bs) = map (\<lambda>b. (fst b, fst (snd b))) bs"
  using assms(2)
proof (induction bs)
  case (Cons b bs)
  then have "map_of q (fst b) = Some (snd b)" using keys_map_of [OF assms(1), of "fst b" "snd b"] by simp
  then show ?case using Cons by (simp add: map_filter_simps case_prod_beta)
qed (simp add: map_filter_simps)

lemma group_cases:
  assumes "park_ok p"
  obtains (none) "group_of p n = []"
    | (grp) h where "group_of p n = map fst (filter (of_stamp h) (pk_ops p))" "filter (of_stamp h) (pk_ops p) \<noteq> []"
proof (cases "map_of (pk_ops p) n")
  case None
  then show ?thesis using none by (simp add: group_of_def)
next
  case (Some v)
  obtain o1 e where v: "v = (o1, e)" by fastforce
  then have m: "(n, o1, e) \<in> set (pk_ops p)" using Some by (simp add: map_of_SomeD)
  then show ?thesis using grp stamp_nonempty group_index [OF assms m] Some v by (simp add: group_of_def)
qed

lemma distinct_ids_sub:
  assumes "distinct (map o_id xs)" "mset ys \<subseteq># mset xs"
  shows "distinct (map o_id ys)"
proof -
  obtain zs where "mset xs = mset (ys @ zs)" using assms(2) by (metis ex_mset mset_append subset_mset.add_diff_inverse)
  then show ?thesis using assms(1) by (metis distinct_append map_append mset_eq_imp_distinct_iff mset_map)
qed

lemma retry_group_ok:
  assumes ok: "park_ok p" "whole_ok p" and d: "distinct (map o_id (waiting p))"
    and r: "retry_group st p out (group_of p n) = (st', p', out', touched)"
  shows "park_ok p' \<and> whole_ok p' \<and>
    handled st st' (mset (waiting p) + told (pg_skipped out)) (mset (waiting p') + told (pg_skipped out'))"
  using ok(1)
proof (cases rule: group_cases [where n = n])
  case none
  then have "st' = st \<and> p' = p \<and> pg_skipped out' = pg_skipped out"
    using r by (auto simp: retry_group_def map_filter_simps needs_a_missing_task_def apply_leniently_def landed_of_def Let_def)
  then show ?thesis using ok by (simp add: handled_refl)
next
  case (grp h)
  let ?bs = "filter (of_stamp h) (pk_ops p)" and ?grp = "group_of p n"
  define ops where "ops = map (\<lambda>b. (fst b, fst (snd b))) ?bs"
  define bare where "bare = map snd ops"
  have k: "keys_ok (pk_ops p)" using ok(1) by (simp add: park_ok_def)
  have ops: "List.map_filter (\<lambda>n. map_option (\<lambda>(o1, _). (n, o1)) (map_of (pk_ops p) n)) ?grp = ops"
    unfolding grp(1) ops_def using k by (intro lookup_all) auto
  show ?thesis
  proof (cases "needs_a_missing_task st bare")
    case True
    then show ?thesis using r ops ok by (simp add: retry_group_def bare_def handled_refl)
  next
    case False
    define p1 where "p1 = fold (\<lambda>n q. fst (take_op n q)) ?grp p"
    define p2 where "p2 = (case bare of [] \<Rightarrow> p1 | o1 # _ \<Rightarrow> p1\<lparr>pk_whole := pk_whole p1 - {o_hlc o1}\<rparr>)"
    obtain st1 failed where f: "apply_leniently bare st = (st1, failed)" by fastforce
    obtain q sk where s: "fold (settle_failed st1 ops) failed (p2, pg_skipped out) = (q, sk)" by fastforce
    have "retry_group st p out ?grp = (st1, q, \<lparr>pg_skipped = sk, pg_landed = pg_landed out + length (landed_of bare failed)\<rparr>,
        List.map_filter (\<lambda>o1. subject (o_kind o1)) (landed_of bare failed))"
      using False f s unfolding retry_group_def ops Let_def p1_def p2_def bare_def by simp
    with r have eq: "st1 = st'" "q = p'" "sk = pg_skipped out'" by auto
    note f = f [unfolded eq] and s = s [unfolded eq]
    obtain b bs where b: "?bs = b # bs" using grp(2) by (cases ?bs) auto
    then have "b \<in> set ?bs" by simp
    then have "of_stamp h b" by simp
    with b obtain o1 os where bare: "bare = o1 # os" "o_hlc o1 = h" by (simp add: bare_def ops_def)
    have p1: "park_ok p1" "whole_ok p1" "pk_next p1 = pk_next p" unfolding p1_def using ok by (simp_all add: park_ok_takes whole_ok_takes next_takes)
    have in_grp: "fst b \<in> set ?grp \<longleftrightarrow> of_stamp h b" if "b \<in> set (pk_ops p)" for b
      unfolding grp(1) using that keys_same [OF k that] by auto
    then have "pk_ops p1 = filter (\<lambda>b. \<not> of_stamp h b) (pk_ops p)" unfolding p1_def take_all_ops by (intro filter_cong) auto
    then have p2: "park_ok p2" "whole_ok p2" "pk_next p2 = pk_next p" "pk_ops p2 = filter (\<lambda>b. \<not> of_stamp h b) (pk_ops p)"
      using p1 bare by (auto simp: p2_def park_ok_def whole_ok_def numbers_def waiting_def)
    have all: "mset (waiting p) = mset bare + mset (waiting p2)"
      unfolding waiting_def p2(4) bare_def ops_def by (simp add: multiset.map_comp comp_def flip: image_mset_union)
    note left = leniently_handled [OF f]
    have done_: "park_ok p' \<and> whole_ok p' \<and> mset (waiting p') + told (pg_skipped out') = told failed + mset (waiting p2) + told (pg_skipped out)"
    proof (rule settle_all_ok [OF p2(1,2) _ _ _ _ _ s])
      show "distinct (map fst ops)" using keys_ok_filter [OF k] by (simp add: ops_def keys_ok_def comp_def)
      have "distinct (map o_id bare)" using distinct_ids_sub [OF d] all by simp
      then show "distinct (map (o_id \<circ> snd) ops)" by (simp add: bare_def)
      show "distinct (map (o_id \<circ> fst) failed)"
        using distinct_ids_sub [OF \<open>distinct (map o_id bare)\<close>, of "map fst failed"] handled_left [OF left] by simp
      show "fst ` set failed \<subseteq> snd ` set ops" using set_mset_mono [OF handled_left [OF left]] by (simp add: bare_def)
      show "\<forall>(n, o1) \<in> set ops. n \<le> pk_next p2 \<and> (o1 \<in> fst ` set failed \<longrightarrow> n \<notin> numbers p2)"
        using ok(1) in_grp unfolding ops_def numbers_def p2(3,4) by (auto simp: park_ok_def numbers_def) (metis fst_conv snd_conv)
    qed
    have "handled st st' (mset bare + (mset (waiting p2) + told (pg_skipped out))) (told failed + (mset (waiting p2) + told (pg_skipped out)))"
      using handled_more [OF left] .
    then show ?thesis using done_ all by (simp add: union_assoc)
  qed
qed

lemma length_numbers: "park_ok p \<Longrightarrow> length (pk_ops p) = card (numbers p)"
  unfolding numbers_def by (metis distinct_card keys_ok_def length_map list.set_map park_ok_def)

text \<open>Where the operations of \<open>xs\<close> are, starting from the document \<open>st0\<close>: applied, waiting or reported.\<close>

definition placed :: "doc_state \<Rightarrow> op list \<Rightarrow> doc_state \<Rightarrow> parked \<Rightarrow> parking \<Rightarrow> bool" where
  "placed st0 xs st p out \<longleftrightarrow> park_ok p \<and> whole_ok p \<and> bounded p \<and>
     handled st0 st (mset xs) (mset (waiting p) + told (pg_skipped out))"

lemma placed_ids: "placed st0 xs st p out \<Longrightarrow> distinct (map o_id xs) \<Longrightarrow> distinct (map o_id (waiting p))"
  unfolding placed_def by (metis distinct_ids_sub handled_left mset_subset_eq_add_left subset_mset.order_trans)

lemma placed_retry_group:
  assumes "distinct (map o_id xs)" "placed st0 xs st p out" "retry_group st p out (group_of p n) = (st1, p1, out1, touched)"
  shows "placed st0 xs st1 p1 out1"
proof -
  have ok: "park_ok p" "whole_ok p" "bounded p" "handled st0 st (mset xs) (mset (waiting p) + told (pg_skipped out))"
    using assms(2) by (simp_all add: placed_def)
  note g = retry_group_ok [OF ok(1,2) placed_ids [OF assms(2,1)] assms(3)]
  have "bounded p1" unfolding bounded_def
    using g ok length_numbers [of p] length_numbers [of p1] card_mono [OF finite_numbers retry_group_numbers(1) [OF assms(3)]]
    by (simp add: bounded_def)
  then show ?thesis using g handled_trans [OF ok(4), of st1 "{#}"] by (simp add: placed_def)
qed

lemma placed_retry_rounds:
  "distinct (map o_id xs) \<Longrightarrow> placed st0 xs st p out \<Longrightarrow> retry_rounds st p out round = (st', p', out') \<Longrightarrow> placed st0 xs st' p' out'"
proof (induction st p out round rule: retry_rounds.induct)
  case (1 st p out round)
  show ?case
  proof (cases "round = []")
    case True
    then show ?thesis using "1.prems" by (simp add: retry_rounds.simps)
  next
    case False
    obtain st1 p1 out1 later where r: "retry_pass st p out round [] 0 = (st1, p1, out1, later)" by (metis prod_cases4)
    have "placed st0 xs st1 p1 out1"
      by (rule retry_pass_keeps [where Q = "placed st0 xs", OF _ "1.prems"(2) r]) (rule placed_retry_group [OF "1.prems"(1)])
    moreover have "retry_rounds st1 p1 out1 later = (st', p', out')" using "1.prems"(3) False r by (subst (asm) retry_rounds.simps) simp
    ultimately show ?thesis using "1.IH" [OF False r [symmetric] refl refl "1.prems"(1)] by simp
  qed
qed

lemma placed_group:
  assumes "distinct (map o_id (xs @ grp))" "placed st0 xs st p out" "parking_group grp (st, p, out) = (st', p', out')"
  shows "placed st0 (xs @ grp) st' p' out'"
proof -
  have ok: "park_ok p" "whole_ok p" "bounded p" and h: "handled st0 st (mset xs) (mset (waiting p) + told (pg_skipped out))"
    using assms(2) by (simp_all add: placed_def)
  let ?joins = "case grp of [] \<Rightarrow> False | o1 # _ \<Rightarrow> waits_whole p (o_hlc o1)"
  show ?thesis
  proof (cases "?joins \<or> needs_a_missing_task st grp")
    case True
    obtain q sk where q: "fold park grp (p, pg_skipped out) = (q, sk)" by fastforce
    then have "st' = st" "p' = q" "pg_skipped out' = sk" using assms(3) True by (auto simp: parking_group_def)
    moreover note park_all_ok [OF ok q]
    moreover have "handled st0 st (mset xs + mset grp) (mset (waiting p) + told (pg_skipped out) + mset grp)" by (rule handled_more [OF h])
    ultimately show ?thesis by (simp add: placed_def ac_simps)
  next
    case False
    obtain st1 failed where f: "apply_leniently grp st = (st1, failed)" by fastforce
    obtain q sk where q: "fold (park_failed st1) failed (p, pg_skipped out) = (q, sk)" by fastforce
    let ?touched = "List.map_filter (\<lambda>o1. subject (o_kind o1)) (landed_of grp failed)" and ?out = "out\<lparr>pg_skipped := sk\<rparr>"
    have r: "(if ?touched \<noteq> [] then retry st1 q ?out ?touched else (st1, q, ?out)) = (st', p', out')"
      using assms(3) False f q by (simp add: parking_group_def Let_def split: if_splits)
    have "handled st st1 (mset grp + (mset (waiting p) + told (pg_skipped out))) (told failed + (mset (waiting p) + told (pg_skipped out)))"
      by (rule handled_more [OF leniently_handled [OF f]])
    then have "handled st0 st1 (mset xs + mset grp) (told failed + (mset (waiting p) + told (pg_skipped out)))"
      using handled_trans [OF h, of st1 "mset grp"] by (simp add: ac_simps)
    then have "placed st0 (xs @ grp) st1 q ?out" using park_failed_ok [OF ok q] by (simp add: placed_def ac_simps)
    then show ?thesis using r placed_retry_rounds [OF assms(1)] by (auto simp: retry_def split: if_splits)
  qed
qed

lemma placed_groups:
  "distinct (map o_id (xs @ concat gs)) \<Longrightarrow> placed st0 xs st p out \<Longrightarrow> fold parking_group gs (st, p, out) = (st', p', out') \<Longrightarrow>
   placed st0 (xs @ concat gs) st' p' out'"
proof (induction gs arbitrary: xs st p out)
  case (Cons g gs)
  obtain st1 p1 out1 where s: "parking_group g (st, p, out) = (st1, p1, out1)" by (metis prod_cases3)
  have "placed st0 (xs @ g) st1 p1 out1" using Cons.prems(1) by (intro placed_group [OF _ Cons.prems(2) s]) auto
  then show ?case using Cons.IH [of "xs @ g" st1 p1 out1] Cons.prems(1,3) s by simp
qed simp

section \<open>The properties\<close>

text \<open>The queues a document can have: empty at first, then whatever batches of operations with identifiers of
  their own leave.\<close>

inductive parked_after :: "doc_state \<Rightarrow> op list \<Rightarrow> doc_state \<Rightarrow> parked \<Rightarrow> bool" for st0 where
  empty: "parked_after st0 [] st0 parked_default"
| batch: "parked_after st0 xs st p \<Longrightarrow> distinct (map o_id (xs @ os)) \<Longrightarrow> apply_parking st os p = (st', p', out) \<Longrightarrow>
    parked_after st0 (xs @ os) st' p'"

lemma parked_default_ok: "park_ok parked_default" "whole_ok parked_default" "bounded parked_default"
  by (auto simp: parked_default_def park_ok_def whole_ok_def bounded_def keys_ok_def numbers_def index_of_ops_def)

lemma parked_after_ok:
  "parked_after st0 xs st p \<Longrightarrow> park_ok p \<and> whole_ok p \<and> bounded p \<and> mset (waiting p) \<subseteq># mset xs"
proof (induction rule: parked_after.induct)
  case empty
  then show ?case using parked_default_ok by (simp add: waiting_def parked_default_def)
next
  case (batch xs st p os st' p' out)
  have "distinct (map o_id (waiting p @ os))"
    by (rule distinct_ids_sub [OF batch.hyps(2)]) (simp add: batch.IH)
  moreover have "placed st (waiting p) st p parking_default"
    using batch.IH handled_refl by (simp add: placed_def parking_default_def)
  ultimately have "placed st (waiting p @ os) st' p' out"
    using placed_groups [of "waiting p" "commits os" st st p parking_default] batch.hyps(3)
    by (simp add: apply_parking_def concat_commits)
  then have "park_ok p' \<and> whole_ok p' \<and> bounded p'" "mset (waiting p') + told (pg_skipped out) \<subseteq># mset (waiting p @ os)"
    unfolding placed_def using handled_left by blast+
  moreover have "mset (waiting p') \<subseteq># mset (waiting p') + told (pg_skipped out)" by simp
  moreover have "mset (waiting p @ os) \<subseteq># mset (xs @ os)" using batch.IH by simp
  ultimately show ?case by (meson subset_mset.order_trans)
qed

text \<open>C26: no operation of a peer is lost. A batch handed to a document with a queue that earlier batches left, all
  operations with identifiers of their own: every operation of the batch and every one that was waiting is, after
  it, either applied to the document exactly once, or waiting, or reported as skipped.\<close>

theorem parking_loses_nothing:
  assumes "parked_after st0 xs st p" and "distinct (map o_id (xs @ os))" and "apply_parking st os p = (st', p', out)"
  shows "\<exists>applied. op_steps st applied st' \<and>
    mset applied + mset (waiting p') + mset (map fst (pg_skipped out)) = mset (waiting p) + mset os"
proof -
  have p: "park_ok p \<and> whole_ok p \<and> bounded p" "mset (waiting p) \<subseteq># mset xs" using parked_after_ok [OF assms(1)] by blast+
  have "distinct (map o_id (waiting p @ os))" by (rule distinct_ids_sub [OF assms(2)]) (simp add: p)
  moreover have "placed st (waiting p) st p parking_default"
    using p handled_refl by (simp add: placed_def parking_default_def)
  ultimately have "placed st (waiting p @ os) st' p' out"
    using placed_groups [of "waiting p" "commits os" st st p parking_default] assms(3)
    by (simp add: apply_parking_def concat_commits)
  then show ?thesis by (auto simp: placed_def handled_def union_assoc)
qed

text \<open>A move after a task not here yet, and the insert of that task, in one commit.\<close>

definition late_move :: op where
  "late_move = (user_op (Hlc 5 0 2) (OMove 7 (Some 9) ''todo.txt''))\<lparr>o_id := 1\<rparr>"

definition late_insert :: op where
  "late_insert = (user_op (Hlc 5 0 2) (OInsert 9 None ''b''))\<lparr>o_id := 2\<rparr>"

lemma late_move_parks:
  "\<exists>out. apply_parking one_line_doc [late_move] parked_default =
    (one_line_doc, put 1 late_move (UnknownTask 7) (parked_default\<lparr>pk_next := 1, pk_whole := {Hlc 5 0 2}\<rparr>), out)"
  by (simp add: apply_parking_def late_move_def user_op_def parking_group_def needs_a_missing_task_def names_def inserts_def
      map_filter_simps has_placement_def one_line_doc_def waits_whole_def parked_default_def park_def push_def first_name_def
      bt_insert_def bt_remove_def MAX_PARKED_OPS_def Let_def empty_doc_def)

definition one_parked :: parked where
  "one_parked = put 1 late_move (UnknownTask 7) (parked_default\<lparr>pk_next := 1, pk_whole := {Hlc 5 0 2}\<rparr>)"

lemma late_insert_joins:
  "\<exists>p out. apply_parking one_line_doc [late_insert] one_parked = (one_line_doc, p, out) \<and> waiting p = [late_move, late_insert]"
  by (simp add: apply_parking_def late_insert_def late_move_def user_op_def parking_group_def one_parked_def waits_whole_def
      parked_default_def park_def push_def put_def waiting_def bt_insert_def bt_remove_def MAX_PARKED_OPS_def Let_def)

lemma split_complete: "\<not> needs_a_missing_task one_line_doc [late_move, late_insert]"
  by (simp add: late_insert_def late_move_def user_op_def needs_a_missing_task_def names_def inserts_def map_filter_simps
      has_placement_def one_line_doc_def)

lemma late_move_refused: "ds_apply late_move one_line_doc = (one_line_doc, Inl (UnknownTask 9))"
  by (simp add: late_move_def user_op_def ds_apply_def apply_inner_def move_task_def one_line_doc_def empty_doc_def anchor_slot_def
     slot_after_def slots_def live_slot_def has_placement_def Let_def)

definition two_line_doc :: doc_state where
  "two_line_doc = empty_doc\<lparr>ds_entries := [ETask 9 (from_bytes ''b'' Lf), ETask 7 (from_bytes ''a'' Lf)], ds_hidden := [False, False],
     ds_visible := [0, 1], ds_stamps := [Hlc 5 0 2, Hlc 1 0 1], ds_parents := [None, None], ds_erasers := [False, False]\<rparr>"

lemma late_insert_applies: "ds_apply late_insert one_line_doc = (two_line_doc, Inr ())"
  by (simp add: late_insert_def two_line_doc_def ds_apply_def apply_inner_def user_op_def empty_doc_def one_line_doc_def apply_insert_def has_placement_def
      slot_after_def anchor_slot_def skip_newer_def insert_entry_def insert_at_def reindex_def slots_def settle_erasers_def
      prune_ghosts_def prune_ghosts_past_def MAX_LINES_PER_FILE_def less_hlc_def hlc_key_def)

lemma late_move_applies: "snd (ds_apply late_move two_line_doc) = Inr ()"
  by (simp add: late_move_def two_line_doc_def ds_apply_def apply_inner_def user_op_def empty_doc_def move_task_def
      live_slot_def is_stale_move_def get_def hide_entry_def reindex_def
      slot_after_def anchor_slot_def skip_newer_def insert_at_def slots_def Let_def less_hlc_def hlc_key_def)

lemma late_group_applies: "snd (apply_leniently [late_move, late_insert] one_line_doc) = []"
proof -
  obtain st where st: "ds_apply late_move two_line_doc = (st, Inr ())" using late_move_applies by (metis prod.collapse)
  have "lenient_rounds one_line_doc [late_move, late_insert] = (st, [])"
    using st late_move_refused late_insert_applies by (simp add: lenient_rounds.simps [of one_line_doc] lenient_rounds.simps [of two_line_doc])
  moreover have "o_hlc late_insert = o_hlc late_move" by (simp add: late_insert_def late_move_def user_op_def)
  ultimately show ?thesis by (simp add: apply_leniently_def)
qed

text \<open>A group taken in two runs can be complete and still wait. The move comes first and waits for the task the
  other half inserts; when that half arrives it joins the waiting group and nothing retries it, although the group
  then needs no missing task and all of it would apply. Taken in one run, the same group lands at once.\<close>

theorem split_group_waits:
  "\<exists>p1 out1 p2 out2. apply_parking one_line_doc [late_move] parked_default = (one_line_doc, p1, out1) \<and>
     apply_parking one_line_doc [late_insert] p1 = (one_line_doc, p2, out2) \<and>
     waiting p2 = [late_move, late_insert] \<and> \<not> needs_a_missing_task one_line_doc (waiting p2) \<and>
     snd (apply_leniently (waiting p2) one_line_doc) = [] \<and>
     pk_ops (fst (snd (apply_parking one_line_doc [late_move, late_insert] parked_default))) = []"
proof -
  obtain out1 where 1: "apply_parking one_line_doc [late_move] parked_default = (one_line_doc, one_parked, out1)"
    using late_move_parks unfolding one_parked_def by blast
  obtain p2 out2 where 2: "apply_parking one_line_doc [late_insert] one_parked = (one_line_doc, p2, out2)" "waiting p2 = [late_move, late_insert]"
    using late_insert_joins by blast
  obtain st where a: "apply_leniently [late_move, late_insert] one_line_doc = (st, [])" using late_group_applies by (metis prod.collapse)
  have h: "o_hlc late_insert = o_hlc late_move" by (simp add: late_insert_def late_move_def user_op_def)
  have "naming parked_default ts = []" for ts
    by (induction ts) (auto simp: naming_def parked_default_def map_filter_simps bs_extend_def)
  then have "pk_ops (fst (snd (apply_parking one_line_doc [late_move, late_insert] parked_default))) = []"
    using a split_complete h
    by (simp add: apply_parking_def parking_group_def waits_whole_def Let_def retry_def retry_rounds.simps)
      (simp add: parked_default_def)
  then show ?thesis using 1 2 split_complete late_group_applies by auto
qed

theorem parking_loses_nothing_witness:
  "\<exists>st' p' out applied. apply_parking one_line_doc [late_move] parked_default = (st', p', out) \<and> op_steps one_line_doc applied st' \<and>
     mset applied + mset (waiting p') + mset (map fst (pg_skipped out)) = {#late_move#}"
proof -
  obtain st' p' out where r: "apply_parking one_line_doc [late_move] parked_default = (st', p', out)" by (metis prod_cases3)
  have "waiting parked_default = []" by (simp add: waiting_def parked_default_def)
  then show ?thesis using parking_loses_nothing [OF parked_after.empty _ r] r by simp
qed

text \<open>C27: the queue of waiting operations is bounded and its indexes are exact. Whatever batches a document was
  handed, no more than the bound wait, in order of arrival under distinct numbers; the index by task lists exactly
  the waiting operations that name the task, the index by stamp exactly those of the commit group, and a group
  marked as waiting whole has an operation waiting.\<close>

theorem parked_queue_exact:
  assumes "parked_after st0 xs st p"
  shows "length (pk_ops p) \<le> MAX_PARKED_OPS \<and> sorted (map fst (pk_ops p)) \<and> distinct (map fst (pk_ops p)) \<and>
    pk_by_task p t = (let g = [n. (n, o1, _) \<leftarrow> pk_ops p, t \<in> set (named o1)] in if g = [] then None else Some g) \<and>
    pk_by_stamp p h = (let g = [n. (n, o1, _) \<leftarrow> pk_ops p, o_hlc o1 = h] in if g = [] then None else Some g) \<and>
    pk_whole p \<subseteq> o_hlc ` set (waiting p)"
proof -
  have l: "concat (map (\<lambda>(n, o1, _). if Q o1 then [n] else []) q) = map fst (filter (\<lambda>b. Q (fst (snd b))) q)" for Q :: "op \<Rightarrow> bool" and q :: "(nat \<times> op \<times> state_error) list"
    by (induction q) auto
  have "park_ok p" "whole_ok p" "bounded p" using parked_after_ok [OF assms] by blast+
  then show ?thesis
    by (simp add: park_ok_def keys_ok_def bounded_def whole_ok_def index_of_ops_def l eq_commute [of h])
qed

theorem parked_queue_exact_witness:
  "\<exists>p out. apply_parking one_line_doc [late_move] parked_default = (one_line_doc, p, out) \<and>
     length (pk_ops p) \<le> MAX_PARKED_OPS \<and> pk_by_task p 9 = Some [1] \<and> pk_whole p \<subseteq> o_hlc ` set (waiting p)"
proof -
  obtain out where r: "apply_parking one_line_doc [late_move] parked_default = (one_line_doc, one_parked, out)"
    using late_move_parks unfolding one_parked_def by blast
  have "parked_after one_line_doc ([] @ [late_move]) one_line_doc one_parked" by (rule parked_after.batch [OF parked_after.empty _ r]) simp
  note q = parked_queue_exact [OF this]
  have "pk_ops one_parked = [(1, late_move, UnknownTask 7)]" by (simp add: one_parked_def bt_insert_def bt_remove_def parked_default_def)
  then have "pk_by_task one_parked 9 = Some [1]"
    using q by (simp add: named_def names_def late_move_def user_op_def map_filter_simps)
  then show ?thesis using r q by blast
qed

end
