(* ===== verification/FastId.thy ===== *)
theory FastId
  imports DocState "HOL-Library.Multiset"
begin

text \<open>
  \<open>fastid.rs\<close>, \<open>id_strip.rs\<close> and \<open>duplicates.rs\<close> of \<open>txtodo-engine\<close>: the identifier of a line by a scan over
  its words instead of a parse, the line without it, and the groups of equal lines. The theorems: on every line
  of a file the scan finds what the parser finds; the byte cut removes what the line editor removes; and the
  duplicate groups are exactly the classes of equal lines with more than one member.
\<close>

section \<open>Definitions\<close>

definition fast_id_of :: "owned_line \<Rightarrow> task_id option" where
  "fast_id_of l =
    Option.bind (ol_raw l) (\<lambda>raw.
      Option.bind (List.find (\<lambda>v. v \<noteq> [])
          (List.map_filter (\<lambda>w. strip_prefix w ''id:'') (split_on is_ascii_whitespace raw)))
        Ulid_parse)"

definition from_tagged_file :: "file_path \<Rightarrow> todo_file \<Rightarrow> state_error + doc_state" where
  "from_tagged_file path file = from_file path file (map fast_id_of (f_lines file)) Tagged"

definition strip_own_id :: "owned_line \<Rightarrow> (task_id \<times> owned_line) option" where
  "strip_own_id l =
    (case fast_id_of l of None \<Rightarrow> None
     | Some i \<Rightarrow> (case Edit_remove_tag Edit_new ''id'' of Inl _ \<Rightarrow> None | Inr e \<Rightarrow> Some (i, apply_edit l e)))"

text \<open>The loop of \<open>own_id_word\<close> over the words, with the offset of the next one.\<close>

fun own_id_from :: "nat \<Rightarrow> string list \<Rightarrow> (nat \<times> nat) option" where
  "own_id_from at [] = None"
| "own_id_from at (w # ws) =
    (if (case strip_prefix w ''id:'' of None \<Rightarrow> False | Some v \<Rightarrow> v \<noteq> []) then Some (at, at + length w)
     else own_id_from (at + length w + 1) ws)"

definition own_id_word :: "string \<Rightarrow> (nat \<times> nat) option" where
  "own_id_word raw = own_id_from 0 (split_on is_ascii_whitespace raw)"

definition after_prefix_token :: "string \<Rightarrow> bool" where
  "after_prefix_token head =
    (let w = last (split_on is_ascii_whitespace head);
         priority = (length w = 3 \<and> w ! 0 = CHR ''('' \<and> is_ascii_uppercase (w ! 1) \<and> w ! 2 = CHR '')'');
         date = (length w = 10 \<and> w ! 4 = CHR ''-'' \<and> w ! 7 = CHR ''-'')
     in w = [] \<or> w = ''x'' \<or> priority \<or> date)"

definition without_own_id :: "owned_line \<Rightarrow> string option" where
  "without_own_id l =
    (case fast_id_of l of None \<Rightarrow> None
     | Some _ \<Rightarrow>
         (case ol_raw l of None \<Rightarrow> None
          | Some raw \<Rightarrow>
              (case own_id_word raw of None \<Rightarrow> None
               | Some (s, e) \<Rightarrow>
                   let before = (if s = 0 then None else Some (raw ! (s - 1)));
                       next = get raw e;
                       cut = (if (before = None \<or> before = Some (CHR '' '')) \<and> next = Some (CHR '' '') then Some (s, e + 1)
                              else if before = Some (CHR '' '') \<and> next = None \<and> \<not> after_prefix_token (take (s - 1) raw)
                              then Some (s - 1, e)
                              else None)
                   in case cut of
                        None \<Rightarrow> map_option (\<lambda>(_, stripped). ol_bytes stripped) (strip_own_id l)
                      | Some (a, b) \<Rightarrow> Some (take a raw @ drop b raw))))"

subsection \<open>Duplicates\<close>

definition comparable :: "identity_mode \<Rightarrow> owned_line \<Rightarrow> string" where
  "comparable m l =
    (case m of
       Tagged \<Rightarrow> (case without_own_id l of Some stripped \<Rightarrow> stripped | None \<Rightarrow> ol_bytes l)
     | Sidecar \<Rightarrow> ol_bytes l)"

text \<open>The map from a line to its tasks, as the list of its bindings; the source's map has no order of its own,
  and the sort at the end makes the order of the bindings irrelevant.\<close>

fun push_to :: "'k \<Rightarrow> 'v \<Rightarrow> ('k \<times> 'v list) list \<Rightarrow> ('k \<times> 'v list) list" where
  "push_to k v [] = [(k, [v])]"
| "push_to k v ((k', vs) # m) = (if k' = k then (k', vs @ [v]) # m else (k', vs) # push_to k v m)"

definition by_line :: "doc_state \<Rightarrow> (string \<times> (task_id \<times> nat) list) list" where
  "by_line st =
    fold (\<lambda>(i, e) m. case e of ETask t l \<Rightarrow> push_to (comparable (ds_mode st) l) (t, i + 1) m | EBlank _ \<Rightarrow> m)
      (indexed_entries st) []"

definition duplicate_groups :: "doc_state \<Rightarrow> (task_id \<times> nat) list list" where
  "duplicate_groups st =
    sort_key (\<lambda>g. Min (snd ` set g)) (map (sort_key fst) (filter (\<lambda>g. length g > 1) (map snd (by_line st))))"

section \<open>The words before the description\<close>

definition prefix_word :: "string \<Rightarrow> bool" where
  "prefix_word w \<longleftrightarrow> w = ''x'' \<or> is_priority_word w \<or> Date_parse w \<noteq> None"

text \<open>The words the parser has passed.\<close>

definition seen :: "parser \<Rightarrow> string list" where
  "seen p = map (chunk_text (p_raw p)) (filter (\<lambda>c. \<not> c_ws c) (take (p_i p) (p_chunks p)))"

definition passed_ok :: "parser \<Rightarrow> bool" where
  "passed_ok p \<longleftrightarrow> pwf p \<and> list_all prefix_word (seen p)"

text \<open>Between the parser's methods it stands at the start, at the end or after a gap; inside them also after a word.\<close>

definition in_prefix :: "parser \<Rightarrow> bool" where
  "in_prefix p \<longleftrightarrow> passed_ok p \<and> (p_i p = 0 \<or> at_end p \<or> c_ws (p_chunks p ! (p_i p - 1)))"

definition at_gap :: "parser \<Rightarrow> bool" where
  "at_gap p \<longleftrightarrow> passed_ok p \<and> (case get (p_chunks p) (p_i p) of None \<Rightarrow> True | Some c \<Rightarrow> c_ws c)"

lemma in_prefix_add_quirk [simp]: "in_prefix (add_quirk q p) = in_prefix p"
  by (simp add: in_prefix_def passed_ok_def seen_def pwf_def add_quirk_def)

lemma seen_advance:
  "seen (advance p) = seen p @ (case get (p_chunks p) (p_i p) of None \<Rightarrow> [] | Some c \<Rightarrow> if c_ws c then [] else [chunk_text (p_raw p) c])"
  by (auto simp: seen_def advance_def get_def take_Suc_conv_app_nth)

lemma alternates_nth: "alternates bs \<Longrightarrow> Suc i < length bs \<Longrightarrow> bs ! Suc i \<noteq> bs ! i"
proof (induction bs arbitrary: i rule: alternates.induct)
  case (1 a b bs)
  then show ?case by (cases i) auto
qed auto

lemma chunks_alternate: "Suc i < length (chunks raw) \<Longrightarrow> c_ws (chunks raw ! Suc i) \<noteq> c_ws (chunks raw ! i)"
  using alternates_nth [OF pieces_alternate [of raw], of i] by (simp flip: chunks_pieces)

lemma word_then_gap:
  assumes "in_prefix p" "p_word p = Some w" "prefix_word w"
  shows "at_gap (advance p)"
proof -
  obtain c where c: "get (p_chunks p) (p_i p) = Some c" "\<not> c_ws c" "w = chunk_text (p_raw p) c"
    using assms(2) by (auto simp: p_word_Some)
  have "case get (p_chunks p) (Suc (p_i p)) of None \<Rightarrow> True | Some c \<Rightarrow> c_ws c"
    using c(1,2) chunks_alternate [of "p_i p" "p_raw p"] assms(1)
    by (auto simp: get_def in_prefix_def passed_ok_def pwf_def split: if_splits)
  then have "case get (p_chunks (advance p)) (p_i (advance p)) of None \<Rightarrow> True | Some c \<Rightarrow> c_ws c" by (simp add: advance_def)
  then show ?thesis using assms c by (simp add: at_gap_def in_prefix_def passed_ok_def seen_advance)
qed

lemma advance_add_quirk [simp]: "advance (add_quirk q p) = add_quirk q (advance p)"
  by (simp add: advance_def add_quirk_def)

lemma gap_advance:
  assumes "at_gap p" "get (p_chunks p) (p_i p) = Some c"
  shows "in_prefix (advance p)"
proof -
  have "c_ws (p_chunks (advance p) ! (p_i (advance p) - 1))" using assms by (auto simp: at_gap_def advance_def get_Some)
  then show ?thesis using assms by (auto simp: at_gap_def in_prefix_def passed_ok_def seen_advance)
qed

lemma separator_in_prefix:
  assumes "at_gap p" "separator p = Inr (m, p')"
  shows "in_prefix p'"
proof (cases "get (p_chunks p) (p_i p)")
  case None
  then show ?thesis using assms by (simp add: separator_def at_gap_def in_prefix_def)
next
  case (Some c)
  then show ?thesis using assms(2) gap_advance [OF assms(1) Some]
    by (auto simp: separator_def lenient_or_def lenient_or_at_def Let_def and_then_eq_Inr split: if_splits)
qed

lemma take_date_in_prefix:
  assumes "in_prefix p" "take_date p = Inr (r, p')"
  shows "r = None \<Longrightarrow> in_prefix p'" "r \<noteq> None \<Longrightarrow> at_gap p'"
proof -
  have "p' = p \<and> r = None \<or> (\<exists>w. p_word p = Some w \<and> prefix_word w \<and> p' = advance p \<and> r \<noteq> None)"
    using assms(2) by (auto simp: take_date_def prefix_word_def split: option.splits if_splits)
  then show "r = None \<Longrightarrow> in_prefix p'" "r \<noteq> None \<Longrightarrow> at_gap p'" using assms(1) word_then_gap by blast+
qed

lemma take_optional_date_in_prefix:
  assumes "in_prefix p" "take_optional_date slot p = Inr (r, p')"
  shows "in_prefix p'"
proof -
  obtain x p1 where x: "take_date p = Inr (x, p1)"
    "(case x of None \<Rightarrow> Inr (slot, p1) | Some d \<Rightarrow> and_then (separator p1) (\<lambda>_ p2. Inr (Some d, p2))) = Inr (r, p')"
    using assms(2) by (auto simp: take_optional_date_def and_then_eq_Inr)
  note d = take_date_in_prefix [OF assms(1) x(1)]
  show ?thesis using x(2) d separator_in_prefix by (cases x) (auto simp: and_then_eq_Inr)
qed

lemma take_priority_in_prefix:
  assumes "in_prefix p" "take_priority t p = Inr (r, p')"
  shows "in_prefix p'"
proof -
  have "p' = p \<or> (\<exists>w m. p_word p = Some w \<and> prefix_word w \<and> separator (advance p) = Inr (m, p'))"
    using assms(2) by (auto simp: take_priority_def prefix_word_def and_then_eq_Inr split: option.splits if_splits)
  then show ?thesis using assms(1) word_then_gap separator_in_prefix by blast
qed

lemma take_priority_as_in_prefix:
  assumes "in_prefix p" "take_priority_as q t p = Inr (r, p')"
  shows "in_prefix p'"
proof -
  obtain x p1 where "take_priority t p = Inr (x, p1)" "p' = p1 \<or> p' = add_quirk q p1"
    using assms(2) by (auto simp: take_priority_as_def and_then_eq_Inr)
  then show ?thesis using take_priority_in_prefix [OF assms(1), of t x p1] by auto
qed

lemma after_completion_date_in_prefix:
  assumes "at_gap p" "after_completion_date t p = Inr (r, p')"
  shows "in_prefix p'"
proof -
  obtain more p1 t1 p2 where k: "separator p = Inr (more, p1)"
    "(if more then and_then (take_optional_date (creation_date t) p1) (\<lambda>slot p2. Inr (t\<lparr>creation_date := slot\<rparr>, p2))
      else Inr (t, p1)) = Inr (t1, p2)"
    "(if p_mode p2 = Lenient \<and> priority_of t1 = None then take_priority_as PRIORITY_AFTER_DATE t1 p2 else Inr (t1, p2)) = Inr (r, p')"
    using assms(2) unfolding after_completion_date_def by (auto simp: and_then_eq_Inr)
  have "in_prefix p1" by (rule separator_in_prefix [OF assms(1) k(1)])
  then have "in_prefix p2" using k(2) take_optional_date_in_prefix by (auto simp: and_then_eq_Inr split: if_splits)
  then show ?thesis using k(3) take_priority_as_in_prefix by (auto split: if_splits)
qed

lemma lenient_or_in_prefix: "in_prefix p \<Longrightarrow> lenient_or q rl msg p = Inr (u, p') \<Longrightarrow> in_prefix p'"
  by (auto simp: lenient_or_def lenient_or_at_def split: if_splits)

lemma completed_prefix_in_prefix:
  assumes "at_gap p" "completed_prefix t p = Inr (r, p')"
  shows "in_prefix p'"
proof -
  obtain more p1 where s: "separator p = Inr (more, p1)" "in_prefix p1"
    using assms separator_in_prefix by (auto simp: completed_prefix_def and_then_eq_Inr)
  show ?thesis
  proof (cases more)
    case False
    then show ?thesis using assms(2) s lenient_or_in_prefix by (auto simp: completed_prefix_def and_then_eq_Inr)
  next
    case True
    then obtain t1 p2 r1 p3 where p2: "(if p_mode p1 = Lenient then take_priority_as PRIORITY_AFTER_X t p1 else Inr (t, p1)) = Inr (t1, p2)"
      and p3: "take_date p2 = Inr (r1, p3)" and k: "(case r1 of
           None \<Rightarrow> and_then (lenient_or NO_COMPLETION_DATE ''completed''
                    ''expected the completion date after x'' p3) (\<lambda>_ p4. Inr (t1, p4))
         | Some d \<Rightarrow> after_completion_date (t1\<lparr>completion_date := Some d\<rparr>) p3) = Inr (r, p')"
      using assms(2) s(1) unfolding completed_prefix_def by (auto simp: and_then_eq_Inr)
    have "in_prefix p2" using p2 s(2) take_priority_as_in_prefix by (auto split: if_splits)
    from take_date_in_prefix [OF this p3] show ?thesis using k lenient_or_in_prefix after_completion_date_in_prefix
      by (auto simp: and_then_eq_Inr split: option.splits)
  qed
qed

lemma incomplete_prefix_in_prefix:
  assumes "in_prefix p" "incomplete_prefix t p = Inr (r, p')"
  shows "in_prefix p'"
proof -
  obtain x p1 slot where "take_priority t p = Inr (x, p1)" "take_optional_date (creation_date (snd x)) p1 = Inr (slot, p')"
    using assms(2) by (auto simp: incomplete_prefix_def and_then_eq_Inr)
  then show ?thesis using take_priority_in_prefix [OF assms(1)] take_optional_date_in_prefix by blast
qed

lemma in_prefix_new: "in_prefix (Parser_new raw m)"
  by (simp add: in_prefix_def passed_ok_def seen_def Parser_new_def pwf_def)

lemma consumed_pieces: "pwf p \<Longrightarrow> consumed p = concat (map snd (take (p_i p) (pieces (p_raw p))))"
proof -
  assume w: "pwf p"
  let ?q = "\<lambda>n. p\<lparr>p_i := n\<rparr>"
  have n: "length (pieces (p_raw p)) = length (chunks (p_raw p))" by (metis chunks_pieces length_map)
  have "consumed (?q n) = concat (map snd (take n (pieces (p_raw p))))" for n
  proof (induction n)
    case 0
    have "consumed (?q 0) = consumed (Parser_new (p_raw p) Lenient)"
      using w by (simp add: consumed_def pos_def Parser_new_def pwf_def split: option.split)
    then show ?case by (simp add: consumed_start)
  next
    case (Suc n)
    have q: "pwf (?q n)" "advance (?q n) = ?q (Suc n)" "p_chunks p = chunks (p_raw p)" using w by (simp_all add: pwf_def advance_def)
    show ?case
    proof (cases "n < length (chunks (p_raw p))")
      case True
      let ?c = "chunks (p_raw p) ! n"
      have "get (p_chunks (?q n)) (p_i (?q n)) = Some ?c" using True q(3) by (simp add: get_def)
      from consumed_advance [OF q(1) this] have "consumed (?q (Suc n)) = consumed (?q n) @ chunk_text (p_raw p) ?c" using q(2) by simp
      moreover have "snd (pieces (p_raw p) ! n) = chunk_text (p_raw p) ?c" using True by (simp flip: chunks_pieces)
      ultimately show ?thesis using Suc True n by (simp add: take_Suc_conv_app_nth)
    next
      case False
      then have "at_end (?q (Suc n))" using q(3) by (simp add: get_def)
      then show ?thesis using consumed_at_end [of "?q (Suc n)"] concat_pieces [of "p_raw p"] False n by simp
    qed
  qed
  from this [of "p_i p"] show ?thesis by simp
qed

text \<open>The words of a line are the words of its prefix and then those of its description.\<close>

lemma parse_pieces:
  assumes "parse_line raw Lenient = Inr l" "l_kind l = TaskLine t"
  obtains ps qs where "pieces raw = ps @ qs" "pieces (description t) = qs" "raw = concat (map snd ps) @ description t"
    "list_all (\<lambda>(w, u). \<not> w \<longrightarrow> prefix_word u) ps" "ps = [] \<or> qs = [] \<or> fst (last ps)"
proof -
  obtain p where pt: "parse_task (Parser_new raw Lenient) = Inr (t, p)"
    using assms unfolding parse_line_def by (auto elim!: parse_line_cases)
  obtain t1 p1 d where k: "t = t1\<lparr>description := d\<rparr>" "parse_description p1 = Inr (d, p)"
    "(if starts_completed (Parser_new raw Lenient) then completed_prefix (empty_task\<lparr>completed := True\<rparr>) (advance (Parser_new raw Lenient))
      else incomplete_prefix empty_task (Parser_new raw Lenient)) = Inr (t1, p1)" "parser_ext (Parser_new raw Lenient) p1"
    using parse_task_parts [OF pt] by metis
  have ip: "in_prefix p1"
  proof (cases "starts_completed (Parser_new raw Lenient)")
    case True
    then have "p_word (Parser_new raw Lenient) = Some ''x''" by (auto simp: starts_completed_def split: if_splits)
    then have "at_gap (advance (Parser_new raw Lenient))" by (rule word_then_gap [OF in_prefix_new]) (simp add: prefix_word_def)
    then show ?thesis using k(3) True completed_prefix_in_prefix by simp
  qed (use k(3) incomplete_prefix_in_prefix [OF in_prefix_new] in simp)
  let ?i = "p_i p1"
  let ?ps = "take ?i (pieces raw)" and ?qs = "drop ?i (pieces raw)"
  have raw: "p_raw p1 = raw" "p_chunks p1 = chunks raw" using k(4) by (simp_all add: parser_ext_def Parser_new_def)
  have pre: "list_all prefix_word (seen p1)" "pwf p1" using ip by (simp_all add: in_prefix_def passed_ok_def)
  have "raw = consumed p1 @ d" using parse_description_result [OF k(2)] raw by simp
  then have r: "raw = concat (map snd ?ps) @ d" using consumed_pieces [OF pre(2)] raw by simp
  moreover have "raw = concat (map snd ?ps) @ concat (map snd ?qs)"
    using concat_pieces [of raw] by (simp flip: concat_append map_append)
  ultimately have d: "d = concat (map snd ?qs)" by (metis same_append_eq)
  have "pieces d = ?qs" unfolding d
  proof (rule pieces_concat)
    show "alternates (map fst ?qs)"
      using alternates_appendD [of "map fst ?ps" "map fst ?qs"] pieces_alternate [of raw] by (simp flip: map_append)
    show "\<forall>(w, u) \<in> set ?qs. u \<noteq> [] \<and> (\<forall>c \<in> set u. is_ws c = w)"
      using pieces_nonempty pieces_uniform by (blast dest: in_set_dropD)
  qed
  moreover have "list_all (\<lambda>(w, u). \<not> w \<longrightarrow> prefix_word u) ?ps"
    using pre(1) by (auto simp: seen_def raw take_map list_all_iff simp flip: chunks_pieces)
  moreover have "?ps = [] \<or> ?qs = [] \<or> fst (last ?ps)"
  proof -
    have n: "length (pieces raw) = length (chunks raw)" by (metis chunks_pieces length_map)
    have "?i = 0 \<or> length (chunks raw) \<le> ?i \<or> c_ws (chunks raw ! (?i - 1))"
      using ip raw by (auto simp: in_prefix_def get_def split: if_splits)
    moreover have "fst (last ?ps) = c_ws (chunks raw ! (?i - 1))" if "0 < ?i" "?i < length (chunks raw)"
    proof -
      have "?ps \<noteq> []" using that n by auto
      then have "last ?ps = pieces raw ! (?i - 1)" using that n by (subst last_conv_nth) simp_all
      then show ?thesis using that by (simp flip: chunks_pieces)
    qed
    ultimately show ?thesis using n by force
  qed
  ultimately show thesis using that [of ?ps ?qs] r k(1) by simp
qed

lemma parse_words:
  assumes "parse_line raw Lenient = Inr l" "l_kind l = TaskLine t"
  shows "\<exists>us. word_texts raw = us @ word_texts (description t) \<and> list_all prefix_word us"
proof -
  obtain ps qs where "pieces raw = ps @ qs" "pieces (description t) = qs" "list_all (\<lambda>(w, u). \<not> w \<longrightarrow> prefix_word u) ps"
    using parse_pieces [OF assms] by metis
  then show ?thesis
    by (intro exI [of _ "map snd (filter (\<lambda>(w, _). \<not> w) ps)"]) (auto simp: word_texts_pieces list_all_iff)
qed

section \<open>The scan finds what the parser finds\<close>

lemma plain_id: "plain_key ''id''" "CHR '':'' \<notin> set ''id''"
  by code_simp+

lemma prefix_word_no_id: "prefix_word w \<Longrightarrow> strip_prefix w ''id:'' = None"
proof -
  assume "prefix_word w"
  then have "w = ''x'' \<or> (\<exists>c. w = [CHR ''('', c, CHR '')'']) \<or> (\<exists>d. valid_date d \<and> w = Date_fmt d)"
    by (auto simp: prefix_word_def is_priority_word_iff date_codec.parse_iff)
  moreover have "strip_prefix (Date_fmt d) ''id:'' = None" if "valid_date d" for d
  proof (rule ccontr)
    assume "strip_prefix (Date_fmt d) ''id:'' \<noteq> None"
    then have "CHR ''i'' \<in> set (Date_fmt d)" by (auto simp: strip_prefix_Some)
    then show False using Date_fmt_no_ws [OF that, of "CHR ''i''"] by (simp add: is_ascii_digit_def)
  qed
  moreover have "strip_prefix ''x'' ''id:'' = None" "strip_prefix [CHR ''('', c, CHR '')''] ''id:'' = None" for c
    by (simp_all add: strip_prefix_def starts_with_def)
  ultimately show ?thesis by metis
qed

lemma has_id_iff: "has_key ''id'' w \<longleftrightarrow> (\<exists>v. v \<noteq> [] \<and> strip_prefix w ''id:'' = Some v)"
  using has_key_plain [OF plain_id(1) _ plain_id(2), of w] by (simp add: strip_prefix_Some)

lemma lookup_id:
  "lookup_words ''id'' ws = List.find (\<lambda>v. v \<noteq> []) (List.map_filter (\<lambda>w. strip_prefix w ''id:'') ws)"
proof (induction ws)
  case (Cons w ws)
  show ?case
  proof (cases "has_key ''id'' w")
    case True
    then obtain v where v: "v \<noteq> []" "strip_prefix w ''id:'' = Some v" by (auto simp: has_id_iff)
    then have "tag_of_word w = Some (''id'', v)" using tag_of_colon_word [of "''id''" v] plain_id by (simp add: strip_prefix_Some)
    then have "lookup_words ''id'' (w # ws) = Some v" by (simp add: lookup_words_Cons)
    then show ?thesis by (simp add: map_filter_simps v del: strip_prefix_Some)
  next
    case False
    then have "strip_prefix w ''id:'' = None \<or> strip_prefix w ''id:'' = Some []"
      by (cases "strip_prefix w ''id:''") (auto simp: has_id_iff)
    then show ?thesis using Cons lookup_words_skip [OF False] by (auto simp: map_filter_simps simp del: strip_prefix_Some)
  qed
qed (simp add: map_filter_simps)

lemma find_id_nonempty:
  "List.map_filter (\<lambda>w. strip_prefix w ''id:'') (filter (\<lambda>w. w \<noteq> []) ws) = List.map_filter (\<lambda>w. strip_prefix w ''id:'') ws"
  by (induction ws) (auto simp: map_filter_simps strip_prefix_def starts_with_def)

lemma split_on_cong: "\<forall>c \<in> set s. P c = Q c \<Longrightarrow> split_on P s = split_on Q s"
  by (induction s) auto

lemma no_break_ws: "\<forall>c \<in> set s. byte_val c \<notin> {10, 12, 13} \<Longrightarrow> split_on is_ascii_whitespace s = split_on is_ws s"
proof (rule split_on_cong, rule ballI)
  fix c assume "\<forall>c \<in> set s. byte_val c \<notin> {10, 12, 13}" "c \<in> set s"
  moreover have "byte_val c = 9 \<longleftrightarrow> c = TAB" "byte_val c = 32 \<longleftrightarrow> c = CHR '' ''"
    using byte_val_inj [of c TAB] byte_val_inj [of c "CHR '' ''"] by (simp_all add: TAB_def)
  ultimately show "is_ascii_whitespace c = is_ws c" by (auto simp: is_ascii_whitespace_def is_ws_def)
qed

lemma fast_id_words:
  assumes "ol_raw l = Some raw" "\<forall>c \<in> set raw. byte_val c \<notin> {10, 12, 13}"
  shows "fast_id_of l = Option.bind (lookup_words ''id'' (word_texts raw)) Ulid_parse"
  using assms no_break_ws [OF assms(2)] by (simp add: fast_id_of_def lookup_id word_texts_split find_id_nonempty)

lemma fast_id_of_raw:
  assumes "\<forall>c \<in> set (ol_bytes l). byte_val c \<notin> {10, 12, 13}"
  shows "fast_id_of l = id_of l"
proof (cases "ol_raw l")
  case None
  then show ?thesis by (simp add: fast_id_of_def id_of_def ol_parse_def)
next
  case (Some raw)
  then have raw: "raw = ol_bytes l" by (simp add: ol_raw_def split: if_splits)
  obtain p where p: "parse_line raw Lenient = Inr p" using parse_lenient_Inr by blast
  note f = fast_id_words [OF Some assms [folded raw]]
  show ?thesis
  proof (cases "l_kind p")
    case Blank
    then have "raw = []" using p unfolding parse_line_def by (auto elim!: parse_line_cases)
    then show ?thesis using f Some p Blank by (simp add: id_of_def ol_parse_def)
  next
    case (TaskLine t)
    obtain us where us: "word_texts raw = us @ word_texts (description t)" "list_all prefix_word us"
      using parse_words [OF p TaskLine] by blast
    have "\<forall>w \<in> set us. \<not> has_key ''id'' w" using us(2) prefix_word_no_id by (auto simp: list_all_iff has_id_iff)
    then have "lookup_words ''id'' (word_texts raw) = tag t ''id''" unfolding us(1) by (simp add: lookup_words_append tag_lookup)
    then show ?thesis using f Some p TaskLine by (simp add: id_of_def ol_parse_def task_ulid_def)
  qed
qed

section \<open>The byte cut removes what the editor removes\<close>

lemma pieces_split:
  assumes "pieces raw = ps @ qs"
  shows "pieces (concat (map snd ps)) = ps"
proof (rule pieces_concat)
  show "alternates (map fst ps)" using alternates_appendD [of "map fst ps" "map fst qs"] pieces_alternate [of raw] assms by simp
  show "\<forall>(w, u) \<in> set ps. u \<noteq> [] \<and> (\<forall>c \<in> set u. is_ws c = w)"
    using pieces_nonempty [of _ _ raw] pieces_uniform [of _ _ raw] assms by fastforce
qed

lemma find_piece_shift: "find_piece P (n + off) ps = map_option (\<lambda>(s, e). (n + s, n + e)) (find_piece P off ps)"
proof (induction ps arbitrary: off)
  case (Cons q ps)
  then show ?case using Cons [of "off + length (snd q)"] by (cases q) (simp add: add.assoc)
qed simp

text \<open>A line with an identifier, taken apart: the prefix, the description up to the tag, the tag and what follows.\<close>

lemma own_id_parts:
  assumes raw: "ol_raw l = Some raw" "\<forall>c \<in> set raw. byte_val c \<notin> {10, 12, 13}" and id: "fast_id_of l \<noteq> None"
  obtains pre a w b where "raw = pre @ a @ w @ b" "word_at a w b" "draft_of raw = \<lparr>d_prefix = d_prefix (draft_of raw), d_description = a @ w @ b\<rparr>"
    "description_start raw = length pre" "find_tag (a @ w @ b) ''id'' = Some (length a, length a + length w)"
    "find_tag raw ''id'' = Some (length pre + length a, length pre + length a + length w)"
    "list_all prefix_word (word_texts pre)" "pre = [] \<or> is_ws (last pre)" "pre = [] \<or> a = [] \<or> \<not> is_ws (hd a)"
proof -
  obtain p where p: "parse_line raw Lenient = Inr p" using parse_lenient_Inr by blast
  have "lookup_words ''id'' (word_texts raw) \<noteq> None" using id fast_id_words [OF raw] by (auto simp: bind_eq_Some_conv)
  then have key: "\<exists>u \<in> set (word_texts raw). has_key ''id'' u" using lookup_words_append [of "word_texts raw" "''id''" "[]"] by fastforce
  then have "raw \<noteq> []" by auto
  then obtain t where t: "l_kind p = TaskLine t" using p unfolding parse_line_def by (auto elim!: parse_line_cases)
  obtain ps qs where q: "pieces raw = ps @ qs" "pieces (description t) = qs" "raw = concat (map snd ps) @ description t"
    "list_all (\<lambda>(w, u). \<not> w \<longrightarrow> prefix_word u) ps" "ps = [] \<or> qs = [] \<or> fst (last ps)"
    using parse_pieces [OF p t] by metis
  let ?pre = "concat (map snd ps)"
  have "\<not> has_key ''id'' u" if "prefix_word u" for u using prefix_word_no_id [OF that] by (simp add: has_id_iff)
  then have no: "\<forall>u. (False, u) \<in> set ps \<longrightarrow> \<not> has_key ''id'' u" using q(4) by (auto simp: list_all_iff)
  then obtain s e where d: "find_tag (description t) ''id'' = Some (s, e)"
    using key find_tag_None [of "description t" "''id''"] q(1,2) by (cases "find_tag (description t) ''id''") (auto simp: word_texts_pieces)
  have whole: "find_tag raw ''id'' = Some (length ?pre + s, length ?pre + e)"
    using d find_piece_append_None [of ps "has_key ''id''" 0 qs] no find_piece_shift [of "has_key ''id''" "length ?pre" 0 qs] q(1,2)
    by (simp add: find_tag_pieces)
  obtain a w b where a: "description t = a @ w @ b" "word_at a w b" "s = length a" "e = length a + length w"
    using find_tag_Some [OF d] by metis
  have un: "u \<noteq> [] \<and> (\<forall>c \<in> set u. is_ws c = v)" if "(v, u) \<in> set (pieces raw)" for v u
    using that pieces_nonempty pieces_uniform by blast
  have "qs \<noteq> []" using a(1,2) q(2) by (auto simp: word_at_def)
  then have ws: "ps = [] \<or> fst (last ps)" using q(5) by simp
  then have end_ws: "?pre = [] \<or> is_ws (last ?pre)"
  proof (cases ps rule: rev_cases)
    case (snoc xs x)
    moreover obtain v u where x: "x = (v, u)" by fastforce
    ultimately have "v" "u \<noteq> [] \<and> (\<forall>c \<in> set u. is_ws c = v)" using ws un [of v u] q(1) by auto
    then show ?thesis using snoc x by simp
  qed simp
  moreover have "?pre = [] \<or> a = [] \<or> \<not> is_ws (hd a)"
  proof (cases "ps = [] \<or> a = []")
    case False
    then obtain v u rest where r: "qs = (v, u) # rest" using \<open>qs \<noteq> []\<close> by (cases qs) auto
    obtain xs x where x: "ps = xs @ [x]" using False by (cases ps rule: rev_cases) auto
    have "fst x \<noteq> v" using pieces_alternate [of raw] alternates_append [of "map fst xs" "fst x" v "map fst rest"] q(1) r x by simp
    then have "\<not> v" using ws x by simp
    moreover have "u \<noteq> []" "\<forall>c \<in> set u. is_ws c = v" using un [of v u] q(1) r by auto
    moreover have "description t = u @ concat (map snd rest)" using concat_pieces [of "description t"] q(2) r by simp
    ultimately have "\<not> is_ws (hd (description t))" by (cases u) auto
    then show ?thesis using False a(1) by (cases a) auto
  qed auto
  moreover have "list_all prefix_word (word_texts ?pre)"
    using q(4) pieces_split [OF q(1)] by (auto simp: word_texts_pieces list_all_iff)
  moreover have "description_start raw = length ?pre" using p t q(3) by (simp add: description_start_def)
  moreover have "d_description (draft_of raw) = a @ w @ b" using p t a(1) by (simp add: draft_of_def)
  ultimately show thesis using that [of ?pre a w b] q(3) a whole d by (simp add: add.assoc)
qed

lemma own_id_from_find: "own_id_from at ws = find_word (tag_word ''id'') at ws"
proof (induction ws arbitrary: at)
  case (Cons w ws)
  have "(case strip_prefix w ''id:'' of None \<Rightarrow> False | Some v \<Rightarrow> v \<noteq> []) = tag_word ''id'' w"
  proof -
    have "(case strip_prefix w ''id:'' of None \<Rightarrow> False | Some v \<Rightarrow> v \<noteq> []) = (\<exists>v. strip_prefix w ''id:'' = Some v \<and> v \<noteq> [])"
      by (simp split: option.split del: strip_prefix_Some)
    then show ?thesis by (auto simp: tag_word_iff)
  qed
  then show ?case using Cons by (simp add: Let_def)
qed simp

lemma own_id_word_find:
  "\<forall>c \<in> set raw. byte_val c \<notin> {10, 12, 13} \<Longrightarrow> own_id_word raw = find_tag raw ''id''"
  using tag_find_plain [of "''id''" raw] plain_id no_break_ws [of raw]
  by (simp add: own_id_word_def own_id_from_find tag_find_def valid_tag_key_def is_ascii_whitespace_def TAB_def)

lemma remove_tag_edit: "Edit_remove_tag Edit_new ''id'' = Inr [RemoveTag ''id'']"
  by code_simp

text \<open>What the editor makes of the line, in terms of its parts.\<close>

lemma remove_id_parts:
  assumes "find_tag (a @ w @ b) ''id'' = Some (length a, length a + length w)"
  shows "remove_tag_text (a @ w @ b) ''id'' =
    (if a \<noteq> [] \<and> last a = CHR '' '' then butlast a @ b
     else if b \<noteq> [] \<and> hd b = CHR '' '' then a @ tl b else a @ b)"
proof -
  have "(a @ w @ b) ! (length a - 1) = last a" if "a \<noteq> []" using that by (simp add: nth_append last_conv_nth)
  moreover have "get (a @ w @ b) (length a + length w) = (if b = [] then None else Some (hd b))"
    by (cases b) (auto simp: get_def nth_append)
  moreover have "take (length a - 1) (a @ w @ b) = butlast a" by (simp add: butlast_conv_take)
  ultimately show ?thesis using assms
    by (cases b) (auto simp: remove_tag_text_def replace_range_def Let_def)
qed

lemma strip_own_id_bytes:
  assumes "fast_id_of l = Some i" "ol_raw l = Some raw" "raw = pre @ a @ w @ b" "w \<noteq> []"
    and "draft_of raw = \<lparr>d_prefix = d_prefix (draft_of raw), d_description = a @ w @ b\<rparr>"
    and "description_start raw = length pre" and "find_tag (a @ w @ b) ''id'' = Some (length a, length a + length w)"
  shows "map_option (\<lambda>(_, stripped). ol_bytes stripped) (strip_own_id l) = Some (join_line pre (remove_tag_text (a @ w @ b) ''id''))"
proof -
  let ?d = "remove_tag_text (a @ w @ b) ''id''"
  have "length ?d < length (a @ w @ b)" unfolding remove_id_parts [OF assms(7)] using assms(4) by (cases b; cases a rule: rev_cases) auto
  then have ne: "?d \<noteq> a @ w @ b" by auto
  have dd: "d_description (draft_of raw) = a @ w @ b" by (subst assms(5)) simp
  then have "fold draft_apply [RemoveTag ''id''] (draft_of raw) = (draft_of raw)\<lparr>d_description := ?d\<rparr>" by simp
  then have "ol_bytes (apply_edit l [RemoveTag ''id'']) = join_line pre ?d"
    using assms(2,3,6) ne dd by (simp add: apply_edit_def settle_priority_def Let_def)
  then show ?thesis using assms(1) by (simp add: strip_own_id_def remove_tag_edit)
qed

lemma prefix_word_token: "prefix_word w \<Longrightarrow> w = ''x'' \<or>
    length w = 3 \<and> w ! 0 = CHR ''('' \<and> is_ascii_uppercase (w ! 1) \<and> w ! 2 = CHR '')'' \<or>
    length w = 10 \<and> w ! 4 = CHR ''-'' \<and> w ! 7 = CHR ''-''"
proof -
  assume "prefix_word w"
  then consider "w = ''x''" | c where "is_ascii_uppercase c" "w = [CHR ''('', c, CHR '')'']" | d where "valid_date d" "w = Date_fmt d"
    by (auto simp: prefix_word_def is_priority_word_iff date_codec.parse_iff)
  then show ?thesis
  proof cases
    case (3 d)
    then show ?thesis using valid_date_bounds [of d] by (simp add: Date_fmt_def dec_pad_2 dec_pad_4)
  qed simp_all
qed

lemma last_word: "last (split_on P s) \<in> set (split_on P s)"
  by simp

lemma nth_before: "q \<noteq> [] \<Longrightarrow> (q @ r) ! (length q - 1) = last q"
  by (simp add: nth_append last_conv_nth)

lemma token_after_prefix:
  assumes "list_all prefix_word (word_texts pre)" "pre \<noteq> []" "last pre = CHR '' ''" "\<forall>c \<in> set pre. byte_val c \<notin> {10, 12, 13}"
  shows "after_prefix_token (butlast pre)"
proof -
  let ?h = "butlast pre"
  have p: "pre = ?h @ [CHR '' '']" using assms(2,3) by (metis append_butlast_last_id)
  have "word_texts pre = word_texts ?h @ word_texts []" by (subst p) (rule word_texts_ws, simp add: is_ws_def)
  moreover have "split_on is_ascii_whitespace ?h = split_on is_ws ?h" using assms(4) by (intro no_break_ws) (auto dest: in_set_butlastD)
  ultimately have "\<forall>x \<in> set (split_on is_ascii_whitespace ?h). x = [] \<or> prefix_word x"
    using assms(1) by (auto simp: word_texts_split list_all_iff)
  then have "last (split_on is_ascii_whitespace ?h) = [] \<or> prefix_word (last (split_on is_ascii_whitespace ?h))"
    using last_word by blast
  then show ?thesis using prefix_word_token by (auto simp: after_prefix_token_def Let_def)
qed

lemma without_own_id_raw:
  assumes "\<forall>c \<in> set (ol_bytes l). byte_val c \<notin> {10, 12, 13}" "ol_bytes l = [] \<or> \<not> is_ws (last (ol_bytes l))"
  shows "without_own_id l = map_option (\<lambda>(_, stripped). ol_bytes stripped) (strip_own_id l)"
proof (cases "fast_id_of l")
  case None
  then show ?thesis by (simp add: without_own_id_def strip_own_id_def)
next
  case (Some i)
  then obtain raw where raw: "ol_raw l = Some raw" by (cases "ol_raw l") (auto simp: fast_id_of_def)
  then have r: "raw = ol_bytes l" by (simp add: ol_raw_def split: if_splits)
  note nb = assms(1) [folded r]
  have "fast_id_of l \<noteq> None" using Some by simp
  from own_id_parts [OF raw nb this] obtain pre a w b where p: "raw = pre @ a @ w @ b" "word_at a w b"
    "draft_of raw = \<lparr>d_prefix = d_prefix (draft_of raw), d_description = a @ w @ b\<rparr>"
    "description_start raw = length pre" "find_tag (a @ w @ b) ''id'' = Some (length a, length a + length w)"
    "find_tag raw ''id'' = Some (length pre + length a, length pre + length a + length w)"
    "list_all prefix_word (word_texts pre)" "pre = [] \<or> is_ws (last pre)" "pre = [] \<or> a = [] \<or> \<not> is_ws (hd a)"
    by metis
  have w: "w \<noteq> []" using p(2) by (simp add: word_at_def)
  let ?s = "length pre + length a" and ?e = "length pre + length a + length w" and ?d = "remove_tag_text (a @ w @ b) ''id''"
  note strip = strip_own_id_bytes [OF Some raw p(1) w p(3,4,5)]
  have before: "raw ! (?s - Suc 0) = last (pre @ a)" if "pre = [] \<longrightarrow> a \<noteq> []"
    using p(1) nth_before [of "pre @ a" "w @ b"] that by auto
  have nxt: "get raw ?e = (if b = [] then None else Some (hd b))" using p(1) by (cases b) (auto simp: get_def nth_append)
  have cuts: "take ?s raw = pre @ a" "take (?s - 1) raw = butlast (pre @ a)" "drop ?e raw = b" "drop (?e + 1) raw = tl b"
    using p(1) by (simp_all add: butlast_conv_take drop_Suc flip: tl_drop) 
  have join: "join_line pre d = pre @ d" if "d \<noteq> []" for d using p(8) that by (auto simp: join_line_def)
  have one: "join_line pre ?d = pre @ a @ tl b" if "b \<noteq> []" "hd b = CHR '' ''"
  proof -
    have "?d = a @ tl b" unfolding remove_id_parts [OF p(5)] using that by (cases a rule: rev_cases; cases b) auto
    moreover have "a @ tl b \<noteq> []" using assms(2) that p(1) w by (cases b) (auto simp: r is_ws_def)
    ultimately show ?thesis using join by simp
  qed
  have two: "join_line pre ?d = butlast (pre @ a)" if "b = []" "pre @ a \<noteq> []" "last (pre @ a) = CHR '' ''" "\<not> after_prefix_token (butlast (pre @ a))"
  proof (cases "a = []")
    case True
    then show ?thesis using that token_after_prefix [OF p(7)] nb p(1) by simp
  next
    case False
    then have d: "?d = butlast a" unfolding remove_id_parts [OF p(5)] using that by simp
    show ?thesis
    proof (cases "butlast a = []")
      case True
      then have "a = '' ''" using False that by (cases a) (auto split: if_splits)
      then have "pre = []" using p(9) by (auto simp: is_ws_def)
      then show ?thesis using d True by (simp add: join_line_def trim_end_ws_def)
    qed (use d join False in \<open>simp add: butlast_append\<close>)
  qed
  show ?thesis unfolding strip without_own_id_def
    using Some raw own_id_word_find [OF nb] p(6) strip one two cuts before by (auto simp: nxt Let_def)
qed

section \<open>Duplicate groups are the classes of equal lines\<close>

text \<open>The task lines of a document: the text each is compared by, its task and its line number.\<close>

fun keyed :: "identity_mode \<Rightarrow> (nat \<times> entry) list \<Rightarrow> (string \<times> task_id \<times> nat) list" where
  "keyed m [] = []"
| "keyed m ((i, ETask t l) # es) = (comparable m l, t, i + 1) # keyed m es"
| "keyed m ((i, EBlank l) # es) = keyed m es"

definition task_keys :: "doc_state \<Rightarrow> (string \<times> task_id \<times> nat) list" where
  "task_keys st = keyed (ds_mode st) (indexed_entries st)"

definition binding :: "('k \<times> 'v) list \<Rightarrow> 'k \<Rightarrow> 'v list" where
  "binding kvs k = map snd (filter (\<lambda>b. fst b = k) kvs)"

text \<open>What the map holds after the pairs \<open>kvs\<close>: a binding for every key that occurs, with all its values.\<close>

definition holds_all :: "('k \<times> 'v) list \<Rightarrow> ('k \<times> 'v list) list \<Rightarrow> bool" where
  "holds_all kvs m \<longleftrightarrow> distinct (map fst m) \<and> fst ` set m = fst ` set kvs \<and> list_all (\<lambda>(k, vs). vs = binding kvs k) m"

lemma push_to_keys: "fst ` set (push_to k v m) = insert k (fst ` set m)"
  by (induction k v m rule: push_to.induct) auto

lemma push_to_distinct: "distinct (map fst m) \<Longrightarrow> distinct (map fst (push_to k v m))"
proof (induction k v m rule: push_to.induct)
  case (2 k v k' vs m)
  then show ?case using push_to_keys [of k v m] by auto
qed simp

lemma push_to_set:
  "distinct (map fst m) \<Longrightarrow> (k', vs) \<in> set (push_to k v m) \<Longrightarrow>
   if k' = k then \<exists>us. vs = us @ [v] \<and> ((k, us) \<in> set m \<or> us = [] \<and> k \<notin> fst ` set m) else (k', vs) \<in> set m"
proof (induction k v m rule: push_to.induct)
  case (2 k v k2 us m)
  show ?case
  proof (cases "k2 = k")
    case True
    then show ?thesis using 2(2,3) by (force split: if_splits)
  next
    case False
    then show ?thesis using 2 by (auto split: if_splits)
  qed
qed simp

lemma holds_all_push:
  assumes "holds_all kvs m"
  shows "holds_all (kvs @ [(k, v)]) (push_to k v m)"
proof -
  have d: "distinct (map fst m)" "fst ` set m = fst ` set kvs" "\<And>k vs. (k, vs) \<in> set m \<Longrightarrow> vs = binding kvs k"
    using assms by (auto simp: holds_all_def list_all_iff)
  have none: "binding kvs k = []" if "k \<notin> fst ` set kvs" using that by (force simp: binding_def filter_empty_conv)
  have "vs = binding (kvs @ [(k, v)]) k'" if "(k', vs) \<in> set (push_to k v m)" for k' vs
    using push_to_set [OF d(1) that] d none by (auto simp: binding_def split: if_splits)
  then show ?thesis using d push_to_keys [of k v m] push_to_distinct by (auto simp: holds_all_def list_all_iff)
qed

lemma holds_all_fold: "holds_all kvs m \<Longrightarrow> holds_all (kvs @ xs) (fold (\<lambda>(k, v). push_to k v) xs m)"
proof (induction xs arbitrary: kvs m)
  case (Cons x xs)
  obtain k v where x: "x = (k, v)" by fastforce
  then show ?case using Cons.IH [OF holds_all_push [OF Cons.prems, of k v]] by simp
qed simp

lemma by_line_holds: "holds_all (task_keys st) (by_line st)"
proof -
  have "fold (\<lambda>(i, e) m. case e of ETask t l \<Rightarrow> push_to (comparable md l) (t, i + 1) m | EBlank _ \<Rightarrow> m) es m =
      fold (\<lambda>(k, v). push_to k v) (keyed md es) m" for es m md
    by (induction md es arbitrary: m rule: keyed.induct) auto
  moreover have "holds_all [] []" by (simp add: holds_all_def)
  ultimately show ?thesis using holds_all_fold [of "[]" "[]" "task_keys st"] unfolding by_line_def task_keys_def by simp
qed

lemma keyed_lines:
  "distinct (map (snd \<circ> snd) (keyed md (enumerate n es))) \<and> (\<forall>b \<in> set (keyed md (enumerate n es)). n < snd (snd b))"
proof (induction es arbitrary: n)
  case (Cons e es)
  have "\<forall>b \<in> set (keyed md (enumerate (Suc n) es)). Suc n < snd (snd b)" using Cons.IH [of "Suc n"] by blast
  then show ?case using Cons.IH [of "Suc n"] by (cases e) fastforce+
qed simp

lemma task_keys_lines: "distinct (map (snd \<circ> snd) (task_keys st))"
  using keyed_lines [of "ds_mode st" 0] by (simp add: task_keys_def indexed_entries_def)

lemma binding_mem: "v \<in> set (binding kvs k) \<longleftrightarrow> (k, v) \<in> set kvs"
  by (force simp: binding_def)

lemma set_binding: "set (binding kvs k) = {v. (k, v) \<in> set kvs}"
  by (auto simp: binding_mem)

lemma length_binding: "length (binding (task_keys st) k) = card {v. (k, v) \<in> set (task_keys st)}"
proof -
  have "map snd (binding (task_keys st) k) = map (snd \<circ> snd) (filter (\<lambda>b. fst b = k) (task_keys st))" by (simp add: binding_def)
  then have "distinct (map snd (binding (task_keys st) k))" using task_keys_lines distinct_map_filter by metis
  then show ?thesis unfolding set_binding [symmetric] by (simp add: distinct_card distinct_map)
qed

lemma by_line_set:
  "(k, vs) \<in> set (by_line st) \<longleftrightarrow> k \<in> fst ` set (task_keys st) \<and> vs = binding (task_keys st) k"
proof -
  have h: "fst ` set (by_line st) = fst ` set (task_keys st)" "list_all (\<lambda>(k, vs). vs = binding (task_keys st) k) (by_line st)"
    using by_line_holds [of st] by (auto simp: holds_all_def)
  have only: "us = binding (task_keys st) k" if "(k, us) \<in> set (by_line st)" for us using h(2) that by (auto simp: list_all_iff)
  show ?thesis
  proof
    assume b: "(k, vs) \<in> set (by_line st)"
    then have "k \<in> fst ` set (by_line st)" by force
    then show "k \<in> fst ` set (task_keys st) \<and> vs = binding (task_keys st) k" using h(1) only [OF b] by simp
  next
    assume b: "k \<in> fst ` set (task_keys st) \<and> vs = binding (task_keys st) k"
    then obtain us where "(k, us) \<in> set (by_line st)" using h(1) by (metis (no_types, lifting) imageE prod.collapse)
    then show "(k, vs) \<in> set (by_line st)" using only [of us] b by simp
  qed
qed

lemma duplicate_classes:
  "set ` set (duplicate_groups st) = {c. \<exists>k. c = {(t, n). (k, t, n) \<in> set (task_keys st)} \<and> 1 < card c}" (is "?L = ?R")
proof
  show "?L \<subseteq> ?R"
  proof
    fix c assume "c \<in> ?L"
    then obtain k vs where "(k, vs) \<in> set (by_line st)" "1 < length vs" "c = set vs" by (auto simp: duplicate_groups_def)
    then show "c \<in> ?R" using by_line_set [of k vs st] length_binding [of st k] set_binding [of "task_keys st" k] by auto
  qed
  show "?R \<subseteq> ?L"
  proof
    fix c assume "c \<in> ?R"
    then obtain k where "c = {(t, n). (k, t, n) \<in> set (task_keys st)}" "1 < card c" by blast
    moreover have "{(t, n). (k, t, n) \<in> set (task_keys st)} = {v. (k, v) \<in> set (task_keys st)}" by auto
    ultimately have c: "c = set (binding (task_keys st) k)" "1 < length (binding (task_keys st) k)"
      by (simp_all add: length_binding set_binding)
    then have "binding (task_keys st) k \<noteq> []" by auto
    then have "k \<in> fst ` set (task_keys st)" by (force simp: binding_def filter_empty_conv)
    then have "(k, binding (task_keys st) k) \<in> set (by_line st)" by (simp add: by_line_set)
    then have "binding (task_keys st) k \<in> set (filter (\<lambda>g. length g > 1) (map snd (by_line st)))" using c(2) by force
    then have "sort_key fst (binding (task_keys st) k) \<in> set (duplicate_groups st)" by (simp add: duplicate_groups_def)
    then show "c \<in> ?L" using c(1) by (metis image_eqI set_sort)
  qed
qed

section \<open>The properties\<close>

text \<open>C37: the quick scan for a line's identifier finds what the parser finds, on every line that holds no line
  break and no form feed: the tag decides that is the first one with a value in the whole line, prefix included,
  which is the first one of the description, since no word of a prefix is a tag.\<close>

theorem fast_id_of_agrees:
  assumes "\<forall>c \<in> set (ol_bytes l). byte_val c \<notin> {10, 12, 13}"
  shows "fast_id_of l = id_of l"
  using assms by (rule fast_id_of_raw)

theorem fast_id_of_agrees_witness:
  "fast_id_of (from_bytes ''(A) see id: id:00000000000000000000000007'' Lf) =
   id_of (from_bytes ''(A) see id: id:00000000000000000000000007'' Lf)"
  by (rule fast_id_of_agrees) simp

text \<open>A form feed ends a word for the scan and not for the parser.\<close>

lemma fast_id_of_form_feed:
  "fast_id_of (from_bytes (''a'' @ [CHR 0x0C] @ ''id:00000000000000000000000007'') Lf) = Some 7 \<and>
   id_of (from_bytes (''a'' @ [CHR 0x0C] @ ''id:00000000000000000000000007'') Lf) = None"
  by code_simp

text \<open>Cutting a line's own identifier out of its bytes gives what the line editor's tag removal gives, on every
  line without line breaks or form feeds that does not end in white space.\<close>

theorem without_own_id_agrees:
  assumes "\<forall>c \<in> set (ol_bytes l). byte_val c \<notin> {10, 12, 13}" and "\<not> is_ws (last (ol_bytes l))"
  shows "without_own_id l = map_option (\<lambda>(_, stripped). ol_bytes stripped) (strip_own_id l)"
  using assms by (intro without_own_id_raw) auto

theorem without_own_id_agrees_witness:
  "without_own_id (from_bytes ''x call id:00000000000000000000000007 mum'' Lf) =
   map_option (\<lambda>(_, stripped). ol_bytes stripped) (strip_own_id (from_bytes ''x call id:00000000000000000000000007 mum'' Lf))"
  by (rule without_own_id_agrees) (simp_all add: is_ws_def TAB_def)

text \<open>With a space at the end of a line that is otherwise all prefix, the two differ.\<close>

lemma without_own_id_trailing_space:
  "without_own_id (from_bytes ''x id:00000000000000000000000007 '' Lf) = Some ''x '' \<and>
   map_option (\<lambda>(_, stripped). ol_bytes stripped) (strip_own_id (from_bytes ''x id:00000000000000000000000007 '' Lf)) = Some ''x''"
  by code_simp

text \<open>C38: the duplicate groups of a document are exactly the classes of task lines that compare equal and have more
  than one member, each with its tasks in the order of their identifiers, and the groups in the order of their
  first lines.\<close>

theorem duplicate_groups_exact:
  "set ` set (duplicate_groups st) = {c. \<exists>k. c = {(t, n). (k, t, n) \<in> set (task_keys st)} \<and> 1 < card c} \<and>
   list_all (\<lambda>g. sorted (map fst g)) (duplicate_groups st) \<and>
   sorted (map (\<lambda>g. Min (snd ` set g)) (duplicate_groups st))"
proof -
  have "list_all (\<lambda>g. sorted (map fst g)) (duplicate_groups st)" by (auto simp: duplicate_groups_def list_all_iff)
  moreover have "sorted (map (\<lambda>g. Min (snd ` set g)) (duplicate_groups st))" unfolding duplicate_groups_def by (rule sorted_sort_key)
  ultimately show ?thesis using duplicate_classes by blast
qed

end
