(* ===== verification/Reconcile.thy ===== *)
theory Reconcile
  imports Diff FastId DocApply
begin

text \<open>
  \<open>reconcile.rs\<close> of \<open>txtodo-engine\<close>: from the file last written and the file just read to the operations that
  turn one into the other. The closure that mints identifiers is a parameter: a function on a state of its
  own. \<open>diff_text\<close> and \<open>diff_lines\<close> always return, so the
  \<open>None\<close> of their model, which stands for a panic, is never taken.
\<close>

section \<open>Definitions\<close>

record reconciled =
  rc_ops :: "op_kind list"
  rc_file :: todo_file
  rc_minted :: nat
  rc_reused :: nat
  rc_ids :: "task_id option list"

type_synonym 'm minter = "'m \<Rightarrow> task_id \<times> 'm"

definition PRI :: string where
  "PRI = ''pri''"

definition task_of :: "owned_line \<Rightarrow> task option" where
  "task_of l = Option.bind (ol_parse l) (\<lambda>p. case l_kind p of TaskLine t \<Rightarrow> Some t | Blank \<Rightarrow> None)"

definition task_completed :: "owned_line \<Rightarrow> bool" where
  "task_completed l = (case task_of l of Some t \<Rightarrow> completed t | None \<Rightarrow> False)"

definition is_task :: "owned_line \<Rightarrow> bool" where
  "is_task l \<longleftrightarrow> task_of l \<noteq> None"

definition text_of :: "owned_line \<Rightarrow> string" where
  "text_of l = (case ol_raw l of Some r \<Rightarrow> r | None \<Rightarrow> [])"

definition text_without_id :: "owned_line \<Rightarrow> string option" where
  "text_without_id l = (case Edit_remove_tag Edit_new ''id'' of Inl _ \<Rightarrow> None | Inr e \<Rightarrow> ol_raw (apply_edit l e))"

subsection \<open>The operations of a changed line\<close>

text \<open>One turn of the loop over the fields, on the operations so far and the working copy of the line.\<close>

definition change_field ::
    "task_id \<Rightarrow> owned_line \<Rightarrow> owned_line \<Rightarrow> task \<Rightarrow> field \<Rightarrow> op_kind list \<times> owned_line \<Rightarrow> op_kind list \<times> owned_line" where
  "change_field t old new wanted f acc =
    (let (ops, line) = acc in
     case field_value_of new f of None \<Rightarrow> (ops, line)
     | Some value \<Rightarrow>
         let reopen_priority = (f = FPriority \<and> task_completed old \<and> \<not> completed wanted) in
         if field_value_of line f = Some value \<and> \<not> reopen_priority then (ops, line)
         else (case (set_field t f value, rewrite_prefix line f value) of
                 (Inr op, Some next) \<Rightarrow> (ops @ [op], next)
               | _ \<Rightarrow> (ops, line)))"

definition edits_between :: "string \<Rightarrow> string \<Rightarrow> text_edit list" where
  "edits_between a b = (case diff_text a b of Some es \<Rightarrow> es | None \<Rightarrow> [])"

definition change_ops :: "owned_line \<Rightarrow> owned_line \<Rightarrow> task_id \<Rightarrow> op_kind list" where
  "change_ops old new t =
    (case task_of new of None \<Rightarrow> []
     | Some wanted \<Rightarrow>
         if task_of old = None then []
         else
           let (ops, line) = fold (change_field t old new wanted) [FCompleted, FCompletionDate, FCreationDate, FPriority] ([], old)
           in case task_of line of None \<Rightarrow> ops
              | Some have \<Rightarrow>
                  if remove_tag (description have) PRI = description wanted \<and> description have \<noteq> description wanted
                  then ops @ [ORemoveTag t PRI]
                  else if description have \<noteq> description wanted
                  then ops @ [OEditText t (edits_between (description have) (description wanted))]
                  else ops)"

subsection \<open>The four passes\<close>

definition prev_task :: "task_id option list \<Rightarrow> nat \<Rightarrow> task_id option" where
  "prev_task ids i = find_map (\<lambda>x. x) (rev (take i ids))"

definition delete_op :: "task_id option list \<Rightarrow> nat \<Rightarrow> op_kind" where
  "delete_op old_ids from =
    (case old_ids ! from of
       Some t \<Rightarrow> (case set_field t FDeleted (VBool True) of Inr op \<Rightarrow> op | Inl _ \<Rightarrow> OBlankRemove (prev_task old_ids from))
     | None \<Rightarrow> OBlankRemove (prev_task old_ids from))"

definition insert_op :: "todo_file \<Rightarrow> task_id option list \<Rightarrow> nat \<Rightarrow> op_kind" where
  "insert_op file new_ids to =
    (case new_ids ! to of
       Some t \<Rightarrow> OInsert t (prev_task new_ids to) (text_of (f_lines file ! to))
     | None \<Rightarrow> OBlankInsert (prev_task new_ids to))"

text \<open>What one entry of the diff adds in each pass.\<close>

fun delete_entry :: "task_id option list \<Rightarrow> line_diff \<Rightarrow> op_kind list" where
  "delete_entry old_ids (DDelete from) = [delete_op old_ids from]"
| "delete_entry old_ids _ = []"

fun change_entry :: "todo_file \<Rightarrow> task_id option list \<Rightarrow> todo_file \<Rightarrow> line_diff \<Rightarrow> op_kind list" where
  "change_entry old old_ids file (DChange from to) =
     (case old_ids ! from of Some t \<Rightarrow> change_ops (f_lines old ! from) (f_lines file ! to) t | None \<Rightarrow> [])"
| "change_entry old old_ids file _ = []"

fun task_entry :: "todo_file \<Rightarrow> task_id option list \<Rightarrow> file_path \<Rightarrow> line_diff \<Rightarrow> op_kind list" where
  "task_entry file new_ids path (DInsert to) = (if new_ids ! to \<noteq> None then [insert_op file new_ids to] else [])"
| "task_entry file new_ids path (DMove from to) =
     (case new_ids ! to of Some t \<Rightarrow> [OMove t (prev_task new_ids to) path] | None \<Rightarrow> [])"
| "task_entry file new_ids path _ = []"

fun blank_entry :: "task_id option list \<Rightarrow> line_diff \<Rightarrow> op_kind list" where
  "blank_entry new_ids (DInsert to) = (if new_ids ! to = None then [OBlankInsert (prev_task new_ids to)] else [])"
| "blank_entry new_ids _ = []"

definition delete_pass :: "line_diff list \<Rightarrow> task_id option list \<Rightarrow> op_kind list \<Rightarrow> op_kind list" where
  "delete_pass diffs old_ids ops = ops @ concat (map (delete_entry old_ids) (rev diffs))"

definition change_pass ::
    "line_diff list \<Rightarrow> todo_file \<Rightarrow> task_id option list \<Rightarrow> todo_file \<Rightarrow> op_kind list \<Rightarrow> op_kind list" where
  "change_pass diffs old old_ids file ops = ops @ concat (map (change_entry old old_ids file) diffs)"

definition task_pass ::
    "line_diff list \<Rightarrow> todo_file \<Rightarrow> task_id option list \<Rightarrow> file_path \<Rightarrow> op_kind list \<Rightarrow> op_kind list" where
  "task_pass diffs file new_ids path ops = ops @ concat (map (task_entry file new_ids path) diffs)"

definition blank_pass :: "line_diff list \<Rightarrow> task_id option list \<Rightarrow> op_kind list \<Rightarrow> op_kind list" where
  "blank_pass diffs new_ids ops = ops @ concat (map (blank_entry new_ids) diffs)"

subsection \<open>Identifiers for the lines that lack one\<close>

text \<open>\<open>get_mut(k).and_then(VecDeque::pop_front)\<close> on the map from texts to identifiers.\<close>

fun pop_front_of :: "'k \<Rightarrow> ('k \<times> 'v list) list \<Rightarrow> 'v option \<times> ('k \<times> 'v list) list" where
  "pop_front_of k [] = (None, [])"
| "pop_front_of k ((k', vs) # m) =
    (if k' = k then (case vs of [] \<Rightarrow> (None, (k', vs) # m) | v # vs' \<Rightarrow> (Some v, (k', vs') # m))
     else let (r, m') = pop_front_of k m in (r, (k', vs) # m'))"

definition by_text :: "todo_file \<Rightarrow> (string \<times> task_id list) list" where
  "by_text old =
    fold (\<lambda>l m. case (fast_id_of l, text_without_id l) of (Some i, Some s) \<Rightarrow> push_to s i m | _ \<Rightarrow> m) (f_lines old) []"

definition needs_id :: "owned_line \<Rightarrow> bool" where
  "needs_id l \<longleftrightarrow> fast_id_of l = None \<and> is_task l"

definition stamp_id :: "task_id \<Rightarrow> owned_line \<Rightarrow> owned_line" where
  "stamp_id i l = (case Edit_set_tag Edit_new ''id'' (Ulid_fmt i) of Inr e \<Rightarrow> apply_edit l e | Inl _ \<Rightarrow> l)"

record 'm assigning =
  as_lines :: "owned_line list"
  as_index :: "(string \<times> task_id list) list"
  as_minted :: nat
  as_reused :: nat
  as_mint :: 'm

definition assign_step :: "'m minter \<Rightarrow> nat \<Rightarrow> 'm assigning \<Rightarrow> 'm assigning" where
  "assign_step mint i a =
    (let l = as_lines a ! i;
         (recovered, index) = (case ol_raw l of Some t \<Rightarrow> pop_front_of t (as_index a) | None \<Rightarrow> (None, as_index a))
     in case recovered of
          Some u \<Rightarrow> a\<lparr>as_lines := (as_lines a)[i := stamp_id u l], as_index := index, as_reused := as_reused a + 1\<rparr>
        | None \<Rightarrow> let (u, s) = mint (as_mint a) in
            a\<lparr>as_lines := (as_lines a)[i := stamp_id u l], as_index := index, as_minted := as_minted a + 1, as_mint := s\<rparr>)"

definition assign_ids :: "'m minter \<Rightarrow> todo_file \<Rightarrow> todo_file \<Rightarrow> 'm \<Rightarrow> (todo_file \<times> nat \<times> nat) \<times> 'm" where
  "assign_ids mint old new s =
    (let needs = filter (\<lambda>i. needs_id (f_lines new ! i)) [0..<length (f_lines new)] in
     if needs = [] then ((new, 0, 0), s)
     else
       let a = fold (assign_step mint) needs
             \<lparr>as_lines = f_lines new, as_index = by_text old, as_minted = 0, as_reused = 0, as_mint = s\<rparr>
       in ((new\<lparr>f_lines := as_lines a\<rparr>, as_minted a, as_reused a), as_mint a))"

subsection \<open>Reconciling\<close>

definition line_diffs :: "todo_file \<Rightarrow> todo_file \<Rightarrow> line_diff list" where
  "line_diffs a b = (case diff_lines a b of Some ds \<Rightarrow> ds | None \<Rightarrow> [])"

definition reconcile_inner ::
    "'m minter \<Rightarrow> todo_file \<Rightarrow> todo_file \<Rightarrow> file_path \<Rightarrow> 'm \<Rightarrow> reconciled \<times> 'm" where
  "reconcile_inner mint old new path s =
    (let ((file, minted, reused), s1) = assign_ids mint old new s;
         old_ids = map fast_id_of (f_lines old);
         new_ids = map fast_id_of (f_lines file);
         diffs = line_diffs old file;
         ops = blank_pass diffs new_ids (task_pass diffs file new_ids path
                 (change_pass diffs old old_ids file (delete_pass diffs old_ids [])))
     in (\<lparr>rc_ops = ops, rc_file = file, rc_minted = minted, rc_reused = reused, rc_ids = new_ids\<rparr>, s1))"

definition reconcile :: "'m minter \<Rightarrow> todo_file \<Rightarrow> todo_file \<Rightarrow> file_path \<Rightarrow> 'm \<Rightarrow> reconciled \<times> 'm" where
  "reconcile mint old new path s = reconcile_inner mint old new path s"

end
