(* ===== verification/Mutation.thy ===== *)
theory Mutation
  imports Reconcile
begin

text \<open>
  \<open>mutation.rs\<close>, \<open>mutation_add.rs\<close>, \<open>mutation_moves.rs\<close>, \<open>mutation_reopen.rs\<close> and \<open>contents.rs\<close> of
  \<open>txtodo-engine\<close>: what a client asks for, and the operations it becomes on a document. A refusal is the
  left of a sum. The closure that mints identifiers is a parameter with a state of its own, which a
  mutation threads. Error texts and logging are left out.
\<close>

section \<open>Definitions\<close>

definition MAX_MUTATIONS_PER_APPLY :: nat where
  "MAX_MUTATIONS_PER_APPLY = 10000"

type_synonym hash = string

record task_ref =
  tr_line_number :: nat
  tr_task_id :: "task_id option"

datatype mutation =
    MAdd string
  | MArrive string task_id
  | MComplete task_ref date
  | MEdit task_ref string bool
  | MMove task_ref file_path
  | MDelete task_ref bool
  | MMoveToEnd task_ref
  | MMoveBefore task_ref task_ref
  | MReopen task_ref
  | MReplace hash string
  | MRequireBase hash

datatype mutation_error =
    NoLine nat
  | BlankLine nat
  | Stale nat task_id task_id
  | StaleBase
  | NotATask string
  | IdChanged task_id
  | NotSupported string
  | NoSuchTask task_id
  | TooMany nat

fun error_line :: "mutation_error \<Rightarrow> nat option" where
  "error_line (NoLine n) = (if n < 2 ^ 32 then Some n else None)"
| "error_line (BlankLine n) = (if n < 2 ^ 32 then Some n else None)"
| "error_line (Stale n _ _) = (if n < 2 ^ 32 then Some n else None)"
| "error_line _ = None"

fun spec_rule :: "mutation_error \<Rightarrow> string option" where
  "spec_rule (BlankLine _) = Some ''specs/todotxt.abnf#blank''"
| "spec_rule (NoLine _) = Some ''specs/todotxt.abnf#line''"
| "spec_rule (NotATask _) = Some ''specs/todotxt.abnf#line''"
| "spec_rule (IdChanged _) = Some ''specs/todotxt.abnf#id-tag''"
| "spec_rule _ = None"

definition resolve :: "doc_state \<Rightarrow> task_ref \<Rightarrow> mutation_error + nat \<times> task_id" where
  "resolve st task =
    (let n = tr_line_number task in
     case (n, tr_task_id task) of
       (0, Some i) \<Rightarrow> (case index_of st i of Some k \<Rightarrow> Inr (k, i) | None \<Rightarrow> Inl (NoSuchTask i))
     | (0, None) \<Rightarrow> Inl (NoLine n)
     | (Suc k, client_saw) \<Rightarrow>
         (case entry_at st k of None \<Rightarrow> Inl (NoLine n)
          | Some (EBlank _) \<Rightarrow> Inl (BlankLine n)
          | Some (ETask found _) \<Rightarrow>
              (case client_saw of
                 Some expected \<Rightarrow>
                   if ds_mode st = Tagged \<and> expected \<noteq> found then Inl (Stale n expected found) else Inr (k, found)
               | None \<Rightarrow> Inr (k, found))))"

text \<open>The \<open>?\<close> operator on refusals.\<close>

definition or_refuse :: "mutation_error + 'a \<Rightarrow> ('a \<Rightarrow> mutation_error + 'b) \<Rightarrow> mutation_error + 'b" where
  "or_refuse m f = (case m of Inl e \<Rightarrow> Inl e | Inr a \<Rightarrow> f a)"

definition ok_or :: "'a option \<Rightarrow> mutation_error \<Rightarrow> mutation_error + 'a" where
  "ok_or v e = (case v of Some a \<Rightarrow> Inr a | None \<Rightarrow> Inl e)"

subsection \<open>Adding\<close>

definition task_line :: "string \<Rightarrow> mutation_error + owned_line" where
  "task_line s =
    (if LF \<in> set s \<or> CR \<in> set s then Inl (NotATask s)
     else
       let owned = from_bytes s LineEnding_default in
       case map_option l_kind (ol_parse owned) of Some (TaskLine _) \<Rightarrow> Inr owned | _ \<Rightarrow> Inl (NotATask s))"

definition last_task :: "doc_state \<Rightarrow> task_id option" where
  "last_task st = task_before st (ds_len st)"

definition add_ops :: "'m minter \<Rightarrow> doc_state \<Rightarrow> string \<Rightarrow> 'm \<Rightarrow> (mutation_error + op_kind list) \<times> 'm" where
  "add_ops mint st line s =
    (case task_line line of Inl e \<Rightarrow> (Inl e, s)
     | Inr owned \<Rightarrow>
         let (r, s1) =
           (if ds_mode st = Sidecar then let (u, s1) = mint s in (Inr (u, owned), s1)
            else case id_of owned of
              Some i \<Rightarrow> (Inr (i, owned), s)
            | None \<Rightarrow>
                let (u, s1) = mint s in
                (case Edit_set_tag Edit_new ''id'' (Ulid_fmt u) of
                   Inl _ \<Rightarrow> (Inl (NotATask line), s1)
                 | Inr edit \<Rightarrow> (Inr (u, apply_edit owned edit), s1)))
         in (case r of Inl e \<Rightarrow> Inl e | Inr (t, l) \<Rightarrow> Inr [OInsert t (last_task st) (text_of l)], s1))"

subsection \<open>Moving\<close>

definition move_ops :: "doc_state \<Rightarrow> task_ref \<Rightarrow> file_path \<Rightarrow> mutation_error + op_kind list" where
  "move_ops st task to = or_refuse (resolve st task) (\<lambda>(_, i). Inr [OMove i None to])"

definition move_to_end_ops :: "doc_state \<Rightarrow> task_ref \<Rightarrow> mutation_error + op_kind list" where
  "move_to_end_ops st task = or_refuse (resolve st task) (\<lambda>(k, i).
     let after = (if last_task st = Some i then task_before st k else last_task st)
     in Inr [OMove i after (ds_path st)])"

definition move_before_ops :: "doc_state \<Rightarrow> task_ref \<Rightarrow> task_ref \<Rightarrow> mutation_error + op_kind list" where
  "move_before_ops st task before = or_refuse (resolve st task) (\<lambda>(k, i). or_refuse (resolve st before) (\<lambda>(j, b).
     if i = b then Inl (NotSupported ''moving a task before itself'')
     else
       let predecessor = task_before st j;
           after = (if predecessor = Some i then task_before st k else predecessor)
       in Inr [OMove i after (ds_path st)]))"

subsection \<open>Reopening\<close>

fun open_block :: "task_id \<Rightarrow> task_id option \<Rightarrow> (task_id \<times> owned_line) list \<Rightarrow> task_id option" where
  "open_block i last_open [] = last_open"
| "open_block i last_open ((other, line) # rest) =
    (if other = i then open_block i last_open rest
     else if line_completed line then last_open
     else open_block i (Some other) rest)"

definition end_of_open_block :: "doc_state \<Rightarrow> task_id \<Rightarrow> task_id option" where
  "end_of_open_block st i = open_block i None (task_lines st)"

definition reopen_ops :: "doc_state \<Rightarrow> task_ref \<Rightarrow> mutation_error + op_kind list" where
  "reopen_ops st task = or_refuse (resolve st task) (\<lambda>(k, i).
     or_refuse (ok_or (line_of st i) (NoLine (tr_line_number task))) (\<lambda>old.
       let new = apply_edit old (Edit_uncomplete Edit_new); ops = change_ops old new i in
       if ops = [] then Inr ops
       else
         let after = end_of_open_block st i in
         Inr (if task_before st k \<noteq> after then ops @ [OMove i after (ds_path st)] else ops)))"

subsection \<open>From a mutation to operations\<close>

definition line_done :: "owned_line \<Rightarrow> bool" where
  "line_done l = (case ol_raw l of Some r \<Rightarrow> is_completed r | None \<Rightarrow> False)"

text \<open>\<open>ops.extend(move_to_end_ops(state, task)?)\<close> when the line is not the last task already.\<close>

definition settle_at_end :: "doc_state \<Rightarrow> task_ref \<Rightarrow> task_id \<Rightarrow> bool \<Rightarrow> op_kind list \<Rightarrow> mutation_error + op_kind list" where
  "settle_at_end st task i wanted ops =
    (if wanted \<and> last_task st \<noteq> Some i then or_refuse (move_to_end_ops st task) (\<lambda>more. Inr (ops @ more)) else Inr ops)"

definition complete_ops :: "doc_state \<Rightarrow> task_ref \<Rightarrow> date \<Rightarrow> mutation_error + op_kind list" where
  "complete_ops st task today = or_refuse (resolve st task) (\<lambda>(_, i).
     or_refuse (ok_or (line_of st i) (NoLine (tr_line_number task))) (\<lambda>old.
       let new = apply_edit old (Edit_complete Edit_new today); ops = change_ops old new i
       in settle_at_end st task i (ops \<noteq> []) ops))"

definition edit_ops :: "doc_state \<Rightarrow> task_ref \<Rightarrow> string \<Rightarrow> bool \<Rightarrow> mutation_error + op_kind list" where
  "edit_ops st task new_line settle = or_refuse (resolve st task) (\<lambda>(_, i). or_refuse (task_line new_line) (\<lambda>new.
     if ds_mode st = Tagged \<and> id_of new \<noteq> Some i then Inl (IdChanged i)
     else or_refuse (ok_or (line_of st i) (NoLine (tr_line_number task))) (\<lambda>old.
       settle_at_end st task i (settle \<and> \<not> line_done old \<and> line_done new) (change_ops old new i))))"

definition delete_ops :: "doc_state \<Rightarrow> task_ref \<Rightarrow> bool \<Rightarrow> mutation_error + op_kind list" where
  "delete_ops st task leave_blank = or_refuse (resolve st task) (\<lambda>(k, i).
     let after = task_before st k;
         removed = (case set_field i FDeleted (VBool True) of Inr op \<Rightarrow> op | Inl _ \<Rightarrow> OBlankRemove after)
     in Inr ([removed] @ (if leave_blank then [OBlankInsert after] else [])))"

fun mutation_ops_inner :: "'m minter \<Rightarrow> doc_state \<Rightarrow> mutation \<Rightarrow> 'm \<Rightarrow> (mutation_error + op_kind list) \<times> 'm" where
  "mutation_ops_inner mint st (MAdd line) s = add_ops mint st line s"
| "mutation_ops_inner mint st (MArrive line task) s = add_ops (\<lambda>s. (task, s)) st line s"
| "mutation_ops_inner mint st (MComplete task today) s = (complete_ops st task today, s)"
| "mutation_ops_inner mint st (MEdit task new_line settle) s = (edit_ops st task new_line settle, s)"
| "mutation_ops_inner mint st (MMove task to) s = (move_ops st task to, s)"
| "mutation_ops_inner mint st (MMoveToEnd task) s = (move_to_end_ops st task, s)"
| "mutation_ops_inner mint st (MReopen task) s = (reopen_ops st task, s)"
| "mutation_ops_inner mint st (MMoveBefore task before) s = (move_before_ops st task before, s)"
| "mutation_ops_inner mint st (MReplace base contents) s = (Inl (NotSupported ''Replace must be its own Apply batch''), s)"
| "mutation_ops_inner mint st (MRequireBase base) s = (Inr [], s)"
| "mutation_ops_inner mint st (MDelete task leave_blank) s = (delete_ops st task leave_blank, s)"

definition mutation_ops :: "'m minter \<Rightarrow> doc_state \<Rightarrow> mutation \<Rightarrow> 'm \<Rightarrow> (mutation_error + op_kind list) \<times> 'm" where
  "mutation_ops mint st m s = mutation_ops_inner mint st m s"

subsection \<open>Peeking\<close>

record contents =
  ct_bytes :: string
  ct_hash :: hash
  ct_task_ids :: "task_id option list"

definition task_id_texts :: "contents \<Rightarrow> string list" where
  "task_id_texts c = map (\<lambda>i. case i of Some t \<Rightarrow> Ulid_fmt t | None \<Rightarrow> []) (ct_task_ids c)"

record peeked_line =
  pk_id :: task_id
  pk_line :: string
  pk_ref_slug :: "string option"

definition with_line_number :: "contents \<Rightarrow> task_ref \<Rightarrow> mutation_error + task_ref" where
  "with_line_number c task =
    (if tr_line_number task \<noteq> 0 then Inr task
     else or_refuse (ok_or (tr_task_id task) (NoLine 0)) (\<lambda>i.
       let by_actor = find_index (\<lambda>t. t = Some i) (ct_task_ids c);
           index = (case by_actor of Some k \<Rightarrow> Some k
                    | None \<Rightarrow> find_index (\<lambda>l. id_of l = Some i) (f_lines (parse_file (ct_bytes c))))
       in or_refuse (ok_or index (NoSuchTask i)) (\<lambda>k. Inr \<lparr>tr_line_number = k + 1, tr_task_id = Some i\<rparr>)))"

definition peek :: "string \<Rightarrow> task_id option list \<Rightarrow> task_ref \<Rightarrow> mutation_error + peeked_line" where
  "peek bytes ids task =
    (let n = tr_line_number task in
     if n = 0 then Inl (NoLine n)
     else
       let i = n - 1; file = parse_file bytes in
       or_refuse (ok_or (get (f_lines file) i) (NoLine n)) (\<lambda>line.
       or_refuse (ok_or (ol_parse line) (NoLine n)) (\<lambda>parsed.
       case l_kind parsed of Blank \<Rightarrow> Inl (BlankLine n)
       | TaskLine t \<Rightarrow>
           let by_actor = Option.bind (get ids i) (\<lambda>x. x) in
           or_refuse (ok_or (case by_actor of Some u \<Rightarrow> Some u | None \<Rightarrow> task_ulid t) (NoLine n)) (\<lambda>found.
             case tr_task_id task of
               Some expected \<Rightarrow>
                 if expected \<noteq> found then Inl (Stale n expected found)
                 else Inr \<lparr>pk_id = found, pk_line = text_of line, pk_ref_slug = ref_slug t\<rparr>
             | None \<Rightarrow> Inr \<lparr>pk_id = found, pk_line = text_of line, pk_ref_slug = ref_slug t\<rparr>))))"

definition peek_line :: "string \<Rightarrow> task_ref \<Rightarrow> mutation_error + peeked_line" where
  "peek_line bytes task = peek bytes [] task"

definition peek_contents :: "contents \<Rightarrow> task_ref \<Rightarrow> mutation_error + peeked_line" where
  "peek_contents c task = peek (ct_bytes c) (ct_task_ids c) task"

end
