(* ===== verification/Sidecar.thy ===== *)
theory Sidecar
  imports Reconcile "HOL-Library.Option_ord"
begin

text \<open>
  \<open>identity_assign.rs\<close> and \<open>reconcile_sidecar.rs\<close> of \<open>txtodo-engine\<close>: reconciling a file whose text carries no
  identifiers. Lines with the same bytes keep their task, the rest are paired by a minimum-cost assignment of
  fingerprints, and the pairs that stay in order are the longest increasing subsequence of their new positions.
  The fingerprint of a task and the cost between two of them (\<open>identity_fingerprint.rs\<close>: Unicode case tables
  and floating-point arithmetic) are parameters, the cost as the integer \<open>assign\<close> scales it to; so is the assignment solver
  of the \<open>pathfinding\<close> crate, of which the theorems assume what it documents: it returns one column for each row, every column once.
\<close>

section \<open>The assignment\<close>

record 'f matcher =
  mt_fingerprint :: "task \<Rightarrow> nat \<Rightarrow> 'f"
  mt_cost :: "'f \<Rightarrow> 'f \<Rightarrow> nat \<Rightarrow> int"
  mt_threshold :: int
  mt_solve :: "int list list \<Rightarrow> nat list"

definition padding_cost :: int where
  "padding_cost = 1000000000"

record assignment =
  am_matched :: "(task_id \<times> nat) list"
  am_deleted :: "task_id list"
  am_inserted :: "nat list"

definition pair_cost :: "'f matcher \<Rightarrow> (task_id \<times> 'f) list \<Rightarrow> 'f list \<Rightarrow> nat \<Rightarrow> nat \<Rightarrow> nat \<Rightarrow> int" where
  "pair_cost mt old new max_task_count row col =
    (if row < length old \<and> col < length new then mt_cost mt (snd (old ! row)) (new ! col) max_task_count else padding_cost)"

text \<open>One turn of the loop over the rows: the pairs and the deletions so far, and which lines of \<open>new\<close> are taken.\<close>

definition assign_row ::
    "'f matcher \<Rightarrow> (task_id \<times> 'f) list \<Rightarrow> 'f list \<Rightarrow> nat \<Rightarrow> nat \<times> nat \<Rightarrow>
     (task_id \<times> nat) list \<times> task_id list \<times> bool list \<Rightarrow> (task_id \<times> nat) list \<times> task_id list \<times> bool list" where
  "assign_row mt old new max_task_count rc acc =
    (let (row, col) = rc; (matched, deleted, taken) = acc in
     case get old row of None \<Rightarrow> (matched, deleted, taken)
     | Some (t, _) \<Rightarrow>
         if col < length new \<and> pair_cost mt old new max_task_count row col < mt_threshold mt
         then (matched @ [(t, col)], deleted, taken[col := True])
         else (matched, deleted @ [t], taken))"

definition assign :: "'f matcher \<Rightarrow> (task_id \<times> 'f) list \<Rightarrow> 'f list \<Rightarrow> nat \<Rightarrow> assignment" where
  "assign mt old new max_task_count =
    (let n = max (length old) (length new) in
     if n = 0 then \<lparr>am_matched = [], am_deleted = [], am_inserted = []\<rparr>
     else
       let matrix = map (\<lambda>row. map (pair_cost mt old new max_task_count row) [0..<n]) [0..<n];
           (matched, deleted, taken) = fold (assign_row mt old new max_task_count) (enumerate 0 (mt_solve mt matrix))
             ([], [], replicate (length new) False)
       in \<lparr>am_matched = matched, am_deleted = deleted, am_inserted = filter (\<lambda>i. \<not> taken ! i) [0..<length new]\<rparr>)"

section \<open>Matching the lines of two files\<close>

record side =
  sd_file :: todo_file
  sd_ids :: "task_id option list"

definition old_order :: "side \<Rightarrow> (task_id \<times> nat) list" where
  "old_order old = List.map_filter (\<lambda>(raw, l). if task_of l = None then None else map_option (\<lambda>t. (t, raw)) (sd_ids old ! raw))
     (enumerate 0 (f_lines (sd_file old)))"

definition old_info :: "(task_id \<times> nat) list \<Rightarrow> task_id \<rightharpoonup> nat \<times> nat" where
  "old_info order = fold (\<lambda>(tli, t, raw) m. m(t \<mapsto> (tli, raw))) (enumerate 0 order) Map.empty"

definition new_rows :: "todo_file \<Rightarrow> nat list" where
  "new_rows new = map fst (filter (\<lambda>(_, l). task_of l \<noteq> None) (enumerate 0 (f_lines new)))"

record split =
  sl_trivial :: "(task_id \<times> nat) list"
  sl_old :: "nat list"
  sl_new :: "nat list"

definition by_bytes :: "nat list \<Rightarrow> todo_file \<Rightarrow> (string \<times> nat list) list" where
  "by_bytes rows new = fold (\<lambda>(tli, raw). push_to (ol_bytes (f_lines new ! raw)) tli) (enumerate 0 rows) []"

text \<open>One turn of the loop over the old tasks: the map, the pairs, which new lines are taken, and what is left.\<close>

definition split_step ::
    "todo_file \<Rightarrow> nat \<times> task_id \<times> nat \<Rightarrow> (string \<times> nat list) list \<times> (task_id \<times> nat) list \<times> bool list \<times> nat list \<Rightarrow>
     (string \<times> nat list) list \<times> (task_id \<times> nat) list \<times> bool list \<times> nat list" where
  "split_step old x acc =
    (let (tli, t, raw) = x; (index, trivial, taken, rest) = acc in
     case pop_front_of (ol_bytes (f_lines old ! raw)) index of
       (Some new_tli, index') \<Rightarrow> (index', trivial @ [(t, new_tli)], taken[new_tli := True], rest)
     | (None, index') \<Rightarrow> (index', trivial, taken, rest @ [tli]))"

definition split_exact_matches :: "(task_id \<times> nat) list \<Rightarrow> nat list \<Rightarrow> todo_file \<Rightarrow> todo_file \<Rightarrow> split" where
  "split_exact_matches order rows old new =
    (let (index, trivial, taken, rest) = fold (split_step old) (enumerate 0 order)
           (by_bytes rows new, [], replicate (length rows) False, [])
     in \<lparr>sl_trivial = trivial, sl_old = rest, sl_new = filter (\<lambda>i. \<not> taken ! i) [0..<length rows]\<rparr>)"

definition fingerprints_of ::
    "'f matcher \<Rightarrow> nat list \<Rightarrow> (task_id \<times> nat) list \<Rightarrow> todo_file \<Rightarrow> (task_id \<times> 'f) list" where
  "fingerprints_of mt tlis order old =
    List.map_filter (\<lambda>tli. let (t, raw) = order ! tli in
       map_option (\<lambda>x. (t, mt_fingerprint mt x tli)) (task_of (f_lines old ! raw))) tlis"

definition fingerprints_of_new :: "'f matcher \<Rightarrow> nat list \<Rightarrow> nat list \<Rightarrow> todo_file \<Rightarrow> 'f list" where
  "fingerprints_of_new mt tlis rows new =
    List.map_filter (\<lambda>tli. map_option (\<lambda>x. mt_fingerprint mt x tli) (task_of (f_lines new ! (rows ! tli)))) tlis"

record matching =
  mg_matched :: "(task_id \<times> nat) list"
  mg_deleted :: "task_id list"
  mg_inserted :: "nat list"
  mg_new_ids :: "task_id option list"
  mg_minted :: nat
  mg_reused :: nat
  mg_info :: "task_id \<rightharpoonup> nat \<times> nat"
  mg_rows :: "nat list"

text \<open>The two loops that write the identifiers of the new lines.\<close>

definition write_matched :: "nat list \<Rightarrow> (task_id \<times> nat) list \<Rightarrow> task_id option list \<Rightarrow> task_id option list" where
  "write_matched rows matched ids = fold (\<lambda>(t, tli) ids. ids[rows ! tli := Some t]) matched ids"

fun write_minted :: "'m minter \<Rightarrow> nat list \<Rightarrow> nat list \<Rightarrow> task_id option list \<Rightarrow> 'm \<Rightarrow> task_id option list \<times> 'm" where
  "write_minted mint rows [] ids s = (ids, s)"
| "write_minted mint rows (tli # tlis) ids s =
    (let (u, s1) = mint s in write_minted mint rows tlis (ids[rows ! tli := Some u]) s1)"

definition resolve_matches :: "'f matcher \<Rightarrow> 'm minter \<Rightarrow> side \<Rightarrow> todo_file \<Rightarrow> 'm \<Rightarrow> matching \<times> 'm" where
  "resolve_matches mt mint old new s =
    (let order = old_order old;
         rows = new_rows new;
         max_task_count = max (length order) (length rows);
         sp = split_exact_matches order rows (sd_file old) new;
         reduced_old = fingerprints_of mt (sl_old sp) order (sd_file old);
         reduced_new = fingerprints_of_new mt (sl_new sp) rows new;
         solved = assign mt reduced_old reduced_new max_task_count;
         matched = sl_trivial sp @ map (\<lambda>(t, i). (t, sl_new sp ! i)) (am_matched solved);
         inserted = map (\<lambda>i. sl_new sp ! i) (am_inserted solved);
         (new_ids, s1) = write_minted mint rows inserted (write_matched rows matched (replicate (length (f_lines new)) None)) s
     in (\<lparr>mg_matched = matched, mg_deleted = am_deleted solved, mg_inserted = inserted, mg_new_ids = new_ids,
          mg_minted = length inserted, mg_reused = length matched, mg_info = old_info order, mg_rows = rows\<rparr>, s1))"

section \<open>Moves, changes and blanks\<close>

text \<open>One turn of the loop of \<open>lis_indices\<close>; \<open>partition_point\<close> on a list its predicate splits is the length of the first part.\<close>

definition lis_step :: "nat list \<Rightarrow> nat \<Rightarrow> nat list \<times> nat option list \<Rightarrow> nat list \<times> nat option list" where
  "lis_step seq i acc =
    (let (tails, prev) = acc;
         p = length (takeWhile (\<lambda>ti. seq ! ti < seq ! i) tails);
         prev1 = (if p > 0 then prev[i := Some (tails ! (p - 1))] else prev)
     in (if p = length tails then tails @ [i] else tails[p := i], prev1))"

text \<open>The loop that walks the predecessors back; each is before the one it belongs to (part of \<open>lis_inv\<close>), which the guard
  states for the sake of termination.\<close>

function lis_walk :: "nat option list \<Rightarrow> nat option \<Rightarrow> nat list" where
  "lis_walk prev None = []"
| "lis_walk prev (Some i) = i # (case prev ! i of Some j \<Rightarrow> if j < i then lis_walk prev (Some j) else [] | None \<Rightarrow> [])"
  by pat_completeness auto
termination
  by (relation "measure (\<lambda>(_, c). case c of None \<Rightarrow> 0 | Some i \<Rightarrow> Suc i)") auto

declare lis_walk.simps [simp del]

definition lis_indices :: "nat list \<Rightarrow> nat list" where
  "lis_indices seq =
    (let (tails, prev) = fold (lis_step seq) [0..<length seq] ([], replicate (length seq) None)
     in rev (lis_walk prev (if tails = [] then None else Some (last tails))))"

record classified =
  cl_changes :: "(nat \<times> nat) list"
  cl_moves :: "(nat \<times> nat) list"

definition classify_matched ::
    "(task_id \<times> nat) list \<Rightarrow> (task_id \<rightharpoonup> nat \<times> nat) \<Rightarrow> nat list \<Rightarrow> todo_file \<Rightarrow> todo_file \<Rightarrow> classified" where
  "classify_matched matched info rows old new =
    (let ordered = sort_key (\<lambda>(t, _). fst (the (info t))) matched;
         lis = set (lis_indices (map snd ordered));
         pairs = map (\<lambda>(i, t, new_tli). (i, snd (the (info t)), rows ! new_tli)) (enumerate 0 ordered)
     in \<lparr>cl_changes = map snd (filter (\<lambda>(i, o', n). i \<in> lis \<and> ol_bytes (f_lines old ! o') \<noteq> ol_bytes (f_lines new ! n)) pairs),
         cl_moves = map snd (filter (\<lambda>(i, _, _). i \<notin> lis) pairs)\<rparr>)"

definition blank_slots :: "task_id option list \<Rightarrow> nat \<Rightarrow> (task_id option \<times> nat list) list" where
  "blank_slots ids n = fold (\<lambda>raw m. if ids ! raw = None then push_to (prev_task ids raw) raw m else m) [0..<n] []"

definition slots_at :: "(task_id option \<times> nat list) list \<Rightarrow> task_id option \<Rightarrow> nat list" where
  "slots_at m a = (case map_of m a of Some v \<Rightarrow> v | None \<Rightarrow> [])"

definition pair_blank_runs :: "side \<Rightarrow> side \<Rightarrow> nat list \<times> nat list \<Rightarrow> nat list \<times> nat list" where
  "pair_blank_runs old new acc =
    (let old_slots = blank_slots (sd_ids old) (length (f_lines (sd_file old)));
         new_slots = blank_slots (sd_ids new) (length (f_lines (sd_file new)));
         anchors = sort (remdups (map fst old_slots @ map fst new_slots))
     in fold (\<lambda>a (deletes, inserts).
          let olds = slots_at old_slots a; news = slots_at new_slots a; keep = min (length olds) (length news)
          in (deletes @ drop keep olds, inserts @ drop keep news)) anchors acc)"

definition reconcile_sidecar ::
    "'f matcher \<Rightarrow> 'm minter \<Rightarrow> side \<Rightarrow> todo_file \<Rightarrow> file_path \<Rightarrow> 'm \<Rightarrow> reconciled \<times> 'm" where
  "reconcile_sidecar mt mint old new path s =
    (let (m, s1) = resolve_matches mt mint old new s;
         deletes0 = map (\<lambda>t. snd (the (mg_info m t))) (mg_deleted m);
         inserts0 = map (\<lambda>tli. mg_rows m ! tli) (mg_inserted m);
         cl = classify_matched (mg_matched m) (mg_info m) (mg_rows m) (sd_file old) new;
         (deletes, inserts) = pair_blank_runs old \<lparr>sd_file = new, sd_ids = mg_new_ids m\<rparr> (deletes0, inserts0);
         diffs = map DDelete (sort deletes) @ map (\<lambda>(f, t). DChange f t) (cl_changes cl) @
                 map (\<lambda>(f, t). DMove f t) (cl_moves cl) @ map DInsert (sort inserts);
         ops = blank_pass diffs (mg_new_ids m) (task_pass diffs new (mg_new_ids m) path
                 (change_pass diffs (sd_file old) (sd_ids old) new (delete_pass diffs (sd_ids old) [])))
     in (\<lparr>rc_ops = ops, rc_file = new, rc_minted = mg_minted m, rc_reused = mg_reused m, rc_ids = mg_new_ids m\<rparr>, s1))"

section \<open>The longest increasing subsequence\<close>

text \<open>After the first \<open>k\<close> elements: the walk back from an index is a decreasing chain, as long as the longest chain
  that ends there; the tail at \<open>p\<close> ends a chain of \<open>p + 1\<close> and has the least value of those seen.\<close>

definition lis_inv :: "nat list \<Rightarrow> nat \<Rightarrow> nat list \<Rightarrow> nat option list \<Rightarrow> bool" where
  "lis_inv seq k tails prev \<longleftrightarrow> length prev = length seq \<and>
     (\<forall>i. k \<le> i \<longrightarrow> i < length seq \<longrightarrow> prev ! i = None) \<and>
     (\<forall>i < k. \<forall>j. prev ! i = Some j \<longrightarrow> j < i) \<and>
     (\<forall>t \<in> set tails. t < k) \<and> sorted_wrt (<) (map ((!) seq) tails) \<and>
     (\<forall>p < length tails. length (lis_walk prev (Some (tails ! p))) = Suc p) \<and>
     (\<forall>i < k. sorted_wrt (>) (lis_walk prev (Some i)) \<and> sorted_wrt (>) (map ((!) seq) (lis_walk prev (Some i)))) \<and>
     (\<forall>i < k. \<exists>r < length tails. length (lis_walk prev (Some i)) = Suc r \<and> seq ! (tails ! r) \<le> seq ! i) \<and>
     (\<forall>i j. i < j \<longrightarrow> j < k \<longrightarrow> seq ! i < seq ! j \<longrightarrow>
        length (lis_walk prev (Some i)) < length (lis_walk prev (Some j)))"

lemma lis_walk_Some:
  "lis_walk prev (Some i) = i # (case prev ! i of Some j \<Rightarrow> if j < i then lis_walk prev (Some j) else [] | None \<Rightarrow> [])"
  by (rule lis_walk.simps)

lemma lis_walk_cong: "(\<forall>i \<le> j. prev' ! i = prev ! i) \<Longrightarrow> lis_walk prev' (Some j) = lis_walk prev (Some j)"
proof (induction j rule: less_induct)
  case (less j)
  then show ?case using lis_walk_Some [of prev j] lis_walk_Some [of prev' j] by (auto split: option.split)
qed

lemma lis_walk_set: "x \<in> set (lis_walk prev (Some i)) \<Longrightarrow> x \<le> i"
proof (induction i rule: less_induct)
  case (less i)
  then show ?case using lis_walk_Some [of prev i] by (cases "prev ! i") (force split: if_splits dest: less.IH)+
qed

lemma lis_inv_start: "lis_inv seq 0 [] (replicate (length seq) None)"
  by (simp add: lis_inv_def)

lemma lis_inv_step:
  assumes inv: "lis_inv seq k tails prev" and k: "k < length seq" and st: "lis_step seq k (tails, prev) = (tails', prev')"
  shows "lis_inv seq (Suc k) tails' prev'"
proof -
  define p where "p = length (takeWhile (\<lambda>ti. seq ! ti < seq ! k) tails)"
  note I = inv [unfolded lis_inv_def]
  have len: "length prev = length seq" and unset: "\<And>i. k \<le> i \<Longrightarrow> i < length seq \<Longrightarrow> prev ! i = None"
    and earlier: "\<And>i j. i < k \<Longrightarrow> prev ! i = Some j \<Longrightarrow> j < i"
    and low: "\<And>t. t \<in> set tails \<Longrightarrow> t < k" and inc: "sorted_wrt (<) (map ((!) seq) tails)"
    and tl: "\<And>q. q < length tails \<Longrightarrow> length (lis_walk prev (Some (tails ! q))) = Suc q"
    and dec: "\<And>i. i < k \<Longrightarrow> sorted_wrt (>) (lis_walk prev (Some i)) \<and> sorted_wrt (>) (map ((!) seq) (lis_walk prev (Some i)))"
    and rank: "\<And>i. i < k \<Longrightarrow> \<exists>r < length tails. length (lis_walk prev (Some i)) = Suc r \<and> seq ! (tails ! r) \<le> seq ! i"
    and mono: "\<And>i j. i < j \<Longrightarrow> j < k \<Longrightarrow> seq ! i < seq ! j \<Longrightarrow> length (lis_walk prev (Some i)) < length (lis_walk prev (Some j))"
    using I by blast+
  have ple: "p \<le> length tails" unfolding p_def by (rule length_takeWhile_le)
  have below: "seq ! (tails ! q) < seq ! k" if "q < p" for q
    using that set_takeWhileD [of "tails ! q" "\<lambda>ti. seq ! ti < seq ! k" tails] takeWhile_nth [of q "\<lambda>ti. seq ! ti < seq ! k" tails]
    unfolding p_def by (metis nth_mem)
  have above: "seq ! k \<le> seq ! (tails ! q)" if "p \<le> q" "q < length tails" for q
  proof -
    have "seq ! k \<le> seq ! (tails ! p)" using that nth_length_takeWhile [of "\<lambda>ti. seq ! ti < seq ! k" tails] by (auto simp: p_def)
    moreover have "seq ! (tails ! p) \<le> seq ! (tails ! q)"
      using that inc unfolding sorted_wrt_iff_nth_less by (cases "p = q") (auto simp: less_imp_le)
    ultimately show ?thesis by simp
  qed
  have "(tails', prev') = (if p = length tails then tails @ [k] else tails[p := k],
      if p > 0 then prev[k := Some (tails ! (p - 1))] else prev)"
    using st [symmetric] unfolding p_def by (simp only: lis_step_def Let_def prod.case)
  then have tails': "tails' = (if p = length tails then tails @ [k] else tails[p := k])"
    and prev': "prev' = (if p > 0 then prev[k := Some (tails ! (p - 1))] else prev)" by blast+
  have nth': "tails' ! q = (if q = p then k else tails ! q)" if "q < length tails'" for q
    using that ple by (auto simp: tails' nth_append split: if_splits)
  have len': "length tails' = max (length tails) (Suc p)" using ple by (auto simp: tails')
  have old: "prev' ! i = prev ! i" if "i \<noteq> k" for i using that by (simp add: prev')
  then have walk: "lis_walk prev' (Some i) = lis_walk prev (Some i)" if "i < k" for i
    using that by (intro lis_walk_cong) auto
  have walk_k: "lis_walk prev' (Some k) = k # (if p > 0 then lis_walk prev (Some (tails ! (p - 1))) else [])"
  proof (cases "p > 0")
    case True
    then have "tails ! (p - 1) < k" using low ple by simp
    then show ?thesis using True k len walk lis_walk_Some [of prev' k] by (simp add: prev')
  next
    case False
    then show ?thesis using unset [of k] k lis_walk_Some [of prev' k] by (simp add: prev')
  qed
  have length_k: "length (lis_walk prev' (Some k)) = Suc p"
    unfolding walk_k using tl [of "p - 1"] ple by (cases "p > 0") auto
  have dec_k: "sorted_wrt (>) (lis_walk prev' (Some k)) \<and> sorted_wrt (>) (map ((!) seq) (lis_walk prev' (Some k)))"
  proof (cases "p > 0")
    case True
    let ?t = "tails ! (p - 1)" and ?w = "lis_walk prev (Some (tails ! (p - 1)))"
    have t: "?t < k" "seq ! ?t < seq ! k" using low below True ple by simp_all
    note d = dec [OF t(1)]
    obtain ws where ws: "?w = ?t # ws" using lis_walk_Some [of prev ?t] by blast
    have "seq ! x \<le> seq ! ?t" if "x \<in> set ?w" for x
      using d that unfolding ws by (auto simp: less_imp_le)
    then show ?thesis unfolding walk_k using True d t lis_walk_set [of _ prev ?t] by fastforce
  qed (simp add: walk_k)
  show ?thesis unfolding lis_inv_def
  proof (intro conjI allI impI ballI)
    show "length prev' = length seq" using len by (simp add: prev')
    show "prev' ! i = None" if "Suc k \<le> i" "i < length seq" for i using that unset old by simp
    show "j < i" if "i < Suc k" "prev' ! i = Some j" for i j
    proof (cases "i = k")
      case True
      then show ?thesis using that low ple unset [of k] k len by (auto simp: prev' split: if_splits)
    qed (use that earlier old in auto)
    show "t < Suc k" if "t \<in> set tails'" for t
      using that low set_update_subset_insert [of tails p k] by (fastforce simp: tails' split: if_splits)
    show "sorted_wrt (<) (map ((!) seq) tails')"
      unfolding sorted_wrt_iff_nth_less
    proof (intro allI impI)
      fix a b assume ab: "a < b" "b < length (map ((!) seq) tails')"
      then have "b < length tails'" "a < length tails'" by simp_all
      moreover have "seq ! (tails ! a) < seq ! (tails ! b)" if "b < length tails"
        using inc ab that unfolding sorted_wrt_iff_nth_less by simp
      moreover have "seq ! k < seq ! (tails ! b)" if "a = p" "b < length tails"
      proof -
        have "seq ! (tails ! p) < seq ! (tails ! b)" using that ab inc unfolding sorted_wrt_iff_nth_less by simp
        then show ?thesis using above [of p] that ab by simp
      qed
      moreover have "b < length tails" if "b \<noteq> p" using ab len' ple that by auto
      ultimately show "map ((!) seq) tails' ! a < map ((!) seq) tails' ! b"
        using ab below nth' len' by auto
    qed
    show "length (lis_walk prev' (Some (tails' ! q))) = Suc q" if "q < length tails'" for q
    proof (cases "q = p")
      case False
      then have "q < length tails" using that len' ple by auto
      then show ?thesis using False nth' [OF that] low tl walk by simp
    qed (use length_k nth' that in simp)
    show "sorted_wrt (>) (lis_walk prev' (Some i))" if "i < Suc k" for i using that dec dec_k walk by (cases "i = k") auto
    show "sorted_wrt (>) (map ((!) seq) (lis_walk prev' (Some i)))" if "i < Suc k" for i using that dec dec_k walk by (cases "i = k") auto
    show "\<exists>r < length tails'. length (lis_walk prev' (Some i)) = Suc r \<and> seq ! (tails' ! r) \<le> seq ! i" if "i < Suc k" for i
    proof (cases "i = k")
      case True
      then show ?thesis using length_k nth' [of p] len' by (intro exI [of _ p]) auto
    next
      case False
      then have i: "i < k" using that by simp
      obtain r where r: "r < length tails" "length (lis_walk prev (Some i)) = Suc r" "seq ! (tails ! r) \<le> seq ! i" using rank [OF i] by blast
      have "seq ! (tails' ! r) \<le> seq ! (tails ! r)" using r(1) above [of p] nth' [of r] len' by auto
      then show ?thesis using r walk [OF i] len' by (intro exI [of _ r]) auto
    qed
    show "length (lis_walk prev' (Some i)) < length (lis_walk prev' (Some j))" if "i < j" "j < Suc k" "seq ! i < seq ! j" for i j
    proof (cases "j = k")
      case True
      then have i: "i < k" using that by simp
      obtain r where r: "r < length tails" "length (lis_walk prev (Some i)) = Suc r" "seq ! (tails ! r) \<le> seq ! i" using rank [OF i] by blast
      have "r < p" using r above [of r] that(3) True by (meson le_less_trans not_le)
      then show ?thesis using True length_k walk [OF i] r by simp
    qed (use that mono walk in auto)
  qed
qed

lemma lis_inv_all:
  "k \<le> length seq \<Longrightarrow> fold (lis_step seq) [0..<k] ([], replicate (length seq) None) = (tails, prev) \<Longrightarrow> lis_inv seq k tails prev"
proof (induction k arbitrary: tails prev)
  case 0
  then show ?case using lis_inv_start [of seq] by auto
next
  case (Suc k)
  obtain tl pv where f: "fold (lis_step seq) [0..<k] ([], replicate (length seq) None) = (tl, pv)" by fastforce
  then have "lis_step seq k (tl, pv) = (tails, prev)" using Suc.prems by simp
  then show ?case using lis_inv_step [OF Suc.IH [OF _ f]] Suc.prems(1) by simp
qed

lemma lis_prev_less:
  "fold (lis_step seq) [0..<length seq] ([], replicate (length seq) None) = (tails, prev) \<Longrightarrow> i < length seq \<Longrightarrow>
   prev ! i = Some j \<Longrightarrow> j < i"
  using lis_inv_all [of "length seq" seq tails prev] by (simp add: lis_inv_def)

lemma increasing_bounded:
  assumes "sorted_wrt (<) (map f js)" "\<And>j. j \<in> set js \<Longrightarrow> f j < (n :: nat)"
  shows "length js \<le> n"
proof -
  have "distinct (map f js)" using assms(1) by (simp add: strict_sorted_iff)
  then have "length js = card (set (map f js))" by (metis distinct_card length_map)
  also have "\<dots> \<le> card {..<n}" using assms(2) by (intro card_mono) auto
  finally show ?thesis by simp
qed

lemma strict_desc_rev: "sorted_wrt (>) xs \<Longrightarrow> sorted_wrt (<) (rev xs :: nat list)"
  by (simp add: sorted_wrt_rev)

text \<open>C32: \<open>lis_indices\<close> returns the positions of a strictly increasing subsequence of its input, in order, and no strictly
  increasing subsequence is longer: the fewest lines are taken for moved.\<close>

theorem lis_indices_longest:
  "sorted_wrt (<) (lis_indices xs) \<and> (\<forall>i \<in> set (lis_indices xs). i < length xs) \<and>
   sorted_wrt (<) (map ((!) xs) (lis_indices xs)) \<and>
   (\<forall>js. sorted_wrt (<) js \<longrightarrow> (\<forall>j \<in> set js. j < length xs) \<longrightarrow> sorted_wrt (<) (map ((!) xs) js) \<longrightarrow>
      length js \<le> length (lis_indices xs))"
proof -
  obtain tails prev where f: "fold (lis_step xs) [0..<length xs] ([], replicate (length xs) None) = (tails, prev)" by fastforce
  note I = lis_inv_all [OF order_refl f, unfolded lis_inv_def]
  let ?w = "lis_walk prev (if tails = [] then None else Some (last tails))"
  have lis: "lis_indices xs = rev ?w" using f by (simp add: lis_indices_def)
  have len: "length ?w = length tails"
  proof (cases "tails = []")
    case False
    then show ?thesis using I by (simp add: last_conv_nth)
  qed (simp add: lis_walk.simps)
  have w: "sorted_wrt (>) ?w" "sorted_wrt (>) (map ((!) xs) ?w)" "\<forall>i \<in> set ?w. i < length xs"
  proof -
    have lt: "last tails < length xs" if "tails \<noteq> []" using I that by simp
    then show "sorted_wrt (>) ?w" "sorted_wrt (>) (map ((!) xs) ?w)" using I by (simp_all add: lis_walk.simps(1))
    have "i < length xs" if "i \<in> set (lis_walk prev (Some (last tails)))" "tails \<noteq> []" for i
      using lis_walk_set [OF that(1)] lt [OF that(2)] by (rule le_less_trans)
    then show "\<forall>i \<in> set ?w. i < length xs" by (simp add: lis_walk.simps(1))
  qed
  have "length js \<le> length tails" if js: "sorted_wrt (<) js" "\<forall>j \<in> set js. j < length xs" "sorted_wrt (<) (map ((!) xs) js)" for js
  proof -
    let ?r = "\<lambda>i. length (lis_walk prev (Some i)) - 1"
    have r: "length (lis_walk prev (Some i)) = Suc (?r i) \<and> ?r i < length tails" if "i \<in> set js" for i
      using I js(2) that by (metis diff_Suc_1)
    have "sorted_wrt (<) (map ?r js)"
      unfolding sorted_wrt_iff_nth_less
    proof (intro allI impI)
      fix a b assume ab: "a < b" "b < length (map ?r js)"
      then have "js ! a < js ! b" "xs ! (js ! a) < xs ! (js ! b)" "js ! b < length xs"
        using js unfolding sorted_wrt_iff_nth_less by auto
      then have "length (lis_walk prev (Some (js ! a))) < length (lis_walk prev (Some (js ! b)))" using I by blast
      then show "map ?r js ! a < map ?r js ! b" using r [of "js ! a"] r [of "js ! b"] ab by simp
    qed
    then show ?thesis using increasing_bounded r by blast
  qed
  then show ?thesis unfolding lis using w len by (auto simp: rev_map [symmetric] intro!: strict_desc_rev)
qed

theorem lis_indices_longest_witness: "lis_indices [3, 0, 4, 1, 2] = [1, 3, 4] \<and> length [1, 3 :: nat] \<le> length (lis_indices [3, 0, 4, 1, 2])"
proof -
  have "lis_indices [3, 0, 4, 1, 2] = [1, 3, 4]" by code_simp
  moreover have "length [1, 3 :: nat] \<le> length (lis_indices [3, 0, 4, 1, 2])"
    using lis_indices_longest [of "[3, 0, 4, 1, 2]"] by (auto dest!: spec [of _ "[1, 3 :: nat]"])
  ultimately show ?thesis by simp
qed

section \<open>The assignment is a partition\<close>

definition row_ok :: "'f matcher \<Rightarrow> (task_id \<times> 'f) list \<Rightarrow> 'f list \<Rightarrow> nat \<Rightarrow> nat \<times> nat \<Rightarrow> bool" where
  "row_ok mt old new n rc \<longleftrightarrow> snd rc < length new \<and> pair_cost mt old new n (fst rc) (snd rc) < mt_threshold mt"

lemma assign_rows:
  fixes mt :: "'f matcher" and new :: "'f list" and old :: "(task_id \<times> 'f) list" and n :: nat
  defines "ok \<equiv> row_ok mt old new n"
  assumes "fold (assign_row mt old new n) rcs (m0, d0, t0) = (matched, deleted, taken)" and "length t0 = length new"
  shows "matched = m0 @ map (\<lambda>(r, c). (fst (old ! r), c)) (filter (\<lambda>rc. fst rc < length old \<and> ok rc) rcs) \<and>
    deleted = d0 @ map (\<lambda>(r, c). fst (old ! r)) (filter (\<lambda>rc. fst rc < length old \<and> \<not> ok rc) rcs) \<and>
    length taken = length new \<and>
    (\<forall>i < length new. taken ! i \<longleftrightarrow> t0 ! i \<or> i \<in> snd ` set (filter (\<lambda>rc. fst rc < length old \<and> ok rc) rcs))"
  using assms(2,3)
proof (induction rcs arbitrary: m0 d0 t0)
  case (Cons rc rcs)
  obtain r c where rc: "rc = (r, c)" by (cases rc)
  show ?case
  proof (cases "r < length old")
    case False
    then have "assign_row mt old new n rc (m0, d0, t0) = (m0, d0, t0)" by (simp add: assign_row_def rc get_def)
    then show ?thesis using Cons.IH [OF _ Cons.prems(2)] Cons.prems(1) False rc by simp
  next
    case r: True
    then have g: "get old r = Some (fst (old ! r), snd (old ! r))" by (simp add: get_def)
    show ?thesis
    proof (cases "ok rc")
      case True
      then have c: "c < length new" by (simp add: ok_def row_ok_def rc)
      have "assign_row mt old new n rc (m0, d0, t0) = (m0 @ [(fst (old ! r), c)], d0, t0[c := True])"
        using True g by (simp add: assign_row_def rc ok_def row_ok_def case_prod_beta)
      then show ?thesis using Cons.IH [of "m0 @ [(fst (old ! r), c)]" d0 "t0[c := True]"] Cons.prems True r rc c
        by (auto simp: nth_list_update)
    next
      case False
      then have "assign_row mt old new n rc (m0, d0, t0) = (m0, d0 @ [fst (old ! r)], t0)"
        using g by (simp add: assign_row_def rc ok_def row_ok_def case_prod_beta)
      then show ?thesis using Cons.IH [of m0 "d0 @ [fst (old ! r)]" t0] Cons.prems False r rc by auto
    qed
  qed
qed simp

lemma enumerate_rows: "n \<le> length cols \<Longrightarrow> map fst (filter (\<lambda>rc. fst rc < n) (enumerate 0 cols)) = [0..<n]"
proof -
  assume n: "n \<le> length cols"
  have "map fst (filter (\<lambda>rc. fst rc < n) (enumerate 0 cols)) = filter (\<lambda>r. r < n) (map fst (enumerate 0 cols))"
    unfolding filter_map by (simp add: comp_def)
  also have "\<dots> = filter (\<lambda>r. r < n) ([0..<n] @ [n..<length cols])"
    using n upt_add_eq_append [of 0 n "length cols - n"] by simp
  also have "\<dots> = [0..<n]" by (simp add: filter_id_conv filter_empty_conv)
  finally show ?thesis .
qed

lemma mset_complement: "distinct xs \<Longrightarrow> set xs \<subseteq> {..<n} \<Longrightarrow> mset xs + mset (filter (\<lambda>i. i \<notin> set xs) [0..<n]) = mset [0..<n]"
proof -
  assume a: "distinct xs" "set xs \<subseteq> {..<n}"
  have "mset xs = mset (filter (\<lambda>i. i \<in> set xs) [0..<n])"
    using a by (intro set_eq_iff_mset_eq_distinct [THEN iffD1]) auto
  then show ?thesis by (metis mset_filter multiset_partition)
qed

lemma mset_map_partition: "mset (map g (filter P xs)) + mset (map g (filter (\<lambda>x. \<not> P x) xs)) = mset (map g xs)"
  by (induction xs) auto

definition solver_ok :: "'f matcher \<Rightarrow> bool" where
  "solver_ok mt \<longleftrightarrow> (\<forall>m. (\<forall>row \<in> set m. length row = length m) \<longrightarrow> mset (mt_solve mt m) = mset [0..<length m])"

lemma assign_parts:
  assumes "solver_ok mt"
  shows "mset (map fst (am_matched (assign mt old new n)) @ am_deleted (assign mt old new n)) = mset (map fst old)"
    and "mset (map snd (am_matched (assign mt old new n)) @ am_inserted (assign mt old new n)) = mset [0..<length new]"
    and "\<forall>(t, i) \<in> set (am_matched (assign mt old new n)). i < length new \<and>
      (\<exists>f. (t, f) \<in> set old \<and> mt_cost mt f (new ! i) n < mt_threshold mt)"
proof -
  define k where "k = max (length old) (length new)"
  define cols where "cols = mt_solve mt (map (\<lambda>row. map (pair_cost mt old new n row) [0..<k]) [0..<k])"
  define rows where "rows = filter (\<lambda>rc. fst rc < length old) (enumerate 0 cols)"
  let ?ok = "row_ok mt old new n"
  have cols: "mset cols = mset [0..<k]" using assms unfolding solver_ok_def cols_def
    by (metis (no_types, lifting) length_map length_upt minus_nat.diff_0 ex_map_conv)
  then have dist: "distinct cols" and len: "length cols = k"
    using mset_eq_imp_distinct_iff [OF cols] mset_eq_length [OF cols] by simp_all
  obtain matched deleted taken where f: "fold (assign_row mt old new n) (enumerate 0 cols) ([], [], replicate (length new) False) = (matched, deleted, taken)"
    by (metis prod_cases3)
  note R = assign_rows [OF f length_replicate]
  have a: "assign mt old new n = \<lparr>am_matched = matched, am_deleted = deleted, am_inserted = filter (\<lambda>i. \<not> taken ! i) [0..<length new]\<rparr>"
  proof (cases "k = 0")
    case True
    then have "old = []" "new = []" "cols = []" using len by (auto simp: k_def)
    with f show ?thesis by (auto simp: assign_def)
  next
    case False
    then show ?thesis using f unfolding assign_def cols_def k_def by (auto simp: Let_def)
  qed
  have ff: "filter (\<lambda>rc. fst rc < length old \<and> Q rc) (enumerate 0 cols) = filter Q rows" for Q
    by (simp add: rows_def conj_commute)
  have m: "matched = map (\<lambda>(r, c). (fst (old ! r), c)) (filter ?ok rows)" "deleted = map (\<lambda>(r, c). fst (old ! r)) (filter (\<lambda>rc. \<not> ?ok rc) rows)"
    and tk: "\<And>i. i < length new \<Longrightarrow> taken ! i \<longleftrightarrow> i \<in> snd ` set (filter ?ok rows)"
    using R unfolding ff by auto
  have rr: "map fst rows = [0..<length old]" unfolding rows_def by (rule enumerate_rows) (simp add: len k_def)
  have "mset (map fst matched @ deleted) = mset (map (\<lambda>rc. fst (old ! fst rc)) rows)"
  proof -
    have "map fst matched = map (\<lambda>rc. fst (old ! fst rc)) (filter ?ok rows)" "deleted = map (\<lambda>rc. fst (old ! fst rc)) (filter (\<lambda>rc. \<not> ?ok rc) rows)"
      unfolding m by auto
    then show ?thesis using mset_map_partition [of "\<lambda>rc. fst (old ! fst rc)" ?ok rows] by (simp only: mset_append)
  qed
  also have "map (\<lambda>rc. fst (old ! fst rc)) rows = map (\<lambda>r. fst (old ! r)) (map fst rows)" by simp
  also have "\<dots> = map fst old" unfolding rr by (rule nth_equalityI) simp_all
  finally show "mset (map fst (am_matched (assign mt old new n)) @ am_deleted (assign mt old new n)) = mset (map fst old)"
    using a by simp
  have sm: "map snd matched = map snd (filter ?ok rows)" unfolding m by auto
  have "distinct (map snd (filter Q (enumerate 0 cols)))" for Q using dist by (metis distinct_map_filter map_snd_enumerate)
  then have "distinct (map snd matched)" unfolding sm rows_def filter_filter by blast
  moreover have "set (map snd matched) \<subseteq> {..<length new}" unfolding sm by (auto simp: row_ok_def)
  moreover have "filter (\<lambda>i. \<not> taken ! i) [0..<length new] = filter (\<lambda>i. i \<notin> set (map snd matched)) [0..<length new]"
    unfolding sm by (rule filter_cong) (use tk in auto)
  ultimately show "mset (map snd (am_matched (assign mt old new n)) @ am_inserted (assign mt old new n)) = mset [0..<length new]"
    using a mset_complement [of "map snd matched" "length new"] by simp
  have "r < length old" if "(r, c) \<in> set rows" for r c using that by (simp add: rows_def)
  then show "\<forall>(t, i) \<in> set (am_matched (assign mt old new n)). i < length new \<and>
      (\<exists>f. (t, f) \<in> set old \<and> mt_cost mt f (new ! i) n < mt_threshold mt)"
    unfolding a m by (auto simp: row_ok_def pair_cost_def intro!: exI nth_mem)
qed

section \<open>Lines with the same bytes\<close>

definition values_of :: "('k \<times> 'v list) list \<Rightarrow> 'v list" where
  "values_of m = concat (map snd m)"

lemma values_push_to: "mset (values_of (push_to k v m)) = add_mset v (mset (values_of m))"
  by (induction k v m rule: push_to.induct) (auto simp: values_of_def)

lemma values_pop:
  "pop_front_of k m = (r, m') \<Longrightarrow> mset (values_of m) = (case r of None \<Rightarrow> {#} | Some v \<Rightarrow> {#v#}) + mset (values_of m')"
proof (induction k m arbitrary: r m' rule: pop_front_of.induct)
  case (2 k k' vs m)
  show ?case
  proof (cases "k' = k")
    case True
    then show ?thesis using 2(2) by (auto simp: values_of_def split: list.splits)
  next
    case False
    obtain r1 m1 where p: "pop_front_of k m = (r1, m1)" by fastforce
    then have "r = r1" "m' = (k', vs) # m1" using 2(2) False by simp_all
    then show ?thesis using 2(1) [OF False p] by (simp add: values_of_def)
  qed
qed (simp add: values_of_def)

text \<open>Every value under a key satisfies what the key promises.\<close>

definition keyed_by :: "('v \<Rightarrow> 'k) \<Rightarrow> ('k \<times> 'v list) list \<Rightarrow> bool" where
  "keyed_by f m \<longleftrightarrow> (\<forall>x \<in> set m. \<forall>v \<in> set (snd x). f v = fst x)"

lemma keyed_push_to: "keyed_by f m \<Longrightarrow> f v = k \<Longrightarrow> keyed_by f (push_to k v m)"
  by (induction k v m rule: push_to.induct) (auto simp: keyed_by_def)

lemma keyed_pop: "pop_front_of k m = (r, m') \<Longrightarrow> keyed_by f m \<Longrightarrow> keyed_by f m' \<and> (\<forall>v. r = Some v \<longrightarrow> f v = k)"
proof (induction k m arbitrary: r m' rule: pop_front_of.induct)
  case (2 k k' vs m)
  show ?case
  proof (cases "k' = k")
    case True
    then show ?thesis using 2(2,3) by (auto simp: keyed_by_def split: list.splits)
  next
    case False
    obtain r1 m1 where p: "pop_front_of k m = (r1, m1)" by fastforce
    then have "r = r1" "m' = (k', vs) # m1" using 2(2) False by simp_all
    moreover have "keyed_by f m1 \<and> (\<forall>v. r1 = Some v \<longrightarrow> f v = k)" by (rule 2(1) [OF False p]) (use 2(3) in \<open>simp add: keyed_by_def\<close>)
    moreover have "\<forall>v \<in> set vs. f v = k'" using 2(3) by (simp add: keyed_by_def)
    ultimately show ?thesis by (simp add: keyed_by_def)
  qed
qed (simp add: keyed_by_def)

lemma by_bytes_facts:
  "mset (values_of (by_bytes rows new)) = mset [0..<length rows] \<and> keyed_by (\<lambda>i. ol_bytes (f_lines new ! (rows ! i))) (by_bytes rows new)"
proof -
  let ?f = "\<lambda>i. ol_bytes (f_lines new ! (rows ! i))" and ?g = "\<lambda>(tli, raw). push_to (ol_bytes (f_lines new ! raw)) tli"
  have vals: "mset (values_of (fold ?g ps m)) = mset (values_of m) + mset (map fst ps)" for ps m
    by (induction ps arbitrary: m) (auto simp: values_push_to)
  have keyed: "keyed_by ?f (fold ?g ps m)" if "\<forall>i raw. (i, raw) \<in> set ps \<longrightarrow> rows ! i = raw" "keyed_by ?f m" for ps m
    using that
  proof (induction ps arbitrary: m)
    case (Cons p ps)
    obtain i raw where p: "p = (i, raw)" by (cases p)
    then have "keyed_by ?f (?g p m)" using Cons.prems by (simp add: keyed_push_to)
    then show ?case using Cons.IH [of "?g p m"] Cons.prems(1) by simp
  qed simp
  have "\<forall>i raw. (i, raw) \<in> set (enumerate 0 rows) \<longrightarrow> rows ! i = raw" by (auto simp: in_set_enumerate_eq)
  moreover have "keyed_by ?f []" by (simp add: keyed_by_def)
  ultimately have "keyed_by ?f (by_bytes rows new)" using keyed unfolding by_bytes_def by blast
  moreover have "mset (values_of (by_bytes rows new)) = mset [0..<length rows]"
    unfolding by_bytes_def vals by (simp only: map_fst_enumerate) (simp add: values_of_def)
  ultimately show ?thesis by blast
qed

definition same_bytes :: "todo_file \<Rightarrow> todo_file \<Rightarrow> nat \<Rightarrow> nat \<Rightarrow> bool" where
  "same_bytes old new i j \<longleftrightarrow> ol_bytes (f_lines old ! i) = ol_bytes (f_lines new ! j)"

definition split_inv ::
    "(task_id \<times> nat) list \<Rightarrow> nat list \<Rightarrow> todo_file \<Rightarrow> todo_file \<Rightarrow> nat \<Rightarrow>
     (string \<times> nat list) list \<times> (task_id \<times> nat) list \<times> bool list \<times> nat list \<Rightarrow> bool" where
  "split_inv order rows old new k = (\<lambda>(index, trivial, taken, rest).
     length taken = length rows \<and> mset (values_of index) + mset (map snd trivial) = mset [0..<length rows] \<and>
     (\<forall>i < length rows. taken ! i \<longleftrightarrow> i \<in> snd ` set trivial) \<and>
     keyed_by (\<lambda>i. ol_bytes (f_lines new ! (rows ! i))) index \<and>
     mset (map fst trivial) + mset (map (\<lambda>j. fst (order ! j)) rest) = mset (map fst (take k order)) \<and>
     (\<forall>j \<in> set rest. j < k) \<and>
     (\<forall>x \<in> set trivial. \<exists>raw. (fst x, raw) \<in> set order \<and> same_bytes old new raw (rows ! snd x)))"

lemma split_inv_step:
  assumes "split_inv order rows old new k acc" and k: "k < length order"
  shows "split_inv order rows old new (Suc k) (split_step old (k, order ! k) acc)"
proof -
  obtain index trivial taken rest where acc: "acc = (index, trivial, taken, rest)" by (cases acc)
  obtain t raw where o: "order ! k = (t, raw)" by (cases "order ! k")
  note I = assms(1) [unfolded acc split_inv_def prod.case]
  obtain r index1 where p: "pop_front_of (ol_bytes (f_lines old ! raw)) index = (r, index1)" by fastforce
  note v = values_pop [OF p]
  have kb: "keyed_by (\<lambda>i. ol_bytes (f_lines new ! (rows ! i))) index1" "\<And>i. r = Some i \<Longrightarrow> ol_bytes (f_lines new ! (rows ! i)) = ol_bytes (f_lines old ! raw)"
    using keyed_pop [OF p] I by blast+
  have tk: "take (Suc k) order = take k order @ [(t, raw)]" using k o by (simp add: take_Suc_conv_app_nth)
  show ?thesis
  proof (cases r)
    case None
    then have "split_step old (k, order ! k) acc = (index1, trivial, taken, rest @ [k])" using p by (simp add: split_step_def acc o)
    then show ?thesis using I kb v None o tk by (auto simp: split_inv_def less_Suc_eq)
  next
    case (Some i)
    have "i \<in># mset (values_of index) + mset (map snd trivial)" using v Some by simp
    then have "i \<in># mset [0..<length rows]" using I by (simp only: I)
    then have i: "i < length rows" by simp
    have st: "split_step old (k, order ! k) acc = (index1, trivial @ [(t, i)], taken[i := True], rest)" using p Some by (simp add: split_step_def acc o)
    have "(t, raw) \<in> set order" using k o nth_mem by metis
    then have "\<exists>raw. (t, raw) \<in> set order \<and> same_bytes old new raw (rows ! i)" using kb(2) [OF Some] by (auto simp: same_bytes_def)
    moreover have "\<forall>j < length rows. taken[i := True] ! j \<longleftrightarrow> j \<in> snd ` set (trivial @ [(t, i)])" using I i by (auto simp: nth_list_update)
    moreover have "mset (values_of index1) + mset (map snd (trivial @ [(t, i)])) = mset [0..<length rows]" using I v Some by simp
    moreover have "mset (map fst (trivial @ [(t, i)])) + mset (map (\<lambda>j. fst (order ! j)) rest) = mset (map fst (take (Suc k) order))" using I tk by simp
    ultimately show ?thesis unfolding st split_inv_def prod.case using I kb(1) by (auto intro: less_SucI)
  qed
qed

lemma split_inv_all:
  "k \<le> length order \<Longrightarrow> split_inv order rows old new k (fold (split_step old) (take k (enumerate 0 order)) (by_bytes rows new, [], replicate (length rows) False, []))"
proof (induction k)
  case 0
  then show ?case using by_bytes_facts [of rows new] by (simp add: split_inv_def)
next
  case (Suc k)
  then have "take (Suc k) (enumerate 0 order) = take k (enumerate 0 order) @ [(k, order ! k)]"
    by (simp add: take_Suc_conv_app_nth nth_enumerate_eq)
  then show ?case using split_inv_step [OF Suc.IH] Suc.prems by simp
qed

lemma split_parts:
  fixes order rows old new
  defines "sp \<equiv> split_exact_matches order rows old new"
  shows "mset (map fst (sl_trivial sp) @ map (\<lambda>j. fst (order ! j)) (sl_old sp)) = mset (map fst order)"
    and "mset (map snd (sl_trivial sp) @ sl_new sp) = mset [0..<length rows]"
    and "\<forall>j \<in> set (sl_old sp). j < length order"
    and "\<forall>x \<in> set (sl_trivial sp). \<exists>raw. (fst x, raw) \<in> set order \<and> same_bytes old new raw (rows ! snd x)"
proof -
  obtain index trivial taken rest where f: "fold (split_step old) (enumerate 0 order) (by_bytes rows new, [], replicate (length rows) False, []) = (index, trivial, taken, rest)"
    by (metis prod_cases4)
  note I = split_inv_all [OF order_refl, of order rows old new, simplified, unfolded f split_inv_def prod.case]
  have sp: "sp = \<lparr>sl_trivial = trivial, sl_old = rest, sl_new = filter (\<lambda>i. \<not> taken ! i) [0..<length rows]\<rparr>"
    using f by (simp add: sp_def split_exact_matches_def)
  show "mset (map fst (sl_trivial sp) @ map (\<lambda>j. fst (order ! j)) (sl_old sp)) = mset (map fst order)"
    and "\<forall>j \<in> set (sl_old sp). j < length order"
    and "\<forall>x \<in> set (sl_trivial sp). \<exists>raw. (fst x, raw) \<in> set order \<and> same_bytes old new raw (rows ! snd x)"
    using I by (simp_all add: sp)
  have ms: "mset (values_of index @ map snd trivial) = mset [0..<length rows]" using I by simp
  have "distinct (map snd trivial)" using mset_eq_imp_distinct_iff [OF ms] by simp
  moreover have "set (map snd trivial) \<subseteq> set [0..<length rows]" unfolding mset_eq_setD [OF ms, symmetric] by simp
  then have "set (map snd trivial) \<subseteq> {..<length rows}" by (simp add: lessThan_atLeast0)
  moreover have "filter (\<lambda>i. \<not> taken ! i) [0..<length rows] = filter (\<lambda>i. i \<notin> set (map snd trivial)) [0..<length rows]"
    by (rule filter_cong) (use I in auto)
  ultimately show "mset (map snd (sl_trivial sp) @ sl_new sp) = mset [0..<length rows]"
    using mset_complement [of "map snd trivial" "length rows"] by (simp add: sp)
qed

section \<open>Every task is accounted for\<close>

lemma old_order_task: "(t, raw) \<in> set (old_order old) \<Longrightarrow> task_of (f_lines (sd_file old) ! raw) \<noteq> None"
  by (auto simp: old_order_def List.map_filter_def in_set_enumerate_eq split: if_splits)

lemma new_rows_task: "raw \<in> set (new_rows new) \<longleftrightarrow> raw < length (f_lines new) \<and> task_of (f_lines new ! raw) \<noteq> None"
  by (auto simp: new_rows_def in_set_enumerate_eq image_iff)

lemma distinct_new_rows: "distinct (new_rows new)"
  unfolding new_rows_def by (metis distinct_enumerate distinct_map_filter distinct_upt map_fst_enumerate)

lemma map_filter_total: "\<forall>x \<in> set xs. f x \<noteq> None \<Longrightarrow> List.map_filter f xs = map (\<lambda>x. the (f x)) xs"
  by (induction xs) (auto simp: List.map_filter_def)

lemma fingerprints_tasks:
  assumes "\<forall>j \<in> set tlis. j < length (old_order old)"
  shows "map fst (fingerprints_of mt tlis (old_order old) (sd_file old)) = map (\<lambda>j. fst (old_order old ! j)) tlis"
proof -
  let ?f = "\<lambda>tli. let (t, raw) = old_order old ! tli in map_option (\<lambda>x. (t, mt_fingerprint mt x tli)) (task_of (f_lines (sd_file old) ! raw))"
  have f: "?f j \<noteq> None \<and> fst (the (?f j)) = fst (old_order old ! j)" if "j \<in> set tlis" for j
  proof -
    obtain t raw where o: "old_order old ! j = (t, raw)" by (cases "old_order old ! j")
    then have "(t, raw) \<in> set (old_order old)" using assms that nth_mem by metis
    then obtain y where "task_of (f_lines (sd_file old) ! raw) = Some y" using old_order_task by blast
    then show ?thesis using o by simp
  qed
  then show ?thesis unfolding fingerprints_of_def by (subst map_filter_total) auto
qed

lemma length_fingerprints_new:
  "\<forall>j \<in> set tlis. j < length (new_rows new) \<Longrightarrow> length (fingerprints_of_new mt tlis (new_rows new) new) = length tlis"
proof -
  assume "\<forall>j \<in> set tlis. j < length (new_rows new)"
  then have "\<forall>j \<in> set tlis. task_of (f_lines new ! (new_rows new ! j)) \<noteq> None" using new_rows_task nth_mem by blast
  then show ?thesis unfolding fingerprints_of_new_def by (subst map_filter_total) auto
qed

lemma mset_map_nth: "mset js = mset [0..<length xs] \<Longrightarrow> mset (map ((!) xs) js) = mset xs"
  by (metis map_nth mset_map)

lemma length_write_matched [simp]: "length (write_matched rows matched ids) = length ids"
  unfolding write_matched_def by (induction matched arbitrary: ids) auto

lemma write_matched_None:
  "i < length ids \<Longrightarrow> write_matched rows matched ids ! i = None \<longleftrightarrow> ids ! i = None \<and> i \<notin> (\<lambda>x. rows ! snd x) ` set matched"
proof (induction matched arbitrary: ids)
  case (Cons x xs)
  obtain t tli where x: "x = (t, tli)" by (cases x)
  have "write_matched rows (x # xs) ids = write_matched rows xs (ids[rows ! tli := Some t])" by (simp add: write_matched_def x)
  then show ?case using Cons.IH [of "ids[rows ! tli := Some t]"] Cons.prems x by (auto simp: nth_update split: if_splits)
qed (simp add: write_matched_def)

lemma write_minted_None:
  "write_minted mint rows tlis ids s = (ids', s') \<Longrightarrow> length ids' = length ids \<and>
   (\<forall>i < length ids. ids' ! i = None \<longleftrightarrow> ids ! i = None \<and> i \<notin> (!) rows ` set tlis)"
proof (induction tlis arbitrary: ids s)
  case (Cons tli tlis)
  obtain u s1 where m: "mint s = (u, s1)" by fastforce
  then have "write_minted mint rows tlis (ids[rows ! tli := Some u]) s1 = (ids', s')" using Cons.prems by simp
  from Cons.IH [OF this] show ?case by (auto simp: nth_update split: if_splits)
qed simp

text \<open>C33: re-identifying the lines of an edited file accounts for every task. Each task of the old file is either kept by
  one line of the new one or deleted, each task line of the new file keeps one old task or gets a new identifier, and
  exactly the task lines have one. Of the solver it is assumed that it returns each column once.\<close>

theorem sidecar_accounts:
  assumes "solver_ok mt" and "resolve_matches mt mint old new s = (m, s1)"
  shows "mset (map fst (mg_matched m) @ mg_deleted m) = mset (map fst (old_order old)) \<and>
    mset (map snd (mg_matched m) @ mg_inserted m) = mset [0..<length (new_rows new)] \<and>
    mg_minted m + mg_reused m = length (new_rows new) \<and>
    length (mg_new_ids m) = length (f_lines new) \<and>
    (\<forall>i < length (f_lines new). mg_new_ids m ! i = None \<longleftrightarrow> task_of (f_lines new ! i) = None)"
proof -
  define order where "order = old_order old"
  define rows where "rows = new_rows new"
  define sp where "sp = split_exact_matches order rows (sd_file old) new"
  define fo where "fo = fingerprints_of mt (sl_old sp) order (sd_file old)"
  define fn where "fn = fingerprints_of_new mt (sl_new sp) rows new"
  define a where "a = assign mt fo fn (max (length order) (length rows))"
  define matched where "matched = sl_trivial sp @ map (\<lambda>(t, i). (t, sl_new sp ! i)) (am_matched a)"
  define inserted where "inserted = map (\<lambda>i. sl_new sp ! i) (am_inserted a)"
  obtain ids s2 where wm: "write_minted mint rows inserted (write_matched rows matched (replicate (length (f_lines new)) None)) s = (ids, s2)" by fastforce
  have m: "mg_matched m = matched" "mg_deleted m = am_deleted a" "mg_inserted m = inserted" "mg_new_ids m = ids"
    "mg_minted m = length inserted" "mg_reused m = length matched"
    using assms(2) wm unfolding resolve_matches_def Let_def
    by (auto simp: matched_def inserted_def a_def fo_def fn_def sp_def order_def rows_def)
  note S = split_parts [of order rows "sd_file old" new, folded sp_def]
  have lt: "\<forall>j \<in> set (sl_new sp). j < length rows" using mset_eq_setD [OF S(2)] by auto
  have fo: "map fst fo = map (\<lambda>j. fst (order ! j)) (sl_old sp)"
    unfolding fo_def order_def by (rule fingerprints_tasks) (use S(3) in \<open>simp add: order_def\<close>)
  have fn: "length fn = length (sl_new sp)" unfolding fn_def rows_def by (rule length_fingerprints_new) (use lt in \<open>simp add: rows_def\<close>)
  note A = assign_parts [OF assms(1), of fo fn "max (length order) (length rows)", folded a_def]
  have 1: "mset (map fst matched @ am_deleted a) = mset (map fst order)"
  proof -
    have "map fst matched = map fst (sl_trivial sp) @ map fst (am_matched a)" by (auto simp: matched_def)
    then have "mset (map fst matched @ am_deleted a) = mset (map fst (sl_trivial sp)) + mset (map fst fo)" using A(1) by simp
    then show ?thesis using S(1) fo by simp
  qed
  have 2: "mset (map snd matched @ inserted) = mset [0..<length rows]"
  proof -
    have "map snd matched @ inserted = map snd (sl_trivial sp) @ map ((!) (sl_new sp)) (map snd (am_matched a) @ am_inserted a)"
      by (auto simp: matched_def inserted_def)
    moreover have "mset (map ((!) (sl_new sp)) (map snd (am_matched a) @ am_inserted a)) = mset (sl_new sp)"
      by (rule mset_map_nth) (use A(2) fn in simp)
    ultimately have "mset (map snd matched @ inserted) = mset (map snd (sl_trivial sp)) + mset (sl_new sp)" by (metis mset_append)
    then show ?thesis using S(2) by simp
  qed
  have 3: "length inserted + length matched = length rows" using arg_cong [OF 2, of size] by simp
  have ids: "length ids = length (f_lines new) \<and> (\<forall>i < length (f_lines new). ids ! i = None \<longleftrightarrow>
      i \<notin> (\<lambda>x. rows ! snd x) ` set matched \<and> i \<notin> (!) rows ` set inserted)"
    using write_minted_None [OF wm] by (simp add: write_matched_None)
  have "(\<lambda>x. rows ! snd x) ` set matched \<union> (!) rows ` set inserted = (!) rows ` set (map snd matched @ inserted)" by auto
  also have "\<dots> = (!) rows ` set [0..<length rows]" using mset_eq_setD [OF 2] by simp
  also have "\<dots> = set rows" by (metis list.set_map map_nth)
  finally have "i \<notin> (\<lambda>x. rows ! snd x) ` set matched \<and> i \<notin> (!) rows ` set inserted \<longleftrightarrow> i \<notin> set rows" for i by blast
  then have "\<forall>i < length (f_lines new). ids ! i = None \<longleftrightarrow> task_of (f_lines new ! i) = None"
    using ids new_rows_task [of _ new] by (simp add: rows_def)
  then show ?thesis using 1 2 3 ids by (simp add: m order_def rows_def)
qed

definition plain_matcher :: "nat matcher" where
  "plain_matcher = \<lparr>mt_fingerprint = (\<lambda>_ i. i), mt_cost = (\<lambda>a b _. if a = b then 0 else 9), mt_threshold = 5,
     mt_solve = (\<lambda>m. [0..<length m])\<rparr>"

lemma sidecar_accounts_witness:
  "mg_new_ids (fst (resolve_matches plain_matcher (\<lambda>s :: nat. (of_nat s, Suc s))
     \<lparr>sd_file = parse_file [CHR ''a'', LF, LF, CHR ''b''], sd_ids = [Some 7, None, Some 8]\<rparr>
     (parse_file [CHR ''b'', LF, LF, CHR ''c'']) 100)) ! 1 = None"
proof -
  let ?new = "parse_file [CHR ''b'', LF, LF, CHR ''c'']"
  let ?old = "\<lparr>sd_file = parse_file [CHR ''a'', LF, LF, CHR ''b''], sd_ids = [Some 7, None, Some 8]\<rparr>"
  have "solver_ok plain_matcher" by (simp add: solver_ok_def plain_matcher_def)
  moreover obtain m s1 where "resolve_matches plain_matcher (\<lambda>s :: nat. (of_nat s, Suc s)) ?old ?new 100 = (m, s1)" by fastforce
  moreover have "length (f_lines ?new) = 3" "task_of (f_lines ?new ! 1) = None" by code_simp+
  ultimately show ?thesis using sidecar_accounts [of plain_matcher "\<lambda>s :: nat. (of_nat s, Suc s)" ?old ?new 100 m s1] by simp
qed

end
