(* ===== verification/DocFresh.thy ===== *)
theory DocFresh
  imports Document
begin

text \<open>
  Operations newer than everything in a document, which is what a device makes of its own user's wishes. Two
  results carry them. In every reachable document the placement of a task that is shown is the newest of its
  placements (\<open>newest_shown\<close>), so a fresh operation anchors on the line the user sees. And a fresh operation that
  inserts, moves or deletes a task acts on the list of task lines as the plain list operation does
  (\<open>list_effect\<close>), with no re-homing and no late placement.
\<close>

section \<open>The placement shown is the newest\<close>

type_synonym mark = "task_id option \<times> hlc \<times> bool"

definition mark_of :: "cell \<Rightarrow> mark" where
  "mark_of c = (entry_id (c_entry c), c_stamp c, c_hidden c)"

definition marks :: "doc_state \<Rightarrow> mark set" where
  "marks st = mark_of ` set (cells st)"

definition newest_in :: "mark set \<Rightarrow> bool" where
  "newest_in ms \<longleftrightarrow> (\<forall>t s s' b. (Some t, s, False) \<in> ms \<longrightarrow> (Some t, s', b) \<in> ms \<longrightarrow> s' \<le> s)"

definition newest_shown :: "doc_state \<Rightarrow> bool" where
  "newest_shown st \<longleftrightarrow> newest_in (marks st)"

text \<open>What may be lost on the way: placements, and that a placement is shown.\<close>

definition tamer :: "mark set \<Rightarrow> mark set \<Rightarrow> bool" where
  "tamer ms' ms \<longleftrightarrow> (\<forall>t s b. (Some t, s, b) \<in> ms' \<longrightarrow> (\<exists>b'. (Some t, s, b') \<in> ms \<and> (b' \<longrightarrow> b)))"

lemma newest_in_tamer: "tamer ms' ms \<Longrightarrow> newest_in ms \<Longrightarrow> newest_in ms'"
  unfolding newest_in_def tamer_def by metis

lemma tamer_refl [simp]: "tamer ms ms"
  by (auto simp: tamer_def)

lemma tamer_subset: "ms' \<subseteq> ms \<Longrightarrow> tamer ms' ms"
  by (auto simp: tamer_def)

lemma tamer_trans: "tamer a b \<Longrightarrow> tamer b c \<Longrightarrow> tamer a c"
  unfolding tamer_def by metis

lemma marks_slots:
  "in_step st \<Longrightarrow> marks st = (\<lambda>s. (entry_id (ds_entries st ! s), ds_stamps st ! s, ds_hidden st ! s)) ` {..<length (ds_entries st)}"
proof -
  assume step: "in_step st"
  then have "set (cells st) = (\<lambda>s. cells st ! s) ` {..<length (ds_entries st)}"
    unfolding set_conv_nth by (auto simp: image_iff)
  then show ?thesis using nth_cells [OF step] unfolding marks_def mark_of_def by (auto simp: image_iff)
qed

lemma set_insert_at: "set (insert_at i x xs) = insert x (set xs)"
proof -
  have "set xs = set (take i xs) \<union> set (drop i xs)" by (metis append_take_drop_id set_append)
  then show ?thesis by (auto simp: insert_at_def)
qed

lemma marks_insert_entry: "in_step st \<Longrightarrow> marks (insert_entry sp e h st) = insert (entry_id e, h, False) (marks st)"
  by (simp add: marks_def cells_insert_entry set_insert_at mark_of_def)

lemma marks_insert_hidden:
  assumes "in_step st" "sp_at sp \<le> length (ds_entries st)"
  shows "marks (hide_entry (sp_at sp) (insert_entry sp e h st)) = insert (entry_id e, h, True) (marks st)"
proof -
  have "sp_at sp < length (ds_entries (insert_entry sp e h st))" using assms(2) by (simp add: length_insert_entry)
  then show ?thesis using assms
    by (simp add: marks_def cells_hide_entry cells_insert_entry insert_at_update hide_cell_def set_insert_at mark_of_def)
qed

lemma tamer_pointwise:
  assumes "in_step st" "in_step st'" "length (ds_entries st') = length (ds_entries st)"
    and "\<And>s t. s < length (ds_entries st) \<Longrightarrow> entry_id (ds_entries st' ! s) = Some t \<Longrightarrow>
      entry_id (ds_entries st ! s) = Some t \<and> ds_stamps st' ! s = ds_stamps st ! s \<and> (ds_hidden st ! s \<longrightarrow> ds_hidden st' ! s)"
  shows "tamer (marks st') (marks st)"
  unfolding tamer_def
proof (intro allI impI)
  fix t s b assume "(Some t, s, b) \<in> marks st'"
  then obtain k where k: "k < length (ds_entries st)" "entry_id (ds_entries st' ! k) = Some t" "s = ds_stamps st' ! k" "b = ds_hidden st' ! k"
    unfolding marks_slots [OF assms(2)] using assms(3) by auto
  from assms(4) [OF k(1,2)] k(1) have "(Some t, s, ds_hidden st ! k) \<in> marks st"
    unfolding marks_slots [OF assms(1)] k(3) image_iff by (intro bexI [of _ k]) auto
  with assms(4) [OF k(1,2)] k(4) show "\<exists>b'. (Some t, s, b') \<in> marks st \<and> (b' \<longrightarrow> b)" by blast
qed

lemma tamer_hide: "in_step st \<Longrightarrow> tamer (marks (hide_entry s st)) (marks st)"
  by (rule tamer_pointwise) (auto simp: hide_entry_def nth_update in_step_def)

lemma tamer_replace:
  "in_step st \<Longrightarrow> entry_id e = entry_id (ds_entries st ! s) \<Longrightarrow> tamer (marks (replace_entry s e st)) (marks st)"
  by (rule tamer_pointwise) (auto simp: replace_entry_def nth_update in_step_def split: if_splits)

lemma marks_cells: "cells st' = cells st \<Longrightarrow> marks st' = marks st"
  by (simp add: marks_def)

lemma marks_metadata: "metadata_only st st' \<Longrightarrow> marks st' = marks st"
  using metadata_onlyD(2-6) [of st st'] by (intro marks_cells) (simp add: cells_def)

lemma tamer_settle: "in_step st \<Longrightarrow> view_ok st \<Longrightarrow> tamer (marks (settle_erasers st)) (marks st)"
  unfolding settle_erasers_eq
proof (cases "True \<in> set (ds_erasers st)")
  case True
  assume a: "in_step st" "view_ok st"
  have "tamer (marks (st\<lparr>ds_hidden := settled_hidden st\<rparr>)) (marks st)"
    by (rule tamer_pointwise) (use a in \<open>auto simp: in_step_hidden nth_settled_hidden is_blank_id\<close>)
  then show "tamer (marks (if True \<in> set (ds_erasers st) then reindex (st\<lparr>ds_hidden := settled_hidden st\<rparr>) else st)) (marks st)"
    using True by (simp add: marks_def)
qed simp

lemma set_remove_at: "set (remove_at i xs) \<subseteq> set xs"
  unfolding remove_at_def using set_take_subset [of i xs] set_drop_subset [of "i + 1" xs] by auto

lemma tamer_prune: "in_step st \<Longrightarrow> tamer (marks (prune_ghosts st)) (marks st)"
proof -
  assume step: "in_step st"
  have "set (fold remove_at is cs) \<subseteq> set cs" for "is" and cs :: "cell list"
  proof (induction "is" arbitrary: cs)
    case (Cons i "is")
    then show ?case using set_remove_at [of i cs] by fastforce
  qed simp
  then have "tamer (marks (prune_ghosts_to mx st)) (marks st)" for mx
    using fold_remove_slot [OF step] by (simp add: prune_ghosts_to_doomed marks_def image_mono tamer_subset)
  then show ?thesis by (simp add: prune_ghosts_def prune_ghosts_past_def)
qed

text \<open>Re-homing permutes the placements and changes only parents.\<close>

lemma set_block: "a \<le> b \<Longrightarrow> set (str_slice xs a b) \<union> set (drain a b xs) = set xs"
  using mset_slice_drain [of a b xs] by (metis set_mset_mset set_mset_union)

lemma marks_move_block:
  assumes "in_step st" "head < length (ds_entries st)" "move_block head t placed st = (st', b)"
  shows "marks st' = marks st \<and> in_step st'"
proof (cases b)
  case True
  with assms(3) have mb: "move_block head t placed st = (st', True)" by simp
  obtain e at where m: "head < e" "e \<le> length (cells st)" "at \<le> length (drain head e (cells st))" "in_step st'"
    "cells st' = splice_in at ((str_slice (cells st) head e)[0 := reparent (Some (t, placed)) (str_slice (cells st) head e ! 0)])
      (drain head e (cells st))"
    by (rule move_block_moved [OF assms(1,2) mb])
  let ?b = "str_slice (cells st) head e"
  have set_splice: "set (splice_in i ys xs) = set ys \<union> set xs" for i and ys xs :: "cell list"
    using mset_splice_in [of i ys xs] by (metis set_mset_mset set_mset_union)
  have "map mark_of (?b[0 := reparent p (?b ! 0)]) = map mark_of ?b" for p
    by (rule nth_equalityI) (auto simp: nth_update mark_of_def reparent_def)
  then have "mark_of ` set (?b[0 := reparent (Some (t, placed)) (?b ! 0)]) = mark_of ` set ?b" by (metis list.set_map)
  then have "marks st' = mark_of ` (set ?b \<union> set (drain head e (cells st)))"
    unfolding marks_def m(5) set_splice by (simp add: image_Un)
  then show ?thesis using m(1,4) set_block [of head e "cells st"] by (simp add: marks_def)
qed (use assms move_block_stays [of head t placed st st'] in auto)

lemma marks_rehome_loop: "in_step st \<Longrightarrow> marks (rehome_loop n t placed st) = marks st"
proof (induction n arbitrary: st)
  case (Suc n)
  show ?case
  proof (cases "List.find (\<lambda>s. follows_older st s t placed) (rev (slots st))")
    case (Some head)
    then have "head < length (ds_entries st)" using find_Some_set by fastforce
    moreover obtain st' b where mb: "move_block head t placed st = (st', b)" by fastforce
    ultimately have "marks st' = marks st \<and> in_step st'" using marks_move_block Suc.prems by blast
    then show ?thesis using Some mb Suc.IH [of st'] by (cases b) simp_all
  qed simp
qed simp

lemma marks_rehome_onto: "in_step st \<Longrightarrow> marks (rehome_onto t placed st) = marks st"
  by (simp add: rehome_onto_def marks_rehome_loop)

lemma marks_set_all_lines: "in_step st \<Longrightarrow> marks (set_all_lines t l st) = marks st"
proof -
  assume step: "in_step st"
  have "in_step (set_all_lines t l st)" using step by (simp add: set_all_lines_def in_step_def)
  moreover have "(entry_id (ds_entries (set_all_lines t l st) ! s), ds_stamps (set_all_lines t l st) ! s, ds_hidden (set_all_lines t l st) ! s) =
      (entry_id (ds_entries st ! s), ds_stamps st ! s, ds_hidden st ! s)" if "s < length (ds_entries st)" for s
    using that by (auto simp: set_all_lines_def)
  moreover have "length (ds_entries (set_all_lines t l st)) = length (ds_entries st)" by (simp add: set_all_lines_def)
  ultimately show ?thesis unfolding marks_slots [OF step] by (simp only: marks_slots) (rule image_cong; simp)
qed

subsection \<open>Every operation keeps it\<close>

lemma newest_shown_tamer: "newest_shown st \<Longrightarrow> tamer (marks st') (marks st) \<Longrightarrow> newest_shown st'"
  unfolding newest_shown_def by (rule newest_in_tamer)

text \<open>A new placement may be shown when it is not older than any other of its task, and hidden when it is not newer
  than the one shown.\<close>

lemma newest_insert_shown:
  "newest_in ms \<Longrightarrow> (\<And>t s' b. i = Some t \<Longrightarrow> (i, s', b) \<in> ms \<Longrightarrow> b \<and> s' \<le> h) \<Longrightarrow> newest_in (insert (i, h, False) ms)"
  unfolding newest_in_def by fastforce

lemma newest_insert_hidden:
  "newest_in ms \<Longrightarrow> (\<And>t s'. i = Some t \<Longrightarrow> (i, s', False) \<in> ms \<Longrightarrow> h \<le> s') \<Longrightarrow> newest_in (insert (i, h, True) ms)"
  unfolding newest_in_def by fastforce

lemma slot_mark:
  "in_step st \<Longrightarrow> k < length (ds_entries st) \<Longrightarrow> (entry_id (ds_entries st ! k), ds_stamps st ! k, ds_hidden st ! k) \<in> marks st"
  by (auto simp: marks_slots)

lemma live_mark:
  assumes "in_step st" "live_slot st t = Some s"
  shows "(Some t, ds_stamps st ! s, False) \<in> marks st"
  using live_slot_Some [OF assms(2)] unfolding marks_slots [OF assms(1)] image_iff by (intro bexI [of _ s]) auto

lemma no_live_mark: "in_step st \<Longrightarrow> live_slot st t = None \<Longrightarrow> (Some t, s, b) \<in> marks st \<Longrightarrow> b"
  by (auto simp: marks_slots live_slot_None)

lemma live_unique:
  assumes "doc_ok st" "k < length (ds_entries st)" "entry_id (ds_entries st ! k) = Some t" "\<not> ds_hidden st ! k"
  shows "live_slot st t = Some k"
proof (cases "live_slot st t")
  case None
  then show ?thesis using assms by (auto simp: live_slot_None)
next
  case (Some s)
  have "live_slot (hide_entry s st) t = None" using assms(1) Some by (rule live_slot_hide)
  then have "k = s" using assms(2-4) by (auto simp: live_slot_None hide_entry_def nth_update split: if_splits)
  with Some show ?thesis by simp
qed

lemma shown_mark_unique:
  assumes "doc_ok st" "live_slot st t = Some s" "(Some t, p, False) \<in> marks st"
  shows "p = ds_stamps st ! s"
proof -
  have step: "in_step st" using assms(1) by (simp add: doc_ok_def)
  obtain k where "k < length (ds_entries st)" "entry_id (ds_entries st ! k) = Some t" "\<not> ds_hidden st ! k" "p = ds_stamps st ! k"
    using assms(3) unfolding marks_slots [OF step] by auto
  then show ?thesis using live_unique [OF assms(1)] assms(2) by fastforce
qed

lemma newest_place_ghost:
  assumes ok: "doc_ok st" and nw: "newest_shown st" and l: "\<And>s. live_slot st t = Some s \<Longrightarrow> h \<le> ds_stamps st ! s"
  shows "newest_shown (fst (place_ghost t after h st))"
proof (cases "content_slot st t = None \<or> isl (slot_after st after h)")
  case False
  then obtain c sp where sp: "content_slot st t = Some c" "slot_after st after h = Inr sp" by (cases "slot_after st after h") auto
  have step: "in_step st" and le: "sp_at sp \<le> length (ds_entries st)"
    using ok slot_after_le [OF _ sp(2)] by (simp_all add: doc_ok_def)
  let ?st1 = "hide_entry (sp_at sp) (insert_entry sp (ETask t (entry_line (ds_entries st ! c))) h st)"
  have "newest_in (insert (Some t, h, True) (marks st))"
  proof (rule newest_insert_hidden)
    fix u s' assume "Some t = Some u" "(Some t, s', False) \<in> marks st"
    then show "h \<le> s'" using l shown_mark_unique [OF ok] no_live_mark [OF step, of t s' False] by (cases "live_slot st t") auto
  qed (use nw in \<open>simp add: newest_shown_def\<close>)
  then show ?thesis using sp step le by (simp add: place_ghost_def newest_shown_def marks_rehome_onto marks_insert_hidden)
qed (use nw in \<open>auto simp: place_ghost_def split: option.split sum.splits\<close>)

lemma newest_move_task:
  assumes ok: "doc_ok st" and nw: "newest_shown st"
  shows "newest_shown (fst (move_task t after f h st))"
proof (cases "f = ds_path st \<and> after \<noteq> Some t \<and> (\<exists>a. anchor_slot st after h = Inr a)")
  case True
  then obtain a where a: "f = ds_path st" "after \<noteq> Some t" "anchor_slot st after h = Inr a" by blast
  have step: "in_step st" using ok by (simp add: doc_ok_def)
  show ?thesis
  proof (cases "\<exists>s. live_slot st t = Some s \<and> \<not> is_stale_move st s h")
    case True
    then obtain s where s: "live_slot st t = Some s" "\<not> is_stale_move st s h" by blast
    let ?st1 = "hide_entry s st"
    obtain sp where sp: "slot_after ?st1 after h = Inr sp" using slot_after_hide [OF a(3)] by blast
    have ok1: "doc_ok ?st1" and step1: "in_step ?st1" using doc_ok_hide_entry [OF ok] live_slot_Some [OF s(1)] by (auto simp: doc_ok_def)
    have older: "ds_stamps st ! s \<le> h"
      using s(2) live_slot_Some [OF s(1)] step by (auto simp: is_stale_move_def get_def in_step_def split: if_splits)
    have id: "entry_id (ds_entries st ! s) = Some t" using live_slot_Some [OF s(1)] by simp
    have "newest_in (insert (Some t, h, False) (marks ?st1))"
    proof (rule newest_insert_shown)
      show "newest_in (marks ?st1)" using newest_in_tamer [OF tamer_hide [OF step]] nw by (simp add: newest_shown_def)
      fix u s' b assume m: "Some t = Some u" "(Some t, s', b) \<in> marks ?st1"
      then have "b" using no_live_mark [OF step1 live_slot_hide [OF ok s(1)]] by blast
      moreover have "\<exists>b'. (Some t, s', b') \<in> marks st" using tamer_hide [OF step, of s] m(2) unfolding tamer_def by blast
      then have "s' \<le> ds_stamps st ! s" using nw live_mark [OF step s(1)] unfolding newest_shown_def newest_in_def by blast
      ultimately show "b \<and> s' \<le> h" using older by simp
    qed
    then have "newest_shown (rehome_onto t h (insert_entry sp (ds_entries st ! s) h ?st1))"
      using step1 id by (simp add: newest_shown_def marks_rehome_onto marks_insert_entry)
    then show ?thesis using a s sp by (simp add: move_task_def)
  next
    case False
    then have "fst (move_task t after f h st) = fst (place_ghost t after h st)"
      using a by (cases "live_slot st t") (simp_all add: move_task_def)
    moreover have "h \<le> ds_stamps st ! s" if "live_slot st t = Some s" for s
      using False that by (auto simp: is_stale_move_def get_def split: if_splits)
    ultimately show ?thesis using newest_place_ghost [OF ok nw] by simp
  qed
next
  case False
  have "newest_shown (hide_entry s st)" for s using ok by (intro newest_shown_tamer [OF nw] tamer_hide) (simp add: doc_ok_def)
  then show ?thesis using False nw by (auto simp: move_task_def split: option.split sum.split)
qed

text \<open>Showing the newest placement of one task.\<close>

lemma show_newest_core:
  "ds_entries (show_newest t added st) = ds_entries st" "ds_stamps (show_newest t added st) = ds_stamps st"
  by (simp_all add: show_newest_def Let_def)

lemma show_newest_shown:
  assumes ok: "doc_ok st" and k: "k < length (ds_entries st)" "entry_id (ds_entries st ! k) = Some u" "\<not> ds_hidden (show_newest t added st) ! k"
  shows "if u = t then max_by_key (\<lambda>s. (ds_stamps st ! s, s = added)) (filter (\<lambda>s. entry_id (ds_entries st ! s) = Some t) (slots st)) = Some k
    else \<not> ds_hidden st ! k"
proof -
  let ?m = "max_by_key (\<lambda>s. (ds_stamps st ! s, s = added)) (filter (\<lambda>s. entry_id (ds_entries st ! s) = Some t) (slots st))"
  have m: "entry_id (ds_entries st ! n) = Some t" if "?m = Some n" for n using max_by_key_Some [OF that] by simp
  show ?thesis
  proof (cases "?m = live_slot st t")
    case True
    then have "\<not> ds_hidden st ! k" using k(3) by (simp add: show_newest_def)
    then show ?thesis using live_unique [OF ok k(1,2)] True by auto
  next
    case False
    let ?h1 = "case live_slot st t of Some l \<Rightarrow> (ds_hidden st)[l := True] | None \<Rightarrow> ds_hidden st"
    have h: "ds_hidden (show_newest t added st) = (case ?m of Some n \<Rightarrow> ?h1[n := False] | None \<Rightarrow> ?h1)"
      using False by (simp add: show_newest_def Let_def)
    have h1: "\<not> ds_hidden st ! k \<and> u \<noteq> t" if "\<not> ?h1 ! k"
    proof (cases "\<not> ds_hidden st ! k")
      case True
      then have "live_slot st u = Some k" using live_unique [OF ok k(1,2)] by simp
      then show ?thesis using that True k(1) ok
        by (auto simp: nth_update doc_ok_def in_step_def split: option.splits)
    next
      case hid: False
      have "live_slot st t = Some l \<Longrightarrow> l \<noteq> k" for l using hid live_slot_Some by blast
      then show ?thesis using that hid by (auto simp: nth_update split: option.splits if_splits)
    qed
    show ?thesis
    proof (cases "?m = Some k")
      case True
      have "u = t" using m [OF True] k(2) by simp
      then show ?thesis using True by simp
    next
      case neq: False
      have "\<not> ?h1 ! k"
      proof (cases ?m)
        case None
        then show ?thesis using k(3) unfolding h by simp
      next
        case (Some n)
        then have "n \<noteq> k" using neq by simp
        then show ?thesis using k(3) unfolding h Some by (simp add: nth_update)
      qed
      with h1 show ?thesis by simp
    qed
  qed
qed

lemma in_step_show_newest: "doc_ok st \<Longrightarrow> in_step (show_newest t added st)"
  using doc_ok_show_newest by (auto simp: doc_ok_def)

lemma newest_show_newest:
  assumes ok: "doc_ok st" and others: "\<And>u s s' b. u \<noteq> t \<Longrightarrow> (Some u, s, False) \<in> marks st \<Longrightarrow> (Some u, s', b) \<in> marks st \<Longrightarrow> s' \<le> s"
  shows "newest_shown (show_newest t added st)"
  unfolding newest_shown_def newest_in_def
proof (intro allI impI)
  let ?st' = "show_newest t added st"
  have step: "in_step st" using ok by (simp add: doc_ok_def)
  fix u s s' b assume a: "(Some u, s, False) \<in> marks ?st'" "(Some u, s', b) \<in> marks ?st'"
  then obtain k k' where k: "k < length (ds_entries st)" "entry_id (ds_entries st ! k) = Some u" "s = ds_stamps st ! k" "\<not> ds_hidden ?st' ! k"
    and k': "k' < length (ds_entries st)" "entry_id (ds_entries st ! k') = Some u" "s' = ds_stamps st ! k'"
    unfolding marks_slots [OF in_step_show_newest [OF ok]] by (auto simp: show_newest_core)
  show "s' \<le> s"
  proof (cases "u = t")
    case True
    then have "max_by_key (\<lambda>s. (ds_stamps st ! s, s = added)) (filter (\<lambda>s. entry_id (ds_entries st ! s) = Some t) (slots st)) = Some k"
      using show_newest_shown [OF ok k(1,2,4)] by simp
    then have "(ds_stamps st ! k', k' = added) \<le> (ds_stamps st ! k, k = added)"
      using max_by_key_Some k' True by fastforce
    then show ?thesis using k k' by (auto simp: less_eq_prod_def)
  next
    case False
    then have "\<not> ds_hidden st ! k" using show_newest_shown [OF ok k(1,2,4)] by simp
    then have "(Some u, s, False) \<in> marks st" "(Some u, s', ds_hidden st ! k') \<in> marks st"
      using slot_mark [OF step] k k' by metis+
    then show ?thesis using others [OF False] by blast
  qed
qed

lemma newest_reinsert:
  assumes ok: "doc_ok st" and nw: "newest_shown st"
  shows "newest_shown (fst (reinsert t after l h st))"
proof (cases "isl (slot_after st after h) \<or> content_slot st t = None")
  case False
  then obtain sp s where sp: "slot_after st after h = Inr sp" "content_slot st t = Some s" by (cases "slot_after st after h") auto
  obtain st1 r where m: "merged_line t (entry_line (ds_entries st ! s)) l h st = (st1, r)" by fastforce
  note mo = metadata_only_merged_line [OF m]
  show ?thesis
  proof (cases r)
    case (Inl e)
    then show ?thesis using sp m nw marks_metadata [OF mo] by (simp add: reinsert_def newest_shown_def)
  next
    case (Inr merged)
    have ok1: "doc_ok st1" and sp1: "slot_after st1 after h = Inr sp" using metadata_onlyD [OF mo] ok sp by simp_all
    have nw1: "newest_in (marks st1)" using nw marks_metadata [OF mo] by (simp add: newest_shown_def)
    have step1: "in_step st1" using ok1 by (simp add: doc_ok_def)
    let ?st2 = "hide_entry (sp_at sp) (insert_entry sp (ETask t merged) h st1)"
    let ?st3 = "\<lambda>lf. ?st2\<lparr>ds_life := lf\<rparr>"
    have ok3: "doc_ok (?st3 lf)" for lf using doc_ok_insert_hidden [OF ok1 sp1] by simp
    have ms: "marks (?st3 lf) = insert (Some t, h, True) (marks st1)" for lf
      using marks_metadata [of ?st2 "?st3 lf"] marks_insert_hidden [OF step1 slot_after_le [OF step1 sp1]] by simp
    have shown: "newest_shown (show_newest t (sp_at sp) (?st3 lf))" for lf
      by (rule newest_show_newest [OF ok3]) (use nw1 in \<open>auto simp: ms newest_in_def\<close>)
    have hid: "newest_shown (?st3 lf)" if "live_slot st1 t = None" for lf
      unfolding newest_shown_def ms by (rule newest_insert_hidden [OF nw1]) (use no_live_mark [OF step1 that] in blast)
    have final: "newest_shown (rehome_onto t h (set_all_lines t merged x))" if "doc_ok x" "newest_shown x" for x
      using that doc_ok_set_all_lines [OF that(1), of t merged]
      by (simp add: newest_shown_def doc_ok_def marks_rehome_onto marks_set_all_lines)
    obtain c lf where "fst (reinsert t after l h st) =
        rehome_onto t h (set_all_lines t merged (if live_slot st1 t \<noteq> None \<or> c then show_newest t (sp_at sp) (?st3 lf) else ?st3 lf))"
      using sp m Inr by (auto simp: reinsert_def Let_def)
    then show ?thesis using final doc_ok_show_newest [OF ok3] ok3 shown hid by auto
  qed
qed (use nw in \<open>auto simp: reinsert_def split: option.split sum.splits\<close>)

lemma newest_rewrite:
  assumes "newest_shown st" "in_step st" "content_slot st t = Some i" "metadata_only (replace_entry i (ETask t l) st) st'"
  shows "newest_shown st'"
proof (rule newest_shown_tamer [OF assms(1)])
  have "entry_id (ETask t l) = entry_id (ds_entries st ! i)" using content_slot_Some [OF assms(3)] by simp
  then show "tamer (marks st') (marks st)" using marks_metadata [OF assms(4)] tamer_replace [OF assms(2)] by simp
qed

lemma newest_set_deleted:
  assumes "newest_shown st" "in_step st"
  shows "newest_shown (fst (set_deleted t v h st))"
proof -
  obtain st1 b where nd: "note_death t h st = (st1, b)" by fastforce
  have "marks st1 = marks st" "in_step st1" using marks_metadata metadata_only_note_death [OF nd] metadata_onlyD assms(2)
    by (auto simp: in_step_def)
  then have "newest_shown st1" "newest_shown (hide_entry s st1)" for s
    using newest_shown_tamer [OF assms(1)] tamer_hide [of st1] by (simp_all add: newest_shown_def)
  then show ?thesis using nd assms(1) by (auto simp: set_deleted_def split: field_value.split option.split bool.split)
qed

lemma newest_apply_insert:
  assumes ok: "doc_ok st" and nw: "newest_shown st"
  shows "newest_shown (fst (apply_insert t after line h st))"
proof -
  have step: "in_step st" using ok by (simp add: doc_ok_def)
  have "newest_shown (insert_entry sp (ETask t l) h st)" if "\<not> has_placement st t" for sp l
  proof -
    have "(Some t, s, b) \<notin> marks st" for s b
      using that unfolding marks_slots [OF step] by (auto simp: has_placement_def list_ex_iff)
    then have "newest_in (insert (Some t, h, False) (marks st))" using nw by (intro newest_insert_shown) (auto simp: newest_shown_def)
    then show ?thesis using step by (simp add: newest_shown_def marks_insert_entry)
  qed
  then show ?thesis using newest_reinsert [OF ok nw] nw by (auto simp: apply_insert_def Let_def split: sum.split)
qed

lemma newest_blanks:
  assumes ok: "doc_ok st" and nw: "newest_shown st"
  shows "newest_shown (fst (blank_insert after h st))" "newest_shown (fst (blank_remove after h st))"
proof -
  have step: "in_step st" using ok by (simp add: doc_ok_def)
  have n: "newest_in (insert (None, h, b) (marks st))" for b using nw by (simp add: newest_shown_def newest_in_def)
  then show "newest_shown (fst (blank_insert after h st))"
    using nw step by (auto simp: blank_insert_def newest_shown_def marks_insert_entry split: sum.split)
  have "newest_shown (hide_entry (sp_at sp) ((insert_entry sp (EBlank l) h st)\<lparr>ds_erasers := er\<rparr>))"
    if "slot_after st after h = Inr sp" "length er = length (ds_entries st) + 1" for sp l er
  proof -
    have le: "sp_at sp \<le> length (ds_entries st)" using slot_after_le [OF step that(1)] .
    let ?st1 = "(insert_entry sp (EBlank l) h st)\<lparr>ds_erasers := er\<rparr>"
    have s1: "in_step ?st1" using in_step_insert_entry [OF step, of sp "EBlank l" h] that(2) le
      by (simp add: in_step_def length_insert_entry)
    have "marks ?st1 = marks (insert_entry sp (EBlank l) h st)"
      using marks_slots [OF s1] marks_slots [OF in_step_insert_entry [OF step, of sp "EBlank l" h]] by simp
    then have "newest_shown ?st1" using n step by (simp add: newest_shown_def marks_insert_entry)
    then show ?thesis using tamer_hide [OF s1] newest_shown_tamer by blast
  qed
  then show "newest_shown (fst (blank_remove after h st))"
    using nw step slot_after_le [OF step] by (auto simp: blank_remove_def Let_def in_step_def insert_entry_def split: sum.split)
qed

lemma newest_op_effect:
  assumes ok: "doc_ok st" and nw: "newest_shown st"
  shows "newest_shown (fst (op_effect k h st))"
proof (cases "snd (op_effect k h st)")
  case (Inl e)
  then have "metadata_only st (fst (op_effect k h st))" using op_effect_Inl(1) [of k h st _ e] by (metis prod.collapse)
  then show ?thesis using nw marks_metadata by (simp add: newest_shown_def)
next
  case (Inr u)
  have step: "in_step st" using ok by (simp add: doc_ok_def)
  show ?thesis
  proof (cases "rewritten_task k")
    case (Some t)
    have "op_effect k h st = (fst (op_effect k h st), Inr ())" using Inr by (metis prod.collapse unit.exhaust)
    then show ?thesis using op_effect_rewrites [OF _ Some] newest_rewrite [OF nw step] by blast
  next
    case None
    then show ?thesis
      using newest_apply_insert [OF ok nw] newest_move_task [OF ok nw] newest_blanks [OF ok nw] newest_set_deleted [OF nw step] nw
      by (cases k) (auto simp: apply_set_field_def split: if_splits)
  qed
qed

lemma newest_apply:
  assumes "doc_ok st" "newest_shown st"
  shows "newest_shown (fst (ds_apply o1 st))"
proof -
  obtain st1 r where e: "op_effect (o_kind o1) (o_hlc o1) st = (st1, r)" by fastforce
  have ok1: "doc_ok st1" and nw1: "newest_shown st1"
    using doc_ok_op_effect [OF assms(1), of "o_kind o1" "o_hlc o1"] newest_op_effect [OF assms, of "o_kind o1" "o_hlc o1"] e by simp_all
  have "newest_shown (settle_erasers st1)" using ok1 by (intro newest_shown_tamer [OF nw1] tamer_settle) (simp_all add: doc_ok_def)
  moreover have "in_step (settle_erasers st1)" "in_step st1" using doc_ok_settle_erasers [OF ok1] ok1 by (simp_all add: doc_ok_def)
  ultimately have "newest_shown (prune_ghosts (if b then settle_erasers st1 else st1))" for b
    using nw1 tamer_prune newest_shown_tamer by (cases b) (metis, metis)
  then show ?thesis using e nw1 by (cases r) (simp_all add: ds_apply_def apply_inner_def)
qed

lemma reachable_newest: "reachable st \<Longrightarrow> newest_shown st"
proof (induction rule: reachable.induct)
  case (start path f ids mode st)
  have "in_step st" using from_file_doc_ok [OF start] by (simp add: doc_ok_def)
  moreover have "\<forall>s < length (ds_entries st). ds_stamps st ! s = unplaced"
    using start(1) by (auto simp: from_file_def Let_def split: if_splits sum.splits)
  ultimately show ?case by (auto simp: newest_shown_def newest_in_def marks_slots)
next
  case (step st o1)
  then show ?case using newest_apply reachable_inv by blast
qed

section \<open>Fresh operations\<close>

definition fresh :: "doc_state \<Rightarrow> hlc \<Rightarrow> bool" where
  "fresh st h \<longleftrightarrow> (\<forall>p \<in> set (ds_stamps st). p \<le> h)"

definition anchored :: "doc_state \<Rightarrow> task_id option \<Rightarrow> bool" where
  "anchored st after \<longleftrightarrow> (case after of None \<Rightarrow> True | Some j \<Rightarrow> live_slot st j \<noteq> None)"

lemma fresh_nth: "fresh st h \<Longrightarrow> in_step st \<Longrightarrow> s < length (ds_entries st) \<Longrightarrow> ds_stamps st ! s \<le> h"
  by (simp add: fresh_def in_step_def)

lemma anchor_fresh:
  assumes ok: "doc_ok st" and nw: "newest_shown st" and fr: "fresh st h" and l: "live_slot st j = Some s"
  shows "anchor_slot st (Some j) h = Inr (Some s)"
proof -
  have step: "in_step st" using ok by (simp add: doc_ok_def)
  note s = live_slot_Some [OF l]
  let ?ps = "filter (\<lambda>k. entry_id (ds_entries st ! k) = Some j) (slots st)"
  have all: "filter (\<lambda>k. ds_stamps st ! k \<le> h) ?ps = ?ps"
    unfolding filter_filter by (rule filter_cong) (use fresh_nth [OF fr step] in auto)
  have in_ps: "s \<in> set ?ps" using s by simp
  then have "?ps \<noteq> []" by (metis list.set(1) empty_iff)
  then obtain m where m: "max_by_key (\<lambda>k. (ds_stamps st ! k, \<not> ds_hidden st ! k)) ?ps = Some m"
    by (cases "max_by_key (\<lambda>k. (ds_stamps st ! k, \<not> ds_hidden st ! k)) ?ps") simp_all
  note mm = max_by_key_Some [OF m]
  have le: "(ds_stamps st ! s, \<not> ds_hidden st ! s) \<le> (ds_stamps st ! m, \<not> ds_hidden st ! m)" using mm in_ps by blast
  have "m < length (ds_entries st)" "entry_id (ds_entries st ! m) = Some j" using mm by simp_all
  then have "(Some j, ds_stamps st ! m, ds_hidden st ! m) \<in> marks st" using slot_mark [OF step] by metis
  then have "ds_stamps st ! m \<le> ds_stamps st ! s"
    using nw live_mark [OF step l] unfolding newest_shown_def newest_in_def by blast
  with le s have "\<not> ds_hidden st ! m" by (auto simp: less_eq_prod_def)
  then have "m = s" using live_unique [OF ok, of m j] mm l by simp
  then show ?thesis using m all by (simp add: anchor_slot_def Let_def)
qed

lemma slot_after_fresh:
  assumes "doc_ok st" "newest_shown st" "fresh st h" "anchored st after"
  obtains sp where "slot_after st after h = Inr sp"
    and "sp_at sp = (case after of None \<Rightarrow> 0 | Some j \<Rightarrow> Suc (the (live_slot st j)))"
proof -
  have no: "takeWhile (\<lambda>p. p > h) (drop n (ds_stamps st)) = []" for n
    using assms(3) set_drop_subset [of n "ds_stamps st"] by (cases "drop n (ds_stamps st)") (auto simp: fresh_def leD)
  show ?thesis
  proof (cases after)
    case None
    then show ?thesis using that [of "\<lparr>sp_at = 0, sp_parent = None\<rparr>"] no [of 0] by (simp add: slot_after_def anchor_slot_def skip_newer_def)
  next
    case (Some j)
    then obtain s where "live_slot st j = Some s" using assms(4) by (auto simp: anchored_def)
    then show ?thesis using that Some anchor_fresh [OF assms(1-3)] no by (simp add: slot_after_def skip_newer_def)
  qed
qed

text \<open>The plain list operation: a line put right after another.\<close>

fun place_after :: "task_id option \<Rightarrow> task_id \<times> 'l \<Rightarrow> (task_id \<times> 'l) list \<Rightarrow> (task_id \<times> 'l) list" where
  "place_after None x xs = x # xs"
| "place_after (Some j) x [] = [x]"
| "place_after (Some j) x (y # ys) = (if fst y = j then y # x # ys else y # place_after (Some j) x ys)"

lemma place_after_skip:
  "\<forall>y \<in> set xs. fst y \<noteq> j \<Longrightarrow> place_after (Some j) x (xs @ ys) = xs @ place_after (Some j) x ys"
  by (induction xs) auto

lemma map_filter_cells_id: "(i, l) \<in> set (List.map_filter cell_task cs) \<Longrightarrow> \<exists>c \<in> set cs. shows_task i c"
  by (induction cs) (auto simp: map_filter_simps dest: cell_task_id split: option.splits)

lemma task_lines_insert_fresh:
  assumes ok: "doc_ok st" and nw: "newest_shown st" and fr: "fresh st h" and an: "anchored st after"
  obtains sp where "slot_after st after h = Inr sp"
    and "task_lines (insert_entry sp (ETask t l) h st) = place_after after (t, l) (task_lines st)"
proof -
  have step: "in_step st" "view_ok st" using ok by (auto simp: doc_ok_def)
  obtain sp where sp: "slot_after st after h = Inr sp"
    and at: "sp_at sp = (case after of None \<Rightarrow> 0 | Some j \<Rightarrow> Suc (the (live_slot st j)))"
    by (rule slot_after_fresh [OF assms])
  let ?c = "(ETask t l, h, False, sp_parent sp, False) :: cell"
  have c: "cell_task ?c = Some (t, l)" by (simp add: cell_task_def)
  have tl: "task_lines (insert_entry sp (ETask t l) h st) = List.map_filter cell_task (insert_at (sp_at sp) ?c (cells st))"
    using step by (simp add: task_lines_cells cells_insert_entry)
  show ?thesis
  proof (rule that [OF sp])
    show "task_lines (insert_entry sp (ETask t l) h st) = place_after after (t, l) (task_lines st)"
    proof (cases after)
      case None
      then show ?thesis unfolding tl using at c by (simp add: insert_at_def task_lines_cells [OF step] map_filter_simps)
    next
      case (Some j)
      then obtain s where s: "live_slot st j = Some s" using an by (auto simp: anchored_def)
      have n: "s < length (cells st)" "shows_task j (cells st ! s)" "shown_count j (cells st) \<le> 1"
        using ok live_slot_Some [OF s] step by (auto simp: doc_ok_def cells_ok_def nth_cells shows_task_def)
      let ?as = "take s (cells st)" and ?bs = "drop (Suc s) (cells st)"
      have split: "cells st = ?as @ cells st ! s # ?bs" using n(1) by (rule id_take_nth_drop)
      have "shown_count j (cells st) = shown_count j ?as + (1 + shown_count j ?bs)"
        by (subst split) (use n(2) in simp)
      then have "shown_count j ?as = 0" using n(3) by simp
      then have none: "\<forall>y \<in> set (List.map_filter cell_task ?as). fst y \<noteq> j"
        using map_filter_cells_id [of _ _ ?as] by (fastforce simp: shown_count_0)
      obtain x where x: "cell_task (cells st ! s) = Some (j, x)" using n(2) by (auto simp: cell_task_def shows_task_def)
      have "insert_at (Suc s) ?c (cells st) = ?as @ cells st ! s # ?c # ?bs"
        using n(1) by (simp add: insert_at_def take_Suc_conv_app_nth)
      moreover have "task_lines st = List.map_filter cell_task ?as @ (j, x) # List.map_filter cell_task ?bs"
        unfolding task_lines_cells [OF step] by (subst split) (simp add: map_filter_simps x)
      ultimately show ?thesis unfolding tl using at Some s c none by (simp add: map_filter_simps x place_after_skip)
    qed
  qed
qed

lemma rehome_fresh:
  assumes "fresh st h" "in_step st"
  shows "rehome_onto t h st = st"
proof -
  have "List.find (\<lambda>s. follows_older st s t h) (rev (slots st)) = None"
    unfolding find_None_iff using fresh_nth [OF assms]
    by (auto simp: follows_older_def Let_def leD split: option.splits)
  then show ?thesis unfolding rehome_onto_def by (cases "length (ds_entries st)") simp_all
qed

lemma fresh_insert_entry: "fresh st h \<Longrightarrow> fresh (insert_entry sp e h st) h"
  by (auto simp: fresh_def insert_entry_def set_insert_at)

lemma fresh_hide [simp]: "fresh (hide_entry s st) h = fresh st h"
  by (simp add: fresh_def hide_entry_def)

lemma live_slot_hide_other:
  assumes "entry_id (ds_entries st ! s) = Some t" "j \<noteq> t"
  shows "live_slot (hide_entry s st) j = live_slot st j"
proof -
  have "(\<not> (ds_hidden st)[s := True] ! k \<and> entry_id (ds_entries st ! k) = Some j) = (\<not> ds_hidden st ! k \<and> entry_id (ds_entries st ! k) = Some j)" for k
    using assms by (auto simp: nth_update split: if_splits)
  then show ?thesis by (simp add: live_slot_def slots_def hide_entry_def)
qed

lemma task_lines_member:
  assumes "doc_ok st"
  shows "(t, l) \<in> set (task_lines st) \<longleftrightarrow> line_of st t = Some l"
proof -
  have step: "in_step st" "view_ok st" using assms by (auto simp: doc_ok_def)
  have "(t, l) \<in> set (task_lines st) \<longleftrightarrow> (\<exists>c \<in> set (cells st). cell_task c = Some (t, l))"
    unfolding task_lines_cells [OF step] by (force simp: List.map_filter_def)
  also have "\<dots> \<longleftrightarrow> (\<exists>k < length (ds_entries st). cell_task (cells st ! k) = Some (t, l))"
    using step(1) by (metis in_set_conv_nth length_cells)
  also have "\<dots> \<longleftrightarrow> (\<exists>k < length (ds_entries st). \<not> ds_hidden st ! k \<and> entry_id (ds_entries st ! k) = Some t \<and> entry_line (ds_entries st ! k) = l)"
  proof -
    have "cell_task (cells st ! k) = Some (t, l) \<longleftrightarrow>
        \<not> ds_hidden st ! k \<and> entry_id (ds_entries st ! k) = Some t \<and> entry_line (ds_entries st ! k) = l"
      if "k < length (ds_entries st)" for k
      using nth_cells [OF step(1) that] by (auto simp: cell_task_def)
    then show ?thesis by blast
  qed
  also have "\<dots> \<longleftrightarrow> line_of st t = Some l"
  proof
    assume "\<exists>k < length (ds_entries st). \<not> ds_hidden st ! k \<and> entry_id (ds_entries st ! k) = Some t \<and> entry_line (ds_entries st ! k) = l"
    then obtain k where k: "k < length (ds_entries st)" "\<not> ds_hidden st ! k" "entry_id (ds_entries st ! k) = Some t" "entry_line (ds_entries st ! k) = l" by blast
    then show "line_of st t = Some l" using live_unique [OF assms k(1,3,2)] by (simp add: line_of_def)
  next
    assume "line_of st t = Some l"
    then obtain k where "live_slot st t = Some k" "entry_line (ds_entries st ! k) = l" by (auto simp: line_of_def)
    then show "\<exists>k < length (ds_entries st). \<not> ds_hidden st ! k \<and> entry_id (ds_entries st ! k) = Some t \<and> entry_line (ds_entries st ! k) = l"
      using live_slot_Some by blast
  qed
  finally show ?thesis .
qed

lemma distinct_task_lines: "doc_ok st \<Longrightarrow> distinct (map fst (task_lines st))"
proof -
  assume ok: "doc_ok st"
  have "count_list (map fst (task_lines st)) t = count_list (line_ids st) (Some t)" for t
  proof -
    have "count_list (map fst (List.map_filter (\<lambda>e. map_option (\<lambda>i. (i, entry_line e)) (entry_id e)) es)) t = count_list (map entry_id es) (Some t)" for es
    proof (induction es)
      case (Cons e es)
      then show ?case by (cases "entry_id e") (auto simp: map_filter_simps)
    qed (simp add: List.map_filter_def)
    then show ?thesis by (simp add: task_lines_def line_ids_def)
  qed
  then have le: "count_list (map fst (task_lines st)) t \<le> 1" for t using shown_once [OF ok] by simp
  have "\<forall>t. count_list xs t \<le> 1 \<Longrightarrow> distinct xs" for xs :: "task_id list"
  proof (induction xs)
    case (Cons x xs)
    have "count_list xs t \<le> 1" for t using Cons.prems [rule_format, of t] by (simp split: if_splits)
    moreover have "x \<notin> set xs" using Cons.prems [rule_format, of x] by (simp add: count_list_0_iff)
    ultimately show ?case using Cons.IH by simp
  qed simp
  then show ?thesis using le by blast
qed

lemma map_of_task_lines: "doc_ok st \<Longrightarrow> map_of (task_lines st) t = line_of st t"
  using task_lines_member distinct_task_lines by (metis map_of_eq_Some_iff not_Some_eq)

lemma live_entry:
  assumes "live_slot st t = Some s"
  shows "ds_entries st ! s = ETask t (the (line_of st t))"
  using live_slot_Some [OF assms] assms by (cases "ds_entries st ! s") (auto simp: line_of_def)

text \<open>What a structural operation does to the list of task lines, and what it needs for it.\<close>

fun list_effect :: "file_path \<Rightarrow> line_ending \<Rightarrow> op_kind \<Rightarrow> (task_id \<times> owned_line) list \<Rightarrow> (task_id \<times> owned_line) list" where
  "list_effect path ending (OInsert t after line) xs = place_after after (t, from_bytes line ending) xs"
| "list_effect path ending (OMove t after to) xs =
    (let others = filter (\<lambda>(i, _). i \<noteq> t) xs in
     if to = path then place_after after (t, the (map_of xs t)) others else others)"
| "list_effect path ending (OSetField t f v) xs = (if f = FDeleted then filter (\<lambda>(i, _). i \<noteq> t) xs else xs)"
| "list_effect path ending _ xs = xs"

fun addressed :: "op_kind \<Rightarrow> hlc \<Rightarrow> doc_state \<Rightarrow> bool" where
  "addressed (OInsert t after line) h st \<longleftrightarrow> \<not> has_placement st t \<and> anchored st after \<and> ds_len st < MAX_LINES_PER_FILE \<and>
     (ds_mode st = Tagged \<longrightarrow> id_of (from_bytes line (ds_ending st)) = Some t)"
| "addressed (OMove t after to) h st \<longleftrightarrow> live_slot st t \<noteq> None \<and> (to = ds_path st \<longrightarrow> after \<noteq> Some t \<and> anchored st after)"
| "addressed (OSetField t f v) h st \<longleftrightarrow> f = FDeleted \<and> v = VBool True \<and> live_slot st t \<noteq> None \<and>
     (case reborn (life_of st t) of None \<Rightarrow> True | Some r \<Rightarrow> r \<le> h)"
| "addressed (OBlankInsert after) h st \<longleftrightarrow> anchored st after \<and> ds_len st < MAX_LINES_PER_FILE"
| "addressed (OBlankRemove after) h st \<longleftrightarrow> anchored st after"
| "addressed _ h st \<longleftrightarrow> False"

lemma effect_insert:
  assumes "doc_ok st" "newest_shown st" "fresh st h" "addressed (OInsert t after line) h st"
  shows "\<exists>st1. apply_insert t after line h st = (st1, Inr ()) \<and>
    task_lines st1 = place_after after (t, from_bytes line (ds_ending st)) (task_lines st)"
proof -
  have "anchored st after" using assms(4) by simp
  then obtain sp where "slot_after st after h = Inr sp"
    "task_lines (insert_entry sp (ETask t (from_bytes line (ds_ending st))) h st) = place_after after (t, from_bytes line (ds_ending st)) (task_lines st)"
    using task_lines_insert_fresh [OF assms(1-3)] by metis
  then show ?thesis using assms(4) by (auto simp: apply_insert_def ds_len_def Let_def)
qed

lemma effect_move:
  assumes ok: "doc_ok st" and nw: "newest_shown st" and fr: "fresh st h" and ad: "addressed (OMove t after to) h st"
  shows "\<exists>st1. move_task t after to h st = (st1, Inr ()) \<and> task_lines st1 = list_effect (ds_path st) en (OMove t after to) (task_lines st)"
proof -
  have step: "in_step st" using ok by (simp add: doc_ok_def)
  obtain s where s: "live_slot st t = Some s" using ad by auto
  note hide = task_lines_hide [OF ok s]
  let ?st1 = "hide_entry s st"
  show ?thesis
  proof (cases "to = ds_path st")
    case True
    with ad have af: "after \<noteq> Some t" "anchored st after" by simp_all
    have ls: "s < length (ds_entries st)" "entry_id (ds_entries st ! s) = Some t" using live_slot_Some [OF s] by simp_all
    have ok1: "doc_ok ?st1" and fr1: "fresh ?st1 h" using doc_ok_hide_entry [OF ok ls(1)] fr by simp_all
    have nw1: "newest_shown ?st1" by (rule newest_shown_tamer [OF nw tamer_hide [OF step]])
    have an1: "anchored ?st1 after" using af live_slot_hide_other [OF ls(2)] by (auto simp: anchored_def split: option.splits)
    obtain sp where sp: "slot_after ?st1 after h = Inr sp"
      "task_lines (insert_entry sp (ETask t (the (line_of st t))) h ?st1) = place_after after (t, the (line_of st t)) (task_lines ?st1)"
      by (rule task_lines_insert_fresh [OF ok1 nw1 fr1 an1])
    have "rehome_onto t h (insert_entry sp e h ?st1) = insert_entry sp e h ?st1" for e
      using rehome_fresh [OF fresh_insert_entry [OF fr1]] step by simp
    moreover obtain sp0 where "slot_after st after h = Inr sp0" by (rule slot_after_fresh [OF ok nw fr af(2)])
    then obtain a where "anchor_slot st after h = Inr a" by (auto simp: slot_after_def split: sum.splits)
    moreover have "\<not> is_stale_move st s h" using fresh_nth [OF fr step ls(1)] step ls(1)
      by (auto simp: is_stale_move_def get_def in_step_def leD)
    ultimately have "move_task t after to h st = (insert_entry sp (ETask t (the (line_of st t))) h ?st1, Inr ())"
      using True af(1) s sp(1) live_entry [OF s] by (simp add: move_task_def)
    then show ?thesis using sp(2) hide True map_of_task_lines [OF ok] by simp
  qed (use s hide in \<open>simp add: move_task_def\<close>)
qed

lemma effect_delete:
  assumes ok: "doc_ok st" and ad: "addressed (OSetField t f v) h st"
  shows "\<exists>st1. apply_set_field t f v h st = (st1, Inr ()) \<and> task_lines st1 = filter (\<lambda>(i, _). i \<noteq> t) (task_lines st)"
proof -
  obtain s where s: "live_slot st t = Some s" using ad by auto
  obtain st1 b where nd: "note_death t h st = (st1, b)" by fastforce
  then have b: b using ad by (auto simp: note_death_def Let_def)
  note md = metadata_only_note_death [OF nd]
  have "has_placement st t" using live_slot_Some [OF s] by (auto simp: has_placement_def list_ex_iff)
  moreover have "live_slot st1 t = Some s" using s metadata_onlyD [OF md] by (simp add: live_slot_def slots_def)
  moreover have "doc_ok st1" using metadata_onlyD(1) [OF md] ok by simp
  ultimately show ?thesis using ad nd b task_lines_hide [of st1 t s] task_lines_metadata [OF md]
    by (auto simp: apply_set_field_def set_deleted_def)
qed

lemma task_lines_blank:
  "in_step st \<Longrightarrow> view_ok st \<Longrightarrow> task_lines (insert_entry sp (EBlank l) h st) = task_lines st"
proof -
  assume step: "in_step st" "view_ok st"
  have "cell_task (EBlank l, x) = None" for x by (simp add: cell_task_def)
  then have "List.map_filter cell_task (insert_at i (EBlank l, x) cs) = List.map_filter cell_task cs" for i x cs
    using map_filter_append [of cell_task "take i cs" "drop i cs"] by (simp add: insert_at_def map_filter_simps)
  then show ?thesis using step by (simp add: task_lines_cells cells_insert_entry)
qed

lemma effect_blanks:
  assumes ok: "doc_ok st" and nw: "newest_shown st" and fr: "fresh st h" and an: "anchored st after"
  shows "ds_len st < MAX_LINES_PER_FILE \<Longrightarrow> \<exists>st1. blank_insert after h st = (st1, Inr ()) \<and> task_lines st1 = task_lines st"
    and "\<exists>st1. blank_remove after h st = (st1, Inr ()) \<and> task_lines st1 = task_lines st"
proof -
  have step: "in_step st" "view_ok st" using ok by (auto simp: doc_ok_def)
  obtain sp where sp: "slot_after st after h = Inr sp" by (rule slot_after_fresh [OF assms])
  show "ds_len st < MAX_LINES_PER_FILE \<Longrightarrow> \<exists>st1. blank_insert after h st = (st1, Inr ()) \<and> task_lines st1 = task_lines st"
    using sp task_lines_blank [OF step] by (auto simp: blank_insert_def ds_len_def)
  let ?e = "EBlank (from_bytes [] (ds_ending st))"
  let ?st1 = "insert_entry sp ?e h st"
  let ?st2 = "?st1\<lparr>ds_erasers := (ds_erasers ?st1)[sp_at sp := True]\<rparr>"
  have le: "sp_at sp < length (ds_entries ?st1)" using slot_after_le [OF step(1) sp] by (simp add: length_insert_entry)
  have s1: "in_step ?st1" "view_ok ?st1" using step by simp_all
  have s2: "in_step ?st2" using s1 by (simp add: in_step_def)
  have "length (ds_entries (hide_entry (sp_at sp) ?st2)) = length (ds_entries ?st1)" by (simp add: hide_entry_def)
  have "task_lines (hide_entry (sp_at sp) ?st2) = List.map_filter cell_task ((cells ?st2)[sp_at sp := hide_cell (cells ?st2 ! sp_at sp)])"
    using s2 le by (simp add: task_lines_cells cells_hide_entry)
  also have "map cell_task ((cells ?st2)[sp_at sp := hide_cell (cells ?st2 ! sp_at sp)]) = map cell_task (cells ?st1)"
  proof (rule nth_equalityI)
    fix k assume "k < length (map cell_task ((cells ?st2)[sp_at sp := hide_cell (cells ?st2 ! sp_at sp)]))"
    then have k: "k < length (ds_entries ?st1)" using s2 by simp
    then have "cells ?st1 ! sp_at sp = (?e, h, False, sp_parent sp, False)"
      using cells_insert_entry [OF step(1), of sp ?e h] slot_after_le [OF step(1) sp] step(1) by simp
    then show "map cell_task ((cells ?st2)[sp_at sp := hide_cell (cells ?st2 ! sp_at sp)]) ! k = map cell_task (cells ?st1) ! k"
      using k s1 s2 cells_erasers [OF s1(1) le] by (auto simp: nth_update cell_task_def hide_cell_def)
  qed (use s1 s2 in simp)
  then have "List.map_filter cell_task ((cells ?st2)[sp_at sp := hide_cell (cells ?st2 ! sp_at sp)]) = task_lines ?st1"
    unfolding task_lines_cells [OF s1] by (simp only: map_filter_map)
  finally show "\<exists>st1. blank_remove after h st = (st1, Inr ()) \<and> task_lines st1 = task_lines st"
    using sp task_lines_blank [OF step] by (simp add: blank_remove_def Let_def)
qed

lemma fresh_effect:
  assumes "doc_ok st" "newest_shown st" "fresh st h" "addressed k h st"
  shows "\<exists>st1. op_effect k h st = (st1, Inr ()) \<and> task_lines st1 = list_effect (ds_path st) (ds_ending st) k (task_lines st)"
proof (cases k)
  case (OInsert t after line)
  then show ?thesis using effect_insert [OF assms(1-3)] assms(4) by simp
next
  case (OSetField t f v)
  then show ?thesis using effect_delete [OF assms(1), of t f v h] assms(4) by simp
next
  case (OMove t after to)
  then show ?thesis using effect_move [OF assms(1-3)] assms(4) by simp
next
  case (OBlankInsert after)
  then show ?thesis using effect_blanks(1) [OF assms(1-3)] assms(4) by simp
next
  case (OBlankRemove after)
  then show ?thesis using effect_blanks(2) [OF assms(1-3)] assms(4) by simp
qed (use assms(4) in simp_all)

text \<open>C3: in every reachable document the placement of a task that is shown is the newest one of that task, whatever
  moves, deletes and inserts arrived in whatever order.\<close>

theorem shown_is_newest:
  assumes "reachable st" and "live_slot st t = Some s" and "k < length (ds_entries st)" and "entry_id (ds_entries st ! k) = Some t"
  shows "ds_stamps st ! k \<le> ds_stamps st ! s"
proof -
  have step: "in_step st" using reachable_inv [OF assms(1)] by (simp add: doc_ok_def)
  have "(Some t, ds_stamps st ! k, ds_hidden st ! k) \<in> marks st" using slot_mark [OF step assms(3)] assms(4) by simp
  then show ?thesis using reachable_newest [OF assms(1)] live_mark [OF step assms(2)] unfolding newest_shown_def newest_in_def by blast
qed

theorem shown_is_newest_witness: "live_slot one_line_doc 7 = Some 0 \<and> ds_stamps one_line_doc ! 0 \<le> ds_stamps one_line_doc ! 0"
proof -
  have l: "live_slot one_line_doc 7 = Some 0" by code_simp
  show ?thesis using shown_is_newest [OF reachable_one_line l, of 0] l by (simp add: one_line_doc_def)
qed

lemma fresh_step:
  assumes "reachable st" and "fresh st (o_hlc o1)" and "addressed (o_kind o1) (o_hlc o1) st"
  obtains st1 where "ds_apply o1 st = (st1, Inr ())"
    "task_lines st1 = list_effect (ds_path st) (ds_ending st) (o_kind o1) (task_lines st)"
proof -
  have ok: "doc_ok st" and gh: "ghost_count st \<le> MAX_GHOSTS_PER_FILE" using reachable_inv [OF assms(1)] by auto
  obtain st1 where e: "op_effect (o_kind o1) (o_hlc o1) st = (st1, Inr ())"
    "task_lines st1 = list_effect (ds_path st) (ds_ending st) (o_kind o1) (task_lines st)"
    using fresh_effect [OF ok reachable_newest [OF assms(1)] assms(2,3)] by blast
  show thesis using that ds_apply_Inr(1) [OF ok gh e(1)] task_lines_apply [OF ok gh e(1)] e(2) by simp
qed

text \<open>C4: an insert, a move, a delete or a blank newer than everything in the document, which names a line that is
  shown as its anchor, is never refused and acts on the list of task lines as the plain list operation does: the line
  goes right after its anchor, or leaves, and every other line keeps its place and its text.\<close>

theorem fresh_op_refines:
  assumes "reachable st" and "fresh st (o_hlc o1)" and "addressed (o_kind o1) (o_hlc o1) st"
  shows "snd (ds_apply o1 st) = Inr () \<and>
    task_lines (fst (ds_apply o1 st)) = list_effect (ds_path st) (ds_ending st) (o_kind o1) (task_lines st)"
  by (rule fresh_step [OF assms]) simp

theorem fresh_op_refines_witness:
  "task_lines (fst (ds_apply (user_op (Hlc 2 0 1) (OInsert 8 (Some 7) ''b'')) one_line_doc)) =
     [(7, from_bytes ''a'' Lf), (8, from_bytes ''b'' Lf)]"
proof -
  let ?o = "user_op (Hlc 2 0 1) (OInsert 8 (Some 7) ''b'')"
  have "Hlc 1 0 1 \<le> Hlc 2 0 1" by code_simp
  then have f: "fresh one_line_doc (o_hlc ?o)" by (simp add: fresh_def one_line_doc_def user_op_def)
  have "live_slot one_line_doc 7 = Some 0" "task_lines one_line_doc = [(7, from_bytes ''a'' Lf)]" by code_simp+
  moreover from this have "addressed (o_kind ?o) (o_hlc ?o) one_line_doc"
    by (simp add: user_op_def anchored_def has_placement_def ds_len_def one_line_doc_def empty_doc_def MAX_LINES_PER_FILE_def)
  ultimately show ?thesis using fresh_op_refines [OF reachable_one_line f] by (simp add: user_op_def one_line_doc_def empty_doc_def)
qed

end
