(* ===== verification/Replay.thy ===== *)
theory Replay
  imports Sidecar DocFresh
begin

text \<open>
  \<open>reconcile_replay.rs\<close> of \<open>txtodo-engine\<close>: what a reconcile commits. When the reconciler's own operations do not
  rebuild the file, others are made, each applied to a working copy, and kept only when the copy's lines are the
  target's. The loop that evens out the blank lines after a task is a \<open>partial_function\<close>: the outer \<open>None\<close> of its
  result is that it does not end, the inner one that an operation was refused. Logging is left out.
\<close>

section \<open>Definitions\<close>

record settled =
  se_kinds :: "op_kind list"
  se_next :: doc_state
  se_exact :: bool
  se_synthesized :: bool

definition reconcile_against ::
    "'f matcher \<Rightarrow> 'm minter \<Rightarrow> doc_state \<Rightarrow> todo_file \<Rightarrow> todo_file \<Rightarrow> 'm \<Rightarrow> reconciled \<times> 'm" where
  "reconcile_against mt mint st old new s =
    (if ds_mode st = Tagged then reconcile mint old new (ds_path st) s
     else
       let old_ids = map (\<lambda>i. Option.bind (entry_at st i) entry_id) [0..<ds_len st]
       in reconcile_sidecar mt mint \<lparr>sd_file = old, sd_ids = old_ids\<rparr> new (ds_path st) s)"

text \<open>\<open>bare\<close> is \<open>scratch_op\<close>.\<close>

fun replay_kinds :: "doc_state \<Rightarrow> op_kind list \<Rightarrow> doc_state option" where
  "replay_kinds st [] = Some st"
| "replay_kinds st (k # ks) =
    (case ds_apply (scratch_op (ds_path st) k) st of (st1, Inr _) \<Rightarrow> replay_kinds st1 ks | (_, Inl _) \<Rightarrow> None)"

datatype changed = Fields | Reinsert

record pass =
  ps_work :: doc_state
  ps_ops :: "op_kind list"

definition pass_push :: "op_kind \<Rightarrow> pass \<Rightarrow> pass option" where
  "pass_push k p =
    (case ds_apply (scratch_op (ds_path (ps_work p)) k) (ps_work p) of
       (st1, Inr _) \<Rightarrow> Some \<lparr>ps_work = st1, ps_ops = ps_ops p @ [k]\<rparr>
     | (_, Inl _) \<Rightarrow> None)"

fun push_all :: "op_kind list \<Rightarrow> pass \<Rightarrow> pass option" where
  "push_all [] p = Some p"
| "push_all (k # ks) p = Option.bind (pass_push k p) (push_all ks)"

definition delete_kind :: "task_id \<Rightarrow> op_kind option" where
  "delete_kind i = (case set_field i FDeleted (VBool True) of Inr op \<Rightarrow> Some op | Inl _ \<Rightarrow> None)"

text \<open>The loop over the current task lines.\<close>

fun delete_and_change :: "doc_state \<Rightarrow> changed \<Rightarrow> (task_id \<times> owned_line) list \<Rightarrow> pass \<Rightarrow> pass option" where
  "delete_and_change target how [] p = Some p"
| "delete_and_change target how ((i, line) # rest) p =
    Option.bind
      (case line_of target i of
         None \<Rightarrow> Option.bind (delete_kind i) (\<lambda>k. pass_push k p)
       | Some new \<Rightarrow>
           if new = line then Some p
           else if how = Reinsert then Option.bind (delete_kind i) (\<lambda>k. pass_push k p)
           else push_all (change_ops line new i) p)
      (delete_and_change target how rest)"

definition is_blank_at :: "doc_state \<Rightarrow> nat \<Rightarrow> bool" where
  "is_blank_at st i = (case entry_at st i of Some (EBlank _) \<Rightarrow> True | _ \<Rightarrow> False)"

definition tasks_before :: "doc_state \<Rightarrow> nat \<Rightarrow> nat" where
  "tasks_before st at = length (filter (\<lambda>i. \<not> is_blank_at st i) [0..<at])"

text \<open>The loop over the target's task lines, from the \<open>k\<close>-th on.\<close>

fun place_tasks :: "file_path \<Rightarrow> nat \<Rightarrow> task_id option \<Rightarrow> (task_id \<times> owned_line) list \<Rightarrow> pass \<Rightarrow> pass option" where
  "place_tasks path k prev [] p = Some p"
| "place_tasks path k prev ((i, line) # rest) p =
    Option.bind
      (case index_of (ps_work p) i of
         Some at \<Rightarrow> if tasks_before (ps_work p) at = k then Some p else pass_push (OMove i prev path) p
       | None \<Rightarrow> Option.bind (ol_raw line) (\<lambda>raw. pass_push (OInsert i prev raw) p))
      (place_tasks path (k + 1) (Some i) rest)"

definition blanks_after :: "doc_state \<Rightarrow> task_id option \<Rightarrow> nat option" where
  "blanks_after st after =
    map_option (\<lambda>start. length (takeWhile (is_blank_at st) [start..<ds_len st]))
      (case after of None \<Rightarrow> Some 0 | Some i \<Rightarrow> map_option (\<lambda>k. k + 1) (index_of st i))"

partial_function (option) even_run :: "nat \<Rightarrow> task_id option \<Rightarrow> pass \<Rightarrow> pass option option" where
  "even_run want after p =
    (case blanks_after (ps_work p) after of None \<Rightarrow> Some None
     | Some have \<Rightarrow>
         if have = want then Some (Some p)
         else case pass_push (if have < want then OBlankInsert after else OBlankRemove after) p of
           None \<Rightarrow> Some None
         | Some p1 \<Rightarrow> even_run want after p1)"

fun even_blanks :: "doc_state \<Rightarrow> task_id option list \<Rightarrow> pass \<Rightarrow> pass option option" where
  "even_blanks target [] p = Some (Some p)"
| "even_blanks target (after # rest) p =
    (case blanks_after target after of None \<Rightarrow> Some None
     | Some want \<Rightarrow> Option.bind (even_run want after p) (\<lambda>r. case r of None \<Rightarrow> Some None | Some p1 \<Rightarrow> even_blanks target rest p1))"

definition synthesize :: "doc_state \<Rightarrow> doc_state \<Rightarrow> changed \<Rightarrow> (op_kind list \<times> doc_state) option option" where
  "synthesize current target how =
    (case Option.bind (delete_and_change target how (task_lines current) \<lparr>ps_work = current, ps_ops = []\<rparr>)
            (place_tasks (ds_path target) 0 None (task_lines target)) of
       None \<Rightarrow> Some None
     | Some p \<Rightarrow> Option.bind (even_blanks target (None # map (Some \<circ> fst) (task_lines target)) p) (\<lambda>r.
         Some (Option.bind r (\<lambda>p.
           let same = ds_len (ps_work p) = ds_len target \<and>
                 list_all (\<lambda>i. entry_at (ps_work p) i = entry_at target i) [0..<ds_len target]
           in if same then Some (ps_ops p, ps_work p) else None))))"

definition replayable_ops :: "doc_state \<Rightarrow> doc_state \<Rightarrow> (op_kind list \<times> doc_state) option option" where
  "replayable_ops current target = Option.bind (synthesize current target Fields) (\<lambda>r.
     case r of Some x \<Rightarrow> Some (Some x) | None \<Rightarrow> synthesize current target Reinsert)"

text \<open>The rest of \<open>settle\<close>, when the reconciler's own operations do not rebuild the file.\<close>

definition settle_synthesized :: "doc_state \<Rightarrow> reconciled \<Rightarrow> string \<Rightarrow> (state_error + settled) option" where
  "settle_synthesized st r target =
    (case from_file (ds_path st) (rc_file r) (rc_ids r) (ds_mode st) of
       Inl e \<Rightarrow> Some (Inl e)
     | Inr adopted \<Rightarrow> Option.bind (replayable_ops st adopted) (\<lambda>x. Some (Inr (
         case x of
           None \<Rightarrow> \<lparr>se_kinds = rc_ops r, se_next = adopt_stamps st adopted, se_exact = False, se_synthesized = False\<rparr>
         | Some (kinds, work) \<Rightarrow>
             let exact = (ds_to_bytes work = target)
             in \<lparr>se_kinds = kinds, se_next = (if exact then work else adopt_stamps work adopted), se_exact = exact,
                 se_synthesized = True\<rparr>))))"

definition settle :: "doc_state \<Rightarrow> reconciled \<Rightarrow> (state_error + settled) option" where
  "settle st r =
    (let target = to_bytes (rc_file r) in
     case replay_kinds st (rc_ops r) of
       Some next \<Rightarrow>
         if ds_to_bytes next = target
         then Some (Inr \<lparr>se_kinds = rc_ops r, se_next = next, se_exact = True, se_synthesized = False\<rparr>)
         else settle_synthesized st r target
     | None \<Rightarrow> settle_synthesized st r target)"

section \<open>What is committed replays\<close>

lemma scratch_stamp_newest [simp]: "h \<le> scratch_stamp"
proof -
  have top: "w \<le> - 1" for w :: "'a::len word" by (rule word_order.extremum)
  show ?thesis using top by (cases h) (auto simp: scratch_stamp_def less_eq_hlc_def hlc_key_def less_eq_prod_def less_le)
qed

lemma fresh_scratch: "fresh st scratch_stamp"
  by (simp add: fresh_def)

lemma replay_append: "replay_kinds st (ks @ ls) = Option.bind (replay_kinds st ks) (\<lambda>st1. replay_kinds st1 ls)"
  by (induction st ks rule: replay_kinds.induct) (auto split: prod.split sum.split)

lemma replay_reachable: "replay_kinds st ks = Some st' \<Longrightarrow> reachable st \<Longrightarrow> reachable st'"
proof (induction st ks rule: replay_kinds.induct)
  case (2 st k ks)
  then obtain st1 where "ds_apply (scratch_op (ds_path st) k) st = (st1, Inr ())" "replay_kinds st1 ks = Some st'"
    by (auto split: prod.splits sum.splits)
  then show ?case using 2 reachable.step [OF 2(3), of "scratch_op (ds_path st) k"] by simp
qed simp

definition pass_ok :: "doc_state \<Rightarrow> pass \<Rightarrow> bool" where
  "pass_ok st p \<longleftrightarrow> replay_kinds st (ps_ops p) = Some (ps_work p)"

lemma pass_ok_push: "pass_ok st p \<Longrightarrow> pass_push k p = Some p' \<Longrightarrow> pass_ok st p'"
  by (auto simp: pass_ok_def pass_push_def replay_append split: prod.splits sum.splits)

lemma pass_ok_push_all: "pass_ok st p \<Longrightarrow> push_all ks p = Some p' \<Longrightarrow> pass_ok st p'"
  by (induction ks arbitrary: p) (auto simp: bind_eq_Some_conv dest: pass_ok_push)

lemma pass_ok_delete_and_change: "delete_and_change target how xs p = Some p' \<Longrightarrow> pass_ok st p \<Longrightarrow> pass_ok st p'"
proof (induction target how xs p rule: delete_and_change.induct)
  case (2 target how i line rest p)
  then show ?case
    by (auto simp: bind_eq_Some_conv split: option.splits if_splits dest: pass_ok_push pass_ok_push_all)
qed simp

lemma pass_ok_place_tasks: "place_tasks path k prev xs p = Some p' \<Longrightarrow> pass_ok st p \<Longrightarrow> pass_ok st p'"
proof (induction path k prev xs p rule: place_tasks.induct)
  case (2 path k prev i line rest p)
  then show ?case by (auto simp: bind_eq_Some_conv split: option.splits if_splits dest: pass_ok_push)
qed simp

lemma even_run_result:
  assumes "even_run want after p = Some r"
  shows "case r of None \<Rightarrow> True | Some p' \<Rightarrow> (pass_ok st p \<longrightarrow> pass_ok st p') \<and> blanks_after (ps_work p') after = Some want"
proof (rule even_run.raw_induct [OF _ assms, where P = "\<lambda>want after p r. case r of None \<Rightarrow> True
    | Some p' \<Rightarrow> (pass_ok st p \<longrightarrow> pass_ok st p') \<and> blanks_after (ps_work p') after = Some want"])
  fix rec want after p r
  assume 1: "\<And>want after p r. rec want after p = Some r \<Longrightarrow> case r of None \<Rightarrow> True
      | Some p' \<Rightarrow> (pass_ok st p \<longrightarrow> pass_ok st p') \<and> blanks_after (ps_work p') after = Some want"
    "(case blanks_after (ps_work p) after of None \<Rightarrow> Some None
     | Some n \<Rightarrow> if n = want then Some (Some p)
         else case pass_push (if n < want then OBlankInsert after else OBlankRemove after) p of
           None \<Rightarrow> Some None | Some p1 \<Rightarrow> rec want after p1) = Some r"
  show "case r of None \<Rightarrow> True | Some p' \<Rightarrow> (pass_ok st p \<longrightarrow> pass_ok st p') \<and> blanks_after (ps_work p') after = Some want"
  proof (cases "blanks_after (ps_work p) after")
    case (Some hv)
    show ?thesis
    proof (cases "hv = want")
      case False
      show ?thesis
      proof (cases "pass_push (if hv < want then OBlankInsert after else OBlankRemove after) p")
        case (Some p1)
        then have "rec want after p1 = Some r" using 1(2) \<open>blanks_after (ps_work p) after = Some hv\<close> False by simp
        from 1(1) [OF this] show ?thesis using pass_ok_push [OF _ Some] by (cases r) auto
      qed (use 1(2) Some False in auto)
    qed (use 1(2) Some in auto)
  qed (use 1(2) in auto)
qed

lemma pass_ok_even_blanks: "even_blanks target as p = Some (Some p') \<Longrightarrow> pass_ok st p \<Longrightarrow> pass_ok st p'"
proof (induction target as p rule: even_blanks.induct)
  case (2 target after rest p)
  then obtain want p1 where "blanks_after target after = Some want" "even_run want after p = Some (Some p1)" "even_blanks target rest p1 = Some (Some p')"
    by (auto simp: bind_eq_Some_conv split: option.splits)
  then show ?case using 2 even_run_result [of want after p "Some p1" st] by simp
qed simp

lemma entries_at_same:
  assumes "ds_len a = ds_len b" "list_all (\<lambda>i. entry_at a i = entry_at b i) [0..<ds_len b]"
  shows "visible_entries a = visible_entries b"
proof (rule nth_equalityI)
  have len: "length (visible_entries st) = ds_len st" for st by (simp add: visible_entries_def ds_len_def)
  then show "length (visible_entries a) = length (visible_entries b)" using assms(1) by simp
  fix i assume "i < length (visible_entries a)"
  then have i: "i < ds_len a" "i < ds_len b" using len assms(1) by simp_all
  have "entry_at a i = entry_at b i" using assms(2) i(2) by (simp add: list_all_iff)
  then show "visible_entries a ! i = visible_entries b ! i"
    using i by (simp add: entry_at_def get_def visible_entries_def ds_len_def)
qed

lemma synthesize_replays:
  assumes "synthesize current target how = Some (Some (ks, work))"
  shows "replay_kinds current ks = Some work \<and> visible_entries work = visible_entries target"
proof -
  let ?p0 = "\<lparr>ps_work = current, ps_ops = []\<rparr>"
  obtain p q where p: "Option.bind (delete_and_change target how (task_lines current) ?p0)
      (place_tasks (ds_path target) 0 None (task_lines target)) = Some p"
    and q: "even_blanks target (None # map (Some \<circ> fst) (task_lines target)) p = Some (Some q)"
    and r: "ds_len (ps_work q) = ds_len target" "list_all (\<lambda>i. entry_at (ps_work q) i = entry_at target i) [0..<ds_len target]"
      "ks = ps_ops q" "work = ps_work q"
    using assms unfolding synthesize_def Let_def
    by (auto simp: bind_eq_Some_conv simp del: even_blanks.simps split: option.splits if_splits)
  have "pass_ok current ?p0" by (simp add: pass_ok_def)
  then have "pass_ok current p" using p pass_ok_delete_and_change pass_ok_place_tasks by (auto simp: bind_eq_Some_conv)
  then have "pass_ok current q" using pass_ok_even_blanks [OF q] by simp
  then show ?thesis using r entries_at_same [OF r(1,2)] by (simp add: pass_ok_def)
qed

lemma replayable_replays:
  "replayable_ops current target = Some (Some (ks, work)) \<Longrightarrow> replay_kinds current ks = Some work \<and> visible_entries work = visible_entries target"
  using synthesize_replays by (auto simp: replayable_ops_def bind_eq_Some_conv split: option.splits)

lemma from_file_lines: "from_file path f ids mode = Inr st \<Longrightarrow> map entry_line (visible_entries st) = f_lines f"
  using visible_entries_fresh [of path f ids mode st] entries_of_lines [of 0 "f_lines f" ids]
  by (auto simp: from_file_def Let_def split: if_splits sum.splits)

text \<open>C22: what a reconcile commits is right. When it is marked exact, its operations replay on the current document, give the
  state committed, and that state's bytes are the file's; operations the engine made itself replay to exactly the lines of
  the file; and when neither holds, the operations are the reconciler's own and nothing is claimed exact.\<close>

theorem settle_replays:
  assumes "settle st r = Some (Inr se)"
  shows "(se_exact se \<longrightarrow> replay_kinds st (se_kinds se) = Some (se_next se) \<and> ds_to_bytes (se_next se) = to_bytes (rc_file r)) \<and>
    (se_synthesized se \<longrightarrow> (\<exists>work. replay_kinds st (se_kinds se) = Some work \<and> map entry_line (visible_entries work) = f_lines (rc_file r))) \<and>
    (\<not> se_synthesized se \<longrightarrow> se_kinds se = rc_ops r)"
proof -
  have syn: ?thesis if s: "settle_synthesized st r (to_bytes (rc_file r)) = Some (Inr se)"
  proof -
    obtain adopted x where ad: "from_file (ds_path st) (rc_file r) (rc_ids r) (ds_mode st) = Inr adopted"
      and x: "replayable_ops st adopted = Some x"
      using s by (auto simp: settle_synthesized_def bind_eq_Some_conv split: sum.splits)
    show ?thesis
    proof (cases x)
      case None
      then show ?thesis using s ad x by (auto simp: settle_synthesized_def)
    next
      case (Some y)
      obtain ks work where y: "y = (ks, work)" by (cases y)
      have "replay_kinds st ks = Some work" "map entry_line (visible_entries work) = f_lines (rc_file r)"
        using replayable_replays [of st adopted ks work] x Some y from_file_lines [OF ad] by auto
      then show ?thesis using s ad x Some y by (auto simp: settle_synthesized_def Let_def)
    qed
  qed
  show ?thesis
  proof (cases "\<exists>next. replay_kinds st (rc_ops r) = Some next \<and> ds_to_bytes next = to_bytes (rc_file r)")
    case True
    then show ?thesis using assms by (auto simp: settle_def)
  next
    case False
    then have "settle_synthesized st r (to_bytes (rc_file r)) = Some (Inr se)"
      using assms by (auto simp: settle_def Let_def split: option.splits)
    then show ?thesis by (rule syn)
  qed
qed

definition blank_reconciled :: reconciled where
  "blank_reconciled = \<lparr>rc_ops = [OBlankInsert None], rc_file = parse_file (CHR 0x0A # ''a'' @ [CHR 0x0A]), rc_minted = 0, rc_reused = 0,
     rc_ids = [None, Some 7]\<rparr>"

theorem settle_replays_witness:
  "\<exists>se. settle one_line_doc blank_reconciled = Some (Inr se) \<and> se_exact se \<and>
     replay_kinds one_line_doc [OBlankInsert None] = Some (se_next se) \<and>
     ds_to_bytes (se_next se) = to_bytes (rc_file blank_reconciled)"
proof -
  let ?st = "one_line_doc\<lparr>ds_entries := [EBlank (from_bytes [] Lf), ETask 7 (from_bytes ''a'' Lf)], ds_hidden := [False, False],
     ds_visible := [0, 1], ds_stamps := [scratch_stamp, Hlc 1 0 1], ds_parents := [None, None], ds_erasers := [False, False]\<rparr>"
  have "Hlc 1 0 1 < scratch_stamp" by (simp add: less_le) (simp add: scratch_stamp_def)
  then have "slot_after one_line_doc None scratch_stamp = Inr \<lparr>sp_at = 0, sp_parent = None\<rparr>"
    by (simp add: slot_after_def anchor_slot_def skip_newer_def slots_def one_line_doc_def empty_doc_def)
  then have "blank_insert None scratch_stamp one_line_doc = (?st, Inr ())"
    by (simp add: blank_insert_def insert_entry_def insert_at_def reindex_def slots_def one_line_doc_def empty_doc_def MAX_LINES_PER_FILE_def)
  moreover have "settle_erasers ?st = ?st" by (simp add: settle_erasers_def)
  moreover have "prune_ghosts ?st = ?st" by (simp add: prune_ghosts_def prune_ghosts_past_def)
  ultimately have st1: "replay_kinds one_line_doc [OBlankInsert None] = Some ?st"
    by (simp add: ds_apply_def apply_inner_def scratch_op_def)
  have st2: "ds_to_bytes ?st = to_bytes (rc_file blank_reconciled)" by code_simp
  let ?se = "\<lparr>se_kinds = [OBlankInsert None], se_next = ?st, se_exact = True, se_synthesized = False\<rparr>"
  have o: "rc_ops blank_reconciled = [OBlankInsert None]" by (simp add: blank_reconciled_def)
  then have s: "settle one_line_doc blank_reconciled = Some (Inr ?se)" using st1 st2 by (simp add: settle_def del: replay_kinds.simps)
  from settle_replays [OF s] s show ?thesis by (auto simp del: replay_kinds.simps)
qed

end
