(* ===== verification/LineChange.thy ===== *)
theory LineChange
  imports Replay
begin

text \<open>
  What the operations of a changed line (\<open>change_ops\<close> of \<open>reconcile.rs\<close>) leave in the document they are applied to
  (\<open>set_field\<close>, \<open>edit_text\<close> and \<open>remove_tag\<close> of \<open>fields.rs\<close>). \<open>rewritten\<close> says it of the two lines alone: the four prefix fields of the
  new line are set on the old one, then its description. Replaying the operations gives that line, whatever stamps and text
  histories the document holds, except where a \<open>pri:\<close> tag that is in the description already has to change: there the history
  decides, and \<open>rewritten\<close> says nothing.
\<close>

section \<open>A line rewritten\<close>

text \<open>Setting a field, where the line alone tells the result: not when the priority of a completed line is cleared, and not
  when the priority moves into a description that has a \<open>pri:\<close> tag.\<close>

definition plain_set :: "field \<Rightarrow> field_value \<Rightarrow> owned_line \<Rightarrow> owned_line option" where
  "plain_set f v l =
    (if f = FPriority \<and> v = VPriority None \<and> done_description l \<noteq> None then None
     else Option.bind (rewrite_prefix l f v) (\<lambda>l'.
       if description_of l' \<noteq> description_of l \<and> (case description_of l of Some d \<Rightarrow> has_pri d | None \<Rightarrow> False) then None else Some l'))"

text \<open>A field of the new line set on a working copy \<open>l\<close> of the old one: nothing where it has that value, except that a line
  reopened always gets its priority set.\<close>

definition with_field :: "owned_line \<Rightarrow> owned_line \<Rightarrow> field \<Rightarrow> owned_line \<Rightarrow> owned_line option" where
  "with_field old new f l =
    (case field_value_of new f of None \<Rightarrow> Some l
     | Some v \<Rightarrow>
         if field_value_of l f = Some v \<and> \<not> (f = FPriority \<and> task_completed old \<and> \<not> task_completed new) then Some l
         else if \<not> field_fits f v \<or> rewrite_prefix l f v = None then Some l
         else plain_set f v l)"

fun with_fields :: "owned_line \<Rightarrow> owned_line \<Rightarrow> field list \<Rightarrow> owned_line \<Rightarrow> owned_line option" where
  "with_fields old new [] l = Some l"
| "with_fields old new (f # fs) l = Option.bind (with_field old new f l) (with_fields old new fs)"

text \<open>The description set, within the edits an operation may hold.\<close>

definition with_text :: "string \<Rightarrow> owned_line \<Rightarrow> owned_line option" where
  "with_text d l =
    (case description_of l of None \<Rightarrow> Some l
     | Some cur \<Rightarrow>
         if cur = d then Some l
         else if remove_tag cur PRI = d \<or> utf8_valid cur \<and> utf8_valid d \<and> length (edits_between cur d) \<le> MAX_TEXT_EDITS
         then (case Edit_set_description Edit_new d of Inr e \<Rightarrow> Some (apply_edit l e) | Inl _ \<Rightarrow> None)
         else None)"

definition rewritten :: "owned_line \<Rightarrow> owned_line \<Rightarrow> owned_line option" where
  "rewritten old new =
    (case description_of new of None \<Rightarrow> Some old
     | Some d \<Rightarrow> if description_of old = None then Some old else Option.bind (with_fields old new PREFIX_FIELDS old) (with_text d))"

section \<open>One operation with the newest stamp\<close>

lemma task_of_line_task_of: "task_of_line = task_of"
  by (simp add: fun_eq_iff task_of_line_def task_of_def)

text \<open>A change with the newest stamp is never late, so the text after it is the change of the text before it.\<close>

lemma record_newest:
  "snd (record_change (app, mx) current scratch_stamp c h) = change_on app c current"
proof -
  have "\<not> scratch_stamp < h_since h" "\<not> fst (last (h_edits h)) > scratch_stamp" by (simp_all add: not_less)
  then show ?thesis by (simp add: record_change_def Let_def split: sum.split)
qed

lemma history_newest:
  "snd (history_set_pri (app, mx) current scratch_stamp letter h) = set_pri current letter True"
  "snd (history_remove_tag (app, mx) current scratch_stamp key h) = remove_tag current key"
  "snd (history_apply (app, mx) current scratch_stamp es h) = app current es"
  using record_newest [of app mx current "Pri letter" h] record_newest [of app mx current "DropTag key" h]
    record_newest [of app mx current "Splice es" h]
  by (auto simp: history_set_pri_def history_remove_tag_def history_apply_def split: prod.split sum.split)

lemma keep_plain:
  assumes "keep_in_history t l l' scratch_stamp st = (st1, kept)" "\<And>d. description_of l = Some d \<Longrightarrow> \<not> has_pri d"
  shows "kept = l'"
proof (cases "moved_into_pri l l'")
  case (Some m)
  then obtain old new letter add where m: "moved_into_pri l l' = Some (old, new, letter, add)" by (cases m) auto
  then have "description_of l = Some old" "add = (\<not> has_pri old)" "set_pri old letter add = new"
    by (auto simp: moved_into_pri_def bind_eq_Some_conv Let_def split: if_splits)
  then have a: "add" "set_pri old letter True = new" using assms(2) by auto
  have "snd (set_pri_in_description t old scratch_stamp (letter, add) st) = Some new"
    using a history_newest(1) [of apply_text_edits MAX_EDITS_PER_TASK old letter "history_or_new st t old"]
    by (auto simp: set_pri_in_description_def how_task_def Let_def split: prod.split)
  then show ?thesis using assms(1) m by (cases "set_pri_in_description t old scratch_stamp (letter, add) st") (simp add: keep_in_history_def)
qed (use assms in \<open>simp add: keep_in_history_def\<close>)

abbreviation shown_at :: "doc_state \<Rightarrow> task_id \<Rightarrow> nat \<Rightarrow> owned_line \<Rightarrow> bool" where
  "shown_at st t s l \<equiv> content_slot st t = Some s \<and> s < length (ds_entries st) \<and> slot_line st s = l"

lemma not_stale: "\<not> is_stale_field st t f scratch_stamp"
  by (simp add: is_stale_field_def not_less split: option.split)

lemma slot_line_replace: "s < length (ds_entries st) \<Longrightarrow> slot_line (record_field t f h (replace_entry s (ETask t l) st)) s = l"
  "s < length (ds_entries st) \<Longrightarrow> slot_line (replace_entry s (ETask t l) st) s = l"
  by (simp_all add: slot_line_def record_field_def replace_entry_def)

lemma set_plain:
  assumes sh: "shown_at st t s l" and f: "f \<noteq> FDeleted" and pl: "plain_set f v l = Some l'"
    and ap: "apply_set_field t f v scratch_stamp st = (st1, Inr ())"
  shows "slot_line st1 s = l'"
proof -
  have nc: "(if f = FPriority \<and> v = VPriority None then done_description l else None) = None" "rewrite_prefix l f v = Some l'"
    and d: "description_of l' \<noteq> description_of l \<Longrightarrow> description_of l = Some d \<Longrightarrow> \<not> has_pri d" for d
    using pl by (auto simp: plain_set_def bind_eq_Some_conv split: if_splits option.splits)
  obtain st2 kept where k: "(if description_of l = description_of l' then (st, l') else keep_in_history t l l' scratch_stamp st) = (st2, kept)"
    by fastforce
  have kept: "kept = l'"
  proof (cases "description_of l = description_of l'")
    case False
    then have "keep_in_history t l l' scratch_stamp st = (st2, kept)" using k by simp
    then show ?thesis by (rule keep_plain) (metis d False)
  qed (use k in simp)
  have "length (ds_entries st2) = length (ds_entries st)"
    using k metadata_onlyD(2) [OF metadata_only_keep_in_history [of t l l' scratch_stamp st st2 kept]] by (auto split: if_splits)
  moreover have "st1 = record_field t f scratch_stamp (replace_entry s (ETask t kept) st2)"
    using ap sh f nc k not_stale by (simp add: apply_set_field_def Let_def)
  ultimately show ?thesis using kept sh slot_line_replace(1) [of s st2] by simp
qed

lemma described:
  assumes "with_description st t l d = Inr l'" "Edit_set_description Edit_new d = Inr e"
  shows "l' = apply_edit l e"
  using assms by (simp add: with_description_def Let_def split: if_splits)

lemma edit_plain:
  assumes sh: "shown_at st t s l" and d: "description_of l = Some cur" "apply_text_edits cur es = Inr d" "Edit_set_description Edit_new d = Inr e"
    and ap: "apply_edit_text t es scratch_stamp st = (st1, Inr ())"
  shows "slot_line st1 s = apply_edit l e"
proof -
  obtain st2 r where ed: "edit_description t cur scratch_stamp es st = (st2, r)" by fastforce
  then have r: "r = Inr d" using d(2) history_newest(3) [of apply_text_edits MAX_EDITS_PER_TASK cur es "history_or_new st t cur"]
    by (auto simp: edit_description_def how_task_def Let_def split: prod.splits)
  obtain l' where l': "with_description st2 t l d = Inr l'" "st1 = replace_entry s (ETask t l') st2"
    using ap sh d(1) ed r by (auto simp: apply_edit_text_def Let_def split: sum.splits)
  have "length (ds_entries st2) = length (ds_entries st)" using metadata_onlyD(2) [OF metadata_only_history(1) [OF ed]] by simp
  then show ?thesis using l'(2) sh slot_line_replace(2) [of s st2] described [OF l'(1) d(3)] by simp
qed

lemma drop_plain:
  assumes sh: "shown_at st t s l" and d: "description_of l = Some cur" "remove_tag cur key = d" "Edit_set_description Edit_new d = Inr e"
    and ap: "apply_remove_tag t key scratch_stamp st = (st1, Inr ())"
  shows "slot_line st1 s = apply_edit l e"
proof -
  obtain st2 r where ed: "remove_tag_in_description t cur scratch_stamp key st = (st2, r)" by fastforce
  then have r: "r = d" using d(2) history_newest(2) [of apply_text_edits MAX_EDITS_PER_TASK cur key "history_or_new st t cur"]
    by (auto simp: remove_tag_in_description_def how_task_def Let_def split: prod.splits)
  obtain l' where l': "with_description st2 t l d = Inr l'" "st1 = replace_entry s (ETask t l') st2"
    using ap sh d(1) ed r by (auto simp: apply_remove_tag_def Let_def split: sum.splits if_splits)
  have "length (ds_entries st2) = length (ds_entries st)" using metadata_onlyD(2) [OF metadata_only_history(4) [OF ed]] by simp
  then show ?thesis using l'(2) sh slot_line_replace(2) [of s st2] described [OF l'(1) d(3)] by simp
qed

section \<open>The operations of a changed line\<close>

text \<open>The line of one task is rewritten, and no other.\<close>

lemma step_at:
  assumes re: "reachable st" and xs: "task_lines st = as @ (i, l) # bs" and k: "rewritten_task k = Some i"
    and ap: "ds_apply (scratch_op (ds_path st) k) st = (st2, Inr ())"
    and eff: "\<And>s st1. shown_at st i s l \<Longrightarrow> op_effect k scratch_stamp st = (st1, Inr ()) \<Longrightarrow> slot_line st1 s = l'"
  shows "task_lines st2 = as @ (i, l') # bs"
proof -
  let ?o = "scratch_op (ds_path st) k"
  have o: "o_kind ?o = k" "o_hlc ?o = scratch_stamp" by (simp_all add: scratch_op_def)
  have ok: "doc_ok st" and gh: "ghost_count st \<le> MAX_GHOSTS_PER_FILE" using reachable_inv [OF re] by auto
  obtain st1 where e: "op_effect (o_kind ?o) (o_hlc ?o) st = (st1, Inr ())"
    using ap by (auto simp: ds_apply_def apply_inner_def split: prod.splits sum.splits)
  obtain s l2 where s: "content_slot st i = Some s" "metadata_only (replace_entry s (ETask i l2) st) st1"
    using op_effect_rewrites [OF e] k o(1) by auto
  have "line_of st i = Some l" using task_lines_member [OF ok, of i l] xs by simp
  then have "slot_line st s = l" using s(1) by (auto simp: line_of_def content_slot_def slot_line_def)
  then have sh: "shown_at st i s l" using s(1) content_slot_Some by blast
  have "op_effect k scratch_stamp st = (st1, Inr ())" using e by (simp only: o)
  then have "slot_line st1 s = l'" by (rule eff [OF sh])
  moreover have "slot_line st1 s = l2" using metadata_onlyD(2) [OF s(2)] sh by (simp add: slot_line_def replace_entry_def)
  ultimately have "task_lines st1 = map (\<lambda>(j, x). if j = i then (j, l') else (j, x)) (task_lines st)"
    using task_lines_replace [OF ok s(1)] task_lines_metadata [OF s(2)] by simp
  then have t2: "task_lines st2 = map (\<lambda>(j, x). if j = i then (j, l') else (j, x)) (as @ (i, l) # bs)"
    using task_lines_apply [OF ok gh e] ap xs by simp
  have "distinct (map fst (as @ (i, l) # bs))" using distinct_task_lines [OF ok] xs by simp
  then have "i \<notin> fst ` set as" "i \<notin> fst ` set bs" by auto
  moreover have "map (\<lambda>(j, x). if j = i then (j, l') else (j, x)) zs = zs" if "i \<notin> fst ` set zs" for zs
    using that by (induction zs) auto
  ultimately show ?thesis using t2 by simp
qed

text \<open>Operations that turn the line \<open>l\<close> of the task into \<open>l'\<close> in every document that takes them.\<close>

definition leads :: "task_id \<Rightarrow> owned_line \<Rightarrow> op_kind list \<Rightarrow> owned_line \<Rightarrow> bool" where
  "leads i l ks l' \<longleftrightarrow> (\<forall>st st1 as bs. reachable st \<longrightarrow> task_lines st = as @ (i, l) # bs \<longrightarrow> replay_kinds st ks = Some st1 \<longrightarrow>
     task_lines st1 = as @ (i, l') # bs)"

lemma leadsD: "leads i l ks l' \<Longrightarrow> reachable st \<Longrightarrow> task_lines st = as @ (i, l) # bs \<Longrightarrow> replay_kinds st ks = Some st1 \<Longrightarrow>
    task_lines st1 = as @ (i, l') # bs"
  unfolding leads_def by blast

lemma leads_Nil [simp]: "leads i l [] l' \<longleftrightarrow> l' = l \<or> \<not> (\<exists>st as bs. reachable st \<and> task_lines st = as @ (i, l) # bs)"
  by (auto simp: leads_def)

lemma leads_append:
  assumes "leads i l ks l1" "leads i l1 ls l2"
  shows "leads i l (ks @ ls) l2"
  unfolding leads_def
proof (intro allI impI)
  fix st st2 as bs
  assume a: "reachable st" "task_lines st = as @ (i, l) # bs" "replay_kinds st (ks @ ls) = Some st2"
  then obtain st1 where st1: "replay_kinds st ks = Some st1" "replay_kinds st1 ls = Some st2" by (auto simp: replay_append bind_eq_Some_conv)
  then show "task_lines st2 = as @ (i, l2) # bs"
    using leadsD [OF assms(2) replay_reachable [OF st1(1) a(1)] leadsD [OF assms(1) a(1,2) st1(1)] st1(2)] by blast
qed

lemma leads_one:
  assumes "rewritten_task k = Some i"
    and "\<And>st s st1. shown_at st i s l \<Longrightarrow> op_effect k scratch_stamp st = (st1, Inr ()) \<Longrightarrow> slot_line st1 s = l'"
  shows "leads i l [k] l'"
  unfolding leads_def
proof (intro allI impI)
  fix st st1 as bs
  assume a: "reachable st" "task_lines st = as @ (i, l) # bs" "replay_kinds st [k] = Some st1"
  then have "ds_apply (scratch_op (ds_path st) k) st = (st1, Inr ())" by (auto split: prod.splits sum.splits)
  then show "task_lines st1 = as @ (i, l') # bs" using step_at [OF a(1,2) assms(1)] assms(2) by blast
qed

lemma field_leads:
  assumes w: "with_field old new f l = Some l'" and f: "f \<noteq> FDeleted" and n: "task_of new = Some wanted"
  shows "\<exists>ks. change_field i old new wanted f (ops, l) = (ops @ ks, l') \<and> leads i l ks l'"
proof (cases "field_value_of new f")
  case None
  then show ?thesis using w by (simp add: with_field_def change_field_def)
next
  case (Some v)
  have tc: "task_completed new = completed wanted" using n by (simp add: task_completed_def)
  let ?same = "field_value_of l f = Some v \<and> \<not> (f = FPriority \<and> task_completed old \<and> \<not> completed wanted)"
  show ?thesis
  proof (cases "?same \<or> \<not> field_fits f v \<or> rewrite_prefix l f v = None")
    case True
    then have "l' = l" using w Some tc by (auto simp: with_field_def split: if_splits)
    moreover have "change_field i old new wanted f (ops, l) = (ops, l)"
      using True Some by (auto simp: change_field_def set_field_def Let_def split: option.splits)
    ultimately show ?thesis by simp
  next
    case False
    then have p: "plain_set f v l = Some l'" using w Some tc by (auto simp: with_field_def split: if_splits)
    then have "rewrite_prefix l f v = Some l'" by (auto simp: plain_set_def bind_eq_Some_conv split: if_splits)
    then have "change_field i old new wanted f (ops, l) = (ops @ [OSetField i f v], l')"
      using False Some by (auto simp: change_field_def set_field_def Let_def)
    moreover have "leads i l [OSetField i f v] l'"
    proof (rule leads_one)
      show "rewritten_task (OSetField i f v) = Some i" using f by simp
      show "slot_line st1 s = l'" if "shown_at st i s l" "op_effect (OSetField i f v) scratch_stamp st = (st1, Inr ())" for st s st1
        by (rule set_plain [OF that(1) f p]) (use that(2) in \<open>simp only: op_effect.simps\<close>)
    qed
    ultimately show ?thesis by blast
  qed
qed

lemma fields_lead:
  assumes n: "task_of new = Some wanted"
  shows "with_fields old new fs l = Some l' \<Longrightarrow> FDeleted \<notin> set fs \<Longrightarrow>
    \<exists>ks. fold (change_field i old new wanted) fs (ops, l) = (ops @ ks, l') \<and> leads i l ks l'"
proof (induction fs arbitrary: ops l)
  case (Cons f fs)
  obtain l1 where l1: "with_field old new f l = Some l1" "with_fields old new fs l1 = Some l'"
    using Cons.prems(1) by (auto simp: bind_eq_Some_conv)
  have "f \<noteq> FDeleted" "FDeleted \<notin> set fs" using Cons.prems(2) by auto
  then obtain ks where ks: "change_field i old new wanted f (ops, l) = (ops @ ks, l1)" "leads i l ks l1"
    using field_leads [OF l1(1) _ n] by blast
  obtain ls where ls: "fold (change_field i old new wanted) fs (ops @ ks, l1) = ((ops @ ks) @ ls, l')" "leads i l1 ls l'"
    using Cons.IH [OF l1(2) \<open>FDeleted \<notin> set fs\<close>] by blast
  have "fold (change_field i old new wanted) (f # fs) (ops, l) = (ops @ ks @ ls, l')" using ks(1) ls(1) by (simp only: fold_simps append_assoc)
  then show ?case using leads_append [OF ks(2) ls(2)] by blast
qed simp

text \<open>The operations that turn one line into another lead to the line \<open>rewritten\<close> gives.\<close>

lemma change_leads:
  assumes "rewritten old new = Some l'"
  shows "leads i old (change_ops old new i) l'"
proof (cases "description_of new = None \<or> description_of old = None")
  case True
  then have "change_ops old new i = []" "l' = old"
    using assms by (auto simp: rewritten_def change_ops_def description_of_def task_of_line_task_of split: option.splits)
  then show ?thesis by simp
next
  case False
  then obtain wanted first where n: "task_of new = Some wanted" "task_of old = Some first" "description_of new = Some (description wanted)"
    by (auto simp: description_of_def task_of_line_task_of)
  obtain l where l: "with_fields old new PREFIX_FIELDS old = Some l" "with_text (description wanted) l = Some l'"
    using assms False n(3) by (auto simp: rewritten_def bind_eq_Some_conv)
  have "FDeleted \<notin> set PREFIX_FIELDS" by (simp add: PREFIX_FIELDS_def)
  then obtain ks where ks: "fold (change_field i old new wanted) PREFIX_FIELDS ([], old) = (ks, l)" "leads i old ks l"
    using fields_lead [OF n(1) l(1), of i "[]"] by auto
  have c: "change_ops old new i = (case task_of l of None \<Rightarrow> ks
     | Some cur \<Rightarrow>
         if remove_tag (description cur) PRI = description wanted \<and> description cur \<noteq> description wanted then ks @ [ORemoveTag i PRI]
         else if description cur \<noteq> description wanted then ks @ [OEditText i (edits_between (description cur) (description wanted))]
         else ks)"
    using n(1,2) ks(1) by (simp add: change_ops_def PREFIX_FIELDS_def)
  show ?thesis
  proof (cases "task_of l")
    case None
    then have "l' = l" using l(2) by (simp add: with_text_def description_of_def task_of_line_task_of)
    then show ?thesis using c None ks(2) by simp
  next
    case (Some cur)
    let ?d = "description wanted"
    have d: "description_of l = Some (description cur)" using Some by (simp add: description_of_def task_of_line_task_of)
    show ?thesis
    proof (cases "description cur = ?d")
      case True
      then show ?thesis using c Some ks(2) l(2) d by (simp add: with_text_def)
    next
      case diff: False
      then obtain e where e: "Edit_set_description Edit_new ?d = Inr e" "l' = apply_edit l e"
        and how: "remove_tag (description cur) PRI = ?d \<or> utf8_valid (description cur) \<and> utf8_valid ?d \<and> length (edits_between (description cur) ?d) \<le> MAX_TEXT_EDITS"
        using l(2) d by (auto simp: with_text_def split: if_splits sum.splits)
      show ?thesis
      proof (cases "remove_tag (description cur) PRI = ?d")
        case True
        have "leads i l [ORemoveTag i PRI] l'"
        proof (rule leads_one)
          show "slot_line st1 s = l'" if "shown_at st i s l" "op_effect (ORemoveTag i PRI) scratch_stamp st = (st1, Inr ())" for st s st1
            unfolding e(2) by (rule drop_plain [OF that(1) d True e(1)]) (use that(2) in \<open>simp only: op_effect.simps\<close>)
        qed simp
        then show ?thesis using c Some True diff leads_append [OF ks(2)] by simp
      next
        case False
        have u: "utf8_valid (description cur)" "utf8_valid ?d" "length (edits_between (description cur) ?d) \<le> MAX_TEXT_EDITS" using how False by simp_all
        define es where "es = edits_between (description cur) ?d"
        have fit: "apply_text_edits (description cur) es = Inr ?d"
          using diff_text_rebuilds [OF u(1,2)] u(3) by (auto simp: es_def edits_between_def)
        have "leads i l [OEditText i es] l'"
        proof (rule leads_one)
          show "slot_line st1 s = l'" if "shown_at st i s l" "op_effect (OEditText i es) scratch_stamp st = (st1, Inr ())" for st s st1
            unfolding e(2) by (rule edit_plain [OF that(1) d fit e(1)]) (use that(2) in \<open>simp only: op_effect.simps\<close>)
        qed simp
        then show ?thesis using c Some False diff leads_append [OF ks(2)] by (simp add: es_def)
      qed
    qed
  qed
qed

end
