(* ===== verification/MutationOk.thy ===== *)
theory MutationOk
  imports Mutation LineChange
begin

text \<open>
  What a client's request does to a document (\<open>mutation.rs\<close>, \<open>mutation_moves.rs\<close>, \<open>mutation_reopen.rs\<close>): which line a
  reference means, and where the task is once the operations of a request are applied, against a specification on the
  list of task lines.
\<close>

section \<open>Where a task is in the list of task lines\<close>

definition entry_task :: "entry \<Rightarrow> (task_id \<times> owned_line) option" where
  "entry_task e = map_option (\<lambda>i. (i, entry_line e)) (entry_id e)"

definition last_id :: "(task_id \<times> 'l) list \<Rightarrow> task_id option" where
  "last_id xs = (if xs = [] then None else Some (fst (last xs)))"

lemma last_id_simps [simp]: "last_id [] = None" "last_id (xs @ [x]) = Some (fst x)"
  by (simp_all add: last_id_def)

lemma task_lines_entries: "task_lines st = List.map_filter entry_task (visible_entries st)"
  by (simp add: task_lines_def entry_task_def [abs_def])

lemma find_map_last: "find_map (\<lambda>s. entry_id (f s)) (rev ss) = last_id (List.map_filter entry_task (map f ss))"
proof (induction ss rule: rev_induct)
  case (snoc s ss)
  then show ?case by (cases "f s") (simp_all add: map_filter_simps entry_task_def)
qed simp

lemma task_before_last: "task_before st k = last_id (List.map_filter entry_task (take k (visible_entries st)))"
  by (simp add: task_before_def find_map_last visible_entries_def take_map)

lemma last_task_last: "last_task st = last_id (task_lines st)"
  by (simp add: last_task_def task_before_last task_lines_entries ds_len_def visible_entries_def)

lemma line_ids_nth: "k < ds_len st \<Longrightarrow> line_ids st ! k = entry_id (visible_entries st ! k)"
  by (simp add: line_ids_def visible_entries_def ds_len_def)

lemma length_line_ids: "length (line_ids st) = ds_len st"
  by (simp add: line_ids_def visible_entries_def ds_len_def)

lemma entry_at_nth: "entry_at st k = (if k < ds_len st then Some (visible_entries st ! k) else None)"
  by (simp add: entry_at_def get_def visible_entries_def ds_len_def)

text \<open>A shown task at line \<open>k\<close> splits the list of task lines, and the task before it ends the first part.\<close>

lemma task_lines_at:
  assumes "k < ds_len st" and "line_ids st ! k = Some i"
  obtains as l bs where "task_lines st = as @ (i, l) # bs" "task_before st k = last_id as"
proof -
  let ?v = "visible_entries st"
  have k: "k < length ?v" using assms(1) by (simp add: visible_entries_def ds_len_def)
  obtain l where e: "?v ! k = ETask i l" using assms line_ids_nth by (cases "?v ! k") auto
  have "?v = take k ?v @ ?v ! k # drop (Suc k) ?v" using k by (rule id_take_nth_drop)
  then have "task_lines st = List.map_filter entry_task (take k ?v) @ (i, l) # List.map_filter entry_task (drop (Suc k) ?v)"
    using e by (metis task_lines_entries map_filter_append map_filter_Cons entry_task_def entry_id.simps(1) entry_line.simps(1)
        option.map(2) option.case(2) append_Cons append_Nil)
  then show thesis using that task_before_last by blast
qed

lemma count_once_nth:
  "count_list xs a \<le> 1 \<Longrightarrow> i < length xs \<Longrightarrow> j < length xs \<Longrightarrow> xs ! i = a \<Longrightarrow> xs ! j = a \<Longrightarrow> i = j"
proof (induction xs arbitrary: i j)
  case (Cons x xs)
  have "count_list xs a = 0" if "x = a" using that Cons.prems(1) by simp
  then have "a \<notin> set xs" if "x = a" using that by (simp add: count_list_0_iff)
  then show ?case using Cons.IH [of "i - 1" "j - 1"] Cons.prems by (cases i; cases j) (auto split: if_splits)
qed simp

lemma index_of_exact:
  assumes "doc_ok st"
  shows "index_of st i = Some k \<longleftrightarrow> k < ds_len st \<and> line_ids st ! k = Some i"
proof -
  have vis: "entry_id (ds_entries st ! (ds_visible st ! j)) = line_ids st ! j" if "j < length (ds_visible st)" for j
    using that by (simp add: line_ids_def visible_entries_def)
  have one: "line_ids st ! j \<noteq> Some i" if "j < k" "k < ds_len st" "line_ids st ! k = Some i" for j
    using count_once_nth [OF shown_once [OF assms, of i], of j k] that length_line_ids [of st] by auto
  have "index_of st i = Some k \<longleftrightarrow> k < ds_len st \<and> line_ids st ! k = Some i \<and> (\<forall>j < k. line_ids st ! j \<noteq> Some i)"
    unfolding index_of_def find_index_Some ds_len_def using vis by auto
  then show ?thesis using one by blast
qed

lemma resolve_line:
  assumes "reachable st" and "resolve st r = Inr (k, i)"
  shows "k < ds_len st \<and> line_ids st ! k = Some i"
  using assms(2) index_of_exact [OF conjunct1 [OF reachable_inv [OF assms(1)]], of i k]
  by (cases "tr_line_number r") (auto simp: resolve_def Let_def entry_at_nth line_ids_nth split: option.splits entry.splits if_splits)

text \<open>C25: a reference resolves to exactly the line it means. By identifier alone it is the shown line of that task; by line
  number it is the task on that line, and in tagged mode only when the identifier the client saw there, if it names one,
  is still the one on the line.\<close>

theorem resolve_exact:
  assumes "reachable st"
  shows "resolve st r = Inr (k, i) \<longleftrightarrow> k < ds_len st \<and> line_ids st ! k = Some i \<and>
    (if tr_line_number r = 0 then tr_task_id r = Some i
     else tr_line_number r = Suc k \<and> (ds_mode st = Tagged \<longrightarrow> tr_task_id r \<in> {None, Some i}))"
proof (cases "tr_line_number r")
  case 0
  have ok: "doc_ok st" using reachable_inv [OF assms] by simp
  show ?thesis using 0 index_of_exact [OF ok, of i k] by (auto simp: resolve_def Let_def split: option.splits)
next
  case (Suc n)
  then show ?thesis
    by (auto simp: resolve_def Let_def entry_at_nth line_ids_nth split: option.splits entry.splits if_splits)
qed

theorem resolve_exact_witness:
  "resolve one_line_doc \<lparr>tr_line_number = 1, tr_task_id = Some 7\<rparr> = Inr (0, 7)"
proof -
  have "ds_len one_line_doc = 1" "line_ids one_line_doc = [Some 7]" by code_simp+
  then show ?thesis using resolve_exact [OF reachable_one_line, of "\<lparr>tr_line_number = 1, tr_task_id = Some 7\<rparr>" 0 7] by simp
qed

section \<open>Operations of one task on the list of task lines\<close>

definition others :: "task_id \<Rightarrow> (task_id \<times> 'l) list \<Rightarrow> (task_id \<times> 'l) list" where
  "others i xs = filter (\<lambda>(j, _). j \<noteq> i) xs"

lemma others_absent: "i \<notin> fst ` set xs \<Longrightarrow> others i xs = xs"
  by (force simp: others_def filter_id_conv)

lemma others_split:
  assumes "distinct (map fst (as @ (i, l) # bs))"
  shows "others i (as @ (i, l) # bs) = as @ bs" "i \<notin> fst ` set (as @ bs)"
proof -
  show "i \<notin> fst ` set (as @ bs)" using assms by auto
  then have "others i as = as" "others i bs = bs" by (auto intro: others_absent)
  then show "others i (as @ (i, l) # bs) = as @ bs" by (simp add: others_def)
qed

lemma place_after_last: "distinct (map fst (ps @ qs)) \<Longrightarrow> place_after (last_id ps) x (ps @ qs) = ps @ x # qs"
proof (cases ps rule: rev_cases)
  case (snoc ps' p)
  assume d: "distinct (map fst (ps @ qs))"
  then have "fst p \<notin> fst ` set ps'" using snoc by simp
  then have "\<forall>y \<in> set ps'. fst y \<noteq> fst p" by (metis image_eqI)
  then show ?thesis using snoc place_after_skip [of ps' "fst p" x "p # qs"] by simp
qed simp

lemma last_id_member: "last_id ps = Some j \<Longrightarrow> j \<in> fst ` set ps"
  by (cases ps rule: rev_cases) auto

lemma shown_iff: "doc_ok st \<Longrightarrow> live_slot st i \<noteq> None \<longleftrightarrow> i \<in> fst ` set (task_lines st)"
  using task_lines_member [of st i] by (force simp: line_of_def)

lemma reachable_lines: "reachable st \<Longrightarrow> doc_ok st" "reachable st \<Longrightarrow> distinct (map fst (task_lines st))"
  using reachable_inv distinct_task_lines by blast+

lemma replay_addressed:
  assumes "reachable st" and "addressed k scratch_stamp st"
  obtains st1 where "replay_kinds st [k] = Some st1" "task_lines st1 = list_effect (ds_path st) (ds_ending st) k (task_lines st)"
proof -
  let ?o = "scratch_op (ds_path st) k"
  have o: "o_kind ?o = k" "o_hlc ?o = scratch_stamp" by (simp_all add: scratch_op_def)
  have f: "fresh st (o_hlc ?o)" "addressed (o_kind ?o) (o_hlc ?o) st" using assms(2) by (simp_all only: o fresh_scratch)
  obtain st1 where "ds_apply ?o st = (st1, Inr ())" "task_lines st1 = list_effect (ds_path st) (ds_ending st) (o_kind ?o) (task_lines st)"
    by (rule fresh_step [OF assms(1) f])
  then show thesis using that [of st1] unfolding o by simp
qed

text \<open>Every move within a file: the list without the task is cut where it goes.\<close>

lemma replay_move:
  assumes r: "reachable st" and xs: "task_lines st = as @ (i, l) # bs" and cut: "as @ bs = ps @ qs"
    and path: "p = ds_path st"
  obtains st1 where "replay_kinds st [OMove i (last_id ps) p] = Some st1" "task_lines st1 = ps @ (i, l) # qs"
proof -
  have ok: "doc_ok st" and d: "distinct (map fst (as @ (i, l) # bs))" using reachable_lines [OF r] xs by simp_all
  note o' = others_split [OF d]
  have mem: "fst ` set ps \<subseteq> fst ` set (as @ bs)" using cut by auto
  then have "last_id ps \<noteq> Some i" using last_id_member o'(2) by blast
  moreover have "anchored st (last_id ps)"
    using last_id_member mem shown_iff [OF ok] xs by (fastforce simp: anchored_def split: option.split)
  ultimately have "addressed (OMove i (last_id ps) p) scratch_stamp st" using shown_iff [OF ok, of i] xs path by simp
  then obtain st1 where st1: "replay_kinds st [OMove i (last_id ps) p] = Some st1"
    "task_lines st1 = list_effect (ds_path st) (ds_ending st) (OMove i (last_id ps) p) (task_lines st)"
    using replay_addressed [OF r] by blast
  have "map_of (task_lines st) i = Some l" using reachable_lines(2) [OF r] xs by (intro map_of_is_SomeI) auto
  moreover have "distinct (map fst (ps @ qs))" using d cut [symmetric] by auto
  ultimately have "task_lines st1 = ps @ (i, l) # qs"
    using st1(2) path o'(1) cut place_after_last [of ps qs "(i, l)"] xs by (simp add: others_def)
  then show thesis using that st1(1) by blast
qed




section \<open>What a request promises\<close>


definition put_where :: "(task_id \<times> owned_line \<Rightarrow> bool) \<Rightarrow> task_id \<times> owned_line \<Rightarrow> (task_id \<times> owned_line) list \<Rightarrow>
    (task_id \<times> owned_line) list" where
  "put_where P x xs = takeWhile P xs @ x # dropWhile P xs"






lemma resolved:
  assumes "reachable st" and "resolve st r = Inr (k, i)"
  obtains as l bs where "task_lines st = as @ (i, l) # bs" "task_before st k = last_id as" "line_of st i = Some l"
    "others i (task_lines st) = as @ bs" "i \<notin> fst ` set (as @ bs)" "distinct (map fst (as @ (i, l) # bs))"
proof -
  have "k < ds_len st" "line_ids st ! k = Some i" using resolve_line [OF assms(1)] assms(2) by blast+
  then obtain as l bs where xs: "task_lines st = as @ (i, l) # bs" "task_before st k = last_id as" by (rule task_lines_at)
  then have d: "distinct (map fst (as @ (i, l) # bs))" using reachable_lines(2) [OF assms(1)] by simp
  moreover have "line_of st i = Some l" using task_lines_member [OF reachable_lines(1) [OF assms(1)], of i l] xs by simp
  ultimately show thesis using that xs others_split [OF d] by simp
qed

lemma replay_Cons: "replay_kinds st (k # ks) = Option.bind (replay_kinds st [k]) (\<lambda>st1. replay_kinds st1 ks)"
  using replay_append [of st "[k]" ks] by simp

lemma move_to_end_place:
  assumes "reachable st" and "resolve st r = Inr (k, i)" and "move_to_end_ops st r = Inr ks"
  obtains st1 l where "replay_kinds st ks = Some st1" "line_of st i = Some l"
    "task_lines st1 = others i (task_lines st) @ [(i, l)]"
proof -
  obtain as l bs where r: "task_lines st = as @ (i, l) # bs" "task_before st k = last_id as" "line_of st i = Some l"
    "others i (task_lines st) = as @ bs" "i \<notin> fst ` set (as @ bs)" "distinct (map fst (as @ (i, l) # bs))"
    by (rule resolved [OF assms(1,2)])
  have "(if last_task st = Some i then task_before st k else last_task st) = last_id (as @ bs)"
    using r(1,2,5) by (cases bs rule: rev_cases) (auto simp: last_task_last last_id_def)
  then have ks: "ks = [OMove i (last_id (as @ bs)) (ds_path st)]"
    using assms(2,3) by (simp add: move_to_end_ops_def or_refuse_def Let_def)
  obtain st1 where "replay_kinds st ks = Some st1" "task_lines st1 = (as @ bs) @ (i, l) # []"
    unfolding ks by (rule replay_move [OF assms(1) r(1), of "as @ bs" "[]"]) simp_all
  then show thesis using that r(3,4) by simp
qed

lemma put_where_cut: "\<forall>x \<in> set ps. P x \<Longrightarrow> (case qs of [] \<Rightarrow> True | q # _ \<Rightarrow> \<not> P q) \<Longrightarrow> put_where P x (ps @ qs) = ps @ x # qs"
  by (cases qs) (simp_all add: put_where_def takeWhile_append dropWhile_append)

lemma two_cuts:
  assumes "as @ x # bs = cs @ y # ds" and "x \<noteq> y"
  obtains m where "bs = m @ y # ds" "cs = as @ x # m" | m where "as = cs @ y # m" "ds = m @ x # bs"
proof -
  obtain us where "as = cs @ us \<and> us @ x # bs = y # ds \<or> as @ us = cs \<and> x # bs = us @ y # ds"
    using assms(1) by (auto simp: append_eq_append_conv2)
  then show thesis using that assms(2) by (cases us) auto
qed

lemma move_before_place:
  assumes "reachable st" and "resolve st r = Inr (k, i)" and "move_before_ops st r before = Inr ks"
  obtains st1 l j b where "replay_kinds st ks = Some st1" "line_of st i = Some l" "resolve st before = Inr (j, b)"
    "task_lines st1 = put_where (\<lambda>x. fst x \<noteq> b) (i, l) (others i (task_lines st))"
proof -
  obtain as l bs where r: "task_lines st = as @ (i, l) # bs" "task_before st k = last_id as" "line_of st i = Some l"
    "others i (task_lines st) = as @ bs" "i \<notin> fst ` set (as @ bs)" "distinct (map fst (as @ (i, l) # bs))"
    by (rule resolved [OF assms(1,2)])
  obtain j b where b: "resolve st before = Inr (j, b)" "i \<noteq> b"
    using assms(2,3) by (auto simp: move_before_ops_def or_refuse_def split: sum.splits if_splits)
  obtain cs lb ds where c: "task_lines st = cs @ (b, lb) # ds" "task_before st j = last_id cs"
    and out: "b \<notin> fst ` set (cs @ ds)"
    by (rule resolved [OF assms(1) b(1)])
  let ?after = "if task_before st j = Some i then task_before st k else task_before st j"
  have "\<exists>ps qs. as @ bs = ps @ (b, lb) # qs \<and> ?after = last_id ps \<and> b \<notin> fst ` set ps"
  proof -
    have "as @ (i, l) # bs = cs @ (b, lb) # ds" "(i, l) \<noteq> (b, lb)" using r(1) c(1) b(2) by simp_all
    then consider m where "bs = m @ (b, lb) # ds" "cs = as @ (i, l) # m" | m where "as = cs @ (b, lb) # m" "ds = m @ (i, l) # bs"
      by (rule two_cuts)
    then show ?thesis
    proof cases
      case 1
      then have "?after = last_id (as @ m)" using r(2,5) c(2) by (cases m rule: rev_cases) (auto simp: last_id_def)
      then show ?thesis using 1 out by (intro exI [of _ "as @ m"] exI [of _ ds]) auto
    next
      case 2
      then have "last_id cs \<noteq> Some i" using r(5) last_id_member [of cs i] by auto
      then show ?thesis using 2 out c(2) by (intro exI [of _ cs] exI [of _ "m @ bs"]) auto
    qed
  qed
  then obtain ps qs where cut: "as @ bs = ps @ (b, lb) # qs" "?after = last_id ps" "b \<notin> fst ` set ps" by blast
  have ks: "ks = [OMove i (last_id ps) (ds_path st)]"
    using assms(2,3) b cut(2) by (simp add: move_before_ops_def or_refuse_def Let_def)
  obtain st1 where st1: "replay_kinds st ks = Some st1" "task_lines st1 = ps @ (i, l) # (b, lb) # qs"
    unfolding ks by (rule replay_move [OF assms(1) r(1) cut(1)]) simp_all
  have "\<forall>x \<in> set ps. fst x \<noteq> b" using cut(3) by (metis image_eqI)
  then have "put_where (\<lambda>x. fst x \<noteq> b) (i, l) (ps @ (b, lb) # qs) = ps @ (i, l) # (b, lb) # qs" by (intro put_where_cut) simp_all
  then have "task_lines st1 = put_where (\<lambda>x. fst x \<noteq> b) (i, l) (others i (task_lines st))" using st1(2) r(4) cut(1) by simp
  then show thesis using that st1(1) r(3) b(1) by blast
qed








lemma move_place:
  assumes re: "reachable st" and rs: "resolve st r = Inr (k, i)" and ks: "move_ops st r to = Inr ks"
  obtains st1 l where "replay_kinds st ks = Some st1" "line_of st i = Some l"
    "task_lines st1 = (if to = ds_path st then (i, l) # others i (task_lines st) else others i (task_lines st))"
proof -
  obtain as l bs where r: "task_lines st = as @ (i, l) # bs" "task_before st k = last_id as" "line_of st i = Some l"
    "others i (task_lines st) = as @ bs" "i \<notin> fst ` set (as @ bs)" "distinct (map fst (as @ (i, l) # bs))"
    by (rule resolved [OF re rs])
  have K: "ks = [OMove i None to]" using ks rs by (simp add: move_ops_def or_refuse_def)
  show thesis
  proof (cases "to = ds_path st")
    case True
    obtain st1 where "replay_kinds st [OMove i (last_id []) to] = Some st1" "task_lines st1 = [] @ (i, l) # (as @ bs)"
      by (rule replay_move [OF re r(1), of "[]" "as @ bs" to]) (simp_all add: True)
    then show thesis using that K True r(3,4) by simp
  next
    case False
    then have "addressed (OMove i None to) scratch_stamp st" using shown_iff [OF reachable_lines(1) [OF re], of i] r(1) by simp
    then obtain st1 where "replay_kinds st [OMove i None to] = Some st1"
      "task_lines st1 = list_effect (ds_path st) (ds_ending st) (OMove i None to) (task_lines st)"
      by (rule replay_addressed [OF re])
    then show thesis using that K False r(3) by (simp add: others_def)
  qed
qed

lemma delete_place:
  assumes re: "reachable st" and rs: "resolve st r = Inr (k, i)" and ks: "delete_ops st r blank = Inr ks"
  shows "\<not> blank \<longrightarrow> (\<exists>st1. replay_kinds st ks = Some st1)" "replay_kinds st ks = Some st1 \<longrightarrow> task_lines st1 = others i (task_lines st)"
proof -
  obtain as l bs where r: "task_lines st = as @ (i, l) # bs" "task_before st k = last_id as" "line_of st i = Some l"
    "others i (task_lines st) = as @ bs" "i \<notin> fst ` set (as @ bs)" "distinct (map fst (as @ (i, l) # bs))"
    by (rule resolved [OF re rs])
  let ?d = "OSetField i FDeleted (VBool True)" and ?b = "OBlankInsert (last_id as)"
  have K: "ks = ?d # (if blank then [?b] else [])"
    using ks rs r(2) by (auto simp: delete_ops_def or_refuse_def set_field_def Let_def)
  have "addressed ?d scratch_stamp st" using shown_iff [OF reachable_lines(1) [OF re], of i] r(1) by (simp split: option.split)
  then obtain st2 where st2: "replay_kinds st [?d] = Some st2" "task_lines st2 = list_effect (ds_path st) (ds_ending st) ?d (task_lines st)"
    by (rule replay_addressed [OF re])
  then have xs2: "task_lines st2 = as @ bs" using r(4) by (simp add: others_def)
  have re2: "reachable st2" using replay_reachable [OF st2(1) re] .
  show "\<not> blank \<longrightarrow> (\<exists>st1. replay_kinds st ks = Some st1)" using K st2(1) by auto
  have "task_lines st3 = as @ bs" if b: "replay_kinds st2 [?b] = Some st3" for st3
  proof -
    have "ds_len st2 < MAX_LINES_PER_FILE"
      using b by (auto simp: ds_apply_def apply_inner_def scratch_op_def blank_insert_def ds_len_def split: prod.splits sum.splits if_splits)
    moreover have "anchored st2 (last_id as)"
      using last_id_member shown_iff [OF reachable_lines(1) [OF re2]] xs2 by (fastforce simp: anchored_def split: option.split)
    ultimately have "addressed ?b scratch_stamp st2" by simp
    then obtain st4 where "replay_kinds st2 [?b] = Some st4" "task_lines st4 = list_effect (ds_path st2) (ds_ending st2) ?b (task_lines st2)"
      by (rule replay_addressed [OF re2])
    then show ?thesis using b xs2 by simp
  qed
  then show "replay_kinds st ks = Some st1 \<longrightarrow> task_lines st1 = others i (task_lines st)"
    using K st2(1) xs2 r(4) replay_Cons [of st ?d "[?b]"] by (cases blank) auto
qed



lemma or_refuse_Inr: "or_refuse m f = Inr b \<longleftrightarrow> (\<exists>a. m = Inr a \<and> f a = Inr b)"
  by (cases m) (simp_all add: or_refuse_def)

lemma request_resolves:
  "move_to_end_ops st r = Inr ks \<Longrightarrow> \<exists>k i. resolve st r = Inr (k, i)"
  "move_before_ops st r before = Inr ks \<Longrightarrow> \<exists>k i. resolve st r = Inr (k, i)"
  "move_ops st r to = Inr ks \<Longrightarrow> \<exists>k i. resolve st r = Inr (k, i)"
  "delete_ops st r blank = Inr ks \<Longrightarrow> \<exists>k i. resolve st r = Inr (k, i)"
  "complete_ops st r today = Inr ks \<Longrightarrow> \<exists>k i. resolve st r = Inr (k, i)"
  "reopen_ops st r = Inr ks \<Longrightarrow> \<exists>k i. resolve st r = Inr (k, i)"
  "edit_ops st r text to_end = Inr ks \<Longrightarrow> \<exists>k i. resolve st r = Inr (k, i)"
  unfolding move_to_end_ops_def move_before_ops_def move_ops_def delete_ops_def complete_ops_def reopen_ops_def edit_ops_def
  by (auto simp: or_refuse_Inr)



fun structural :: "mutation \<Rightarrow> bool" where
  "structural (MMove _ _) = True"
| "structural (MMoveToEnd _) = True"
| "structural (MMoveBefore _ _) = True"
| "structural (MDelete _ blank) = (\<not> blank)"
| "structural _ = False"

text \<open>C24: the operations of a move, of a move to the end, of a move before another line and of a plain delete are never
  refused by the document they were made for, whatever moves, deletes and ghosts its history holds.\<close>

theorem structural_never_refused:
  assumes "reachable st" and "mutation_ops mint st m s = (Inr ks, s1)" and "structural m"
  shows "\<exists>st1. replay_kinds st ks = Some st1"
proof (cases m)
  case (MMove r to)
  then have "move_ops st r to = Inr ks" using assms(2) by (simp add: mutation_ops_def)
  then show ?thesis using request_resolves(3) move_place [OF assms(1)] by metis
next
  case (MDelete r blank)
  then have "delete_ops st r blank = Inr ks" "\<not> blank" using assms(2,3) by (simp_all add: mutation_ops_def)
  then show ?thesis using request_resolves(4) delete_place(1) [OF assms(1)] by metis
next
  case (MMoveToEnd r)
  then have "move_to_end_ops st r = Inr ks" using assms(2) by (simp add: mutation_ops_def)
  then show ?thesis using request_resolves(1) move_to_end_place [OF assms(1)] by metis
next
  case (MMoveBefore r before)
  then have "move_before_ops st r before = Inr ks" using assms(2) by (simp add: mutation_ops_def)
  then show ?thesis using request_resolves(2) move_before_place [OF assms(1)] by metis
qed (use assms(3) in simp_all)

theorem structural_never_refused_witness:
  "\<exists>st1. replay_kinds one_line_doc [OMove 7 None ''todo.txt''] = Some st1"
proof -
  have "mutation_ops (\<lambda>s. (8, s)) one_line_doc (MMoveToEnd \<lparr>tr_line_number = 1, tr_task_id = None\<rparr>) () =
      (Inr [OMove 7 None ''todo.txt''], ())" by code_simp
  from structural_never_refused [OF reachable_one_line this] show ?thesis by simp
qed

end
