(* ===== verification/Wire.thy ===== *)
theory Wire
  imports Ops
begin

text \<open>
  \<open>frame.rs\<close>, \<open>append_frame.rs\<close> and \<open>message.rs\<close> of \<open>txtodo-sync\<close>: the envelope every message travels in, the record of an
  append-only file, and the messages with their caps. The body of a message is the encoding of the third-party
  \<open>postcard\<close> crate, a pair of parameters. Error texts and logging are left out.
\<close>

section \<open>Definitions\<close>

subsection \<open>Little-endian integers\<close>

fun to_le_bytes :: "nat \<Rightarrow> nat \<Rightarrow> string" where
  "to_le_bytes 0 n = []"
| "to_le_bytes (Suc k) n = char_of n # to_le_bytes k (n div 256)"

fun from_le_bytes :: "string \<Rightarrow> nat" where
  "from_le_bytes [] = 0"
| "from_le_bytes (c # cs) = byte_val c + 256 * from_le_bytes cs"

subsection \<open>Frames\<close>

definition MAGIC :: string where
  "MAGIC = ''TXTO''"

definition PROTOCOL_VERSION :: u16 where
  "PROTOCOL_VERSION = 6"

definition MAX_FRAME_BYTES :: nat where
  "MAX_FRAME_BYTES = 4 * 1024 * 1024"

definition HEADER_BYTES :: nat where
  "HEADER_BYTES = 10"

record frame =
  fr_version :: u16
  fr_body :: string

datatype frame_error =
    BadMagic string
  | Truncated nat nat
  | FrameTooLarge nat nat
  | UnknownVersion u16 u16

definition Frame_new :: "string \<Rightarrow> frame_error + frame" where
  "Frame_new body =
    (if length body > MAX_FRAME_BYTES then Inl (FrameTooLarge (length body) MAX_FRAME_BYTES)
     else Inr \<lparr>fr_version = PROTOCOL_VERSION, fr_body = body\<rparr>)"

definition Frame_encode :: "frame \<Rightarrow> frame_error + string" where
  "Frame_encode f =
    (if length (fr_body f) > MAX_FRAME_BYTES then Inl (FrameTooLarge (length (fr_body f)) MAX_FRAME_BYTES)
     else if length (fr_body f) \<ge> 2 ^ 32 then Inl (FrameTooLarge (length (fr_body f)) MAX_FRAME_BYTES)
     else Inr (MAGIC @ to_le_bytes 2 (unat (fr_version f)) @ to_le_bytes 4 (length (fr_body f)) @ fr_body f))"

definition bad_magic :: "string \<Rightarrow> frame_error" where
  "bad_magic bytes = (let n = min (length bytes) 4 in BadMagic (take n bytes @ replicate (4 - n) (CHR 0x00)))"

definition Frame_peek :: "string \<Rightarrow> frame_error + u16 \<times> nat" where
  "Frame_peek bytes =
    (if length bytes < HEADER_BYTES then
       if length bytes \<ge> length MAGIC \<and> take 4 bytes \<noteq> MAGIC then Inl (bad_magic bytes)
       else Inl (Truncated HEADER_BYTES (length bytes))
     else if take 4 bytes \<noteq> MAGIC then Inl (bad_magic bytes)
     else
       let version = of_nat (from_le_bytes [bytes ! 4, bytes ! 5]);
           len = from_le_bytes [bytes ! 6, bytes ! 7, bytes ! 8, bytes ! 9]
       in if len > MAX_FRAME_BYTES then Inl (FrameTooLarge len MAX_FRAME_BYTES) else Inr (version, HEADER_BYTES + len))"

definition Frame_decode :: "string \<Rightarrow> frame_error + frame \<times> nat" where
  "Frame_decode bytes =
    (case Frame_peek bytes of Inl e \<Rightarrow> Inl e
     | Inr (version, whole) \<Rightarrow>
         if version \<noteq> PROTOCOL_VERSION then Inl (UnknownVersion version PROTOCOL_VERSION)
         else if length bytes < whole then Inl (Truncated whole (length bytes))
         else Inr (\<lparr>fr_version = version, fr_body = drop HEADER_BYTES (take whole bytes)\<rparr>, whole))"

subsection \<open>Records of an append-only file\<close>

definition MAX_APPEND_FRAME_BYTES :: nat where
  "MAX_APPEND_FRAME_BYTES = 8 * 1024 * 1024"

definition APPEND_HEADER_BYTES :: nat where
  "APPEND_HEADER_BYTES = 4"

record append_frame =
  af_len :: nat
  af_body :: string

datatype append_error = AppendTooLarge nat nat

definition AppendFrame_new :: "string \<Rightarrow> append_error + append_frame" where
  "AppendFrame_new body =
    (if length body > MAX_APPEND_FRAME_BYTES then Inl (AppendTooLarge (length body) MAX_APPEND_FRAME_BYTES)
     else if length body \<ge> 2 ^ 32 then Inl (AppendTooLarge (length body) MAX_APPEND_FRAME_BYTES)
     else Inr \<lparr>af_len = length body, af_body = body\<rparr>)"

definition AppendFrame_encode :: "append_frame \<Rightarrow> string" where
  "AppendFrame_encode f = to_le_bytes 4 (af_len f) @ af_body f"

text \<open>\<open>None\<close> is a record that is not whole yet.\<close>

definition AppendFrame_try_decode :: "string \<Rightarrow> append_error + (append_frame \<times> nat) option" where
  "AppendFrame_try_decode bytes =
    (if length bytes < APPEND_HEADER_BYTES then Inr None
     else
       let len = from_le_bytes [bytes ! 0, bytes ! 1, bytes ! 2, bytes ! 3] in
       if len > MAX_APPEND_FRAME_BYTES then Inl (AppendTooLarge len MAX_APPEND_FRAME_BYTES)
       else
         let whole = APPEND_HEADER_BYTES + len in
         if length bytes < whole then Inr None
         else Inr (Some (\<lparr>af_len = len, af_body = drop APPEND_HEADER_BYTES (take whole bytes)\<rparr>, whole)))"

subsection \<open>Messages\<close>

definition MAX_OPS_PER_BATCH :: nat where
  "MAX_OPS_PER_BATCH = 1000"

definition MAX_WANT_RANGES :: nat where
  "MAX_WANT_RANGES = 1024"

definition MAX_HEADS :: nat where
  "MAX_HEADS = 1024"

definition MAX_DIGEST_FILES :: nat where
  "MAX_DIGEST_FILES = 1024"

type_synonym group_id = "128 word"
type_synonym workspace_id = ulid

text \<open>A \<open>BTreeMap\<close> is its list of entries in key order.\<close>

type_synonym heads = "(device_id \<times> u64) list"

record origin_range =
  or_device :: device_id
  or_first :: u64
  or_last :: u64

record file_digest =
  fd_path :: string
  fd_ops :: string
  fd_bytes :: string

datatype 's message =
    Hello device_id group_id heads u16 u64
  | Want workspace_id "origin_range list"
  | Ops workspace_id "op list" "'s list" "origin_range list"
  | Ack workspace_id "origin_range list"
  | Greet workspace_id heads
  | Digest workspace_id "file_digest list"

datatype 'e message_error =
    MFrame frame_error
  | MTooMany string nat nat
  | BackwardsRange origin_range
  | SignatureCount nat nat
  | Codec 'e
  | TrailingBytes nat

fun message_workspace :: "'s message \<Rightarrow> workspace_id option" where
  "message_workspace (Hello _ _ _ _ _) = None"
| "message_workspace (Want w _) = Some w"
| "message_workspace (Ops w _ _ _) = Some w"
| "message_workspace (Ack w _) = Some w"
| "message_workspace (Greet w _) = Some w"
| "message_workspace (Digest w _) = Some w"

definition cap :: "string \<Rightarrow> nat \<Rightarrow> nat \<Rightarrow> 'e message_error + unit" where
  "cap what len mx = (if len > mx then Inl (MTooMany what len mx) else Inr ())"

definition ranges_ok :: "string \<Rightarrow> origin_range list \<Rightarrow> 'e message_error + unit" where
  "ranges_ok what ranges =
    (case cap what (length ranges) MAX_WANT_RANGES of Inl e \<Rightarrow> Inl e
     | Inr _ \<Rightarrow> (case List.find (\<lambda>r. or_last r < or_first r) ranges of Some r \<Rightarrow> Inl (BackwardsRange r) | None \<Rightarrow> Inr ()))"

fun check_caps :: "'s message \<Rightarrow> 'e message_error + unit" where
  "check_caps (Hello _ _ hs _ _) = cap ''heads'' (length hs) MAX_HEADS"
| "check_caps (Want _ ranges) = ranges_ok ''want ranges'' ranges"
| "check_caps (Ops _ os ss ranges) =
     (case cap ''ops'' (length os) MAX_OPS_PER_BATCH of Inl e \<Rightarrow> Inl e
      | Inr _ \<Rightarrow> if length os \<noteq> length ss then Inl (SignatureCount (length os) (length ss)) else ranges_ok ''ops ranges'' ranges)"
| "check_caps (Ack _ committed) = ranges_ok ''ack ranges'' committed"
| "check_caps (Greet _ hs) = cap ''heads'' (length hs) MAX_HEADS"
| "check_caps (Digest _ files) = cap ''digest files'' (length files) MAX_DIGEST_FILES"

text \<open>The \<open>postcard\<close> crate: the bytes of a message, and a message with the bytes left over.\<close>

record ('s, 'e) codec =
  cd_to :: "'s message \<Rightarrow> 'e + string"
  cd_from :: "string \<Rightarrow> 'e + 's message \<times> string"

definition Message_encode :: "('s, 'e) codec \<Rightarrow> 's message \<Rightarrow> 'e message_error + frame" where
  "Message_encode cd m =
    (case check_caps m of Inl e \<Rightarrow> Inl e
     | Inr _ \<Rightarrow> (case cd_to cd m of Inl e \<Rightarrow> Inl (Codec e)
       | Inr body \<Rightarrow> (case Frame_new body of Inl e \<Rightarrow> Inl (MFrame e) | Inr f \<Rightarrow> Inr f)))"

definition Message_decode :: "('s, 'e) codec \<Rightarrow> frame \<Rightarrow> 'e message_error + 's message" where
  "Message_decode cd f =
    (if fr_version f \<noteq> PROTOCOL_VERSION then Inl (MFrame (UnknownVersion (fr_version f) PROTOCOL_VERSION))
     else case cd_from cd (fr_body f) of Inl e \<Rightarrow> Inl (Codec e)
     | Inr (m, rest) \<Rightarrow>
         if rest \<noteq> [] then Inl (TrailingBytes (length rest))
         else case check_caps m of Inl e \<Rightarrow> Inl e | Inr _ \<Rightarrow> Inr m)"

section \<open>Round trips\<close>

lemma length_to_le_bytes [simp]: "length (to_le_bytes k n) = k"
  by (induction k n rule: to_le_bytes.induct) simp_all

lemma from_to_le_bytes: "from_le_bytes (to_le_bytes k n) = n mod 256 ^ k"
proof (induction k n rule: to_le_bytes.induct)
  case (2 k n)
  then show ?case using mod_mult2_eq [of n 256 "256 ^ k"] by (simp add: of_char_of)
qed simp

lemma to_from_le_bytes: "to_le_bytes (length bs) (from_le_bytes bs) = bs"
proof (induction bs)
  case (Cons c cs)
  have "(byte_val c + 256 * from_le_bytes cs) div 256 = from_le_bytes cs" by simp
  moreover have "char_of (byte_val c + 256 * from_le_bytes cs) = c" by (metis char_of_char char_of_mod_256 mod_mult_self2)
  ultimately show ?case using Cons by simp
qed simp

lemma from_le_bytes_bound: "from_le_bytes bs < 256 ^ length bs"
proof (induction bs)
  case (Cons c cs)
  have "byte_val c + 256 * from_le_bytes cs < 256 + 256 * from_le_bytes cs" by simp
  also have "\<dots> \<le> 256 * 256 ^ length cs" using Cons by (simp add: Suc_le_eq flip: mult_Suc_right)
  finally show ?case by simp
qed simp

declare from_le_bytes.simps [simp del] to_le_bytes.simps [simp del]

lemma header_bytes:
  assumes "HEADER_BYTES \<le> length bs"
  obtains m a b c d e f body where "length m = 4" "bs = m @ [a, b, c, d, e, f] @ body"
proof -
  have "Suc (Suc (Suc (Suc (Suc (Suc 0))))) \<le> length (drop 4 bs)" using assms by (simp add: HEADER_BYTES_def)
  then obtain a b c d e f body where "drop 4 bs = a # b # c # d # e # f # body"
    by (auto simp: Suc_le_length_iff simp del: length_drop)
  then have "bs = take 4 bs @ [a, b, c, d, e, f] @ body" by (metis append_Cons append_Nil append_take_drop_id)
  moreover have "length (take 4 bs) = 4" using assms by (simp add: HEADER_BYTES_def)
  ultimately show thesis using that by blast
qed

lemma split_header:
  assumes "length m = 4"
  shows "take (HEADER_BYTES + k) (m @ [a, b, c, d, e, f] @ body) = m @ [a, b, c, d, e, f] @ take k body"
    "drop HEADER_BYTES (m @ [a, b, c, d, e, f] @ body) = body"
proof -
  define h where "h = m @ [a, b, c, d, e, f]"
  have "length h = HEADER_BYTES" using assms by (simp add: h_def HEADER_BYTES_def)
  then have "take (HEADER_BYTES + k) (h @ body) = h @ take k body" "drop HEADER_BYTES (h @ body) = body" by simp_all
  then show "take (HEADER_BYTES + k) (m @ [a, b, c, d, e, f] @ body) = m @ [a, b, c, d, e, f] @ take k body"
    "drop HEADER_BYTES (m @ [a, b, c, d, e, f] @ body) = body" by (simp_all add: h_def)
qed

lemma peek_header:
  assumes "length m = 4"
  shows "Frame_peek (m @ [a, b, c, d, e, f] @ body) =
    (if m \<noteq> MAGIC then Inl (bad_magic (m @ [a, b, c, d, e, f] @ body))
     else if from_le_bytes [c, d, e, f] > MAX_FRAME_BYTES then Inl (FrameTooLarge (from_le_bytes [c, d, e, f]) MAX_FRAME_BYTES)
     else Inr (of_nat (from_le_bytes [a, b]), HEADER_BYTES + from_le_bytes [c, d, e, f]))"
proof -
  define bs where "bs = m @ [a, b, c, d, e, f] @ body"
  have "take 4 bs = m" "\<not> length bs < HEADER_BYTES" "bs ! 4 = a" "bs ! 5 = b" "bs ! 6 = c" "bs ! 7 = d" "bs ! 8 = e" "bs ! 9 = f"
    using assms by (simp_all add: bs_def HEADER_BYTES_def nth_append)
  then show ?thesis unfolding bs_def [symmetric] by (simp add: Frame_peek_def Let_def)
qed

lemma version_bytes: "of_nat (from_le_bytes (to_le_bytes 2 (unat (v :: u16)))) = v"
proof -
  have "unat v < 2 ^ LENGTH(16)" by (rule unsigned_less)
  then have "unat v < 256 ^ 2" by simp
  then show ?thesis by (simp add: from_to_le_bytes)
qed

lemma Frame_encode_Inr:
  "Frame_encode f = Inr bs \<longleftrightarrow> length (fr_body f) \<le> MAX_FRAME_BYTES \<and>
     bs = MAGIC @ to_le_bytes 2 (unat (fr_version f)) @ to_le_bytes 4 (length (fr_body f)) @ fr_body f"
  by (auto simp: Frame_encode_def MAX_FRAME_BYTES_def)

lemma encoded_header:
  assumes "Frame_encode f = Inr bs"
  obtains a b c d e g where "bs = MAGIC @ [a, b, c, d, e, g] @ fr_body f" "of_nat (from_le_bytes [a, b]) = fr_version f"
    "from_le_bytes [c, d, e, g] = length (fr_body f)" "length (fr_body f) \<le> MAX_FRAME_BYTES"
proof -
  have cap: "length (fr_body f) \<le> MAX_FRAME_BYTES" using assms by (simp add: Frame_encode_Inr)
  obtain a b where ab: "to_le_bytes 2 (unat (fr_version f)) = [a, b]" by (simp add: numeral_2_eq_2 to_le_bytes.simps)
  have "length (to_le_bytes 4 (length (fr_body f))) = Suc (Suc (Suc (Suc 0)))" by simp
  then obtain c d e g where cg: "to_le_bytes 4 (length (fr_body f)) = [c, d, e, g]" by (auto simp only: length_Suc_conv length_0_conv)
  have "from_le_bytes [c, d, e, g] = length (fr_body f)"
    using cap by (simp add: from_to_le_bytes MAX_FRAME_BYTES_def flip: cg)
  moreover have "of_nat (from_le_bytes [a, b]) = fr_version f" using version_bytes [of "fr_version f"] by (simp add: ab)
  ultimately show thesis using that assms cap ab cg by (simp add: Frame_encode_Inr)
qed

text \<open>C28: a frame written to a stream is read back from it, whatever follows it: the same frame, and exactly its own bytes consumed.
  A stream that holds only a part of it says so, and how many bytes are needed, and never gives a frame.\<close>

theorem frame_stream_roundtrip:
  assumes "Frame_encode f = Inr bs" and "fr_version f = PROTOCOL_VERSION"
  shows "Frame_decode (bs @ rest) = Inr (f, length bs) \<and>
    (\<forall>n < length bs. \<exists>needed. Frame_decode (take n bs) = Inl (Truncated needed n) \<and> n < needed \<and> needed \<le> length bs)"
proof -
  obtain a b c d e g where h: "bs = MAGIC @ [a, b, c, d, e, g] @ fr_body f" "of_nat (from_le_bytes [a, b]) = fr_version f"
    "from_le_bytes [c, d, e, g] = length (fr_body f)" "length (fr_body f) \<le> MAX_FRAME_BYTES"
    by (rule encoded_header [OF assms(1)])
  have m: "length MAGIC = 4" by (simp add: MAGIC_def)
  have len: "length bs = HEADER_BYTES + length (fr_body f)" using h(1) m by (simp add: HEADER_BYTES_def)
  have peek: "Frame_peek (MAGIC @ [a, b, c, d, e, g] @ body) = Inr (PROTOCOL_VERSION, length bs)" for body
    using peek_header [OF m] h(2-4) len assms(2) by (simp)
  have "Frame_decode (bs @ rest) = Inr (f, length bs)"
  proof -
    have "Frame_peek (bs @ rest) = Inr (PROTOCOL_VERSION, length bs)" using peek [of "fr_body f @ rest"] h(1) by simp
    moreover have "drop HEADER_BYTES bs = fr_body f" using h(1) m by (simp add: HEADER_BYTES_def)
    ultimately show ?thesis using assms(2) by (simp add: Frame_decode_def)
  qed
  moreover have "\<exists>needed. Frame_decode (take n bs) = Inl (Truncated needed n) \<and> n < needed \<and> needed \<le> length bs" if n: "n < length bs" for n
  proof (cases "n < HEADER_BYTES")
    case True
    have "take 4 (take n bs) = MAGIC" if "4 \<le> n" using that h(1) m by (simp add: min_def)
    then have "Frame_peek (take n bs) = Inl (Truncated HEADER_BYTES n)"
      using True n len m by (simp add: Frame_peek_def min_def)
    then show ?thesis using True len by (simp add: Frame_decode_def)
  next
    case False
    then have "take n bs = MAGIC @ [a, b, c, d, e, g] @ take (n - HEADER_BYTES) (fr_body f)"
      using h(1) split_header(1) [OF m, of "n - HEADER_BYTES"] by simp
    then have "Frame_peek (take n bs) = Inr (PROTOCOL_VERSION, length bs)" using peek [of "take (n - HEADER_BYTES) (fr_body f)"] by simp
    then show ?thesis using n by (simp add: Frame_decode_def)
  qed
  ultimately show ?thesis by blast
qed

theorem frame_stream_roundtrip_witness:
  "\<exists>bs. Frame_encode \<lparr>fr_version = PROTOCOL_VERSION, fr_body = ''hi''\<rparr> = Inr bs \<and>
     Frame_decode (bs @ ''TXTO'') = Inr (\<lparr>fr_version = PROTOCOL_VERSION, fr_body = ''hi''\<rparr>, length bs) \<and> length bs = 12"
proof -
  obtain bs where bs: "Frame_encode \<lparr>fr_version = PROTOCOL_VERSION, fr_body = ''hi''\<rparr> = Inr bs" "length bs = 12"
    by (simp add: Frame_encode_def MAX_FRAME_BYTES_def MAGIC_def)
  with frame_stream_roundtrip [OF bs(1), of "''TXTO''"] show ?thesis by auto
qed

text \<open>What is read is what was written: a decoded frame is the encoding of the bytes it consumed.\<close>

lemma frame_decode_exact:
  assumes "Frame_decode bs = Inr (f, n)"
  shows "n \<le> length bs \<and> fr_version f = PROTOCOL_VERSION \<and> Frame_encode f = Inr (take n bs)"
proof -
  have l: "HEADER_BYTES \<le> length bs" using assms by (auto simp: Frame_decode_def Frame_peek_def split: if_splits)
  obtain m a b c d e g body where s: "length m = 4" "bs = m @ [a, b, c, d, e, g] @ body" by (rule header_bytes [OF l])
  have r: "m = MAGIC" "from_le_bytes [c, d, e, g] \<le> MAX_FRAME_BYTES" "n = HEADER_BYTES + from_le_bytes [c, d, e, g]"
    "of_nat (from_le_bytes [a, b]) = PROTOCOL_VERSION" "n \<le> length bs"
    "f = \<lparr>fr_version = PROTOCOL_VERSION, fr_body = drop HEADER_BYTES (take n bs)\<rparr>"
    using assms s peek_header [OF s(1), of a b c d e g body]
    by (auto simp: Frame_decode_def Let_def split: if_splits)
  have body: "fr_body f = take (from_le_bytes [c, d, e, g]) body" and blen: "length (fr_body f) = from_le_bytes [c, d, e, g]"
    using r(3,5,6) s split_header(1,2) [OF s(1)] by (simp_all add: HEADER_BYTES_def)
  have "from_le_bytes [a, b] < 2 ^ 16" using from_le_bytes_bound [of "[a, b]"] by simp
  then have "unat (of_nat (from_le_bytes [a, b]) :: u16) = from_le_bytes [a, b]" by (simp add: unsigned_of_nat take_bit_nat_eq_self)
  then have "to_le_bytes 2 (unat PROTOCOL_VERSION) = [a, b]"
    using to_from_le_bytes [of "[a, b]"] r(4) by (simp add: numeral_2_eq_2)
  moreover have "to_le_bytes 4 (length (fr_body f)) = [c, d, e, g]"
    using to_from_le_bytes [of "[c, d, e, g]"] blen by (simp add: eval_nat_numeral)
  moreover have "take n bs = MAGIC @ [a, b, c, d, e, g] @ fr_body f"
    using r(1,3) s(2) body split_header(1) [OF s(1)] by simp
  ultimately show ?thesis using r blen by (simp add: Frame_encode_Inr)
qed

text \<open>A record appended to a file is read back, and a part of one is not a record.\<close>

lemma append_frame_roundtrip:
  assumes "AppendFrame_new body = Inr f"
  shows "AppendFrame_try_decode (AppendFrame_encode f @ rest) = Inr (Some (f, length (AppendFrame_encode f)))"
    "n < length (AppendFrame_encode f) \<Longrightarrow> AppendFrame_try_decode (take n (AppendFrame_encode f)) = Inr None"
proof -
  have f: "f = \<lparr>af_len = length body, af_body = body\<rparr>" and cap: "length body \<le> MAX_APPEND_FRAME_BYTES" "length body < 2 ^ 32"
    using assms by (auto simp: AppendFrame_new_def split: if_splits)
  have "length (to_le_bytes 4 (length body)) = Suc (Suc (Suc (Suc 0)))" by simp
  then obtain a b c d where h: "to_le_bytes 4 (length body) = [a, b, c, d]" by (auto simp only: length_Suc_conv length_0_conv)
  have v: "from_le_bytes [a, b, c, d] = length body" using cap(2) by (simp add: from_to_le_bytes flip: h)
  have "drop 4 (take (4 + length body) (a # b # c # d # body @ rest)) = body" by (simp add: eval_nat_numeral)
  then show "AppendFrame_try_decode (AppendFrame_encode f @ rest) = Inr (Some (f, length (AppendFrame_encode f)))"
    using v cap(1) by (simp add: f AppendFrame_try_decode_def AppendFrame_encode_def h APPEND_HEADER_BYTES_def Let_def)
  show "AppendFrame_try_decode (take n (AppendFrame_encode f)) = Inr None" if n: "n < length (AppendFrame_encode f)"
  proof (cases "n < APPEND_HEADER_BYTES")
    case False
    then have "n = Suc (Suc (Suc (Suc (n - 4))))" by (simp add: APPEND_HEADER_BYTES_def)
    then obtain k where "n = Suc (Suc (Suc (Suc k)))" by blast
    then have "take n (AppendFrame_encode f) = [a, b, c, d] @ take (n - 4) body"
      by (simp add: f AppendFrame_encode_def h)
    then show ?thesis using n False v cap(1) by (simp add: f AppendFrame_try_decode_def AppendFrame_encode_def h APPEND_HEADER_BYTES_def Let_def)
  qed (use n in \<open>simp add: AppendFrame_try_decode_def\<close>)
qed

text \<open>A message within its caps survives the envelope, when the codec's own round trip holds.\<close>

lemma message_roundtrip:
  assumes "Message_encode cd m = Inr f" and "\<And>body. cd_to cd m = Inr body \<Longrightarrow> cd_from cd body = Inr (m, [])"
  shows "Message_decode cd f = Inr m"
  using assms by (auto simp: Message_encode_def Message_decode_def Frame_new_def split: sum.splits if_splits)

end
