(* ===== verification/SyncSession.thy ===== *)
theory SyncSession
  imports Wire
begin

text \<open>
  \<open>want.rs\<close>, \<open>workspace_session.rs\<close>, \<open>session.rs\<close> and \<open>verify_batch\<close> of \<open>sign.rs\<close> (\<open>txtodo-sync\<close>): which operations of a peer
  a device lacks, and the state machine that asks for them, hands them over to be stored and acknowledges what was
  stored, one per workspace on a shared link. A \<open>BTreeMap\<close> is its sorted list of entries. Sequence numbers are 64-bit words
  that wrap, as in a release build. The Ed25519 check of one signature is a parameter. Logging is left out.
\<close>

section \<open>Definitions\<close>

subsection \<open>Sorted maps\<close>

fun bt_put :: "'k::linorder \<Rightarrow> 'v \<Rightarrow> ('k \<times> 'v) list \<Rightarrow> ('k \<times> 'v) list" where
  "bt_put k v [] = [(k, v)]"
| "bt_put k v ((k', v') # m) =
    (if k < k' then (k, v) # (k', v') # m else if k = k' then (k, v) # m else (k', v') # bt_put k v m)"

subsection \<open>Heads\<close>

definition head_in :: "heads \<Rightarrow> device_id \<Rightarrow> u64" where
  "head_in hs d = (case map_of hs d of Some h \<Rightarrow> h | None \<Rightarrow> 0)"

text \<open>The loop over the peer's heads, with the ranges so far.\<close>

fun want_loop :: "heads \<Rightarrow> heads \<Rightarrow> origin_range list \<Rightarrow> origin_range list" where
  "want_loop loc [] ranges = ranges"
| "want_loop loc ((d, their_head) # rest) ranges =
    (if length ranges = MAX_WANT_RANGES then ranges
     else
       let our_head = head_in loc d in
       if their_head > our_head
       then want_loop loc rest (ranges @ [\<lparr>or_device = d, or_first = our_head + 1, or_last = their_head\<rparr>])
       else want_loop loc rest ranges)"

definition want_ranges :: "heads \<Rightarrow> heads \<Rightarrow> origin_range list" where
  "want_ranges loc remote = want_loop loc remote []"

record gap =
  gp_head :: u64
  gp_range :: origin_range

definition advance_head :: "heads \<Rightarrow> origin_range \<Rightarrow> gap + heads" where
  "advance_head hs r =
    (let head = head_in hs (or_device r) in
     if or_first r > head + 1 \<or> or_last r \<le> head then Inl \<lparr>gp_head = head, gp_range = r\<rparr>
     else Inr (bt_put (or_device r) (or_last r) hs))"

text \<open>A loop of \<open>advance(..)?\<close>.\<close>

fun advance_all :: "heads \<Rightarrow> origin_range list \<Rightarrow> gap + heads" where
  "advance_all hs [] = Inr hs"
| "advance_all hs (r # rs) = (case advance_head hs r of Inl g \<Rightarrow> Inl g | Inr hs' \<Rightarrow> advance_all hs' rs)"

subsection \<open>The session of one workspace\<close>

datatype session_state = Idle | Greeted | Wanting | Importing

datatype 'c crypto_error =
    BatchLength nat nat
  | UnknownDevice device_id
  | Refused 'c

datatype 'c session_error =
    Unexpected session_state string
  | UnknownWorkspace workspace_id
  | TooManyWorkspaces nat nat
  | WorkspaceMismatch workspace_id workspace_id
  | GroupMismatch group_id group_id
  | ProtocolMismatch u16 u16
  | SessionPeerAhead u64 u64 u64
  | NotInBatch origin_range
  | GapRefused gap
  | CryptoRefused "'c crypto_error"
  | LinkNotReady
  | LinkAlreadyGreeted
  | NotAHello string

fun name_of :: "'s message \<Rightarrow> string" where
  "name_of (Hello _ _ _ _ _) = ''Hello''"
| "name_of (Want _ _) = ''Want''"
| "name_of (Ops _ _ _ _) = ''Ops''"
| "name_of (Ack _ _) = ''Ack''"
| "name_of (Greet _ _) = ''Greet''"
| "name_of (Digest _ _) = ''Digest''"

text \<open>\<open>verify\<close> is the check of one signature, an error on the left.\<close>

fun verify_each :: "(op \<Rightarrow> 's \<Rightarrow> 'k \<Rightarrow> 'c + unit) \<Rightarrow> (device_id \<rightharpoonup> 'k) \<Rightarrow> (op \<times> 's) list \<Rightarrow> 'c crypto_error + unit" where
  "verify_each verify keys [] = Inr ()"
| "verify_each verify keys ((o1, sig) # rest) =
    (case keys (device (o_hlc o1)) of None \<Rightarrow> Inl (UnknownDevice (device (o_hlc o1)))
     | Some k \<Rightarrow> (case verify o1 sig k of Inl e \<Rightarrow> Inl (Refused e) | Inr _ \<Rightarrow> verify_each verify keys rest))"

definition verify_batch ::
    "(op \<Rightarrow> 's \<Rightarrow> 'k \<Rightarrow> 'c + unit) \<Rightarrow> op list \<Rightarrow> 's list \<Rightarrow> (device_id \<rightharpoonup> 'k) \<Rightarrow> 'c crypto_error + unit" where
  "verify_batch verify ops sigs keys =
    (if length ops \<noteq> length sigs then Inl (BatchLength (length ops) (length sigs))
     else verify_each verify keys (zip ops sigs))"

record workspace_session =
  ws_state :: session_state
  ws_heads :: heads
  ws_wanted :: "origin_range list"
  ws_inflight :: "origin_range list"
  ws_greeted :: bool

definition WorkspaceSession_new :: "heads \<Rightarrow> workspace_session" where
  "WorkspaceSession_new hs = \<lparr>ws_state = Idle, ws_heads = hs, ws_wanted = [], ws_inflight = [], ws_greeted = False\<rparr>"

definition covered :: "origin_range list \<Rightarrow> origin_range \<Rightarrow> bool" where
  "covered runs r = list_ex (\<lambda>w. or_device w = or_device r \<and> or_first w \<le> or_first r \<and> or_last r \<le> or_last w) runs"

definition consume_one :: "origin_range \<Rightarrow> origin_range list \<Rightarrow> origin_range list" where
  "consume_one c wanted =
    map (\<lambda>w. if or_device w = or_device c \<and> or_last c \<ge> or_first w then w\<lparr>or_first := or_last c + 1\<rparr> else w) wanted"

definition consume_ranges :: "origin_range list \<Rightarrow> origin_range list \<Rightarrow> origin_range list" where
  "consume_ranges wanted committed = filter (\<lambda>w. or_first w \<le> or_last w) (fold consume_one committed wanted)"

definition ws_catch_up :: "heads \<Rightarrow> workspace_session \<Rightarrow> workspace_session" where
  "ws_catch_up theirs ws =
    (if ws_state ws = Importing then ws
     else
       let ahead = map (\<lambda>(d, h). \<lparr>or_device = d, or_first = 1, or_last = h\<rparr>)
             (filter (\<lambda>(d, h). h > head_in (ws_heads ws) d) theirs);
           hs = fold (\<lambda>r m. bt_put (or_device r) (or_last r) m) ahead (ws_heads ws);
           wanted = consume_ranges (ws_wanted ws) ahead
       in ws\<lparr>ws_heads := hs, ws_wanted := wanted,
             ws_state := (if ws_state ws = Wanting \<and> wanted = [] then Idle else ws_state ws)\<rparr>)"

definition ws_hello :: "workspace_id \<Rightarrow> workspace_session \<Rightarrow> workspace_session \<times> ('c session_error + 's message)" where
  "ws_hello w ws =
    (if ws_state ws \<noteq> Idle then (ws, Inl (Unexpected (ws_state ws) ''hello()''))
     else (ws\<lparr>ws_state := Greeted\<rparr>, Inr (Greet w (ws_heads ws))))"

definition ws_on_hello ::
    "'s message \<Rightarrow> workspace_id \<Rightarrow> workspace_session \<Rightarrow> workspace_session \<times> ('c session_error + 's message)" where
  "ws_on_hello msg w ws =
    (if ws_state ws \<noteq> Greeted then (ws, Inl (Unexpected (ws_state ws) ''Greet''))
     else case msg of
       Greet msg_ws their_heads \<Rightarrow>
         if msg_ws \<noteq> w then (ws, Inl (WorkspaceMismatch w msg_ws))
         else
           let wanted = want_ranges (ws_heads ws) their_heads
           in (ws\<lparr>ws_greeted := True, ws_wanted := wanted, ws_state := (if wanted = [] then Idle else Wanting)\<rparr>, Inr (Want w wanted))
     | _ \<Rightarrow> (ws, Inl (Unexpected (ws_state ws) (name_of msg))))"

definition ws_on_ops ::
    "(op \<Rightarrow> 's \<Rightarrow> 'k \<Rightarrow> 'c + unit) \<Rightarrow> workspace_id \<Rightarrow> 's message \<Rightarrow> (device_id \<rightharpoonup> 'k) \<Rightarrow>
     workspace_session \<Rightarrow> workspace_session \<times> ('c session_error + op list)" where
  "ws_on_ops verify w msg keys ws =
    (if \<not> (ws_state ws = Wanting \<or> ws_state ws = Idle \<and> ws_greeted ws) then (ws, Inl (Unexpected (ws_state ws) ''Ops''))
     else case msg of
       Ops msg_ws ops sigs ranges \<Rightarrow>
         if msg_ws \<noteq> w then (ws, Inl (WorkspaceMismatch w msg_ws))
         else (case verify_batch verify ops sigs keys of Inl e \<Rightarrow> (ws, Inl (CryptoRefused e))
           | Inr _ \<Rightarrow> (case advance_all (ws_heads ws) ranges of Inl g \<Rightarrow> (ws, Inl (GapRefused g))
             | Inr _ \<Rightarrow> (ws\<lparr>ws_inflight := ranges, ws_state := Importing\<rparr>, Inr ops)))
     | _ \<Rightarrow> (ws, Inl (Unexpected (ws_state ws) (name_of msg))))"

definition ws_committed ::
    "workspace_id \<Rightarrow> origin_range list \<Rightarrow> workspace_session \<Rightarrow> workspace_session \<times> ('c session_error + 's message)" where
  "ws_committed w ranges ws =
    (if ws_state ws \<noteq> Importing then (ws, Inl (Unexpected (ws_state ws) ''committed()''))
     else case List.find (\<lambda>r. \<not> covered (ws_inflight ws) r) ranges of
       Some stray \<Rightarrow> (ws, Inl (NotInBatch stray))
     | None \<Rightarrow> (case advance_all (ws_heads ws) ranges of
         Inl g \<Rightarrow> (ws, Inl (GapRefused g))
       | Inr hs \<Rightarrow>
           let wanted = consume_ranges (ws_wanted ws) ranges
           in (ws\<lparr>ws_heads := hs, ws_wanted := wanted, ws_inflight := [], ws_state := (if wanted = [] then Idle else Wanting)\<rparr>,
               Inr (Ack w ranges))))"

subsection \<open>The session of a link\<close>

definition MAX_OPEN_WORKSPACES :: nat where
  "MAX_OPEN_WORKSPACES = 256"

record session =
  ss_device :: device_id
  ss_group :: group_id
  ss_link_hello_sent :: bool
  ss_peer :: "device_id option"
  ss_workspaces :: "(workspace_id \<times> workspace_session) list"

definition Session_new :: "device_id \<Rightarrow> group_id \<Rightarrow> session" where
  "Session_new d g = \<lparr>ss_device = d, ss_group = g, ss_link_hello_sent = False, ss_peer = None, ss_workspaces = []\<rparr>"

definition is_open :: "session \<Rightarrow> workspace_id \<Rightarrow> bool" where
  "is_open s w \<longleftrightarrow> map_of (ss_workspaces s) w \<noteq> None"

definition open_workspace :: "workspace_id \<Rightarrow> heads \<Rightarrow> session \<Rightarrow> session \<times> ('c session_error + unit)" where
  "open_workspace w hs s =
    (if \<not> is_open s w \<and> length (ss_workspaces s) \<ge> MAX_OPEN_WORKSPACES
     then (s, Inl (TooManyWorkspaces (length (ss_workspaces s) + 1) MAX_OPEN_WORKSPACES))
     else (s\<lparr>ss_workspaces := bt_put w (WorkspaceSession_new hs) (ss_workspaces s)\<rparr>, Inr ()))"

text \<open>\<open>self.workspace_mut(workspace)?.f(..)\<close>.\<close>

definition on_workspace ::
    "workspace_id \<Rightarrow> (workspace_session \<Rightarrow> workspace_session \<times> ('c session_error + 'a)) \<Rightarrow> session \<Rightarrow>
     session \<times> ('c session_error + 'a)" where
  "on_workspace w f s =
    (case map_of (ss_workspaces s) w of None \<Rightarrow> (s, Inl (UnknownWorkspace w))
     | Some ws \<Rightarrow> let (ws', r) = f ws in (s\<lparr>ss_workspaces := bt_put w ws' (ss_workspaces s)\<rparr>, r))"

definition session_catch_up :: "workspace_id \<Rightarrow> heads \<Rightarrow> session \<Rightarrow> session \<times> ('c session_error + unit)" where
  "session_catch_up w theirs = on_workspace w (\<lambda>ws. (ws_catch_up theirs ws, Inr ()))"

definition link_hello :: "u64 \<Rightarrow> session \<Rightarrow> session \<times> ('c session_error + 's message)" where
  "link_hello now s =
    (if ss_link_hello_sent s then (s, Inl LinkAlreadyGreeted)
     else (s\<lparr>ss_link_hello_sent := True\<rparr>, Inr (Hello (ss_device s) (ss_group s) [] PROTOCOL_VERSION now)))"

definition on_link_hello :: "'s message \<Rightarrow> u64 \<Rightarrow> session \<Rightarrow> session \<times> ('c session_error + skew)" where
  "on_link_hello msg now s =
    (if \<not> ss_link_hello_sent s then (s, Inl LinkNotReady)
     else if ss_peer s \<noteq> None then (s, Inl LinkAlreadyGreeted)
     else case msg of
       Hello d theirs _ protocol wall \<Rightarrow>
         if theirs \<noteq> ss_group s then (s, Inl (GroupMismatch (ss_group s) theirs))
         else if protocol \<noteq> PROTOCOL_VERSION then (s, Inl (ProtocolMismatch PROTOCOL_VERSION protocol))
         else (case Skew_check wall now of
             Ahead lead \<Rightarrow> (s, Inl (SessionPeerAhead wall now lead))
           | sk \<Rightarrow> (s\<lparr>ss_peer := Some d\<rparr>, Inr sk))
     | _ \<Rightarrow> (s, Inl (NotAHello (name_of msg))))"

definition session_hello :: "workspace_id \<Rightarrow> session \<Rightarrow> session \<times> ('c session_error + 's message)" where
  "session_hello w = on_workspace w (ws_hello w)"

definition session_on_hello :: "workspace_id \<Rightarrow> 's message \<Rightarrow> session \<Rightarrow> session \<times> ('c session_error + 's message)" where
  "session_on_hello w msg s =
    (if \<not> is_open s w then (s, Inl (UnknownWorkspace w))
     else if ss_peer s = None then (s, Inl LinkNotReady)
     else on_workspace w (ws_on_hello msg w) s)"

definition session_on_ops ::
    "(op \<Rightarrow> 's \<Rightarrow> 'k \<Rightarrow> 'c + unit) \<Rightarrow> workspace_id \<Rightarrow> 's message \<Rightarrow> (device_id \<rightharpoonup> 'k) \<Rightarrow> session \<Rightarrow>
     session \<times> ('c session_error + op list)" where
  "session_on_ops verify w msg keys = on_workspace w (ws_on_ops verify w msg keys)"

definition session_committed :: "workspace_id \<Rightarrow> origin_range list \<Rightarrow> session \<Rightarrow> session \<times> ('c session_error + 's message)" where
  "session_committed w ranges = on_workspace w (ws_committed w ranges)"

section \<open>Sorted maps and heads\<close>

lemma map_of_bt_put [simp]: "map_of (bt_put k v m) = (map_of m)(k \<mapsto> v)"
  by (induction k v m rule: bt_put.induct) (auto simp: fun_eq_iff)

lemma keys_bt_put [simp]: "fst ` set (bt_put k v m) = insert k (fst ` set m)"
  by (induction k v m rule: bt_put.induct) auto

lemma sorted_bt_put: "sorted_wrt (<) (map fst m) \<Longrightarrow> sorted_wrt (<) (map fst (bt_put k v m))"
proof (induction k v m rule: bt_put.induct)
  case (2 k v k' v' m)
  have "set (map fst (bt_put k v m)) = insert k (set (map fst m))" by simp
  then show ?case using 2 by (auto simp: less_imp_le order.strict_trans)
qed simp

lemma length_bt_put: "sorted_wrt (<) (map fst m) \<Longrightarrow> length (bt_put k v m) = (if k \<in> fst ` set m then length m else Suc (length m))"
  by (induction k v m rule: bt_put.induct) auto

lemma head_in_put [simp]: "head_in (bt_put d h hs) e = (if e = d then h else head_in hs e)"
  by (simp add: head_in_def)

lemma unat_Suc_word: "(a :: u64) < b \<Longrightarrow> unat (a + 1) = Suc (unat a)"
proof -
  assume "a < b"
  moreover have "unat b < 2 ^ LENGTH(64)" by (rule unsigned_less)
  ultimately have "unat a + 1 < 2 ^ 64" by (simp add: word_less_nat_alt)
  then show ?thesis by (simp add: unat_word_ariths(1))
qed

lemma less_Suc_word: "(a :: u64) < b \<Longrightarrow> a + 1 \<le> b"
  using unat_Suc_word [of a b] by (simp add: word_le_nat_alt word_less_nat_alt)

lemma advance_head_Inr:
  "advance_head hs r = Inr hs' \<longleftrightarrow> hs' = bt_put (or_device r) (or_last r) hs \<and>
     head_in hs (or_device r) < or_last r \<and> or_first r \<le> head_in hs (or_device r) + 1"
  by (auto simp: advance_head_def Let_def not_less not_le)

text \<open>What the heads stand for: of each device a dense run of its operations, from the first.\<close>

definition held_ops :: "heads \<Rightarrow> (device_id \<times> nat) set" where
  "held_ops hs = {(d, n). 1 \<le> n \<and> n \<le> unat (head_in hs d)}"

definition run_ops :: "origin_range \<Rightarrow> (device_id \<times> nat) set" where
  "run_ops r = {(d, n). d = or_device r \<and> 1 \<le> n \<and> unat (or_first r) \<le> n \<and> n \<le> unat (or_last r)}"

lemma advance_head_dense:
  assumes "advance_head hs r = Inr hs'"
  shows "held_ops hs' = held_ops hs \<union> run_ops r"
proof -
  let ?h = "head_in hs (or_device r)"
  have r: "hs' = bt_put (or_device r) (or_last r) hs" "?h < or_last r" "or_first r \<le> ?h + 1"
    using assms by (simp_all add: advance_head_Inr)
  have "unat ?h < unat (or_last r)" using r(2) by (simp add: word_less_nat_alt)
  moreover have "unat (or_first r) \<le> Suc (unat ?h)" using r(3) unat_Suc_word [OF r(2)] by (simp add: word_le_nat_alt)
  ultimately show ?thesis using r(1) by (auto simp: held_ops_def run_ops_def split: if_splits)
qed

lemma advance_all_dense: "advance_all hs rs = Inr hs' \<Longrightarrow> held_ops hs' = held_ops hs \<union> (\<Union>r \<in> set rs. run_ops r)"
  by (induction hs rs rule: advance_all.induct) (auto simp: advance_head_dense split: sum.splits)

section \<open>What is wanted\<close>

definition lacking :: "heads \<Rightarrow> heads \<Rightarrow> origin_range list" where
  "lacking loc remote = map (\<lambda>(d, h). \<lparr>or_device = d, or_first = head_in loc d + 1, or_last = h\<rparr>)
     (filter (\<lambda>(d, h). h > head_in loc d) remote)"

lemma want_loop_lacking:
  "length acc \<le> MAX_WANT_RANGES \<Longrightarrow> want_loop loc remote acc = acc @ take (MAX_WANT_RANGES - length acc) (lacking loc remote)"
proof (induction loc remote acc rule: want_loop.induct)
  case (2 loc d h rest acc)
  show ?case
  proof (cases "length acc = MAX_WANT_RANGES")
    case False
    then have "MAX_WANT_RANGES - length acc = Suc (MAX_WANT_RANGES - Suc (length acc))" using "2.prems" by simp
    then show ?thesis using 2 False by (auto simp: lacking_def Let_def)
  qed simp
qed (simp add: lacking_def)

lemma want_ranges_lacking: "want_ranges loc remote = take MAX_WANT_RANGES (lacking loc remote)"
  using want_loop_lacking [of "[]" loc remote] by (simp add: want_ranges_def)

definition follows :: "heads \<Rightarrow> origin_range list \<Rightarrow> bool" where
  "follows hs rs \<longleftrightarrow> sorted_wrt (<) (map or_device rs) \<and> (\<forall>r \<in> set rs. or_first r = head_in hs (or_device r) + 1)"

lemma follows_lacking:
  assumes "sorted_wrt (<) (map fst remote)"
  shows "follows loc (lacking loc remote)" "\<forall>r \<in> set (lacking loc remote). or_first r \<le> or_last r"
proof -
  have "map or_device (lacking loc remote) = map fst (filter (\<lambda>(d, h). h > head_in loc d) remote)"
    by (simp add: lacking_def case_prod_beta comp_def)
  moreover have "sorted_wrt (<) (map fst (filter (\<lambda>(d, h). h > head_in loc d) remote))"
    using assms by (simp add: sorted_wrt_map sorted_wrt_filter)
  ultimately have "sorted_wrt (<) (map or_device (lacking loc remote))" by (simp only:)
  then show "follows loc (lacking loc remote)" by (auto simp: follows_def lacking_def)
  show "\<forall>r \<in> set (lacking loc remote). or_first r \<le> or_last r" by (auto simp: lacking_def less_Suc_word)
qed

lemma follows_take: "follows hs rs \<Longrightarrow> follows hs (take n rs)"
  by (auto simp: follows_def sorted_wrt_take dest: in_set_takeD simp flip: take_map)

lemma follows_filter: "follows hs rs \<Longrightarrow> follows hs (filter P rs)"
  by (auto simp: follows_def sorted_wrt_map sorted_wrt_filter)

lemma device_consume_one [simp]: "map or_device (consume_one c rs) = map or_device rs"
  by (induction rs) (auto simp: consume_one_def)

text \<open>Consuming a run that raises the head keeps the wanted runs right after the heads.\<close>

lemma follows_consume:
  assumes "follows hs rs" "head_in hs (or_device c) < or_last c"
  shows "follows (bt_put (or_device c) (or_last c) hs) (consume_one c rs)"
proof -
  have "or_first w = or_last c + 1" if "w \<in> set (consume_one c rs)" "or_device w = or_device c" for w
    using that assms less_Suc_word [OF assms(2)] by (auto simp: consume_one_def follows_def split: if_splits)
  moreover have "or_first w = head_in hs (or_device w) + 1" if "w \<in> set (consume_one c rs)" "or_device w \<noteq> or_device c" for w
    using that assms by (auto simp: consume_one_def follows_def split: if_splits)
  ultimately show ?thesis using assms(1) by (auto simp: follows_def)
qed

lemma follows_advance_all:
  "advance_all hs rs = Inr hs' \<Longrightarrow> follows hs ws \<Longrightarrow> follows hs' (fold consume_one rs ws)"
proof (induction hs rs arbitrary: ws rule: advance_all.induct)
  case (2 hs r rs)
  then obtain hs1 where h1: "advance_head hs r = Inr hs1" "advance_all hs1 rs = Inr hs'" by (auto split: sum.splits)
  then have "follows hs1 (consume_one r ws)" using follows_consume [OF "2.prems"(2)] by (simp add: advance_head_Inr)
  then show ?case using "2.IH" [OF h1(1) h1(2)] by simp
qed simp

lemma follows_caught_up:
  "sorted_wrt (<) (map or_device rs) \<Longrightarrow> \<forall>r \<in> set rs. head_in hs (or_device r) < or_last r \<Longrightarrow> follows hs ws \<Longrightarrow>
    follows (fold (\<lambda>r m. bt_put (or_device r) (or_last r) m) rs hs) (fold consume_one rs ws)"
proof (induction rs arbitrary: hs ws)
  case (Cons r rs)
  have "\<forall>q \<in> set rs. or_device q \<noteq> or_device r" using Cons.prems(1) by auto
  then show ?case using Cons follows_consume [of hs ws r] by simp
qed simp

lemma sorted_advance_all: "advance_all hs rs = Inr hs' \<Longrightarrow> sorted_wrt (<) (map fst hs) \<Longrightarrow> sorted_wrt (<) (map fst hs')"
  by (induction hs rs rule: advance_all.induct) (auto simp: advance_head_Inr sorted_bt_put split: sum.splits)

lemma sorted_fold_put: "sorted_wrt (<) (map fst hs) \<Longrightarrow>
    sorted_wrt (<) (map fst (fold (\<lambda>r m. bt_put (or_device r) (or_last r) m) rs hs))"
  by (induction rs arbitrary: hs) (simp_all add: sorted_bt_put)

section \<open>Every reachable session\<close>

definition ws_ok :: "workspace_session \<Rightarrow> bool" where
  "ws_ok ws \<longleftrightarrow> sorted_wrt (<) (map fst (ws_heads ws)) \<and> follows (ws_heads ws) (ws_wanted ws) \<and>
     (\<forall>r \<in> set (ws_wanted ws). or_first r \<le> or_last r) \<and>
     (case ws_state ws of
        Importing \<Rightarrow> ws_greeted ws \<and> (\<exists>hs. advance_all (ws_heads ws) (ws_inflight ws) = Inr hs)
      | Wanting \<Rightarrow> ws_greeted ws \<and> ws_wanted ws \<noteq> [] \<and> ws_inflight ws = []
      | _ \<Rightarrow> ws_wanted ws = [] \<and> ws_inflight ws = [])"

lemma ws_ok_new: "sorted_wrt (<) (map fst hs) \<Longrightarrow> ws_ok (WorkspaceSession_new hs)"
  by (simp add: ws_ok_def WorkspaceSession_new_def follows_def)

lemma ws_ok_catch_up:
  assumes "ws_ok ws" "sorted_wrt (<) (map fst theirs)"
  shows "ws_ok (ws_catch_up theirs ws)"
proof (cases "ws_state ws = Importing")
  case False
  let ?a = "map (\<lambda>(d, h). \<lparr>or_device = d, or_first = 1, or_last = h\<rparr>) (filter (\<lambda>(d, h). h > head_in (ws_heads ws) d) theirs)"
  have "sorted_wrt (<) (map or_device ?a)" using assms(2) by (simp add: sorted_wrt_map sorted_wrt_filter case_prod_beta comp_def)
  moreover have "\<forall>r \<in> set ?a. head_in (ws_heads ws) (or_device r) < or_last r" by auto
  ultimately have "follows (fold (\<lambda>r m. bt_put (or_device r) (or_last r) m) ?a (ws_heads ws)) (fold consume_one ?a (ws_wanted ws))"
    using follows_caught_up assms(1) by (simp add: ws_ok_def)
  then have "follows (fold (\<lambda>r m. bt_put (or_device r) (or_last r) m) ?a (ws_heads ws)) (consume_ranges (ws_wanted ws) ?a)"
    by (simp add: consume_ranges_def follows_filter)
  moreover have "fold consume_one rs [] = []" for rs by (induction rs) (simp_all add: consume_one_def)
  then have "consume_ranges [] ?a = []" by (simp add: consume_ranges_def)
  ultimately show ?thesis using False assms(1) sorted_fold_put
    by (cases "ws_state ws") (auto simp: ws_ok_def ws_catch_up_def consume_ranges_def Let_def)
qed (use assms in \<open>simp add: ws_catch_up_def\<close>)

lemma ws_ok_hello: "ws_ok ws \<Longrightarrow> ws_ok (fst (ws_hello w ws))"
  by (cases "ws_state ws") (auto simp: ws_ok_def ws_hello_def)

lemma ws_ok_on_hello:
  fixes msg :: "'s message"
  assumes "ws_ok ws" "\<And>v hs. msg = Greet v hs \<Longrightarrow> sorted_wrt (<) (map fst hs)"
  shows "ws_ok (fst (ws_on_hello msg w ws :: _ \<times> ('c session_error + 's message)))"
proof (cases "\<exists>hs. ws_state ws = Greeted \<and> msg = Greet w hs")
  case True
  then obtain hs where m: "ws_state ws = Greeted" "msg = Greet w hs" by blast
  then have "follows (ws_heads ws) (want_ranges (ws_heads ws) hs)" "\<forall>r \<in> set (want_ranges (ws_heads ws) hs). or_first r \<le> or_last r"
    using follows_lacking [OF assms(2)] by (auto simp: want_ranges_lacking follows_take dest: in_set_takeD)
  then show ?thesis using m assms(1) by (auto simp: ws_ok_def ws_on_hello_def Let_def)
next
  case False
  then have "fst (ws_on_hello msg w ws :: _ \<times> ('c session_error + 's message)) = ws" by (cases msg) (auto simp: ws_on_hello_def)
  then show ?thesis using assms(1) by simp
qed

lemma ws_ok_on_ops: "ws_ok ws \<Longrightarrow> ws_ok (fst (ws_on_ops verify w msg keys ws))"
  by (auto simp: ws_ok_def ws_on_ops_def split: message.splits sum.splits session_state.splits if_splits)

lemma ws_ok_committed:
  assumes "ws_ok ws"
  shows "ws_ok (fst (ws_committed w rs ws :: _ \<times> ('c session_error + 's message)))"
proof (cases "ws_state ws = Importing \<and> List.find (\<lambda>r. \<not> covered (ws_inflight ws) r) rs = None \<and> (\<exists>hs. advance_all (ws_heads ws) rs = Inr hs)")
  case True
  then obtain hs where hs: "advance_all (ws_heads ws) rs = Inr hs" by blast
  have "follows hs (consume_ranges (ws_wanted ws) rs)" "sorted_wrt (<) (map fst hs)"
    using follows_advance_all [OF hs] sorted_advance_all [OF hs] assms by (simp_all add: ws_ok_def consume_ranges_def follows_filter)
  then show ?thesis using True hs assms by (auto simp: ws_ok_def ws_committed_def Let_def consume_ranges_def)
next
  case False
  then have "fst (ws_committed w rs ws :: _ \<times> ('c session_error + 's message)) = ws" by (auto simp: ws_committed_def split: option.splits sum.splits)
  then show ?thesis using assms by simp
qed


definition session_ok :: "session \<Rightarrow> bool" where
  "session_ok s \<longleftrightarrow> sorted_wrt (<) (map fst (ss_workspaces s)) \<and> length (ss_workspaces s) \<le> MAX_OPEN_WORKSPACES \<and>
     (ss_peer s \<noteq> None \<longrightarrow> ss_link_hello_sent s) \<and>
     (\<forall>w ws. map_of (ss_workspaces s) w = Some ws \<longrightarrow> ws_ok ws \<and> (ws_greeted ws \<longrightarrow> ss_peer s \<noteq> None))"

lemma session_ok_on_workspace:
  assumes "session_ok s"
    and f: "\<And>ws. ws_ok ws \<Longrightarrow> ws_ok (fst (f ws))"
      "\<And>ws. ws_greeted (fst (f ws)) \<Longrightarrow> ws_greeted ws \<or> ss_peer s \<noteq> None"
  shows "session_ok (fst (on_workspace w f s))"
proof (cases "map_of (ss_workspaces s) w")
  case (Some ws)
  then have "w \<in> fst ` set (ss_workspaces s)" by (auto dest: map_of_SomeD intro: rev_image_eqI)
  moreover obtain ws' r where "f ws = (ws', r)" by (cases "f ws")
  moreover have "ws_ok ws" "ws_greeted ws \<longrightarrow> ss_peer s \<noteq> None" using assms(1) Some by (auto simp: session_ok_def)
  ultimately show ?thesis using assms(1) Some f(1) [of ws] f(2) [of ws]
    by (auto simp: session_ok_def on_workspace_def sorted_bt_put length_bt_put)
qed (use assms(1) in \<open>simp add: on_workspace_def\<close>)

lemma session_ok_open:
  assumes "session_ok s" "sorted_wrt (<) (map fst hs)"
  shows "session_ok (fst (open_workspace w hs s :: _ \<times> ('c session_error + unit)))"
proof (cases "\<not> is_open s w \<and> length (ss_workspaces s) \<ge> MAX_OPEN_WORKSPACES")
  case False
  then have "w \<in> fst ` set (ss_workspaces s) \<or> length (ss_workspaces s) < MAX_OPEN_WORKSPACES"
    by (auto simp: is_open_def map_of_eq_None_iff)
  then show ?thesis using False assms ws_ok_new
    by (auto simp: session_ok_def open_workspace_def sorted_bt_put length_bt_put WorkspaceSession_new_def)
qed (use assms(1) in \<open>simp add: open_workspace_def\<close>)

lemma session_ok_link_hello: "session_ok s \<Longrightarrow> session_ok (fst (link_hello now s))"
  by (auto simp: session_ok_def link_hello_def)

lemma session_ok_on_link_hello: "session_ok s \<Longrightarrow> session_ok (fst (on_link_hello msg now s))"
  by (auto simp: session_ok_def on_link_hello_def split: message.splits skew.splits)

lemma greeted_kept:
  "ws_greeted (ws_catch_up theirs ws) = ws_greeted ws"
  "ws_greeted (fst (ws_hello w ws)) = ws_greeted ws"
  "ws_greeted (fst (ws_on_ops verify w msg keys ws)) = ws_greeted ws"
  "ws_greeted (fst (ws_committed w rs ws)) = ws_greeted ws"
  by (auto simp: ws_catch_up_def ws_hello_def ws_on_ops_def ws_committed_def Let_def split: message.splits sum.splits option.splits)

text \<open>The calls on a session, in any order; the heads that come from the store or from the wire are sorted maps.\<close>

inductive session_run :: "(op \<Rightarrow> 's \<Rightarrow> 'k \<Rightarrow> 'c + unit) \<Rightarrow> session \<Rightarrow> bool" for verify where
  new: "session_run verify (Session_new d g)"
| open_ws: "session_run verify s \<Longrightarrow> sorted_wrt (<) (map fst hs) \<Longrightarrow>
    open_workspace w hs s = (s', r :: 'c session_error + unit) \<Longrightarrow> session_run verify s'"
| catch_up: "session_run verify s \<Longrightarrow> sorted_wrt (<) (map fst hs) \<Longrightarrow>
    session_catch_up w hs s = (s', r :: 'c session_error + unit) \<Longrightarrow> session_run verify s'"
| link: "session_run verify s \<Longrightarrow> link_hello now s = (s', r :: 'c session_error + 's message) \<Longrightarrow> session_run verify s'"
| on_link: "session_run verify s \<Longrightarrow> on_link_hello (msg :: 's message) now s = (s', r :: 'c session_error + skew) \<Longrightarrow>
    session_run verify s'"
| hello: "session_run verify s \<Longrightarrow> session_hello w s = (s', r :: 'c session_error + 's message) \<Longrightarrow> session_run verify s'"
| on_hello: "session_run verify s \<Longrightarrow> (\<And>v hs. msg = Greet v hs \<Longrightarrow> sorted_wrt (<) (map fst hs)) \<Longrightarrow>
    session_on_hello w msg s = (s', r :: 'c session_error + 's message) \<Longrightarrow> session_run verify s'"
| on_ops: "session_run verify s \<Longrightarrow> session_on_ops verify w msg keys s = (s', r) \<Longrightarrow> session_run verify s'"
| committed: "session_run verify s \<Longrightarrow> session_committed w rs s = (s', r :: 'c session_error + 's message) \<Longrightarrow>
    session_run verify s'"

text \<open>C14: whatever calls are made on a session and whatever the peer sends, at most 256 workspaces are open; a workspace only
  wants, imports or has been greeted once the peer's link hello was taken, which was after ours went out; an idle one
  wants nothing; each run still wanted starts right after the head held of its device and is not empty; and the batch
  being imported follows the heads.
\<close>

theorem session_reachable:
  fixes verify :: "op \<Rightarrow> 's \<Rightarrow> 'k \<Rightarrow> 'c + unit"
  assumes "session_run verify s"
  shows "session_ok s"
  using assms
proof (induction rule: session_run.induct)
  case (new d g)
  show ?case by (simp add: session_ok_def Session_new_def MAX_OPEN_WORKSPACES_def)
next
  case (open_ws s hs w s' r)
  then show ?case using session_ok_open [of s hs w] by (metis fst_conv)
next
  case (catch_up s hs w s' r)
  have "session_ok (fst (session_catch_up w hs s :: _ \<times> ('c session_error + unit)))"
    unfolding session_catch_up_def using catch_up by (auto intro!: session_ok_on_workspace ws_ok_catch_up simp: greeted_kept)
  then show ?case using catch_up by simp
next
  case (link s now s' r)
  then show ?case using session_ok_link_hello [of s now] by (metis fst_conv)
next
  case (on_link s msg now s' r)
  then show ?case using session_ok_on_link_hello [of s msg now] by (metis fst_conv)
next
  case (hello s w s' r)
  have "session_ok (fst (session_hello w s :: _ \<times> ('c session_error + 's message)))"
    unfolding session_hello_def using hello by (auto intro!: session_ok_on_workspace ws_ok_hello simp: greeted_kept)
  then show ?case using hello by simp
next
  case (on_hello s msg w s' r)
  show ?case
  proof (cases "is_open s w \<and> ss_peer s \<noteq> None")
    case True
    have "session_ok (fst (on_workspace w (ws_on_hello msg w) s :: _ \<times> ('c session_error + 's message)))"
      using on_hello True by (intro session_ok_on_workspace ws_ok_on_hello) auto
    then show ?thesis using on_hello True by (simp add: session_on_hello_def)
  next
    case False
    then have "s' = s" using on_hello by (auto simp: session_on_hello_def split: if_splits)
    then show ?thesis using on_hello by simp
  qed
next
  case (on_ops s w msg keys s' r)
  have "session_ok (fst (session_on_ops verify w msg keys s))"
    unfolding session_on_ops_def using on_ops by (auto intro!: session_ok_on_workspace ws_ok_on_ops simp: greeted_kept)
  then show ?case using on_ops by simp
next
  case (committed s w rs s' r)
  have "session_ok (fst (session_committed w rs s :: _ \<times> ('c session_error + 's message)))"
    unfolding session_committed_def using committed by (auto intro!: session_ok_on_workspace ws_ok_committed simp: greeted_kept)
  then show ?case using committed by simp
qed

theorem session_reachable_witness:
  "\<exists>s ws. session_run (\<lambda>(_ :: op) (_ :: unit) (_ :: unit). Inr () :: unit + unit) s \<and> session_ok s \<and>
     map_of (ss_workspaces s) 3 = Some ws \<and> ws_state ws = Wanting"
proof -
  let ?v = "\<lambda>(_ :: op) (_ :: unit) (_ :: unit). Inr () :: unit + unit"
  let ?s1 = "Session_new 1 7"
  let ?s2 = "fst (link_hello 0 ?s1 :: session \<times> (unit session_error + unit message))"
  let ?s3 = "fst (on_link_hello (Hello 2 7 [] PROTOCOL_VERSION 0 :: unit message) 0 ?s2 :: session \<times> (unit session_error + skew))"
  let ?s4 = "fst (open_workspace 3 [] ?s3 :: session \<times> (unit session_error + unit))"
  let ?s5 = "fst (session_hello 3 ?s4 :: session \<times> (unit session_error + unit message))"
  let ?s6 = "fst (session_on_hello 3 (Greet 3 [(2, 4)] :: unit message) ?s5 :: session \<times> (unit session_error + unit message))"
  have "session_run ?v ?s1" by (rule session_run.new)
  then have "session_run ?v ?s2" by (rule session_run.link [OF _ surjective_pairing])
  then have "session_run ?v ?s3" by (rule session_run.on_link [OF _ surjective_pairing])
  then have "session_run ?v ?s4" by (rule session_run.open_ws [OF _ _ surjective_pairing]) simp
  then have "session_run ?v ?s5" by (rule session_run.hello [OF _ surjective_pairing])
  then have r: "session_run ?v ?s6" by (rule session_run.on_hello [OF _ _ surjective_pairing]) simp
  have "Skew_check 0 0 = SkewOk"
    by (simp add: Skew_check_def saturating_sub_def MAX_PEER_SKEW_AHEAD_MS_def MAX_PEER_SKEW_BEHIND_MS_def)
  then have "?s3 = ?s1\<lparr>ss_link_hello_sent := True, ss_peer := Some 2\<rparr>"
    by (simp add: link_hello_def Session_new_def on_link_hello_def)
  then have s4: "?s4 = ?s1\<lparr>ss_link_hello_sent := True, ss_peer := Some 2, ss_workspaces := [(3, WorkspaceSession_new [])]\<rparr>"
    by (simp add: open_workspace_def is_open_def Session_new_def MAX_OPEN_WORKSPACES_def)
  have "\<exists>ws. map_of (ss_workspaces ?s6) 3 = Some ws \<and> ws_state ws = Wanting"
    unfolding s4 by (simp add: session_hello_def session_on_hello_def on_workspace_def ws_hello_def ws_on_hello_def WorkspaceSession_new_def
        Session_new_def is_open_def want_ranges_def head_in_def MAX_WANT_RANGES_def Let_def)
  then show ?thesis using r session_reachable [OF r] by blast
qed

text \<open>C29: what a workspace acknowledges is what it holds. A commit answers with an acknowledgement of exactly the runs that
  landed, each inside the batch that was verified; the operations held grow by exactly those runs; and when a call of
  the session is refused its state is as it was.
\<close>

theorem committed_acks_held:
  fixes res :: "'c session_error + 's message"
  assumes "ws_committed w rs ws = (ws', res)"
  shows "case res of
      Inr m \<Rightarrow> m = Ack w rs \<and> held_ops (ws_heads ws') = held_ops (ws_heads ws) \<union> (\<Union>r \<in> set rs. run_ops r) \<and>
        (\<forall>r \<in> set rs. \<exists>b \<in> set (ws_inflight ws). run_ops r \<subseteq> run_ops b)
    | Inl e \<Rightarrow> ws' = ws"
proof -
  have "\<exists>b \<in> set runs. run_ops r \<subseteq> run_ops b" if "covered runs r" for runs r
  proof -
    obtain b where "b \<in> set runs" "or_device b = or_device r" "or_first b \<le> or_first r" "or_last r \<le> or_last b"
      using \<open>covered runs r\<close> by (auto simp: covered_def list_ex_iff)
    then show ?thesis by (intro bexI [of _ b]) (auto simp: run_ops_def word_le_nat_alt)
  qed
  then show ?thesis using assms advance_all_dense
    by (auto simp: ws_committed_def Let_def find_None_iff split: if_splits option.splits sum.splits)
qed

theorem committed_acks_held_witness:
  "\<exists>ws'. ws_committed 3 [\<lparr>or_device = 2, or_first = 1, or_last = 3\<rparr>]
      \<lparr>ws_state = Importing, ws_heads = [], ws_wanted = [\<lparr>or_device = 2, or_first = 1, or_last = 9\<rparr>],
        ws_inflight = [\<lparr>or_device = 2, or_first = 1, or_last = 5\<rparr>], ws_greeted = True\<rparr> =
      (ws', Inr (Ack 3 [\<lparr>or_device = 2, or_first = 1, or_last = 3\<rparr>]) :: unit session_error + unit message) \<and>
    held_ops (ws_heads ws') = run_ops \<lparr>or_device = 2, or_first = 1, or_last = 3\<rparr>"
proof -
  let ?r = "\<lparr>or_device = 2, or_first = 1, or_last = 3\<rparr>"
  let ?ws = "\<lparr>ws_state = Importing, ws_heads = [], ws_wanted = [\<lparr>or_device = 2, or_first = 1, or_last = 9\<rparr>],
    ws_inflight = [\<lparr>or_device = 2, or_first = 1, or_last = 5\<rparr>], ws_greeted = True\<rparr>"
  obtain ws' where c: "ws_committed 3 [?r] ?ws = (ws', Inr (Ack 3 [?r]) :: unit session_error + unit message)"
    by (simp add: ws_committed_def covered_def advance_head_def head_in_def Let_def)
  moreover have "held_ops (ws_heads ?ws) = {}" by (simp add: held_ops_def head_in_def)
  ultimately show ?thesis using committed_acks_held [OF c] by (intro exI [of _ ws']) simp
qed

end
