(* ===== verification/StoreLog.thy ===== *)
theory StoreLog
  imports SyncSession
begin

text \<open>
  The operation log of \<open>txtodo-store\<close>: \<open>ops.rs\<close> and \<open>heads.rs\<close>. The table \<open>ops\<close> is its rows in the order of \<open>seq\<close>, and
  each SQL statement of the source is the list function it states, with the unique indexes of the migrations on the
  operation id and on device and origin number. The encoding of a payload is the third-party \<open>postcard\<close> crate, a pair of
  parameters; failures of SQLite other than a broken unique index are left out. SQL integers are \<open>int\<close>.
\<close>

section \<open>Definitions\<close>

subsection \<open>Rows\<close>

definition I64_MAX :: int where
  "I64_MAX = 2 ^ 63 - 1"

text \<open>\<open>i64::try_from(n).unwrap_or(i64::MAX)\<close> and \<open>u64::try_from(i).unwrap_or(0)\<close>.\<close>

definition wall_i64 :: "u64 \<Rightarrow> int" where
  "wall_i64 n = (if uint n \<le> I64_MAX then uint n else I64_MAX)"

definition u64_or_0 :: "int \<Rightarrow> u64" where
  "u64_or_0 i = (if 0 \<le> i \<and> i < 2 ^ 64 then word_of_int i else 0)"

record stored =
  sd_seq :: int
  sd_op :: op

record 'p row =
  rw_seq :: int
  rw_op_id :: op_id
  rw_wall :: int
  rw_counter :: int
  rw_device :: device_id
  rw_principal :: string
  rw_file :: file_path
  rw_kind :: string
  rw_payload :: 'p
  rw_source :: "string option"
  rw_origin :: int

datatype store_error =
    Sqlite string
  | Codec int
  | EmptyBatch
  | BatchTooLarge nat
  | BadRun u64 u64
  | TooManyOpsInFile file_path

definition MAX_APPEND_BATCH :: nat where
  "MAX_APPEND_BATCH = 50000"

definition MAX_OPS_PER_READ :: nat where
  "MAX_OPS_PER_READ = 10000"

definition MAX_OP_IDS_PER_FILE :: nat where
  "MAX_OP_IDS_PER_FILE = 50000000"

definition MAX_SOURCE_BYTES :: nat where
  "MAX_SOURCE_BYTES = 32"

definition MAX_DEVICES_PER_HEADS :: nat where
  "MAX_DEVICES_PER_HEADS = 1024"

fun cap_at :: "string \<Rightarrow> nat \<Rightarrow> nat" where
  "cap_at source 0 = 0"
| "cap_at source (Suc n) = (if is_char_boundary source (Suc n) then Suc n else cap_at source n)"

definition cap_source :: "string \<Rightarrow> string" where
  "cap_source source =
    (if length source \<le> MAX_SOURCE_BYTES then source else take (cap_at source MAX_SOURCE_BYTES) source)"

fun principal_tag :: "principal \<Rightarrow> string" where
  "principal_tag (User _) = ''user''"
| "principal_tag (Agent _ _ _) = ''agent''"
| "principal_tag (External _) = ''external''"

fun kind_tag :: "op_kind \<Rightarrow> string" where
  "kind_tag (OInsert _ _ _) = ''insert''"
| "kind_tag (OSetField _ _ _) = ''set_field''"
| "kind_tag (OEditText _ _) = ''edit_text''"
| "kind_tag (OMove _ _ _) = ''move''"
| "kind_tag (ONotesEdit _ _) = ''notes_edit''"
| "kind_tag (OBlankInsert _) = ''blank_insert''"
| "kind_tag (OBlankRemove _) = ''blank_remove''"
| "kind_tag (ORemoveTag _ _) = ''remove_tag''"

definition row_of :: "int \<Rightarrow> op \<Rightarrow> 'p \<Rightarrow> string option \<Rightarrow> u64 \<Rightarrow> 'p row" where
  "row_of seq o1 payload source origin_seq =
    \<lparr>rw_seq = seq, rw_op_id = o_id o1, rw_wall = wall_i64 (wall_ms (o_hlc o1)), rw_counter = uint (counter (o_hlc o1)),
     rw_device = device (o_hlc o1), rw_principal = principal_tag (o_principal o1), rw_file = o_file o1,
     rw_kind = kind_tag (o_kind o1), rw_payload = payload, rw_source = source, rw_origin = wall_i64 origin_seq\<rparr>"

fun decode_row :: "('p \<Rightarrow> op option) \<Rightarrow> 'p row \<Rightarrow> store_error + stored" where
  "decode_row unpack r =
    (case unpack (rw_payload r) of None \<Rightarrow> Inl (Codec (rw_seq r)) | Some o1 \<Rightarrow> Inr \<lparr>sd_seq = rw_seq r, sd_op = o1\<rparr>)"

fun collect_rows :: "('p \<Rightarrow> op option) \<Rightarrow> 'p row list \<Rightarrow> store_error + stored list" where
  "collect_rows unpack [] = Inr []"
| "collect_rows unpack (r # rs) =
    (case decode_row unpack r of Inl e \<Rightarrow> Inl e
     | Inr s \<Rightarrow> (case collect_rows unpack rs of Inl e \<Rightarrow> Inl e | Inr ss \<Rightarrow> Inr (s # ss)))"

subsection \<open>Heads and origin numbers\<close>

text \<open>\<open>COALESCE(MAX(..), 0)\<close>.\<close>

definition sql_max :: "int list \<Rightarrow> int" where
  "sql_max xs = (case xs of [] \<Rightarrow> 0 | x # xs' \<Rightarrow> fold max xs' x)"

definition head_row :: "'p row list \<Rightarrow> device_id \<Rightarrow> int" where
  "head_row t d = sql_max (map rw_origin (filter (\<lambda>r. rw_device r = d) t))"

fun number_loop :: "'p row list \<Rightarrow> (device_id \<rightharpoonup> u64) \<Rightarrow> op list \<Rightarrow> u64 list" where
  "number_loop t nexts [] = []"
| "number_loop t nexts (o1 # ops) =
    (let d = device (o_hlc o1);
         n = (case nexts d of Some n \<Rightarrow> n | None \<Rightarrow> u64_or_0 (head_row t d) + 1)
     in n # number_loop t (nexts(d \<mapsto> n + 1)) ops)"

definition number_ops :: "'p row list \<Rightarrow> op list \<Rightarrow> u64 list \<Rightarrow> u64 list" where
  "number_ops t ops given = (if given \<noteq> [] then given else number_loop t Map.empty ops)"

definition store_heads :: "'p row list \<Rightarrow> heads" where
  "store_heads t = map (\<lambda>d. (d, u64_or_0 (head_row t d))) (take MAX_DEVICES_PER_HEADS (sort (remdups (map rw_device t))))"

definition head_of :: "'p row list \<Rightarrow> device_id \<Rightarrow> u64" where
  "head_of t d = u64_or_0 (head_row t d)"

definition next_origin_seq :: "'p row list \<Rightarrow> device_id \<Rightarrow> u64" where
  "next_origin_seq t d = saturating_add (head_of t d) 1"

definition ops_for :: "('p \<Rightarrow> op option) \<Rightarrow> 'p row list \<Rightarrow> device_id \<Rightarrow> u64 \<Rightarrow> u64 \<Rightarrow> store_error + stored list" where
  "ops_for unpack t d first final =
    (if first = 0 \<or> final < first then Inl (BadRun first final)
     else if unat (final - first + 1) > MAX_OPS_PER_READ then Inl (BadRun first final)
     else collect_rows unpack (sort_key rw_origin
       (filter (\<lambda>r. rw_device r = d \<and> sint first \<le> rw_origin r \<and> rw_origin r \<le> sint final) t)))"

subsection \<open>Appending\<close>

definition next_seq :: "'p row list \<Rightarrow> int" where
  "next_seq t = (if t = [] then 1 else rw_seq (last t) + 1)"

definition breaks_unique :: "'p row list \<Rightarrow> 'p row \<Rightarrow> bool" where
  "breaks_unique t r = list_ex (\<lambda>q. rw_op_id q = rw_op_id r \<or> rw_device q = rw_device r \<and> rw_origin q = rw_origin r) t"

fun insert_rows :: "(op \<Rightarrow> 'p option) \<Rightarrow> string option \<Rightarrow> (op \<times> u64) list \<Rightarrow> 'p row list \<Rightarrow> store_error + 'p row list" where
  "insert_rows pack source [] t = Inr t"
| "insert_rows pack source ((o1, n) # rest) t =
    (case pack o1 of None \<Rightarrow> Inl (Codec (- 1))
     | Some payload \<Rightarrow>
         let r = row_of (next_seq t) o1 payload source n in
         if breaks_unique t r then Inl (Sqlite ''insert op'') else insert_rows pack source rest (t @ [r]))"

definition kept_source :: "string option \<Rightarrow> string option" where
  "kept_source source = (case map_option cap_source source of Some [] \<Rightarrow> None | s \<Rightarrow> s)"

text \<open>The rows after it and the first and last \<open>seq\<close> written.\<close>

definition insert_ops ::
    "(op \<Rightarrow> 'p option) \<Rightarrow> op list \<Rightarrow> string option \<Rightarrow> u64 list \<Rightarrow> 'p row list \<Rightarrow> store_error + 'p row list \<times> int \<times> int" where
  "insert_ops pack ops source origin_seqs t =
    (let source = kept_source source in
     if ops = [] then Inl EmptyBatch
     else if length ops > MAX_APPEND_BATCH then Inl (BatchTooLarge (length ops))
     else (case insert_rows pack source (zip ops (number_ops t ops origin_seqs)) t of Inl e \<Rightarrow> Inl e
       | Inr t' \<Rightarrow> Inr (t', (case drop (length t) t' of [] \<Rightarrow> 0 | r # _ \<Rightarrow> rw_seq r),
           (case drop (length t) t' of [] \<Rightarrow> 0 | rs \<Rightarrow> rw_seq (last rs)))))"

text \<open>One transaction: an error leaves the table as it was.\<close>

definition append_with_source ::
    "(op \<Rightarrow> 'p option) \<Rightarrow> op list \<Rightarrow> string option \<Rightarrow> 'p row list \<Rightarrow> 'p row list \<times> (store_error + int \<times> int)" where
  "append_with_source pack ops source t =
    (case insert_ops pack ops source [] t of Inl e \<Rightarrow> (t, Inl e) | Inr (t', seqs) \<Rightarrow> (t', Inr seqs))"

definition append_ops :: "(op \<Rightarrow> 'p option) \<Rightarrow> op list \<Rightarrow> 'p row list \<Rightarrow> 'p row list \<times> (store_error + int \<times> int)" where
  "append_ops pack ops t = append_with_source pack ops None t"

subsection \<open>Reading\<close>

definition for_file :: "('p \<Rightarrow> op option) \<Rightarrow> file_path \<Rightarrow> int \<Rightarrow> 'p row list \<Rightarrow> store_error + stored list" where
  "for_file unpack f since t = collect_rows unpack (take MAX_OPS_PER_READ (filter (\<lambda>r. rw_file r = f \<and> rw_seq r > since) t))"

definition between :: "('p \<Rightarrow> op option) \<Rightarrow> file_path \<Rightarrow> hlc \<Rightarrow> hlc \<Rightarrow> 'p row list \<Rightarrow> store_error + stored list" where
  "between unpack f lo hi t =
    collect_rows unpack (take MAX_OPS_PER_READ (sort_key (\<lambda>r. (rw_wall r, rw_counter r, rw_device r))
      (filter (\<lambda>r. rw_file r = f \<and> (wall_i64 (wall_ms lo), uint (counter lo)) \<le> (rw_wall r, rw_counter r) \<and>
        (rw_wall r, rw_counter r) \<le> (wall_i64 (wall_ms hi), uint (counter hi))) t)))"

definition last_seq :: "'p row list \<Rightarrow> int option" where
  "last_seq t = (if t = [] then None else Some (sql_max (map rw_seq t)))"

definition ops_page :: "('p \<Rightarrow> op option) \<Rightarrow> int \<Rightarrow> nat \<Rightarrow> 'p row list \<Rightarrow> store_error + stored list" where
  "ops_page unpack since limit t =
    collect_rows unpack (take (min limit MAX_OPS_PER_READ) (filter (\<lambda>r. rw_seq r > since) t))"

definition op_by_id :: "('p \<Rightarrow> op option) \<Rightarrow> op_id \<Rightarrow> 'p row list \<Rightarrow> store_error + stored option" where
  "op_by_id unpack i t =
    (case List.find (\<lambda>r. rw_op_id r = i) t of None \<Rightarrow> Inr None | Some r \<Rightarrow> map_sum id Some (decode_row unpack r))"

definition sources_between :: "int \<Rightarrow> int \<Rightarrow> 'p row list \<Rightarrow> (int \<rightharpoonup> string)" where
  "sources_between first final t =
    map_of (map (\<lambda>r. (rw_seq r, the (rw_source r)))
      (filter (\<lambda>r. first \<le> rw_seq r \<and> rw_seq r \<le> final \<and> rw_source r \<noteq> None) t))"

definition total_ops :: "'p row list \<Rightarrow> u64" where
  "total_ops t = u64_or_0 (int (length t))"

definition seqs_are_contiguous :: "'p row list \<Rightarrow> bool" where
  "seqs_are_contiguous t = (case last_seq t of None \<Rightarrow> True | Some m \<Rightarrow> m = int (length t))"

definition newest :: "('p \<Rightarrow> op option) \<Rightarrow> file_path \<Rightarrow> nat \<Rightarrow> 'p row list \<Rightarrow> store_error + stored list" where
  "newest unpack f limit t =
    collect_rows unpack (take (min limit MAX_OPS_PER_READ) (rev (filter (\<lambda>r. rw_file r = f) t)))"

text \<open>\<open>each\<close> folds over the ids.\<close>

fun for_each_id :: "(op_id \<Rightarrow> 'a \<Rightarrow> 'a) \<Rightarrow> file_path \<Rightarrow> op_id list \<Rightarrow> nat \<Rightarrow> 'a \<Rightarrow> 'a \<times> (store_error + nat)" where
  "for_each_id each f [] n acc = (acc, Inr n)"
| "for_each_id each f (i # ids) n acc =
    (if n \<ge> MAX_OP_IDS_PER_FILE then (acc, Inl (TooManyOpsInFile f)) else for_each_id each f ids (n + 1) (each i acc))"

definition for_each_op_id_of_file ::
    "(op_id \<Rightarrow> 'a \<Rightarrow> 'a) \<Rightarrow> file_path \<Rightarrow> 'p row list \<Rightarrow> 'a \<Rightarrow> 'a \<times> (store_error + nat)" where
  "for_each_op_id_of_file each f t acc = for_each_id each f (map rw_op_id (filter (\<lambda>r. rw_file r = f) t)) 0 acc"

section \<open>The log is dense\<close>

primrec one_to :: "nat \<Rightarrow> int list" where
  "one_to 0 = []"
| "one_to (Suc n) = one_to n @ [int (Suc n)]"

definition dev_rows :: "device_id \<Rightarrow> 'p row list \<Rightarrow> 'p row list" where
  "dev_rows d t = filter (\<lambda>r. rw_device r = d) t"

definition row_op :: "('p \<Rightarrow> op option) \<Rightarrow> 'p row \<Rightarrow> op" where
  "row_op unpack r = the (unpack (rw_payload r))"

definition log_of :: "('p \<Rightarrow> op option) \<Rightarrow> 'p row list \<Rightarrow> op list" where
  "log_of unpack t = map (row_op unpack) t"

definition row_ok :: "('p \<Rightarrow> op option) \<Rightarrow> 'p row \<Rightarrow> bool" where
  "row_ok unpack r \<longleftrightarrow> (\<exists>o1 n. unpack (rw_payload r) = Some o1 \<and> r = row_of (rw_seq r) o1 (rw_payload r) (rw_source r) n)"

definition log_ok :: "('p \<Rightarrow> op option) \<Rightarrow> 'p row list \<Rightarrow> bool" where
  "log_ok unpack t \<longleftrightarrow> length t < 2 ^ 63 \<and> map rw_seq t = one_to (length t) \<and> distinct (map rw_op_id t) \<and>
     (\<forall>r \<in> set t. row_ok unpack r) \<and>
     (\<forall>d. map rw_origin (dev_rows d t) = one_to (length (dev_rows d t)))"

definition codec_ok :: "(op \<Rightarrow> 'p option) \<Rightarrow> ('p \<Rightarrow> op option) \<Rightarrow> bool" where
  "codec_ok pack unpack \<longleftrightarrow> (\<forall>o1 p. pack o1 = Some p \<longrightarrow> unpack p = Some o1)"

lemma dev_rows_simps [simp]:
  "dev_rows d [] = []" "dev_rows d (t @ u) = dev_rows d t @ dev_rows d u"
  "dev_rows d (r # t) = (if rw_device r = d then r # dev_rows d t else dev_rows d t)"
  by (simp_all add: dev_rows_def)

lemma length_dev_rows: "length (dev_rows d t) \<le> length t"
  by (simp add: dev_rows_def)

lemma log_ok_nil: "log_ok unpack []"
  by (simp add: log_ok_def)

lemma set_one_to: "set (one_to n) = {1..int n}"
  by (induction n) auto

lemma length_one_to [simp]: "length (one_to n) = n"
  by (induction n) auto

lemma nth_one_to: "i < n \<Longrightarrow> one_to n ! i = int (Suc i)"
  by (induction n) (auto simp: nth_append less_Suc_eq)

lemma last_one_to: "n \<noteq> 0 \<Longrightarrow> last (one_to n) = int n"
  by (cases n) simp_all

lemma sql_max_Max: "xs \<noteq> [] \<Longrightarrow> sql_max xs = Max (set xs)"
  by (cases xs) (simp_all only: sql_max_def list.case Max.set_eq_fold simp_thms)

lemma sql_max_one_to [simp]: "sql_max (one_to n) = int n"
proof (cases n)
  case (Suc m)
  then have "one_to n \<noteq> []" by simp
  then have "sql_max (one_to n) = Max (set (one_to n))" by (rule sql_max_Max)
  also have "\<dots> = Max {1..int n}" by (simp only: set_one_to)
  also have "\<dots> = int n" using Suc by (intro Max_eqI) auto
  finally show ?thesis .
qed (simp add: sql_max_def)

lemma head_row_log: "log_ok unpack t \<Longrightarrow> head_row t d = int (length (dev_rows d t))"
  by (simp add: log_ok_def head_row_def flip: dev_rows_def)

lemma small_u64: "n < 2 ^ 63 \<Longrightarrow> unat (of_nat n :: u64) = n"
  by (simp add: unsigned_of_nat take_bit_nat_eq_self)

lemma u64_small: "n < 2 ^ 63 \<Longrightarrow> u64_or_0 (int n) = of_nat n"
  by (simp add: u64_or_0_def del: of_nat_less_numeral_iff)

lemma wall_small: "n < 2 ^ 63 \<Longrightarrow> wall_i64 (of_nat n) = int n"
  using small_u64 [of n] by (simp add: wall_i64_def I64_MAX_def uint_nat)

lemma head_of_log:
  assumes "log_ok unpack t"
  shows "head_of t d = of_nat (length (dev_rows d t))"
proof -
  have "length (dev_rows d t) < 2 ^ 63" using length_dev_rows [of d t] assms by (simp add: log_ok_def)
  then show ?thesis by (simp only: head_of_def head_row_log [OF assms] u64_small)
qed

lemma next_seq_log:
  assumes "log_ok unpack t"
  shows "next_seq t = int (length t) + 1"
proof (cases t rule: rev_cases)
  case (snoc u r)
  then have "rw_seq r = int (length t)" using assms by (simp add: log_ok_def)
  then show ?thesis using snoc by (simp add: next_seq_def)
qed (simp add: next_seq_def)

text \<open>One more row, numbered after its device's head.\<close>

lemma log_ok_snoc:
  assumes "log_ok unpack t" "codec_ok pack unpack" "pack o1 = Some p" "Suc (length t) < 2 ^ 63"
    and r: "r = row_of (next_seq t) o1 p src (of_nat (Suc (length (dev_rows (device (o_hlc o1)) t))))"
    and "o_id o1 \<notin> set (map rw_op_id t)"
  shows "log_ok unpack (t @ [r])" "row_op unpack r = o1"
proof -
  let ?n = "Suc (length (dev_rows (device (o_hlc o1)) t))"
  have u: "unpack p = Some o1" using assms(2,3) by (simp add: codec_ok_def)
  then show "row_op unpack r = o1" by (simp add: row_op_def r row_of_def)
  have "row_ok unpack r" unfolding row_ok_def using u by (intro exI [of _ o1] exI [of _ "of_nat ?n"]) (simp add: r row_of_def)
  moreover have "?n < 2 ^ 63" using length_dev_rows [of "device (o_hlc o1)" t] assms(4) by simp
  then have "rw_origin r = int ?n" using wall_small [of ?n] by (simp only: r row_of_def row.simps)
  moreover have "rw_seq r = int (Suc (length t))" "rw_device r = device (o_hlc o1)" "rw_op_id r = o_id o1"
    using next_seq_log [OF assms(1)] by (simp_all add: r row_of_def)
  ultimately show "log_ok unpack (t @ [r])" using assms(1,4,6) by (auto simp: log_ok_def)
qed

lemma breaks_unique_log:
  assumes "log_ok unpack t" "rw_origin r = int (Suc (length (dev_rows (rw_device r) t)))"
  shows "breaks_unique t r \<longleftrightarrow> rw_op_id r \<in> set (map rw_op_id t)"
proof -
  have "rw_origin q \<noteq> rw_origin r" if "q \<in> set t" "rw_device q = rw_device r" for q
  proof -
    have "rw_origin q \<in> set (map rw_origin (dev_rows (rw_device r) t))" using that by (auto simp: dev_rows_def)
    also have "\<dots> = set (one_to (length (dev_rows (rw_device r) t)))" using assms(1) by (simp only: log_ok_def)
    finally show ?thesis using assms(2) by (auto simp: set_one_to)
  qed
  then show ?thesis by (auto simp: breaks_unique_def list_ex_iff intro: rev_image_eqI)
qed

definition numbers_ok :: "'p row list \<Rightarrow> 'p row list \<Rightarrow> (device_id \<rightharpoonup> u64) \<Rightarrow> bool" where
  "numbers_ok t0 t nexts \<longleftrightarrow> (\<forall>d. (case nexts d of Some n \<Rightarrow> n | None \<Rightarrow> u64_or_0 (head_row t0 d) + 1) =
     of_nat (Suc (length (dev_rows d t))))"

lemma insert_rows_log:
  assumes "log_ok unpack t" "codec_ok pack unpack" "length t + length ops < 2 ^ 63" "numbers_ok t0 t nexts"
  shows "case insert_rows pack src (zip ops (number_loop t0 nexts ops)) t of
      Inr t' \<Rightarrow> log_ok unpack t' \<and> log_of unpack t' = log_of unpack t @ ops \<and> length t' = length t + length ops \<and>
        (\<exists>added. t' = t @ added \<and> (\<forall>r \<in> set added. rw_source r = src)) \<and>
        (\<forall>o1 \<in> set ops. pack o1 \<noteq> None) \<and> distinct (map o_id ops) \<and> o_id ` set ops \<inter> rw_op_id ` set t = {}
    | Inl e \<Rightarrow> e = Codec (- 1) \<and> (\<exists>o1 \<in> set ops. pack o1 = None) \<or>
        e = Sqlite ''insert op'' \<and> \<not> (distinct (map o_id ops) \<and> o_id ` set ops \<inter> rw_op_id ` set t = {})"
  using assms
proof (induction ops arbitrary: t nexts)
  case Nil
  then show ?case by simp
next
  case (Cons o1 ops)
  let ?d = "device (o_hlc o1)"
  let ?n = "of_nat (Suc (length (dev_rows ?d t))) :: u64"
  have n: "(case nexts ?d of Some n \<Rightarrow> n | None \<Rightarrow> u64_or_0 (head_row t0 ?d) + 1) = ?n"
    using Cons.prems(4) by (simp only: numbers_ok_def)
  have loop: "number_loop t0 nexts (o1 # ops) = ?n # number_loop t0 (nexts(?d \<mapsto> ?n + 1)) ops"
    by (simp only: number_loop.simps Let_def n)
  show ?case
  proof (cases "pack o1")
    case (Some p)
    let ?r = "row_of (next_seq t) o1 p src ?n"
    have r: "rw_device ?r = ?d" "rw_op_id ?r = o_id o1" "rw_source ?r = src" by (simp_all add: row_of_def)
    have "Suc (length (dev_rows ?d t)) < 2 ^ 63" using length_dev_rows [of ?d t] Cons.prems(3) by simp
    then have b: "breaks_unique t ?r \<longleftrightarrow> o_id o1 \<in> set (map rw_op_id t)"
      using breaks_unique_log [OF Cons.prems(1), of ?r] wall_small by (simp only: r) (simp only: row_of_def row.simps)
    show ?thesis
    proof (cases "o_id o1 \<in> set (map rw_op_id t)")
      case True
      then show ?thesis using Some b unfolding loop by auto
    next
      case False
      have ok: "log_ok unpack (t @ [?r])" "row_op unpack ?r = o1"
        using log_ok_snoc [OF Cons.prems(1,2) Some _ refl False] Cons.prems(3) by simp_all
      have nx: "numbers_ok t0 (t @ [?r]) (nexts(?d \<mapsto> ?n + 1))"
        using Cons.prems(4) by (auto simp: numbers_ok_def row_of_def add.commute)
      have "length (t @ [?r]) + length ops < 2 ^ 63" using Cons.prems(3) by simp
      note IH = Cons.IH [OF ok(1) Cons.prems(2) this nx]
      obtain res where res: "insert_rows pack src (zip ops (number_loop t0 (nexts(?d \<mapsto> ?n + 1)) ops)) (t @ [?r]) = res" by blast
      have "insert_rows pack src (zip (o1 # ops) (number_loop t0 nexts (o1 # ops))) t = res"
        using Some False b unfolding loop res [symmetric] by (simp only: zip_Cons_Cons insert_rows.simps option.case Let_def if_False)
      moreover have "log_of unpack (t @ [?r]) = log_of unpack t @ [o1]" using ok(2) by (simp add: log_of_def)
      ultimately show ?thesis using IH Some r(2,3) False unfolding res
        by (cases res) (auto simp del: of_nat_Suc)
    qed
  qed (simp only: loop zip_Cons_Cons insert_rows.simps option.case sum.case, simp)
qed

lemma numbers_ok_start: "log_ok unpack t \<Longrightarrow> numbers_ok t t Map.empty"
  using head_of_log [of unpack t] by (simp add: numbers_ok_def head_of_def)

lemma append_with_source_log:
  assumes "log_ok unpack t" "codec_ok pack unpack" "length t + length ops < 2 ^ 63"
  shows "case append_with_source pack ops src t of
      (t', Inr (fs, ls)) \<Rightarrow> log_ok unpack t' \<and> log_of unpack t' = log_of unpack t @ ops \<and>
        fs = int (length t) + 1 \<and> ls = int (length t) + int (length ops) \<and>
        \<not> (ops = [] \<or> length ops > MAX_APPEND_BATCH \<or> (\<exists>o1 \<in> set ops. pack o1 = None) \<or>
          \<not> distinct (map o_id ops) \<or> o_id ` set ops \<inter> rw_op_id ` set t \<noteq> {})
    | (t', Inl e) \<Rightarrow> t' = t \<and> (ops = [] \<or> length ops > MAX_APPEND_BATCH \<or> (\<exists>o1 \<in> set ops. pack o1 = None) \<or>
        \<not> distinct (map o_id ops) \<or> o_id ` set ops \<inter> rw_op_id ` set t \<noteq> {})"
proof -
  obtain src' where src': "kept_source src = src'" by blast
  note ins = insert_rows_log [OF assms numbers_ok_start [OF assms(1)], of src']
  show ?thesis
  proof (cases "ops = [] \<or> length ops > MAX_APPEND_BATCH")
    case False
    show ?thesis
    proof (cases "insert_rows pack src' (zip ops (number_loop t Map.empty ops)) t")
      case (Inl e)
      then show ?thesis using False ins by (auto simp: append_with_source_def insert_ops_def src' number_ops_def Let_def)
    next
      case (Inr t')
      then obtain added where t': "t' = t @ added" "log_ok unpack t'" "log_of unpack t' = log_of unpack t @ ops"
        "length added = length ops" "\<forall>o1 \<in> set ops. pack o1 \<noteq> None" "distinct (map o_id ops)" "o_id ` set ops \<inter> rw_op_id ` set t = {}"
        using ins by auto
      then have seqs: "map rw_seq (t @ added) = one_to (length t + length ops)" by (simp add: log_ok_def)
      have "added \<noteq> []" using t'(4) False by auto
      then obtain r rs where r: "added = r # rs" by (cases added) auto
      have "map rw_seq (t @ added) ! length t = rw_seq r" using r by (simp add: nth_append)
      then have "rw_seq r = int (length t) + 1" unfolding seqs using t'(4) r False nth_one_to [of "length t" "length t + length ops"] by simp
      moreover have "last (map rw_seq (t @ added)) = rw_seq (last added)" using r by (simp add: last_map)
      then have "rw_seq (last added) = int (length t) + int (length ops)"
        unfolding seqs using False last_one_to [of "length t + length ops"] by simp
      moreover have "append_with_source pack ops src t = (t', Inr (rw_seq r, rw_seq (last added)))"
        using False Inr t'(1) r by (simp add: append_with_source_def insert_ops_def src' number_ops_def Let_def)
      ultimately show ?thesis using t' False by simp
    qed
  qed (auto simp: append_with_source_def insert_ops_def Let_def)
qed

section \<open>Reading a run\<close>

definition dev_ops :: "('p \<Rightarrow> op option) \<Rightarrow> device_id \<Rightarrow> 'p row list \<Rightarrow> op list" where
  "dev_ops unpack d t = filter (\<lambda>o1. device (o_hlc o1) = d) (log_of unpack t)"

lemma row_ok_op: "row_ok unpack r \<Longrightarrow> unpack (rw_payload r) = Some (row_op unpack r)"
  by (auto simp: row_ok_def row_op_def)

lemma row_ok_device: "row_ok unpack r \<Longrightarrow> rw_device r = device (o_hlc (row_op unpack r))"
proof -
  assume "row_ok unpack r"
  then obtain o1 n where o1: "unpack (rw_payload r) = Some o1" "r = row_of (rw_seq r) o1 (rw_payload r) (rw_source r) n"
    by (auto simp: row_ok_def)
  have "rw_device r = rw_device (row_of (rw_seq r) o1 (rw_payload r) (rw_source r) n)" using o1(2) by (rule arg_cong)
  then show ?thesis using o1(1) by (simp add: row_of_def row_op_def)
qed

lemma dev_ops_rows: "log_ok unpack t \<Longrightarrow> dev_ops unpack d t = map (row_op unpack) (dev_rows d t)"
  by (auto simp: dev_ops_def log_of_def dev_rows_def filter_map comp_def log_ok_def row_ok_device intro!: arg_cong [where f = "map _"] filter_cong)

lemma length_dev_ops: "log_ok unpack t \<Longrightarrow> length (dev_ops unpack d t) = length (dev_rows d t)"
  by (simp add: dev_ops_rows)

lemma collect_rows_ok:
  "\<forall>r \<in> set rs. row_ok unpack r \<Longrightarrow> collect_rows unpack rs = Inr (map (\<lambda>r. \<lparr>sd_seq = rw_seq r, sd_op = row_op unpack r\<rparr>) rs)"
  by (induction rs) (simp_all add: row_ok_op)

lemma filter_one_to:
  assumes "map f xs = one_to (length xs)" "1 \<le> a"
  shows "filter (\<lambda>x. int a \<le> f x \<and> f x \<le> int b) xs = take (Suc b - a) (drop (a - 1) xs)"
  using assms(1)
proof (induction xs rule: rev_induct)
  case (snoc x xs)
  then have "f x = int (Suc (length xs))" by simp
  then show ?case using snoc assms(2) by (cases "length xs < a - 1"; cases "length xs < b") (auto simp: min_def not_less)
qed simp

lemma sint_small:
  fixes w :: u64
  assumes "unat w < 2 ^ 63"
  shows "sint w = int (unat w)"
proof -
  have "int (unat w) < int (2 ^ 63)" using assms by (simp only: of_nat_less_iff)
  moreover have "- (2 ^ 63) \<le> int (unat w)" by (rule order.trans [of _ 0]) simp_all
  ultimately have "signed_take_bit 63 (int (unat w)) = int (unat w)" by (intro signed_take_bit_int_eq_self) simp_all
  then show ?thesis by (simp add: sint_uint)
qed

lemma ops_for_run:
  assumes "log_ok unpack t" "1 \<le> unat first" "first \<le> final" "unat final < 2 ^ 63" "unat final - unat first < MAX_OPS_PER_READ"
  shows "\<exists>ss. ops_for unpack t d first final = Inr ss \<and>
    map sd_op ss = take (Suc (unat final) - unat first) (drop (unat first - 1) (dev_ops unpack d t))"
proof -
  have le: "unat first \<le> unat final" using assms(3) by (simp add: word_le_nat_alt)
  have "unat (final - first) = unat final - unat first" using assms(3) by (rule unat_sub)
  then have "unat (final - first + 1) = unat final - unat first + 1"
    using assms(4) by (simp add: unat_word_ariths(1))
  moreover have "first \<noteq> 0" using assms(2) by auto
  ultimately have ok: "\<not> (first = 0 \<or> final < first)" "\<not> unat (final - first + 1) > MAX_OPS_PER_READ"
    using assms(3,5) by auto
  have s: "sint first = int (unat first)" "sint final = int (unat final)"
    using assms(4) le by (simp_all only: sint_small)
  let ?rs = "take (Suc (unat final) - unat first) (drop (unat first - 1) (dev_rows d t))"
  have o1: "map rw_origin (dev_rows d t) = one_to (length (dev_rows d t))" using assms(1) by (simp add: log_ok_def)
  have f: "filter (\<lambda>r. rw_device r = d \<and> sint first \<le> rw_origin r \<and> rw_origin r \<le> sint final) t = ?rs"
    using filter_one_to [OF o1 assms(2), of "unat final"] by (simp only: s dev_rows_def filter_filter)
  have "sorted (one_to n)" for n by (induction n) (auto simp: sorted_append set_one_to)
  then have "sorted (map rw_origin ?rs)" using o1 by (simp add: sorted_wrt_take sorted_wrt_drop flip: take_map drop_map)
  then have "sort_key rw_origin ?rs = ?rs" by (rule sort_key_id_if_sorted)
  moreover have "\<forall>r \<in> set ?rs. row_ok unpack r" using assms(1)
    by (auto simp: log_ok_def dev_rows_def dest!: in_set_takeD in_set_dropD)
  ultimately have "ops_for unpack t d first final = Inr (map (\<lambda>r. \<lparr>sd_seq = rw_seq r, sd_op = row_op unpack r\<rparr>) ?rs)"
    using ok by (simp add: ops_for_def f collect_rows_ok)
  then show ?thesis by (simp add: dev_ops_rows [OF assms(1)] take_map drop_map comp_def)
qed

section \<open>Heads\<close>

lemma store_heads_sorted: "sorted_wrt (<) (map fst (store_heads t))"
proof -
  have "sorted_wrt (<) (sort (remdups (map rw_device t)))" by (simp add: strict_sorted_iff)
  then show ?thesis by (simp add: store_heads_def comp_def sorted_wrt_take)
qed

lemma head_in_store:
  assumes "log_ok unpack t" "card (rw_device ` set t) \<le> MAX_DEVICES_PER_HEADS"
  shows "head_in (store_heads t) d = of_nat (length (dev_ops unpack d t))"
proof -
  have "length (sort (remdups (map rw_device t))) \<le> MAX_DEVICES_PER_HEADS"
    using assms(2) by (simp add: length_remdups_card_conv)
  then have heads: "store_heads t = map (\<lambda>d. (d, head_of t d)) (sort (remdups (map rw_device t)))"
    by (simp add: store_heads_def head_of_def)
  have "map_of (map (\<lambda>d. (d, head_of t d)) ds) d = (if d \<in> set ds then Some (head_of t d) else None)" for ds
    by (induction ds) auto
  then have "head_in (store_heads t) d = (if d \<in> rw_device ` set t then head_of t d else 0)"
    by (simp add: heads head_in_def)
  moreover have "d \<notin> rw_device ` set t \<Longrightarrow> dev_rows d t = []" by (auto simp: dev_rows_def filter_empty_conv)
  ultimately show ?thesis by (auto simp: head_of_log [OF assms(1)] length_dev_ops [OF assms(1)])
qed

lemma row_ok_id: "row_ok unpack r \<Longrightarrow> rw_op_id r = o_id (row_op unpack r)"
proof -
  assume "row_ok unpack r"
  then obtain o1 n where o1: "unpack (rw_payload r) = Some o1" "r = row_of (rw_seq r) o1 (rw_payload r) (rw_source r) n"
    by (auto simp: row_ok_def)
  have "rw_op_id r = rw_op_id (row_of (rw_seq r) o1 (rw_payload r) (rw_source r) n)" using o1(2) by (rule arg_cong)
  then show ?thesis using o1(1) by (simp add: row_of_def row_op_def)
qed

lemma log_ids: "log_ok unpack t \<Longrightarrow> rw_op_id ` set t = o_id ` set (log_of unpack t)"
proof -
  assume "log_ok unpack t"
  then have "rw_op_id ` set t = (\<lambda>r. o_id (row_op unpack r)) ` set t" by (intro image_cong) (simp_all add: log_ok_def row_ok_id)
  then show ?thesis by (simp add: log_of_def image_image)
qed

lemma log_distinct: "log_ok unpack t \<Longrightarrow> distinct (map o_id (log_of unpack t))"
proof -
  assume ok: "log_ok unpack t"
  then have "map o_id (log_of unpack t) = map rw_op_id t" by (auto simp: log_ok_def log_of_def row_ok_id)
  then show ?thesis using ok by (simp add: log_ok_def)
qed

section \<open>The log as a list of operations\<close>

text \<open>An append, of the list of operations alone.\<close>

definition log_append :: "(op \<Rightarrow> 'p option) \<Rightarrow> op list \<Rightarrow> op list \<Rightarrow> op list option" where
  "log_append pack ops log =
    (if ops = [] \<or> length ops > MAX_APPEND_BATCH \<or> list_ex (\<lambda>o1. pack o1 = None) ops \<or> \<not> distinct (map o_id (log @ ops)) then None
     else Some (log @ ops))"

text \<open>C8: the table of operations keeps a list of operations. An append is the list's: it is taken as a whole, at the end, with
  the next sequence numbers, or refused as a whole with the table as it was, when it is empty, too large, cannot be encoded
  or holds an id that is there already; and the table it leaves numbers its rows and each device's rows without a gap.
\<close>

theorem append_refines_log:
  assumes "log_ok unpack t" "codec_ok pack unpack" "length t + length ops < 2 ^ 63"
  shows "case log_append pack ops (log_of unpack t) of
      Some log \<Rightarrow> \<exists>t'. append_with_source pack ops src t = (t', Inr (int (length t) + 1, int (length t) + int (length ops))) \<and>
        log_ok unpack t' \<and> log_of unpack t' = log
    | None \<Rightarrow> \<exists>e. append_with_source pack ops src t = (t, Inl e)"
proof -
  obtain t' res where r: "append_with_source pack ops src t = (t', res)" by fastforce
  have "log_append pack ops (log_of unpack t) = (if ops = [] \<or> length ops > MAX_APPEND_BATCH \<or> (\<exists>o1 \<in> set ops. pack o1 = None) \<or>
      \<not> distinct (map o_id ops) \<or> o_id ` set ops \<inter> rw_op_id ` set t \<noteq> {} then None else Some (log_of unpack t @ ops))"
    using log_distinct [OF assms(1)] log_ids [OF assms(1)] by (auto simp: log_append_def list_ex_iff)
  then show ?thesis using append_with_source_log [OF assms, of src] r by (cases res) auto
qed

subsection \<open>A log of two operations\<close>

definition two_ops :: "op list" where
  "two_ops =
    [\<lparr>o_id = 11, o_hlc = Hlc 100 0 1, o_principal = User 1, o_file = ''todo.txt'', o_kind = OBlankInsert None\<rparr>,
     \<lparr>o_id = 12, o_hlc = Hlc 200 0 1, o_principal = User 1, o_file = ''todo.txt'', o_kind = OBlankRemove None\<rparr>]"

definition two_rows :: "op row list" where
  "two_rows = [row_of 1 (two_ops ! 0) (two_ops ! 0) None 1, row_of 2 (two_ops ! 1) (two_ops ! 1) None 2]"

lemma two_rows_ok: "log_ok Some two_rows" "log_of Some two_rows = two_ops" "dev_ops Some d two_rows = (if d = 1 then two_ops else [])"
  "rw_device ` set two_rows = {1}" "length two_rows = 2"
proof -
  have "map rw_origin (dev_rows d two_rows) = one_to (length (dev_rows d two_rows))" for d
    by (simp add: two_rows_def two_ops_def row_of_def wall_i64_def I64_MAX_def)
  moreover have "row_ok Some r" if "r \<in> set two_rows" for r
    using that by (auto simp: two_rows_def row_ok_def row_of_def)
  moreover have "map rw_seq two_rows = one_to (length two_rows)" "distinct (map rw_op_id two_rows)" "length two_rows < 2 ^ 63"
    by (simp_all add: two_rows_def two_ops_def row_of_def)
  ultimately show "log_ok Some two_rows" by (simp add: log_ok_def)
  show log: "log_of Some two_rows = two_ops" by (simp add: two_rows_def log_of_def row_op_def row_of_def two_ops_def)
  show "dev_ops Some d two_rows = (if d = 1 then two_ops else [])" by (simp add: dev_ops_def log two_ops_def)
  show "rw_device ` set two_rows = {1}" "length two_rows = 2" by (simp_all add: two_rows_def two_ops_def row_of_def)
qed

theorem append_refines_log_witness:
  "\<exists>t. append_with_source Some two_ops None [] = (t, Inr (1, 2)) \<and> log_ok Some t \<and> log_of Some t = two_ops"
proof -
  have "log_append Some two_ops (log_of Some []) = Some two_ops"
    by (simp add: log_append_def log_of_def two_ops_def MAX_APPEND_BATCH_def)
  moreover have "codec_ok Some Some" "length ([] :: op row list) + length two_ops < 2 ^ 63" "length two_ops = 2"
    by (simp_all add: codec_ok_def two_ops_def)
  ultimately show ?thesis using append_refines_log [OF log_ok_nil, of Some Some two_ops None] by simp
qed

end
