(* ===== verification/SyncServe.thy ===== *)
theory SyncServe
  imports StoreLog
begin

text \<open>
  Serving a peer from the log (\<open>txtodo-daemon\<close>): \<open>serve_want\<close> of \<open>lan_apply.rs\<close>, one origin's run after the other, and
  \<open>lan_serve_merged.rs\<close>, one batch with the origins merged by their stamps. Signing one operation is a parameter that may
  fail. The two loops count up to \<open>u64::MAX\<close> and may not end there, so they are partial functions.
\<close>

section \<open>Definitions\<close>

subsection \<open>One origin after the other\<close>

definition sign_ops :: "(op \<Rightarrow> 's option) \<Rightarrow> op list \<Rightarrow> 's list option" where
  "sign_ops sign ops = those (map sign ops)"

partial_function (option) serve_loop ::
    "(op \<Rightarrow> 's option) \<Rightarrow> ('p \<Rightarrow> op option) \<Rightarrow> 'p row list \<Rightarrow> workspace_id \<Rightarrow> origin_range \<Rightarrow> u64 \<Rightarrow> 's message list \<Rightarrow>
     (store_error + 's message list) option" where
  "serve_loop sign unpack t w r first out =
    (if \<not> first \<le> or_last r then Some (Inr out)
     else
       let final = min (saturating_add first (of_nat MAX_OPS_PER_BATCH - 1)) (or_last r) in
       case ops_for unpack t (or_device r) first final of
         Inl e \<Rightarrow> Some (Inl e)
       | Inr stored \<Rightarrow>
           (case sign_ops sign (map sd_op stored) of
             None \<Rightarrow> serve_loop sign unpack t w r (final + 1) out
           | Some sigs \<Rightarrow> serve_loop sign unpack t w r (final + 1)
               (out @ [Ops w (map sd_op stored) sigs [\<lparr>or_device = or_device r, or_first = first, or_last = final\<rparr>]])))"

declare serve_loop.simps [code]

definition serve_range ::
    "(op \<Rightarrow> 's option) \<Rightarrow> ('p \<Rightarrow> op option) \<Rightarrow> 'p row list \<Rightarrow> workspace_id \<Rightarrow> origin_range \<Rightarrow>
     (store_error + 's message list) option" where
  "serve_range sign unpack t w r = serve_loop sign unpack t w r (or_first r) []"

fun serve_want ::
    "(op \<Rightarrow> 's option) \<Rightarrow> ('p \<Rightarrow> op option) \<Rightarrow> 'p row list \<Rightarrow> workspace_id \<Rightarrow> origin_range list \<Rightarrow>
     (store_error + 's message list) option" where
  "serve_want sign unpack t w [] = Some (Inr [])"
| "serve_want sign unpack t w (r # rs) =
    (case serve_range sign unpack t w r of None \<Rightarrow> None | Some (Inl e) \<Rightarrow> Some (Inl e)
     | Some (Inr ms) \<Rightarrow> map_option (map_sum id ((@) ms)) (serve_want sign unpack t w rs))"

subsection \<open>The origins merged\<close>

definition READ_WINDOW :: u64 where
  "READ_WINDOW = 128"

record owed_run =
  rn_range :: origin_range
  rn_next :: u64
  rn_buf :: "op list"

definition run_front :: "('p \<Rightarrow> op option) \<Rightarrow> 'p row list \<Rightarrow> owed_run \<Rightarrow> store_error + owed_run" where
  "run_front unpack t r =
    (if rn_buf r = [] \<and> rn_next r \<le> or_last (rn_range r) then
       let final = min (rn_next r + READ_WINDOW - 1) (or_last (rn_range r)) in
       case ops_for unpack t (or_device (rn_range r)) (rn_next r) final of
         Inl e \<Rightarrow> Inl e
       | Inr stored \<Rightarrow> Inr (r\<lparr>rn_buf := map sd_op stored, rn_next := final + 1\<rparr>)
     else Inr r)"

text \<open>The loop over the runs from number \<open>i\<close>, with the best front so far: the runs after it and the lowest.\<close>

fun lowest_loop ::
    "('p \<Rightarrow> op option) \<Rightarrow> 'p row list \<Rightarrow> nat \<Rightarrow> owed_run list \<Rightarrow> (nat \<times> hlc) option \<Rightarrow> store_error + owed_run list \<times> nat option" where
  "lowest_loop unpack t i [] best = Inr ([], map_option fst best)"
| "lowest_loop unpack t i (r # rs) best =
    (case run_front unpack t r of Inl e \<Rightarrow> Inl e
     | Inr r' \<Rightarrow>
         let best' = (case rn_buf r' of [] \<Rightarrow> best
           | o1 # _ \<Rightarrow> if (case best of None \<Rightarrow> True | Some (_, h) \<Rightarrow> o_hlc o1 < h) then Some (i, o_hlc o1) else best)
         in (case lowest_loop unpack t (Suc i) rs best' of Inl e \<Rightarrow> Inl e | Inr (rs', b) \<Rightarrow> Inr (r' # rs', b)))"

definition lowest :: "('p \<Rightarrow> op option) \<Rightarrow> 'p row list \<Rightarrow> owed_run list \<Rightarrow> store_error + owed_run list \<times> nat option" where
  "lowest unpack t runs = lowest_loop unpack t 0 runs None"

definition ranges_len :: "origin_range list \<Rightarrow> device_id \<Rightarrow> u64" where
  "ranges_len ranges d = sum_list (map (\<lambda>r. or_last r - or_first r + 1) (filter (\<lambda>r. or_device r = d) ranges))"

definition extend_runs :: "origin_range list \<Rightarrow> device_id \<Rightarrow> u64 \<Rightarrow> origin_range list option" where
  "extend_runs ranges d sq =
    (if ranges \<noteq> [] \<and> or_device (last ranges) = d then Some (butlast ranges @ [(last ranges)\<lparr>or_last := sq\<rparr>])
     else if list_ex (\<lambda>r. or_device r = d) ranges then None
     else Some (ranges @ [\<lparr>or_device = d, or_first = sq, or_last = sq\<rparr>]))"

partial_function (option) merge_loop ::
    "('p \<Rightarrow> op option) \<Rightarrow> 'p row list \<Rightarrow> owed_run list \<Rightarrow> op list \<Rightarrow> origin_range list \<Rightarrow>
     (store_error + op list \<times> origin_range list) option" where
  "merge_loop unpack t runs ops ranges =
    (if \<not> length ops < MAX_OPS_PER_BATCH then Some (Inr (ops, ranges))
     else (case lowest unpack t runs of
         Inl e \<Rightarrow> Some (Inl e)
       | Inr (runs', None) \<Rightarrow> Some (Inr (ops, ranges))
       | Inr (runs', Some i) \<Rightarrow>
           let r = runs' ! i;
               sq = or_first (rn_range r) + ranges_len ranges (or_device (rn_range r))
           in (case extend_runs ranges (or_device (rn_range r)) sq of
               None \<Rightarrow> Some (Inr (ops, ranges))
             | Some ranges' \<Rightarrow> merge_loop unpack t (runs'[i := r\<lparr>rn_buf := tl (rn_buf r)\<rparr>]) (ops @ take 1 (rn_buf r)) ranges')))"

declare merge_loop.simps [code]

definition merge_runs ::
    "('p \<Rightarrow> op option) \<Rightarrow> 'p row list \<Rightarrow> origin_range list \<Rightarrow> (store_error + op list \<times> origin_range list) option" where
  "merge_runs unpack t runs =
    merge_loop unpack t (map (\<lambda>r. \<lparr>rn_range = r, rn_next = or_first r, rn_buf = []\<rparr>) runs) [] []"

definition serve_merged ::
    "(op \<Rightarrow> 's option) \<Rightarrow> ('p \<Rightarrow> op option) \<Rightarrow> 'p row list \<Rightarrow> workspace_id \<Rightarrow> origin_range list \<Rightarrow>
     (store_error + ('s message \<times> origin_range list) option) option" where
  "serve_merged sign unpack t w runs =
    (case merge_runs unpack t runs of None \<Rightarrow> None
     | Some (Inl e) \<Rightarrow> Some (Inl e)
     | Some (Inr (ops, ranges)) \<Rightarrow>
         Some (Inr (if ops = [] then None
           else (case sign_ops sign ops of None \<Rightarrow> None | Some sigs \<Rightarrow> Some (Ops w ops sigs ranges, ranges)))))"

section \<open>Slices of a device's log\<close>

definition log_slice :: "('p \<Rightarrow> op option) \<Rightarrow> 'p row list \<Rightarrow> device_id \<Rightarrow> nat \<Rightarrow> nat \<Rightarrow> op list" where
  "log_slice unpack t d a b = take (Suc b - a) (drop (a - 1) (dev_ops unpack d t))"

lemma slice_split: "1 \<le> a \<Longrightarrow> a \<le> Suc m \<Longrightarrow> m \<le> b \<Longrightarrow> log_slice unpack t d a b = log_slice unpack t d a m @ log_slice unpack t d (Suc m) b"
proof -
  assume a: "1 \<le> a" "a \<le> Suc m" "m \<le> b"
  then have "Suc b - a = (Suc m - a) + (b - m)" "Suc m - a + (a - 1) = m" by simp_all
  then show ?thesis by (simp only: log_slice_def take_add drop_drop diff_Suc_Suc diff_Suc_1)
qed

lemma length_log_slice: "1 \<le> a \<Longrightarrow> b \<le> length (dev_ops unpack d t) \<Longrightarrow> length (log_slice unpack t d a b) = Suc b - a"
  by (simp add: log_slice_def)

lemma slice_past: "length (dev_ops unpack d t) < a \<Longrightarrow> log_slice unpack t d a b = []"
  by (simp add: log_slice_def)

lemma slice_nonempty: "1 \<le> a \<Longrightarrow> log_slice unpack t d a b \<noteq> [] \<longleftrightarrow> a \<le> b \<and> a \<le> length (dev_ops unpack d t)"
  by (auto simp: log_slice_def)

lemma log_slice_empty: "b < a \<Longrightarrow> log_slice unpack t d a b = []"
  by (simp add: log_slice_def)

lemma unat_min_word: "unat (min a b :: u64) = min (unat a) (unat b)"
  by (simp add: min_def word_le_nat_alt)

lemma unat_plus_word: "unat a + n < 2 ^ 64 \<Longrightarrow> unat (a + of_nat n :: u64) = unat a + n"
  by (simp add: unat_word_ariths(1) unsigned_of_nat take_bit_nat_eq_self)

lemma ops_for_slice:
  assumes "log_ok unpack t" "1 \<le> unat first" "first \<le> final" "unat final < 2 ^ 63"
    "unat final - unat first < MAX_OPS_PER_READ"
  obtains ss where "ops_for unpack t d first final = Inr ss" "map sd_op ss = log_slice unpack t d (unat first) (unat final)"
  using ops_for_run [OF assms, of d] that by (auto simp: log_slice_def)

section \<open>Merging\<close>

definition todo :: "('p \<Rightarrow> op option) \<Rightarrow> 'p row list \<Rightarrow> owed_run \<Rightarrow> op list" where
  "todo unpack t r = rn_buf r @ log_slice unpack t (or_device (rn_range r)) (unat (rn_next r)) (unat (or_last (rn_range r)))"

definition run_wf :: "('p \<Rightarrow> op option) \<Rightarrow> 'p row list \<Rightarrow> owed_run \<Rightarrow> bool" where
  "run_wf unpack t r \<longleftrightarrow> 1 \<le> unat (rn_next r) \<and> unat (rn_next r) \<le> Suc (unat (or_last (rn_range r))) \<and>
     unat (or_last (rn_range r)) < 2 ^ 63"

definition read_more :: "('p \<Rightarrow> op option) \<Rightarrow> 'p row list \<Rightarrow> owed_run \<Rightarrow> owed_run \<Rightarrow> bool" where
  "read_more unpack t r r' \<longleftrightarrow> rn_range r' = rn_range r \<and> todo unpack t r' = todo unpack t r \<and> run_wf unpack t r' \<and>
     (rn_buf r' = [] \<longrightarrow> todo unpack t r' = [])"

lemma run_front_ok:
  assumes "log_ok unpack t" "run_wf unpack t r"
  shows "\<exists>r'. run_front unpack t r = Inr r' \<and> read_more unpack t r r'"
proof (cases "rn_buf r = [] \<and> rn_next r \<le> or_last (rn_range r)")
  case True
  let ?d = "or_device (rn_range r)"
  let ?l = "or_last (rn_range r)"
  let ?m = "min (rn_next r + READ_WINDOW - 1) ?l"
  have small: "unat ?l < 2 ^ 63" using assms by (simp add: run_wf_def)
  have le: "unat (rn_next r) \<le> unat ?l" using True by (simp add: word_le_nat_alt)
  have w: "rn_next r + READ_WINDOW - 1 = rn_next r + of_nat 127" by (simp add: READ_WINDOW_def)
  have "unat (rn_next r) + 127 < 2 ^ 64" using small le by simp
  then have "unat (rn_next r + READ_WINDOW - 1) = unat (rn_next r) + 127" unfolding w by (rule unat_plus_word)
  then have m: "unat ?m = min (unat (rn_next r) + 127) (unat ?l)" by (simp only: unat_min_word)
  have wf: "1 \<le> unat (rn_next r)" using assms(2) by (simp add: run_wf_def)
  have "rn_next r \<le> ?m" "unat ?m < 2 ^ 63" "unat ?m - unat (rn_next r) < MAX_OPS_PER_READ"
    using small le by (simp_all add: word_le_nat_alt m MAX_OPS_PER_READ_def)
  then obtain ss where ss: "ops_for unpack t ?d (rn_next r) ?m = Inr ss" "map sd_op ss = log_slice unpack t ?d (unat (rn_next r)) (unat ?m)"
    using ops_for_slice [OF assms(1) wf] by blast
  let ?r = "r\<lparr>rn_buf := map sd_op ss, rn_next := ?m + 1\<rparr>"
  have "unat ?m < 2 ^ 63" using m small by simp
  then have nx: "unat (?m + 1) = Suc (unat ?m)" using unat_plus_word [of ?m 1] by simp
  have "unat ?m \<le> unat ?l" "unat (rn_next r) \<le> Suc (unat ?m)" using m le by simp_all
  then have "todo unpack t ?r = todo unpack t r"
    using True slice_split [OF wf, of "unat ?m" "unat ?l" unpack t ?d] by (simp add: todo_def nx ss(2))
  moreover have "todo unpack t ?r = []" if "map sd_op ss = []"
  proof -
    have "length (dev_ops unpack ?d t) < unat (rn_next r)"
      using that slice_nonempty [OF wf, of unpack t ?d "unat ?m"] \<open>rn_next r \<le> ?m\<close> unfolding ss(2) word_le_nat_alt by linarith
    then show ?thesis using that nx \<open>unat (rn_next r) \<le> Suc (unat ?m)\<close> by (simp add: todo_def slice_past)
  qed
  moreover have "run_wf unpack t ?r" using small m by (simp add: run_wf_def nx)
  moreover have "run_front unpack t r = Inr ?r" using True ss(1) by (simp add: run_front_def Let_def)
  ultimately show ?thesis by (auto simp: read_more_def)
next
  case False
  then have "rn_buf r = [] \<Longrightarrow> todo unpack t r = []" by (auto simp: todo_def log_slice_empty word_le_nat_alt)
  moreover have "run_front unpack t r = Inr r" using False by (auto simp: run_front_def)
  ultimately show ?thesis using assms(2) by (auto simp: read_more_def)
qed

definition beats :: "owed_run list \<Rightarrow> hlc \<Rightarrow> bool" where
  "beats runs h \<longleftrightarrow> (\<forall>r \<in> set runs. rn_buf r \<noteq> [] \<longrightarrow> h \<le> o_hlc (hd (rn_buf r)))"

lemma lowest_loop_ok:
  assumes "log_ok unpack t" "\<forall>r \<in> set runs. run_wf unpack t r"
  shows "\<exists>runs' b. lowest_loop unpack t i runs best = Inr (runs', b) \<and> list_all2 (read_more unpack t) runs runs' \<and>
    (case b of
       None \<Rightarrow> best = None \<and> (\<forall>r \<in> set runs'. rn_buf r = [])
     | Some j \<Rightarrow> (\<exists>h. best = Some (j, h) \<and> beats runs' h) \<or>
         (\<exists>k < length runs'. j = i + k \<and> rn_buf (runs' ! k) \<noteq> [] \<and> beats runs' (o_hlc (hd (rn_buf (runs' ! k)))) \<and>
           (\<forall>m h. best = Some (m, h) \<longrightarrow> o_hlc (hd (rn_buf (runs' ! k))) < h)))"
  using assms(2)
proof (induction runs arbitrary: i best)
  case Nil
  then show ?case by (auto simp: beats_def split: option.split)
next
  case (Cons r rs)
  obtain r' where r': "run_front unpack t r = Inr r'" "read_more unpack t r r'"
    using run_front_ok [OF assms(1), of r] Cons.prems by auto
  define best' where "best' = (case rn_buf r' of [] \<Rightarrow> best
    | o1 # _ \<Rightarrow> if (case best of None \<Rightarrow> True | Some (_, h) \<Rightarrow> o_hlc o1 < h) then Some (i, o_hlc o1) else best)"
  from Cons.IH [of "Suc i" best'] Cons.prems obtain rs' b where
    rs': "lowest_loop unpack t (Suc i) rs best' = Inr (rs', b)" "list_all2 (read_more unpack t) rs rs'"
    and b: "case b of None \<Rightarrow> best' = None \<and> (\<forall>r \<in> set rs'. rn_buf r = [])
     | Some j \<Rightarrow> (\<exists>h. best' = Some (j, h) \<and> beats rs' h) \<or>
         (\<exists>k < length rs'. j = Suc i + k \<and> rn_buf (rs' ! k) \<noteq> [] \<and> beats rs' (o_hlc (hd (rn_buf (rs' ! k)))) \<and>
           (\<forall>m h. best' = Some (m, h) \<longrightarrow> o_hlc (hd (rn_buf (rs' ! k))) < h))" by auto
  have step: "lowest_loop unpack t i (r # rs) best = Inr (r' # rs', b)" using r'(1) rs'(1) by (simp add: best'_def)
  show ?case
  proof (cases b)
    case None
    then have "best = None" "rn_buf r' = []" using b by (auto simp: best'_def split: list.splits if_splits option.splits)
    then show ?thesis using step rs'(2) r'(2) b None by auto
  next
    case (Some j)
    then consider (old) h where "best' = Some (j, h)" "beats rs' h"
      | (late) k where "k < length rs'" "j = Suc i + k" "rn_buf (rs' ! k) \<noteq> []" "beats rs' (o_hlc (hd (rn_buf (rs' ! k))))"
          "\<forall>m h. best' = Some (m, h) \<longrightarrow> o_hlc (hd (rn_buf (rs' ! k))) < h"
      using b by auto
    then show ?thesis
    proof cases
      case old
      then have "(best = Some (j, h) \<and> beats (r' # rs') h) \<or>
          (j = i \<and> rn_buf r' \<noteq> [] \<and> h = o_hlc (hd (rn_buf r')) \<and> (\<forall>m h'. best = Some (m, h') \<longrightarrow> h < h'))"
        by (auto simp: best'_def beats_def not_less split: list.splits if_splits option.splits prod.splits)
      then have "(\<exists>h. best = Some (j, h) \<and> beats (r' # rs') h) \<or>
          (\<exists>k < length (r' # rs'). j = i + k \<and> rn_buf ((r' # rs') ! k) \<noteq> [] \<and> beats (r' # rs') (o_hlc (hd (rn_buf ((r' # rs') ! k)))) \<and>
            (\<forall>m h. best = Some (m, h) \<longrightarrow> o_hlc (hd (rn_buf ((r' # rs') ! k))) < h))"
        using old(2) by (elim disjE conjE) (auto simp: beats_def intro!: disjI2 exI [of _ 0])
      then show ?thesis using step rs'(2) r'(2) Some by auto
    next
      case late
      let ?h = "o_hlc (hd (rn_buf (rs' ! k)))"
      have "beats (r' # rs') ?h \<and> (\<forall>m h. best = Some (m, h) \<longrightarrow> ?h < h)"
        using late(4,5) by (cases "rn_buf r'"; cases best)
          (auto simp: best'_def beats_def not_less split: if_splits intro: less_imp_le less_le_trans)
      then have "\<exists>k' < length (r' # rs'). j = i + k' \<and> rn_buf ((r' # rs') ! k') \<noteq> [] \<and> beats (r' # rs') (o_hlc (hd (rn_buf ((r' # rs') ! k')))) \<and>
            (\<forall>m h. best = Some (m, h) \<longrightarrow> o_hlc (hd (rn_buf ((r' # rs') ! k'))) < h)"
        using late(1-3) by (intro exI [of _ "Suc k"]) auto
      then show ?thesis using step rs'(2) r'(2) Some by auto
    qed
  qed
qed

lemma lowest_ok:
  assumes "log_ok unpack t" "\<forall>r \<in> set runs. run_wf unpack t r"
  obtains runs' b where "lowest unpack t runs = Inr (runs', b)" "list_all2 (read_more unpack t) runs runs'"
    "case b of None \<Rightarrow> \<forall>r \<in> set runs'. rn_buf r = []
     | Some k \<Rightarrow> k < length runs' \<and> rn_buf (runs' ! k) \<noteq> [] \<and> beats runs' (o_hlc (hd (rn_buf (runs' ! k))))"
proof -
  from lowest_loop_ok [OF assms, of 0 None] obtain runs' b where
    r: "lowest_loop unpack t 0 runs None = Inr (runs', b)" "list_all2 (read_more unpack t) runs runs'"
    and b': "case b of None \<Rightarrow> \<forall>r \<in> set runs'. rn_buf r = []
     | Some k \<Rightarrow> (\<exists>k' < length runs'. k = 0 + k' \<and> rn_buf (runs' ! k') \<noteq> [] \<and> beats runs' (o_hlc (hd (rn_buf (runs' ! k')))))"
    by (auto cong: option.case_cong)
  then have b: "case b of None \<Rightarrow> \<forall>r \<in> set runs'. rn_buf r = []
     | Some k \<Rightarrow> k < length runs' \<and> rn_buf (runs' ! k) \<noteq> [] \<and> beats runs' (o_hlc (hd (rn_buf (runs' ! k))))"
    by (cases b) auto
  from r(1) have "lowest unpack t runs = Inr (runs', b)" by (simp only: lowest_def)
  then show thesis using r(2) b that by blast
qed

subsection \<open>What a batch covers\<close>

definition taken :: "origin_range list \<Rightarrow> device_id \<Rightarrow> nat" where
  "taken ranges d = sum_list (map (\<lambda>q. Suc (unat (or_last q)) - unat (or_first q)) (filter (\<lambda>q. or_device q = d) ranges))"

definition ops_of_range :: "('p \<Rightarrow> op option) \<Rightarrow> 'p row list \<Rightarrow> origin_range \<Rightarrow> op list" where
  "ops_of_range unpack t q = log_slice unpack t (or_device q) (unat (or_first q)) (unat (or_last q))"

definition owed_ok :: "origin_range list \<Rightarrow> bool" where
  "owed_ok gs \<longleftrightarrow> distinct (map or_device gs) \<and>
     (\<forall>g \<in> set gs. 1 \<le> unat (or_first g) \<and> or_first g \<le> or_last g \<and> unat (or_last g) < 2 ^ 63)"

definition runs_in :: "('p \<Rightarrow> op option) \<Rightarrow> 'p row list \<Rightarrow> origin_range list \<Rightarrow> bool" where
  "runs_in unpack ts ranges \<longleftrightarrow> length ts < 2 ^ 63 \<and>
    (\<forall>r \<in> set ranges. 1 \<le> unat (or_first r) \<and> or_first r \<le> or_last r \<and> unat (or_last r) \<le> length (dev_ops unpack (or_device r) ts))"

text \<open>Each run of the batch is a non-empty prefix of a run that is owed, and no origin comes twice.\<close>

definition batch_of :: "origin_range list \<Rightarrow> origin_range list \<Rightarrow> bool" where
  "batch_of gs ranges \<longleftrightarrow> distinct (map or_device ranges) \<and>
     (\<forall>q \<in> set ranges. \<exists>g \<in> set gs. or_device q = or_device g \<and> or_first q = or_first g \<and> or_first q \<le> or_last q \<and> or_last q \<le> or_last g)"

definition merge_inv ::
    "('p \<Rightarrow> op option) \<Rightarrow> 'p row list \<Rightarrow> origin_range list \<Rightarrow> owed_run list \<Rightarrow> op list \<Rightarrow> origin_range list \<Rightarrow> bool" where
  "merge_inv unpack t gs runs ops ranges \<longleftrightarrow> map rn_range runs = gs \<and> batch_of gs ranges \<and> runs_in unpack t ranges \<and>
     ops = concat (map (ops_of_range unpack t) ranges) \<and>
     (\<forall>r \<in> set runs. run_wf unpack t r \<and>
       todo unpack t r = log_slice unpack t (or_device (rn_range r)) (unat (or_first (rn_range r)) + taken ranges (or_device (rn_range r)))
         (unat (or_last (rn_range r))))"

definition merge_sorted :: "('p \<Rightarrow> op option) \<Rightarrow> 'p row list \<Rightarrow> owed_run list \<Rightarrow> op list \<Rightarrow> bool" where
  "merge_sorted unpack t runs ops \<longleftrightarrow> sorted (map o_hlc ops) \<and>
     (\<forall>r \<in> set runs. sorted (map o_hlc (todo unpack t r)) \<and> (\<forall>x \<in> set ops. \<forall>y \<in> set (todo unpack t r). o_hlc x \<le> o_hlc y))"

text \<open>The batch takes its origins in turn: where one run of it ends and the next begins, the stamps do not decrease. While
  the merge goes on, what every other origin has next is not older than what was taken last.\<close>

definition in_turn :: "('r \<Rightarrow> op list) \<Rightarrow> 'r list \<Rightarrow> bool" where
  "in_turn f = successively (\<lambda>p q. o_hlc (last (f p)) \<le> o_hlc (hd (f q)))"

definition merge_turns :: "('p \<Rightarrow> op option) \<Rightarrow> 'p row list \<Rightarrow> owed_run list \<Rightarrow> origin_range list \<Rightarrow> bool" where
  "merge_turns unpack t runs ranges \<longleftrightarrow> in_turn (ops_of_range unpack t) ranges \<and>
     (\<forall>r \<in> set runs. ranges \<noteq> [] \<longrightarrow> or_device (rn_range r) \<noteq> or_device (last ranges) \<longrightarrow> todo unpack t r \<noteq> [] \<longrightarrow>
       o_hlc (last (ops_of_range unpack t (last ranges))) \<le> o_hlc (hd (todo unpack t r)))"

lemma in_turn_extend:
  assumes ext: "extend_runs ranges d sq = Some ranges'" and one: "concat (map f ranges') = concat (map f ranges) @ [x]"
    and ne: "\<forall>q \<in> set ranges. f q \<noteq> []" and turn: "in_turn f ranges"
    and front: "ranges \<noteq> [] \<Longrightarrow> or_device (last ranges) \<noteq> d \<Longrightarrow> o_hlc (last (f (last ranges))) \<le> o_hlc x"
  shows "in_turn f ranges' \<and> last (f (last ranges')) = x \<and> or_device (last ranges') = d"
proof (cases "ranges \<noteq> [] \<and> or_device (last ranges) = d")
  case True
  then obtain qs q where q: "ranges = qs @ [q]" "or_device q = d" by (cases ranges rule: rev_cases) auto
  let ?q = "q\<lparr>or_last := sq\<rparr>"
  have r': "ranges' = qs @ [?q]" using ext q by (simp add: extend_runs_def)
  then have "f ?q = f q @ [x]" using one q(1) by simp
  moreover have "f q \<noteq> []" using ne q(1) by simp
  ultimately show ?thesis using turn q r' by (simp add: in_turn_def successively_append_iff)
next
  case False
  then have r': "ranges' = ranges @ [\<lparr>or_device = d, or_first = sq, or_last = sq\<rparr>]"
    using ext by (auto simp: extend_runs_def split: if_splits)
  then have "f \<lparr>or_device = d, or_first = sq, or_last = sq\<rparr> = [x]" using one by simp
  then show ?thesis using turn False front r' by (auto simp: in_turn_def successively_append_iff)
qed

lemma runs_in_nonempty: "runs_in unpack t ranges \<Longrightarrow> q \<in> set ranges \<Longrightarrow> ops_of_range unpack t q \<noteq> []"
  using slice_nonempty [of "unat (or_first q)" unpack t "or_device q" "unat (or_last q)"]
  by (fastforce simp: ops_of_range_def runs_in_def word_le_nat_alt)

lemma ranges_len_taken:
  assumes "\<forall>q \<in> set ranges. or_first q \<le> or_last q"
  shows "ranges_len ranges d = of_nat (taken ranges d)"
  using assms
proof (induction ranges)
  case (Cons q ranges)
  then have le: "unat (or_first q) \<le> unat (or_last q)" by (simp add: word_le_nat_alt)
  then have "(of_nat (Suc (unat (or_last q)) - unat (or_first q)) :: u64) = of_nat (unat (or_last q) - unat (or_first q) + 1)"
    by (simp add: Suc_diff_le)
  also have "\<dots> = or_last q - or_first q + 1" using le by (simp add: of_nat_diff)
  finally show ?case using Cons by (simp add: ranges_len_def taken_def)
qed (simp add: ranges_len_def taken_def)

lemma taken_none: "\<forall>q \<in> set ranges. or_device q \<noteq> d \<Longrightarrow> taken ranges d = 0"
  by (simp add: taken_def)

lemma taken_append [simp]: "taken (xs @ ys) d = taken xs d + taken ys d"
  by (simp add: taken_def)

lemma taken_one: "taken [q] d = (if or_device q = d then Suc (unat (or_last q)) - unat (or_first q) else 0)"
  by (simp add: taken_def)

text \<open>Taking the next operation of one origin.\<close>

lemma extend_batch:
  assumes b: "batch_of gs ranges" and g: "g \<in> set gs" "owed_ok gs"
    and more: "unat (or_first g) + taken ranges (or_device g) \<le> unat (or_last g)" "unat (or_last g) < 2 ^ 63"
      "unat (or_first g) + taken ranges (or_device g) \<le> length (dev_ops unpack (or_device g) t)" "runs_in unpack t ranges"
    and ext: "extend_runs ranges (or_device g) (or_first g + ranges_len ranges (or_device g)) = Some ranges'"
  shows "batch_of gs ranges'" "runs_in unpack t ranges'"
    "\<And>d. taken ranges' d = taken ranges d + (if d = or_device g then 1 else 0)"
    "concat (map (ops_of_range unpack t) ranges') = concat (map (ops_of_range unpack t) ranges) @
       log_slice unpack t (or_device g) (unat (or_first g) + taken ranges (or_device g)) (unat (or_first g) + taken ranges (or_device g))"
proof -
  let ?d = "or_device g"
  let ?k = "taken ranges ?d"
  let ?s = "or_first g + ranges_len ranges ?d"
  have "\<forall>q \<in> set ranges. or_first q \<le> or_last q" using b by (auto simp: batch_of_def)
  then have "?s = or_first g + of_nat ?k" by (simp add: ranges_len_taken)
  then have s: "unat ?s = unat (or_first g) + ?k" using unat_plus_word [of "or_first g" ?k] more by simp
  have g1: "1 \<le> unat (or_first g)" using g by (auto simp: owed_ok_def)
  have same: "q = g'" if "q \<in> set gs" "g' \<in> set gs" "or_device q = or_device g'" for q g'
    using that g(2) by (auto simp: owed_ok_def distinct_map dest: inj_onD)
  have sg: "?s \<le> or_last g" "or_first g \<le> ?s" using s more(1) by (simp_all add: word_le_nat_alt)
  have "batch_of gs ranges' \<and> runs_in unpack t ranges' \<and> (\<forall>d. taken ranges' d = taken ranges d + (if d = or_device g then 1 else 0)) \<and>
    concat (map (ops_of_range unpack t) ranges') = concat (map (ops_of_range unpack t) ranges) @
       log_slice unpack t ?d (unat (or_first g) + ?k) (unat (or_first g) + ?k)"
  proof (cases "ranges \<noteq> [] \<and> or_device (last ranges) = ?d")
    case True
    then obtain qs q where q: "ranges = qs @ [q]" "or_device q = ?d" by (cases ranges rule: rev_cases) auto
    then have r': "ranges' = qs @ [q\<lparr>or_last := ?s\<rparr>]" using ext by (simp add: extend_runs_def)
    have "or_device q \<notin> or_device ` set qs" using b q(1) by (simp add: batch_of_def)
    then have "\<forall>p \<in> set qs. or_device p \<noteq> ?d" unfolding q(2) by (metis imageI)
    then have k: "?k = Suc (unat (or_last q)) - unat (or_first q)" using q by (simp add: taken_none taken_one)
    obtain g' where g': "g' \<in> set gs" "or_device q = or_device g'" "or_first q = or_first g'" "or_first q \<le> or_last q"
      using b q(1) by (auto simp: batch_of_def)
    have "g' = g" using g'(1) g(1) by (rule same) (simp only: q(2) flip: g'(2))
    then have f: "or_first q = or_first g" "unat (or_first q) \<le> unat (or_last q)" using g'(3,4) by (simp_all add: word_le_nat_alt)
    have sl: "unat ?s = Suc (unat (or_last q))" using s k f by simp
    have "batch_of gs ranges'" using b g(1) q sg f(1) by (auto simp: r' batch_of_def)
    moreover have "runs_in unpack t ranges'" using more(3,4) q f(1) sg(2) g1 s by (auto simp: r' runs_in_def)
    moreover have "taken ranges' d = taken ranges d + (if d = or_device g then 1 else 0)" for d
      using q f sl by (cases "d = or_device g") (simp_all add: r' taken_one Suc_diff_le)
    moreover have e: "unat (or_first g) + ?k = Suc (unat (or_last q))" using sl s by simp
    have "log_slice unpack t ?d (unat (or_first g)) (Suc (unat (or_last q))) =
        log_slice unpack t ?d (unat (or_first g)) (unat (or_last q)) @ log_slice unpack t ?d (Suc (unat (or_last q))) (Suc (unat (or_last q)))"
      using f g1 by (intro slice_split) auto
    then have "concat (map (ops_of_range unpack t) ranges') = concat (map (ops_of_range unpack t) ranges) @
       log_slice unpack t ?d (unat (or_first g) + ?k) (unat (or_first g) + ?k)"
      unfolding e using q f(1) sl by (simp add: r' ops_of_range_def)
    ultimately show ?thesis by blast
  next
    case False
    then have none: "\<forall>q \<in> set ranges. or_device q \<noteq> ?d" and r': "ranges' = ranges @ [\<lparr>or_device = ?d, or_first = ?s, or_last = ?s\<rparr>]"
      using ext by (auto simp: extend_runs_def list_ex_iff split: if_splits)
    have k: "?k = 0" using none by (rule taken_none)
    then have fs: "?s = or_first g" using s by (simp add: word_unat_eq_iff)
    have "batch_of gs ranges'" using b g(1) none sg by (auto simp: r' batch_of_def fs)
    moreover have "runs_in unpack t ranges'" using more(3,4) g1 k by (auto simp: r' runs_in_def fs)
    moreover have "taken ranges' d = taken ranges d + (if d = or_device g then 1 else 0)" for d
      by (simp add: r' taken_one)
    moreover have "concat (map (ops_of_range unpack t) ranges') = concat (map (ops_of_range unpack t) ranges) @
       log_slice unpack t ?d (unat (or_first g) + ?k) (unat (or_first g) + ?k)"
      by (simp add: r' ops_of_range_def k fs)
    ultimately show ?thesis by blast
  qed
  then show "batch_of gs ranges'" "runs_in unpack t ranges'" "\<And>d. taken ranges' d = taken ranges d + (if d = or_device g then 1 else 0)"
    "concat (map (ops_of_range unpack t) ranges') = concat (map (ops_of_range unpack t) ranges) @
       log_slice unpack t ?d (unat (or_first g) + ?k) (unat (or_first g) + ?k)" by blast+
qed

subsection \<open>The whole batch\<close>

lemma list_all2_same:
  assumes "list_all2 (read_more unpack t) runs runs'"
  shows "map rn_range runs' = map rn_range runs" "\<forall>r \<in> set runs'. read_more unpack t r r \<or> True"
    "\<forall>r' \<in> set runs'. \<exists>r \<in> set runs. read_more unpack t r r'" "\<forall>r \<in> set runs. \<exists>r' \<in> set runs'. read_more unpack t r r'"
  using assms by (induction rule: list_all2_induct) (auto simp: read_more_def)

lemma merge_inv_read:
  assumes "merge_inv unpack t gs runs ops ranges" "list_all2 (read_more unpack t) runs runs'"
  shows "merge_inv unpack t gs runs' ops ranges" "merge_sorted unpack t runs ops \<Longrightarrow> merge_sorted unpack t runs' ops"
    "merge_turns unpack t runs ranges \<Longrightarrow> merge_turns unpack t runs' ranges"
proof -
  note same = list_all2_same [OF assms(2)]
  show "merge_inv unpack t gs runs' ops ranges" using assms(1) same(1,3) by (fastforce simp: merge_inv_def read_more_def)
  show "merge_sorted unpack t runs ops \<Longrightarrow> merge_sorted unpack t runs' ops"
    using same(3) by (fastforce simp: merge_sorted_def read_more_def)
  show "merge_turns unpack t runs ranges \<Longrightarrow> merge_turns unpack t runs' ranges"
    using same(3) by (fastforce simp: merge_turns_def read_more_def)
qed

lemma sorted_hd_le: "sorted (map f xs) \<Longrightarrow> x \<in> set xs \<Longrightarrow> f (hd xs) \<le> f x"
  by (cases xs) auto

text \<open>One pass of the loop.\<close>

lemma merge_step:
  assumes ok: "log_ok unpack t" "owed_ok gs" and inv: "merge_inv unpack t gs runs ops ranges"
    and k: "k < length runs" "rn_buf (runs ! k) \<noteq> []"
    and ext: "extend_runs ranges (or_device (rn_range (runs ! k)))
      (or_first (rn_range (runs ! k)) + ranges_len ranges (or_device (rn_range (runs ! k)))) = Some ranges'"
    and runs': "runs' = runs[k := (runs ! k)\<lparr>rn_buf := tl (rn_buf (runs ! k))\<rparr>]" and ops': "ops' = ops @ take 1 (rn_buf (runs ! k))"
  shows "merge_inv unpack t gs runs' ops' ranges'" "length ops' = Suc (length ops)"
    "merge_sorted unpack t runs ops \<Longrightarrow> beats runs (o_hlc (hd (rn_buf (runs ! k)))) \<Longrightarrow> \<forall>r \<in> set runs. rn_buf r = [] \<longrightarrow> todo unpack t r = [] \<Longrightarrow>
      merge_sorted unpack t runs' ops'"
    "merge_turns unpack t runs ranges \<Longrightarrow> beats runs (o_hlc (hd (rn_buf (runs ! k)))) \<Longrightarrow> \<forall>r \<in> set runs. rn_buf r = [] \<longrightarrow> todo unpack t r = [] \<Longrightarrow>
      merge_turns unpack t runs' ranges'"
proof -
  let ?r = "runs ! k"
  let ?g = "rn_range ?r"
  let ?d = "or_device ?g"
  let ?n = "unat (or_first ?g) + taken ranges ?d"
  have r: "?r \<in> set runs" using k by simp
  have g: "?g \<in> set gs" using r inv by (auto simp: merge_inv_def)
  have wf: "run_wf unpack t ?r" and td: "todo unpack t ?r = log_slice unpack t ?d ?n (unat (or_last ?g))" using inv r by (auto simp: merge_inv_def)
  obtain x xs where buf: "rn_buf ?r = x # xs" using k(2) by (cases "rn_buf ?r") auto
  have tdr: "todo unpack t ?r = x # todo unpack t (?r\<lparr>rn_buf := xs\<rparr>)" by (simp add: todo_def buf)
  then have "log_slice unpack t ?d ?n (unat (or_last ?g)) \<noteq> []" using td by simp
  then have le: "?n \<le> unat (or_last ?g)" using log_slice_empty not_le by blast
  have n1: "1 \<le> ?n" using ok(2) g by (auto simp: owed_ok_def)
  have small: "unat (or_last ?g) < 2 ^ 63" using wf by (simp add: run_wf_def)
  have here: "?n \<le> length (dev_ops unpack ?d t)"
    using \<open>log_slice unpack t ?d ?n (unat (or_last ?g)) \<noteq> []\<close> slice_nonempty [OF n1] by blast
  have "log_slice unpack t ?d ?n (unat (or_last ?g)) = log_slice unpack t ?d ?n ?n @ log_slice unpack t ?d (Suc ?n) (unat (or_last ?g))"
    using n1 le by (intro slice_split) simp_all
  moreover have "length (log_slice unpack t ?d ?n ?n) = 1" using n1 here by (subst length_log_slice) simp_all
  ultimately have one: "log_slice unpack t ?d ?n ?n = [x]" "todo unpack t (?r\<lparr>rn_buf := xs\<rparr>) = log_slice unpack t ?d (Suc ?n) (unat (or_last ?g))"
    using td tdr by (auto simp: length_Suc_conv)
  have gs: "map rn_range runs = gs" "batch_of gs ranges" "runs_in unpack t ranges" "ops = concat (map (ops_of_range unpack t) ranges)" using inv by (simp_all add: merge_inv_def)
  note eb = extend_batch [OF gs(2) g ok(2) le small here gs(3) ext]
  have same: "or_device (rn_range (runs ! j)) \<noteq> ?d" if "j < length runs" "j \<noteq> k" for j
  proof -
    have "distinct (map (or_device \<circ> rn_range) runs)" using ok(2) gs(1) by (auto simp: owed_ok_def simp flip: map_map)
    then show ?thesis using that k(1) by (auto simp: distinct_conv_nth)
  qed
  have rs: "(\<exists>j < length runs. j \<noteq> k \<and> q = runs ! j) \<or> q = ?r\<lparr>rn_buf := xs\<rparr>" if qin: "q \<in> set runs'" for q
  proof -
    obtain i where i: "i < length runs'" "q = runs' ! i" using qin unfolding in_set_conv_nth by blast
    then show ?thesis using buf unfolding runs' by (cases "i = k") auto
  qed
  show "merge_inv unpack t gs runs' ops' ranges'"
  proof -
    have "map rn_range runs' = gs" using gs(1) k(1) by (auto simp: runs' map_update list_update_same_conv)
    moreover have "ops' = concat (map (ops_of_range unpack t) ranges')" using eb(4) gs(4) one(1) buf by (simp add: ops')
    moreover have "run_wf unpack t q \<and> todo unpack t q = log_slice unpack t (or_device (rn_range q))
        (unat (or_first (rn_range q)) + taken ranges' (or_device (rn_range q))) (unat (or_last (rn_range q)))" if q: "q \<in> set runs'" for q
      using rs [OF q]
    proof (elim disjE exE conjE)
      fix j assume j: "j < length runs" "j \<noteq> k" "q = runs ! j"
      then have "q \<in> set runs" by simp
      then show ?thesis using inv same [OF j(1,2)] j(3) by (simp add: merge_inv_def eb(3))
    next
      assume "q = ?r\<lparr>rn_buf := xs\<rparr>"
      then show ?thesis using wf one(2) by (simp add: run_wf_def eb(3))
    qed
    ultimately show ?thesis using eb(1,2) by (simp add: merge_inv_def)
  qed
  show "length ops' = Suc (length ops)" using buf by (simp add: ops')
  show "merge_turns unpack t runs' ranges'" if s: "merge_turns unpack t runs ranges" and b: "beats runs (o_hlc (hd (rn_buf ?r)))"
    and e: "\<forall>r \<in> set runs. rn_buf r = [] \<longrightarrow> todo unpack t r = []"
  proof -
    have "o_hlc x \<le> o_hlc (hd (todo unpack t q))" if q: "q \<in> set runs" "todo unpack t q \<noteq> []" for q
      using b e q buf by (cases "rn_buf q") (auto simp: beats_def todo_def)
    moreover have "in_turn (ops_of_range unpack t) ranges' \<and> last (ops_of_range unpack t (last ranges')) = x \<and> or_device (last ranges') = ?d"
    proof (rule in_turn_extend [OF ext])
      show "concat (map (ops_of_range unpack t) ranges') = concat (map (ops_of_range unpack t) ranges) @ [x]" using eb(4) one(1) by simp
      show "\<forall>q \<in> set ranges. ops_of_range unpack t q \<noteq> []" using runs_in_nonempty [OF gs(3)] by blast
      show "in_turn (ops_of_range unpack t) ranges" using s by (simp add: merge_turns_def)
      show "o_hlc (last (ops_of_range unpack t (last ranges))) \<le> o_hlc x" if "ranges \<noteq> []" "or_device (last ranges) \<noteq> ?d"
        using s r that tdr by (force simp: merge_turns_def)
    qed
    ultimately show ?thesis unfolding merge_turns_def using rs by fastforce
  qed
  show "merge_sorted unpack t runs' ops'" if s: "merge_sorted unpack t runs ops" and b: "beats runs (o_hlc (hd (rn_buf ?r)))"
    and e: "\<forall>r \<in> set runs. rn_buf r = [] \<longrightarrow> todo unpack t r = []"
  proof -
    have lo: "o_hlc x \<le> o_hlc y" if "q \<in> set runs" "y \<in> set (todo unpack t q)" for q y
    proof -
      have "rn_buf q \<noteq> []" using e that by auto
      then have "o_hlc x \<le> o_hlc (hd (todo unpack t q))" using b that(1) buf by (simp add: beats_def todo_def)
      also have "\<dots> \<le> o_hlc y" using s that by (intro sorted_hd_le) (auto simp: merge_sorted_def)
      finally show ?thesis .
    qed
    have q: "\<exists>p \<in> set runs. set (todo unpack t q) \<subseteq> set (todo unpack t p) \<and> sorted (map o_hlc (todo unpack t q))" if qin: "q \<in> set runs'" for q
    proof -
      obtain p where p: "p \<in> set runs" "todo unpack t q = todo unpack t p \<or> todo unpack t q = tl (todo unpack t p)"
        using rs [OF qin] tdr r by (metis list.sel(3) nth_mem)
      have "sorted (map o_hlc (todo unpack t p))" using s p(1) by (simp add: merge_sorted_def)
      then show ?thesis using p by (intro bexI [of _ p]) (cases "todo unpack t p"; auto)+
    qed
    have x: "\<forall>z \<in> set ops. o_hlc z \<le> o_hlc x" using s r tdr by (simp add: merge_sorted_def)
    then have "sorted (map o_hlc ops')" using s buf by (simp add: merge_sorted_def ops' sorted_append)
    moreover have "o_hlc z \<le> o_hlc y" if z: "q \<in> set runs'" "z \<in> set ops'" "y \<in> set (todo unpack t q)" for q z y
    proof -
      obtain p where p: "p \<in> set runs" "y \<in> set (todo unpack t p)" using q [OF z(1)] z(3) by blast
      have "z = x \<or> z \<in> set ops" using z(2) buf by (auto simp: ops')
      then show ?thesis using lo [OF p] s p by (auto simp: merge_sorted_def)
    qed
    ultimately show ?thesis using q by (auto simp: merge_sorted_def)
  qed
qed

definition logs_sorted :: "('p \<Rightarrow> op option) \<Rightarrow> 'p row list \<Rightarrow> bool" where
  "logs_sorted unpack t \<longleftrightarrow> (\<forall>d. sorted (map o_hlc (dev_ops unpack d t)))"

lemma merge_loop_ok:
  assumes ok: "log_ok unpack t" "owed_ok gs"
    and inv: "merge_inv unpack t gs runs ops ranges" "logs_sorted unpack t \<longrightarrow> merge_sorted unpack t runs ops"
      "merge_turns unpack t runs ranges" "length ops \<le> MAX_OPS_PER_BATCH"
  shows "\<exists>ops' ranges'. merge_loop unpack t runs ops ranges = Some (Inr (ops', ranges')) \<and> batch_of gs ranges' \<and> runs_in unpack t ranges' \<and>
    ops' = concat (map (ops_of_range unpack t) ranges') \<and> length ops' \<le> MAX_OPS_PER_BATCH \<and>
    in_turn (ops_of_range unpack t) ranges' \<and> (logs_sorted unpack t \<longrightarrow> sorted (map o_hlc ops')) \<and> length ops \<le> length ops' \<and>
    (ops' = [] \<longrightarrow> (\<forall>r \<in> set runs. todo unpack t r = []))"
  using inv
proof (induction "MAX_OPS_PER_BATCH - length ops" arbitrary: runs ops ranges rule: less_induct)
  case less
  have wf: "\<forall>r \<in> set runs. run_wf unpack t r" using less.prems(1) by (simp add: merge_inv_def)
  have here: "batch_of gs ranges \<and> runs_in unpack t ranges \<and> ops = concat (map (ops_of_range unpack t) ranges) \<and> length ops \<le> MAX_OPS_PER_BATCH \<and>
      in_turn (ops_of_range unpack t) ranges \<and> (logs_sorted unpack t \<longrightarrow> sorted (map o_hlc ops))"
    using less.prems by (simp add: merge_inv_def merge_sorted_def merge_turns_def)
  obtain runs' b where lw: "lowest unpack t runs = Inr (runs', b)" "list_all2 (read_more unpack t) runs runs'"
    "case b of None \<Rightarrow> \<forall>r \<in> set runs'. rn_buf r = []
     | Some k \<Rightarrow> k < length runs' \<and> rn_buf (runs' ! k) \<noteq> [] \<and> beats runs' (o_hlc (hd (rn_buf (runs' ! k))))"
    by (rule lowest_ok [OF ok(1) wf])
  note read = merge_inv_read [OF less.prems(1) lw(2)] and same = list_all2_same [OF lw(2)]
  show ?case
  proof (cases "length ops < MAX_OPS_PER_BATCH")
    case False
    then have "ops \<noteq> []" by (auto simp: MAX_OPS_PER_BATCH_def)
    moreover have "merge_loop unpack t runs ops ranges = Some (Inr (ops, ranges))" using False by (subst merge_loop.simps) simp
    ultimately show ?thesis using here by blast
  next
    case True
    show ?thesis
    proof (cases b)
      case None
      have "todo unpack t r = []" if "r \<in> set runs" for r
        using same(4) lw(3) None that by (fastforce simp: read_more_def)
      moreover have "merge_loop unpack t runs ops ranges = Some (Inr (ops, ranges))"
        using True None lw(1) by (subst merge_loop.simps) simp
      ultimately show ?thesis using here by blast
    next
      case (Some k)
      then have k: "k < length runs'" "rn_buf (runs' ! k) \<noteq> []" "beats runs' (o_hlc (hd (rn_buf (runs' ! k))))" using lw(3) by simp_all
      let ?g = "rn_range (runs' ! k)"
      show ?thesis
      proof (cases "extend_runs ranges (or_device ?g) (or_first ?g + ranges_len ranges (or_device ?g))")
        case none: None
        then have "ranges \<noteq> []" by (auto simp: extend_runs_def split: if_splits)
        then obtain q where q: "q \<in> set ranges" by (cases ranges) auto
        then have "ops_of_range unpack t q \<noteq> []" using here runs_in_nonempty by blast
        then have "ops \<noteq> []" using here q by auto
        moreover have "merge_loop unpack t runs ops ranges = Some (Inr (ops, ranges))"
          using True Some none lw(1) by (subst merge_loop.simps) (simp add: Let_def)
        ultimately show ?thesis using here by blast
      next
        case ext: (Some ranges')
        let ?runs = "runs'[k := (runs' ! k)\<lparr>rn_buf := tl (rn_buf (runs' ! k))\<rparr>]"
        let ?ops = "ops @ take 1 (rn_buf (runs' ! k))"
        note st = merge_step [OF ok read(1) k(1,2) ext refl refl]
        have dry: "\<forall>r \<in> set runs'. rn_buf r = [] \<longrightarrow> todo unpack t r = []" using same(3) by (auto simp: read_more_def)
        then have "logs_sorted unpack t \<longrightarrow> merge_sorted unpack t ?runs ?ops" using st(3) read(2) less.prems(2) k(3) by blast
        moreover have "merge_turns unpack t ?runs ranges'" using st(4) [OF read(3) [OF less.prems(3)] k(3) dry] .
        moreover have "MAX_OPS_PER_BATCH - length ?ops < MAX_OPS_PER_BATCH - length ops" "length ?ops \<le> MAX_OPS_PER_BATCH"
          using st(2) True by simp_all
        ultimately obtain ops' ranges'' where
          "merge_loop unpack t ?runs ?ops ranges' = Some (Inr (ops', ranges'')) \<and> batch_of gs ranges'' \<and> runs_in unpack t ranges'' \<and>
            ops' = concat (map (ops_of_range unpack t) ranges'') \<and> length ops' \<le> MAX_OPS_PER_BATCH \<and>
            in_turn (ops_of_range unpack t) ranges'' \<and> (logs_sorted unpack t \<longrightarrow> sorted (map o_hlc ops'))" "length ?ops \<le> length ops'"
          using less.hyps [OF _ st(1)] by blast
        moreover from this(2) have "ops' \<noteq> []" "length ops \<le> length ops'" using st(2) by auto
        moreover have "merge_loop unpack t runs ops ranges = merge_loop unpack t ?runs ?ops ranges'"
          using True Some ext lw(1) by (subst merge_loop.simps) (simp add: Let_def)
        ultimately show ?thesis by auto
      qed
    qed
  qed
qed

lemma merge_runs_batch:
  assumes "log_ok unpack t" "owed_ok runs"
  shows "\<exists>ops ranges. merge_runs unpack t runs = Some (Inr (ops, ranges)) \<and> batch_of runs ranges \<and> runs_in unpack t ranges \<and>
    ops = concat (map (ops_of_range unpack t) ranges) \<and> length ops \<le> MAX_OPS_PER_BATCH \<and>
    in_turn (ops_of_range unpack t) ranges \<and> (logs_sorted unpack t \<longrightarrow> sorted (map o_hlc ops)) \<and>
    (ops = [] \<longrightarrow> (\<forall>r \<in> set runs. ops_of_range unpack t r = []))"
proof -
  let ?start = "map (\<lambda>r. \<lparr>rn_range = r, rn_next = or_first r, rn_buf = []\<rparr>) runs"
  have wf: "\<forall>r \<in> set ?start. run_wf unpack t r" using assms(2) by (auto simp: run_wf_def owed_ok_def word_le_nat_alt)
  moreover have "runs_in unpack t []" using assms(1) by (simp add: runs_in_def log_ok_def)
  ultimately have inv: "merge_inv unpack t runs ?start [] []"
    by (auto simp: merge_inv_def batch_of_def comp_def todo_def taken_none)
  have "sorted (map o_hlc (log_slice unpack t d a b))" if "logs_sorted unpack t" for d a b
    using that by (simp add: log_slice_def logs_sorted_def sorted_wrt_take sorted_wrt_drop flip: take_map drop_map)
  then have "logs_sorted unpack t \<longrightarrow> merge_sorted unpack t ?start []" by (simp add: merge_sorted_def todo_def)
  moreover have "merge_turns unpack t ?start []" by (simp add: merge_turns_def in_turn_def)
  ultimately show ?thesis using merge_loop_ok [OF assms inv] by (auto simp: merge_runs_def todo_def ops_of_range_def)
qed

lemma unsigned_some: "sign_ops sign ops = None \<longleftrightarrow> (\<exists>o1 \<in> set ops. sign o1 = None)"
  unfolding sign_ops_def by (induction ops) (auto split: option.split)

lemma batch_none:
  assumes "owed_ok runs" "batch_of runs ranges" "runs_in unpack t ranges" "\<forall>r \<in> set runs. ops_of_range unpack t r = []"
  shows "ranges = []"
proof (rule ccontr)
  assume "ranges \<noteq> []"
  then obtain q where q: "q \<in> set ranges" by (cases ranges) auto
  then obtain g where g: "g \<in> set runs" "or_device q = or_device g" "or_first q = or_first g" "or_first q \<le> or_last q" "or_last q \<le> or_last g"
    using assms(2) by (auto simp: batch_of_def)
  have "1 \<le> unat (or_first g)" using assms(1) g(1) by (auto simp: owed_ok_def)
  moreover have "unat (or_first g) \<le> unat (or_last g)" using g(3-5) by (simp add: word_le_nat_alt)
  moreover have "unat (or_first g) \<le> length (dev_ops unpack (or_device g) t)"
    using assms(3) q g(2,3) by (auto simp: runs_in_def word_le_nat_alt)
  ultimately have "ops_of_range unpack t g \<noteq> []" unfolding ops_of_range_def by (subst slice_nonempty) simp_all
  then show False using assms(4) g(1) by blast
qed

lemma signed_all: "\<forall>o1. sign o1 \<noteq> None \<Longrightarrow> \<exists>sigs. sign_ops sign ops = Some sigs"
  unfolding sign_ops_def by (induction ops) (auto split: option.split)

text \<open>C7: a batch merged from the log is honest, bounded, in turn and makes progress, whatever runs a peer asks for and whether or
  not signing succeeds. The merge ends without an error, in at most 1000 operations; each run of the batch is a non-empty prefix
  of a wanted one that the log holds, and no origin comes twice; its operations are exactly those its runs number, in that order.
  Within a run they keep the order of the device's log, and where one run ends and the next begins the stamps do not decrease; so
  the whole batch is in the order of its stamps where each device's log is. What is served is that batch with a
  signature for each operation; nothing is served exactly when the log holds nothing of what is wanted, or an operation of the
  batch cannot be signed.\<close>

theorem merged_batch:
  fixes sign :: "op \<Rightarrow> 's option"
  assumes "log_ok unpack t" "owed_ok runs"
  shows "\<exists>ops ranges.
    serve_merged sign unpack t w runs =
      Some (Inr (if ops = [] then None else map_option (\<lambda>sigs. (Ops w ops sigs ranges, ranges)) (sign_ops sign ops))) \<and>
    batch_of runs ranges \<and> runs_in unpack t ranges \<and> ops = concat (map (ops_of_range unpack t) ranges) \<and>
    length ops \<le> MAX_OPS_PER_BATCH \<and> in_turn (ops_of_range unpack t) ranges \<and>
    (sign_ops sign ops = None \<longleftrightarrow> (\<exists>o1 \<in> set ops. sign o1 = None)) \<and>
    (logs_sorted unpack t \<longrightarrow> sorted (map o_hlc ops)) \<and> (ops = [] \<longleftrightarrow> (\<forall>r \<in> set runs. ops_of_range unpack t r = []))"
proof -
  obtain ops ranges where m: "merge_runs unpack t runs = Some (Inr (ops, ranges))" "batch_of runs ranges" "runs_in unpack t ranges"
    "ops = concat (map (ops_of_range unpack t) ranges)" "length ops \<le> MAX_OPS_PER_BATCH" "in_turn (ops_of_range unpack t) ranges"
    "logs_sorted unpack t \<longrightarrow> sorted (map o_hlc ops)" "ops = [] \<longrightarrow> (\<forall>r \<in> set runs. ops_of_range unpack t r = [])"
    using merge_runs_batch [OF assms(1,2)] by blast
  moreover have "ops = []" if none: "\<forall>r \<in> set runs. ops_of_range unpack t r = []"
    using batch_none [OF assms(2) m(2,3) none] m(4) by simp
  ultimately have "ops = [] \<longleftrightarrow> (\<forall>r \<in> set runs. ops_of_range unpack t r = [])" by blast
  moreover have "serve_merged sign unpack t w runs =
      Some (Inr (if ops = [] then None else map_option (\<lambda>sigs. (Ops w ops sigs ranges, ranges)) (sign_ops sign ops)))"
    using m(1) by (simp add: serve_merged_def map_option_case)
  ultimately show ?thesis using m(2-7) unsigned_some by blast
qed

theorem merged_batch_witness:
  "\<exists>ops ranges. serve_merged (\<lambda>_. Some ()) Some two_rows 3 [\<lparr>or_device = 1, or_first = 1, or_last = 2\<rparr>] =
      Some (Inr (map_option (\<lambda>sigs. (Ops 3 ops sigs ranges, ranges)) (sign_ops (\<lambda>_. Some ()) ops))) \<and>
      sign_ops (\<lambda>_. Some ()) ops \<noteq> None \<and> ops \<noteq> [] \<and> length ops \<le> MAX_OPS_PER_BATCH \<and>
      ops = concat (map (ops_of_range Some two_rows) ranges) \<and> sorted (map o_hlc ops)"
proof -
  let ?run = "\<lparr>or_device = 1, or_first = 1, or_last = 2\<rparr>"
  have "owed_ok [?run]" by (simp add: owed_ok_def)
  moreover have "logs_sorted Some two_rows"
    by (simp add: logs_sorted_def two_rows_ok two_ops_def less_eq_hlc_def hlc_key_def)
  moreover have "ops_of_range Some two_rows ?run \<noteq> []" by (simp add: ops_of_range_def log_slice_def two_rows_ok two_ops_def)
  ultimately show ?thesis using merged_batch [OF two_rows_ok(1), of "[?run]" "\<lambda>_. Some ()" 3] by fastforce
qed

text \<open>A device's log need not be in the order of its stamps (ADR 0039), and then a batch is not either: the same two
  operations logged the other way round are served newest first.\<close>

definition late_rows :: "op row list" where
  "late_rows = [row_of 1 (two_ops ! 1) (two_ops ! 1) None 1, row_of 2 (two_ops ! 0) (two_ops ! 0) None 2]"

lemma batch_out_of_order:
  "\<exists>sigs ranges. serve_merged (\<lambda>_. Some ()) Some late_rows 3 [\<lparr>or_device = 1, or_first = 1, or_last = 2\<rparr>] =
      Some (Inr (Some (Ops 3 (rev two_ops) sigs ranges, ranges)))"
  "o_hlc (rev two_ops ! 1) < o_hlc (rev two_ops ! 0)"
proof -
  have "merge_runs Some late_rows [\<lparr>or_device = 1, or_first = 1, or_last = 2\<rparr>] =
      Some (Inr (rev two_ops, [\<lparr>or_device = 1, or_first = 1, or_last = 2\<rparr>]))"
    by code_simp
  then show "\<exists>sigs ranges. serve_merged (\<lambda>_. Some ()) Some late_rows 3 [\<lparr>or_device = 1, or_first = 1, or_last = 2\<rparr>] =
      Some (Inr (Some (Ops 3 (rev two_ops) sigs ranges, ranges)))"
    by (simp add: serve_merged_def sign_ops_def two_ops_def)
  show "o_hlc (rev two_ops ! 1) < o_hlc (rev two_ops ! 0)" by (simp add: two_ops_def less_hlc_def hlc_key_def)
qed

end
