(* ===== verification/SyncImport.thy ===== *)
theory SyncImport
  imports SyncServe "HOL-Library.Sublist"
begin

text \<open>
  Taking a peer's operations (\<open>txtodo-daemon\<close>): the rest of \<open>lan_apply.rs\<close>, \<open>held_ops.rs\<close>, \<open>sync_commit_gate.rs\<close> and
  \<open>lan_session_ops.rs\<close>. How one file's operations are committed (the file's actor, or the notes document's) is a parameter
  over the state of the workspace, as is the write that an earlier commit left owed; \<open>log_only\<close> is the one of them that
  only touches the log. Locks are taken by one caller at a time here; logging, the status display and the record of peers whose clock is ahead are left out.
\<close>

section \<open>Definitions\<close>

subsection \<open>Landing a batch\<close>

datatype 'r refusal = StoreRefused store_error | CommitRefused 'r

record ('w, 'p, 'r) shared =
  sh_rows :: "'w \<Rightarrow> 'p row list"
  sh_unpack :: "'p \<Rightarrow> op option"
  sh_commit :: "file_path \<Rightarrow> op list \<Rightarrow> bool \<Rightarrow> 'w \<Rightarrow> 'w \<times> ('r refusal + unit)"
  sh_flush :: "file_path \<Rightarrow> 'w \<Rightarrow> 'w"

definition device_keys_for :: "op list \<Rightarrow> 'k \<Rightarrow> (device_id \<rightharpoonup> 'k)" where
  "device_keys_for ops key = map_of (map (\<lambda>o1. (device (o_hlc o1), key)) ops)"

fun drop_held :: "('p \<Rightarrow> op option) \<Rightarrow> 'p row list \<Rightarrow> op list \<Rightarrow> store_error + op list" where
  "drop_held unpack t [] = Inr []"
| "drop_held unpack t (o1 # ops) =
    (case op_by_id unpack (o_id o1) t of Inl e \<Rightarrow> Inl e
     | Inr found \<Rightarrow> map_sum id (\<lambda>fresh. if found = None then o1 # fresh else fresh) (drop_held unpack t ops))"

definition log_only ::
    "(op \<Rightarrow> 'p option) \<Rightarrow> ('p \<Rightarrow> op option) \<Rightarrow> file_path \<Rightarrow> op list \<Rightarrow> bool \<Rightarrow> 'p row list \<Rightarrow> 'p row list \<times> ('r refusal + unit)" where
  "log_only pack unpack path ops defer t =
    (case drop_held unpack t ops of Inl e \<Rightarrow> (t, Inl (StoreRefused e))
     | Inr fresh \<Rightarrow>
         if fresh = [] then (t, Inr ())
         else (case append_with_source pack fresh (Some ''sync'') t of
             (t', Inl e) \<Rightarrow> (t', Inl (StoreRefused e)) | (t', Inr _) \<Rightarrow> (t', Inr ())))"

definition not_yet_stored :: "('w, 'p, 'r) shared \<Rightarrow> op list \<Rightarrow> 'w \<Rightarrow> 'r refusal + op list" where
  "not_yet_stored sh run w = map_sum StoreRefused id (drop_held (sh_unpack sh) (sh_rows sh w) run)"

definition same_file_runs :: "op list \<Rightarrow> (file_path \<times> op list) list" where
  "same_file_runs ops = fold (\<lambda>o1 runs.
     if runs \<noteq> [] \<and> fst (last runs) = o_file o1 then butlast runs @ [(o_file o1, snd (last runs) @ [o1])]
     else runs @ [(o_file o1, [o1])]) ops []"

record 'r landed =
  ld_ops :: nat
  ld_files :: "file_path list"
  ld_refused :: "(file_path \<times> 'r refusal) option"

definition commit_new_ops :: "('w, 'p, 'r) shared \<Rightarrow> file_path \<Rightarrow> op list \<Rightarrow> bool \<Rightarrow> 'w \<Rightarrow> 'w \<times> ('r refusal + unit)" where
  "commit_new_ops sh path run defer w =
    (case not_yet_stored sh run w of Inl e \<Rightarrow> (w, Inl e)
     | Inr fresh \<Rightarrow>
         if fresh = [] then ((if \<not> defer then sh_flush sh path w else w), Inr ())
         else sh_commit sh path fresh defer w)"

text \<open>The loop over the runs, with the files whose write is owed and what has landed.\<close>

fun commit_runs ::
    "('w, 'p, 'r) shared \<Rightarrow> (file_path \<times> op list) list \<Rightarrow> file_path list \<Rightarrow> 'r landed \<Rightarrow> 'w \<Rightarrow> 'w \<times> 'r landed" where
  "commit_runs sh [] owed l w = (w, l)"
| "commit_runs sh ((path, run) # rest) owed l w =
    (let defer = list_ex (\<lambda>(p, _). p = path) rest in
     case commit_new_ops sh path run defer w of
       (w', Inl why) \<Rightarrow> (fold (sh_flush sh) owed w', l\<lparr>ld_refused := Some (path, why)\<rparr>)
     | (w', Inr _) \<Rightarrow>
         commit_runs sh rest (if defer \<and> path \<notin> set owed then owed @ [path] else owed)
           (l\<lparr>ld_ops := ld_ops l + length run, ld_files := ld_files l @ [path]\<rparr>) w')"

definition commit_incoming_ops :: "('w, 'p, 'r) shared \<Rightarrow> op list \<Rightarrow> 'w \<Rightarrow> 'w \<times> 'r landed" where
  "commit_incoming_ops sh ops w = commit_runs sh (same_file_runs ops) [] \<lparr>ld_ops = 0, ld_files = [], ld_refused = None\<rparr> w"

fun landed_loop :: "origin_range list \<Rightarrow> u64 \<Rightarrow> origin_range list" where
  "landed_loop [] left = []"
| "landed_loop (r # rs) left =
    (if left = 0 then []
     else let tk = min (or_last r - or_first r + 1) left
          in \<lparr>or_device = or_device r, or_first = or_first r, or_last = or_first r + tk - 1\<rparr> # landed_loop rs (left - tk))"

definition landed_ranges :: "origin_range list \<Rightarrow> nat \<Rightarrow> origin_range list" where
  "landed_ranges ranges landed = landed_loop ranges (if landed < 2 ^ 64 then of_nat landed else - 1)"

subsection \<open>The gate\<close>

definition follows_store_heads :: "'p row list \<Rightarrow> origin_range list \<Rightarrow> bool" where
  "follows_store_heads t ranges = list_all (\<lambda>r. or_first r \<le> saturating_add (head_of t (or_device r)) 1) ranges"

subsection \<open>A batch of one workspace\<close>

datatype 's refused = OutOfStep "'s message option" | Fatal

definition holding_ack :: "workspace_id \<Rightarrow> session \<Rightarrow> 's message \<Rightarrow> 's message option" where
  "holding_ack w s msg =
    (case (msg, map_of (ss_workspaces s) w) of
       (Ops _ _ _ ranges, Some ws) \<Rightarrow>
         let held = fold (\<lambda>r held.
               let head = head_in (ws_heads ws) (or_device r) in
               if head \<ge> or_first r \<and> \<not> list_ex (\<lambda>h. or_device h = or_device r) held
               then held @ [\<lparr>or_device = or_device r, or_first = 1, or_last = head\<rparr>] else held) ranges []
         in if held = [] then None else Some (Ack w held)
     | _ \<Rightarrow> None)"

definition ops_or_refuse ::
    "(op \<Rightarrow> 's \<Rightarrow> 'k \<Rightarrow> 'c + unit) \<Rightarrow> workspace_id \<Rightarrow> 'k \<Rightarrow> 'p row list \<Rightarrow> 's message \<Rightarrow> session \<Rightarrow>
     session \<times> ('s refused + op list)" where
  "ops_or_refuse verify w key t msg s =
    (let keys = (case msg of Ops _ ops _ _ \<Rightarrow> device_keys_for ops key | _ \<Rightarrow> Map.empty);
         s1 = fst (session_catch_up w (store_heads t) s :: session \<times> ('c session_error + unit))
     in case session_on_ops verify w msg keys s1 of
          (s2, Inr ops) \<Rightarrow> (s2, Inr ops)
        | (s2, Inl (GapRefused g)) \<Rightarrow> (s2, Inl (OutOfStep (holding_ack w s2 msg)))
        | (s2, Inl e) \<Rightarrow> (s2, Inl Fatal))"

definition commit_and_ack ::
    "('w, 'p, 'r) shared \<Rightarrow> workspace_id \<Rightarrow> op list \<Rightarrow> origin_range list \<Rightarrow> session \<Rightarrow> 'w \<Rightarrow> session \<times> 'w \<times> 's message option" where
  "commit_and_ack sh w ops ranges s wd =
    (if \<not> follows_store_heads (sh_rows sh wd) ranges then (s, wd, None)
     else
       let (wd', l) = commit_incoming_ops sh ops wd in
       case session_committed w (landed_ranges ranges (ld_ops l)) s :: session \<times> (unit session_error + 's message) of
         (s', Inr ack) \<Rightarrow> (s', wd', Some ack)
       | (s', Inl e) \<Rightarrow> (s', wd', None))"

text \<open>What is sent back, and whether the connection carries on; sending is taken to succeed.\<close>

definition handle_ops ::
    "(op \<Rightarrow> 's \<Rightarrow> 'k \<Rightarrow> 'c + unit) \<Rightarrow> ('w, 'p, 'r) shared \<Rightarrow> workspace_id \<Rightarrow> 'k \<Rightarrow> 's message \<Rightarrow> origin_range list \<Rightarrow>
     session \<Rightarrow> 'w \<Rightarrow> session \<times> 'w \<times> 's message option \<times> bool" where
  "handle_ops verify sh w key msg ranges s wd =
    (case ops_or_refuse verify w key (sh_rows sh wd) msg s of
       (s', Inl (OutOfStep reply)) \<Rightarrow> (s', wd, reply, True)
     | (s', Inl Fatal) \<Rightarrow> (s', wd, None, False)
     | (s', Inr ops) \<Rightarrow>
         let (s2, wd2, reply) = commit_and_ack sh w ops ranges s' wd in (s2, wd2, reply, True))"

section \<open>What a batch leaves in the log\<close>

text \<open>What \<open>sh_commit\<close> does where no write fails after the store has the run and no other operation is logged meanwhile: fresh
  operations land as a whole or not at all, and a write that was owed does not touch the log. The actors promise less when a
  write fails late; \<open>SyncCommit\<close> has their promise.\<close>

definition lands :: "('w, 'p, 'r) shared \<Rightarrow> bool" where
  "lands sh \<longleftrightarrow>
    (\<forall>f ops defer w w' res. log_ok (sh_unpack sh) (sh_rows sh w) \<longrightarrow> ops \<noteq> [] \<longrightarrow> distinct (map o_id ops) \<longrightarrow>
      o_id ` set ops \<inter> o_id ` set (log_of (sh_unpack sh) (sh_rows sh w)) = {} \<longrightarrow> length (sh_rows sh w) + length ops < 2 ^ 63 \<longrightarrow>
      sh_commit sh f ops defer w = (w', res) \<longrightarrow> log_ok (sh_unpack sh) (sh_rows sh w') \<and>
      log_of (sh_unpack sh) (sh_rows sh w') = log_of (sh_unpack sh) (sh_rows sh w) @ (case res of Inr _ \<Rightarrow> ops | Inl _ \<Rightarrow> [])) \<and>
    (\<forall>f w. sh_rows sh (sh_flush sh f w) = sh_rows sh w)"

definition never_refuses :: "('w, 'p, 'r) shared \<Rightarrow> bool" where
  "never_refuses sh \<longleftrightarrow>
    (\<forall>f ops defer w w' why. log_ok (sh_unpack sh) (sh_rows sh w) \<longrightarrow> ops \<noteq> [] \<longrightarrow> distinct (map o_id ops) \<longrightarrow>
      o_id ` set ops \<inter> o_id ` set (log_of (sh_unpack sh) (sh_rows sh w)) = {} \<longrightarrow> length (sh_rows sh w) + length ops < 2 ^ 63 \<longrightarrow>
      length ops \<le> MAX_APPEND_BATCH \<longrightarrow> sh_commit sh f ops defer w \<noteq> (w', Inl why))"

lemma lands_commit:
  assumes "lands sh" "log_ok (sh_unpack sh) (sh_rows sh w)" "ops \<noteq> []" "distinct (map o_id ops)"
    "o_id ` set ops \<inter> o_id ` set (log_of (sh_unpack sh) (sh_rows sh w)) = {}" "length (sh_rows sh w) + length ops < 2 ^ 63"
    "sh_commit sh f ops defer w = (w', res)"
  shows "log_ok (sh_unpack sh) (sh_rows sh w') \<and>
    log_of (sh_unpack sh) (sh_rows sh w') = log_of (sh_unpack sh) (sh_rows sh w) @ (case res of Inr _ \<Rightarrow> ops | Inl _ \<Rightarrow> [])"
  by (rule assms(1) [unfolded lands_def, THEN conjunct1, rule_format, OF assms(2-)])

lemma rows_flush: "lands sh \<Longrightarrow> sh_rows sh (sh_flush sh f w) = sh_rows sh w"
  unfolding lands_def by (elim conjE allE)

definition fresh_of :: "op list \<Rightarrow> op list \<Rightarrow> op list" where
  "fresh_of log ops = filter (\<lambda>o1. o_id o1 \<notin> o_id ` set log) ops"

lemma length_log_of [simp]: "length (log_of unpack t) = length t"
  by (simp add: log_of_def)

lemma length_dev_ops_le: "length (dev_ops unpack d t) \<le> length t"
  unfolding dev_ops_def by (rule le_trans [OF length_filter_le]) simp

lemma op_by_id_log:
  assumes "log_ok unpack t"
  obtains found where "op_by_id unpack i t = Inr found" "found = None \<longleftrightarrow> i \<notin> o_id ` set (log_of unpack t)"
proof (cases "List.find (\<lambda>r. rw_op_id r = i) t")
  case None
  then have "i \<notin> rw_op_id ` set t" by (auto simp: find_None_iff)
  then show thesis using that [of None] None log_ids [OF assms] by (simp add: op_by_id_def)
next
  case (Some r)
  then have r: "r \<in> set t" "rw_op_id r = i" by (auto simp: find_Some_iff)
  then have "decode_row unpack r = Inr \<lparr>sd_seq = rw_seq r, sd_op = row_op unpack r\<rparr>"
    using assms by (simp add: log_ok_def row_ok_op)
  moreover have "i \<in> rw_op_id ` set t" using r by blast
  ultimately show thesis using that Some log_ids [OF assms] by (simp add: op_by_id_def)
qed

lemma drop_held_ok: "log_ok unpack t \<Longrightarrow> drop_held unpack t ops = Inr (fresh_of (log_of unpack t) ops)"
proof (induction ops)
  case (Cons o1 ops)
  obtain found where "op_by_id unpack (o_id o1) t = Inr found" "found = None \<longleftrightarrow> o_id o1 \<notin> o_id ` set (log_of unpack t)"
    using op_by_id_log [OF Cons.prems] by metis
  then show ?case using Cons by (simp add: fresh_of_def)
qed (simp add: fresh_of_def)

lemma fresh_of_append: "distinct (map o_id (run @ rest)) \<Longrightarrow> fresh_of (log @ fresh_of log run) rest = fresh_of log rest"
  unfolding fresh_of_def by (intro filter_cong) (auto simp: rev_image_eqI)

lemma fresh_of_concat: "fresh_of log (xs @ ys) = fresh_of log xs @ fresh_of log ys"
  by (simp add: fresh_of_def)

lemma commit_new_ops_log:
  assumes "lands sh" "log_ok (sh_unpack sh) (sh_rows sh w)" "distinct (map o_id run)"
    "length (sh_rows sh w) + length run < 2 ^ 63" "commit_new_ops sh path run defer w = (w', res)"
  shows "log_ok (sh_unpack sh) (sh_rows sh w')"
    "log_of (sh_unpack sh) (sh_rows sh w') = log_of (sh_unpack sh) (sh_rows sh w) @
      (case res of Inr _ \<Rightarrow> fresh_of (log_of (sh_unpack sh) (sh_rows sh w)) run | Inl _ \<Rightarrow> [])"
proof -
  let ?log = "log_of (sh_unpack sh) (sh_rows sh w)"
  let ?fr = "fresh_of ?log run"
  have ny: "not_yet_stored sh run w = Inr ?fr" by (simp add: not_yet_stored_def drop_held_ok [OF assms(2)])
  have "log_ok (sh_unpack sh) (sh_rows sh w') \<and> log_of (sh_unpack sh) (sh_rows sh w') = ?log @ (case res of Inr _ \<Rightarrow> ?fr | Inl _ \<Rightarrow> [])"
  proof (cases "?fr = []")
    case True
    then show ?thesis using assms(2,5) ny rows_flush [OF assms(1)] by (auto simp: commit_new_ops_def split: if_splits)
  next
    case False
    have "distinct (map o_id ?fr)" using assms(3) by (simp add: fresh_of_def distinct_map_filter)
    moreover have "o_id ` set ?fr \<inter> o_id ` set ?log = {}" by (auto simp: fresh_of_def)
    moreover have "length ?fr \<le> length run" by (simp add: fresh_of_def)
    then have "length (sh_rows sh w) + length ?fr < 2 ^ 63" using assms(4) by simp
    moreover have "sh_commit sh path ?fr defer w = (w', res)" using assms(5) ny False by (simp add: commit_new_ops_def)
    ultimately show ?thesis by (rule lands_commit [OF assms(1,2) False])
  qed
  then show "log_ok (sh_unpack sh) (sh_rows sh w')"
    "log_of (sh_unpack sh) (sh_rows sh w') = ?log @ (case res of Inr _ \<Rightarrow> ?fr | Inl _ \<Rightarrow> [])" by simp_all
qed

lemma rows_fold_flush: "lands sh \<Longrightarrow> sh_rows sh (fold (sh_flush sh) fs w) = sh_rows sh w"
  by (induction fs arbitrary: w) (simp_all add: rows_flush)

lemma commit_runs_log:
  assumes "lands sh" "log_ok (sh_unpack sh) (sh_rows sh w)" "distinct (map o_id (concat (map snd runs)))"
    "length (sh_rows sh w) + length (concat (map snd runs)) < 2 ^ 63" "commit_runs sh runs owed l w = (w', l')"
  shows "\<exists>k \<le> length (concat (map snd runs)). ld_ops l' = ld_ops l + k \<and> log_ok (sh_unpack sh) (sh_rows sh w') \<and>
    log_of (sh_unpack sh) (sh_rows sh w') = log_of (sh_unpack sh) (sh_rows sh w) @
      fresh_of (log_of (sh_unpack sh) (sh_rows sh w)) (take k (concat (map snd runs))) \<and>
    (never_refuses sh \<longrightarrow> length (concat (map snd runs)) \<le> MAX_APPEND_BATCH \<longrightarrow> k = length (concat (map snd runs)))"
  using assms
proof (induction sh runs owed l w arbitrary: w' l' rule: commit_runs.induct)
  case (1 sh owed l w)
  then show ?case by (simp add: fresh_of_def)
next
  case (2 sh path run rest owed l w)
  let ?log = "\<lambda>w. log_of (sh_unpack sh) (sh_rows sh w)"
  let ?ops = "concat (map snd rest)"
  obtain w1 r where c: "commit_new_ops sh path run (list_ex (\<lambda>(p, _). p = path) rest) w = (w1, r)" by fastforce
  have d: "distinct (map o_id run)" "distinct (map o_id (run @ ?ops))" using "2.prems"(3) by simp_all
  have "length (sh_rows sh w) + length run < 2 ^ 63" using "2.prems"(4) by simp
  note c1 = commit_new_ops_log [OF "2.prems"(1,2) d(1) this c]
  show ?case
  proof (cases r)
    case (Inl why)
    then have "sh_commit sh path (fresh_of (?log w) run) (list_ex (\<lambda>(p, _). p = path) rest) w = (w1, Inl why)" "fresh_of (?log w) run \<noteq> []"
      using c drop_held_ok [OF "2.prems"(2)] by (auto simp: commit_new_ops_def not_yet_stored_def split: if_splits)
    moreover have "distinct (map o_id (fresh_of (?log w) run))" "o_id ` set (fresh_of (?log w) run) \<inter> o_id ` set (?log w) = {}"
      "length (fresh_of (?log w) run) \<le> length run"
      using d(1) by (auto simp: fresh_of_def distinct_map_filter)
    ultimately have "\<not> (never_refuses sh \<and> length (concat (map snd ((path, run) # rest))) \<le> MAX_APPEND_BATCH)"
      using "2.prems"(2,4) unfolding never_refuses_def by fastforce
    moreover have "sh_rows sh w' = sh_rows sh w1" "ld_ops l' = ld_ops l"
      using Inl "2.prems"(5) c rows_fold_flush [OF "2.prems"(1)] by (auto simp: Let_def)
    ultimately show ?thesis using c1 Inl by (intro exI [of _ 0]) (auto simp: fresh_of_def)
  next
    case (Inr u)
    let ?owed = "if list_ex (\<lambda>(p, _). p = path) rest \<and> path \<notin> set owed then owed @ [path] else owed"
    let ?l = "l\<lparr>ld_ops := ld_ops l + length run, ld_files := ld_files l @ [path]\<rparr>"
    have lg: "?log w1 = ?log w @ fresh_of (?log w) run" using c1(2) Inr by simp
    then have "length (?log w1) = length (?log w) + length (fresh_of (?log w) run)" by simp
    moreover have "length (fresh_of (?log w) run) \<le> length run" by (simp add: fresh_of_def)
    ultimately have "length (sh_rows sh w1) \<le> length (sh_rows sh w) + length run" by simp
    then have room: "length (sh_rows sh w1) + length ?ops < 2 ^ 63" using "2.prems"(4) by simp
    have rest: "commit_runs sh rest ?owed ?l w1 = (w', l')" using "2.prems"(5) c Inr by (simp add: Let_def)
    have "distinct (map o_id ?ops)" using d by simp
    from "2.IH" [OF refl c [symmetric] Inr "2.prems"(1) c1(1) this room rest] obtain k where
      "k \<le> length ?ops \<and> ld_ops l' = ld_ops ?l + k \<and> log_ok (sh_unpack sh) (sh_rows sh w') \<and>
        ?log w' = ?log w1 @ fresh_of (?log w1) (take k ?ops) \<and> (never_refuses sh \<longrightarrow> length ?ops \<le> MAX_APPEND_BATCH \<longrightarrow> k = length ?ops)" by (rule exE)
    then have k: "k \<le> length ?ops" "ld_ops l' = ld_ops ?l + k" "log_ok (sh_unpack sh) (sh_rows sh w')"
        "?log w' = ?log w1 @ fresh_of (?log w1) (take k ?ops)" "never_refuses sh \<longrightarrow> length ?ops \<le> MAX_APPEND_BATCH \<longrightarrow> k = length ?ops" by simp_all
    have "take (length run + k) (map o_id (run @ ?ops)) = map o_id (run @ take k ?ops)" by (simp add: take_map)
    then have "distinct (map o_id (run @ take k ?ops))" using d(2) distinct_take by metis
    then have "fresh_of (?log w1) (take k ?ops) = fresh_of (?log w) (take k ?ops)" unfolding lg by (rule fresh_of_append)
    then have "?log w' = ?log w @ fresh_of (?log w) (take (length run + k) (run @ ?ops))"
      unfolding k(4) lg by (simp add: fresh_of_concat)
    then show ?thesis using k by (intro exI [of _ "length run + k"]) auto
  qed
qed

lemma same_file_runs_concat: "concat (map snd (same_file_runs ops)) = ops"
proof -
  have "concat (map snd (fold (\<lambda>o1 runs.
     if runs \<noteq> [] \<and> fst (last runs) = o_file o1 then butlast runs @ [(o_file o1, snd (last runs) @ [o1])]
     else runs @ [(o_file o1, [o1])]) ops runs)) = concat (map snd runs) @ ops" for runs
  proof (induction ops arbitrary: runs)
    case (Cons o1 ops)
    show ?case by (cases runs rule: rev_cases) (simp_all add: Cons.IH)
  qed simp
  then show ?thesis by (simp add: same_file_runs_def)
qed

text \<open>What has landed is a prefix of the batch, and the log grew by exactly the new operations of that prefix.\<close>

lemma commit_incoming_ops_log:
  assumes "lands sh" "log_ok (sh_unpack sh) (sh_rows sh w)" "distinct (map o_id ops)"
    "length (sh_rows sh w) + length ops < 2 ^ 63" "commit_incoming_ops sh ops w = (w', l)"
  shows "ld_ops l \<le> length ops \<and> log_ok (sh_unpack sh) (sh_rows sh w') \<and>
    log_of (sh_unpack sh) (sh_rows sh w') = log_of (sh_unpack sh) (sh_rows sh w) @
      fresh_of (log_of (sh_unpack sh) (sh_rows sh w)) (take (ld_ops l) ops) \<and>
    (never_refuses sh \<longrightarrow> length ops \<le> MAX_APPEND_BATCH \<longrightarrow> ld_ops l = length ops)"
  using commit_runs_log [OF assms(1,2), of "same_file_runs ops" "[]" "\<lparr>ld_ops = 0, ld_files = [], ld_refused = None\<rparr>" w' l] assms(3-)
  by (auto simp: commit_incoming_ops_def same_file_runs_concat)

text \<open>A commit that only touches the log keeps the promise, and takes all that the payload codec can encode.\<close>

definition log_shared :: "(op \<Rightarrow> 'p option) \<Rightarrow> ('p \<Rightarrow> op option) \<Rightarrow> ('p row list, 'p, 'r) shared" where
  "log_shared pack unpack = \<lparr>sh_rows = id, sh_unpack = unpack, sh_commit = log_only pack unpack, sh_flush = (\<lambda>_ t. t)\<rparr>"

lemma log_only_log:
  assumes "log_ok unpack t" "codec_ok pack unpack" "ops \<noteq> []" "distinct (map o_id ops)" "o_id ` set ops \<inter> o_id ` set (log_of unpack t) = {}"
    "length t + length ops < 2 ^ 63" "log_only pack unpack f ops defer t = (t', res)"
  shows "log_ok unpack t' \<and> log_of unpack t' = log_of unpack t @ (case res of Inr _ \<Rightarrow> ops | Inl _ \<Rightarrow> [])"
    "length ops \<le> MAX_APPEND_BATCH \<Longrightarrow> \<forall>o1. pack o1 \<noteq> None \<Longrightarrow> \<not> isl res"
proof -
  have "fresh_of (log_of unpack t) ops = ops" using assms(5) by (auto simp: fresh_of_def filter_id_conv)
  then have d: "drop_held unpack t ops = Inr ops" using drop_held_ok [OF assms(1)] by simp
  obtain u r where a: "append_with_source pack ops (Some ''sync'') t = (u, r)" by fastforce
  note app = append_with_source_log [OF assms(1,2,6), of "Some ''sync''", unfolded a]
  have u: "log_ok unpack u \<and> log_of unpack u = log_of unpack t @ (case r of Inr _ \<Rightarrow> ops | Inl _ \<Rightarrow> []) \<and>
      (length ops \<le> MAX_APPEND_BATCH \<longrightarrow> (\<forall>o1. pack o1 \<noteq> None) \<longrightarrow> \<not> isl r)"
  proof (cases r)
    case (Inl e)
    then have "u = t" "ops = [] \<or> length ops > MAX_APPEND_BATCH \<or> (\<exists>o1 \<in> set ops. pack o1 = None) \<or>
        \<not> distinct (map o_id ops) \<or> o_id ` set ops \<inter> rw_op_id ` set t \<noteq> {}" using app by simp_all
    then have "u = t" "\<not> (length ops \<le> MAX_APPEND_BATCH \<and> (\<forall>o1. pack o1 \<noteq> None))"
      using assms(3,4,5) by (simp_all only: log_ids [OF assms(1)] not_less [symmetric]) blast+
    then show ?thesis using Inl assms(1) by simp
  next
    case (Inr x)
    then show ?thesis using app by (cases x) simp
  qed
  have "(t', res) = (case r of Inl e \<Rightarrow> (u, Inl (StoreRefused e)) | Inr _ \<Rightarrow> (u, Inr ()))"
    using assms(3,7) d a by (simp add: log_only_def)
  then have "t' = u" "(case res of Inr _ \<Rightarrow> ops | Inl _ \<Rightarrow> []) = (case r of Inr _ \<Rightarrow> ops | Inl _ \<Rightarrow> [])" "isl res = isl r"
    by (simp_all split: sum.splits)
  then show "log_ok unpack t' \<and> log_of unpack t' = log_of unpack t @ (case res of Inr _ \<Rightarrow> ops | Inl _ \<Rightarrow> [])"
    "length ops \<le> MAX_APPEND_BATCH \<Longrightarrow> \<forall>o1. pack o1 \<noteq> None \<Longrightarrow> \<not> isl res"
    using u by simp_all
qed

lemma log_shared_simps [simp]:
  "sh_rows (log_shared pack unpack) = id" "sh_unpack (log_shared pack unpack) = unpack"
  "sh_commit (log_shared pack unpack) = log_only pack unpack" "sh_flush (log_shared pack unpack) f t = t"
  by (simp_all add: log_shared_def)

lemma log_shared_lands: "codec_ok pack unpack \<Longrightarrow> lands (log_shared pack unpack)"
  unfolding lands_def log_shared_simps id_apply by (intro conjI allI impI log_only_log(1) refl)

lemma log_shared_never_refuses: "codec_ok pack unpack \<Longrightarrow> \<forall>o1. pack o1 \<noteq> None \<Longrightarrow> never_refuses (log_shared pack unpack)"
  unfolding never_refuses_def log_shared_simps id_apply by (intro allI impI notI) (drule (6) log_only_log(2), simp_all)

section \<open>The runs that landed\<close>

lemma runs_in_Cons: "runs_in unpack ts (r # rs) \<longleftrightarrow> runs_in unpack ts [r] \<and> runs_in unpack ts rs"
  by (auto simp: runs_in_def)

lemma unat_of_small: "n < 2 ^ 64 \<Longrightarrow> unat (of_nat n :: u64) = n"
  by (simp add: unsigned_of_nat take_bit_nat_eq_self)

lemma runs_in_width:
  assumes "runs_in unpack ts [r]"
  shows "unat (or_last r - or_first r + 1) = Suc (unat (or_last r)) - unat (or_first r)" "unat (or_last r) < 2 ^ 63"
    "length (ops_of_range unpack ts r) = Suc (unat (or_last r)) - unat (or_first r)" "unat (or_first r) \<le> unat (or_last r)"
proof -
  have r: "1 \<le> unat (or_first r)" "or_first r \<le> or_last r" "unat (or_last r) \<le> length (dev_ops unpack (or_device r) ts)" "length ts < 2 ^ 63"
    using assms by (simp_all add: runs_in_def)
  show s: "unat (or_last r) < 2 ^ 63" using r(3,4) length_dev_ops_le [of unpack "or_device r" ts] by linarith
  show le: "unat (or_first r) \<le> unat (or_last r)" using r(2) by (simp add: word_le_nat_alt)
  show "length (ops_of_range unpack ts r) = Suc (unat (or_last r)) - unat (or_first r)"
    unfolding ops_of_range_def by (rule length_log_slice [OF r(1,3)])
  have d: "unat (or_last r - or_first r) = unat (or_last r) - unat (or_first r)" by (rule unat_sub [OF r(2)])
  have "unat (or_last r - or_first r + of_nat 1) = unat (or_last r - or_first r) + 1"
    by (rule unat_plus_word) (use d s in simp)
  then show "unat (or_last r - or_first r + 1) = Suc (unat (or_last r)) - unat (or_first r)" using d le by (simp add: Suc_diff_le)
qed

lemma landed_loop_prefix:
  assumes "runs_in unpack ts ranges" "n < 2 ^ 64"
  shows "concat (map (ops_of_range unpack ts) (landed_loop ranges (of_nat n))) = take n (concat (map (ops_of_range unpack ts) ranges))"
    "\<exists>m. map or_device (landed_loop ranges (of_nat n)) = take m (map or_device ranges)"
    "\<forall>q \<in> set (landed_loop ranges (of_nat n)). \<exists>r \<in> set ranges. or_device q = or_device r \<and> or_first q = or_first r \<and>
      or_first q \<le> or_last q \<and> or_last q \<le> or_last r"
proof -
  have "concat (map (ops_of_range unpack ts) (landed_loop ranges (of_nat n))) = take n (concat (map (ops_of_range unpack ts) ranges)) \<and>
    (\<exists>m. map or_device (landed_loop ranges (of_nat n)) = take m (map or_device ranges)) \<and>
    (\<forall>q \<in> set (landed_loop ranges (of_nat n)). \<exists>r \<in> set ranges. or_device q = or_device r \<and> or_first q = or_first r \<and>
      or_first q \<le> or_last q \<and> or_last q \<le> or_last r)"
    using assms
  proof (induction ranges arbitrary: n)
    case (Cons r rs)
    note r = runs_in_width [of unpack ts r] and in1 = iffD1 [OF runs_in_Cons Cons.prems(1)]
    let ?w = "Suc (unat (or_last r)) - unat (or_first r)"
    let ?tk = "min ?w n"
    have f1: "1 \<le> unat (or_first r)" using in1 by (simp add: runs_in_def)
    have nn: "unat (of_nat n :: u64) = n" by (rule unat_of_small [OF Cons.prems(2)])
    show ?case
    proof (cases "n = 0")
      case False
      then have n0: "(of_nat n :: u64) \<noteq> 0" using nn by (metis unsigned_0)
      have "?tk < 2 ^ 64" using Cons.prems(2) by simp
      then have "unat (of_nat ?tk :: u64) = ?tk" by (rule unat_of_small)
      moreover have "unat (min (or_last r - or_first r + 1) (of_nat n)) = ?tk" using r(1) in1 nn by (simp only: unat_min_word)
      ultimately have tk: "min (or_last r - or_first r + 1) (of_nat n) = of_nat ?tk" by (intro word_unat_eq_iff [THEN iffD2]) (simp only:)
      let ?q = "\<lparr>or_device = or_device r, or_first = or_first r, or_last = or_first r + of_nat ?tk - 1\<rparr>"
      have "unat (or_first r + of_nat (?tk - 1)) = unat (or_first r) + (?tk - 1)"
        using r(2,4) in1 by (intro unat_plus_word) simp
      moreover have "or_first r + of_nat ?tk - 1 = or_first r + of_nat (?tk - 1)" using False r(4) in1 by (simp add: of_nat_diff)
      ultimately have lq: "unat (or_last ?q) = unat (or_first r) + (?tk - 1)" by (simp only: origin_range.simps)
      have "ops_of_range unpack ts ?q = take ?tk (ops_of_range unpack ts r)"
        using lq False f1 r(4) in1 by (auto simp: ops_of_range_def log_slice_def min_def)
      moreover have "(of_nat n - of_nat ?tk :: u64) = of_nat (n - ?tk)" by (simp add: of_nat_diff)
      then have loop: "landed_loop (r # rs) (of_nat n) = ?q # landed_loop rs (of_nat (n - ?tk))"
        using n0 tk by (simp add: Let_def)
      moreover have "n - ?tk < 2 ^ 64" using Cons.prems(2) by simp
      note IH = Cons.IH [OF conjunct2 [OF in1] this]
      moreover have "length (ops_of_range unpack ts r) = ?w" using r(3) in1 by simp
      ultimately have "concat (map (ops_of_range unpack ts) (landed_loop (r # rs) (of_nat n))) = take n (concat (map (ops_of_range unpack ts) (r # rs)))"
        by (simp add: min_def)
      moreover have "\<exists>m. map or_device (landed_loop (r # rs) (of_nat n)) = take m (map or_device (r # rs))"
      proof -
        obtain m where "map or_device (landed_loop rs (of_nat (n - ?tk))) = take m (map or_device rs)" using IH by blast
        then show ?thesis unfolding loop by (intro exI [of _ "Suc m"]) simp
      qed
      moreover have "or_first r \<le> or_last ?q \<and> or_last ?q \<le> or_last r" using lq r(4) in1 by (auto simp: word_le_nat_alt)
      ultimately show ?thesis using IH unfolding loop by auto
    qed (auto intro: exI [of _ 0])
  qed simp
  then show "concat (map (ops_of_range unpack ts) (landed_loop ranges (of_nat n))) = take n (concat (map (ops_of_range unpack ts) ranges))"
    "\<exists>m. map or_device (landed_loop ranges (of_nat n)) = take m (map or_device ranges)"
    "\<forall>q \<in> set (landed_loop ranges (of_nat n)). \<exists>r \<in> set ranges. or_device q = or_device r \<and> or_first q = or_first r \<and>
      or_first q \<le> or_last q \<and> or_last q \<le> or_last r" by blast+
qed

section \<open>One batch through the session\<close>

definition in_step :: "('p \<Rightarrow> op option) \<Rightarrow> heads \<Rightarrow> 'p row list \<Rightarrow> bool" where
  "in_step unpack hs t \<longleftrightarrow> (\<forall>d. head_in hs d = of_nat (length (dev_ops unpack d t)))"

text \<open>Two logs of one workspace: of each device one of them holds a beginning of what the other holds, and an operation's
  id names it.\<close>

definition agree :: "('p \<Rightarrow> op option) \<Rightarrow> 'p row list \<Rightarrow> 'p row list \<Rightarrow> bool" where
  "agree unpack ts t \<longleftrightarrow>
    (\<forall>d. prefix (dev_ops unpack d t) (dev_ops unpack d ts) \<or> prefix (dev_ops unpack d ts) (dev_ops unpack d t)) \<and>
    (\<forall>a \<in> set (log_of unpack ts). \<forall>b \<in> set (log_of unpack t). o_id a = o_id b \<longrightarrow> a = b)"

text \<open>Runs that start right after the heads held.\<close>

definition next_runs_of :: "('p \<Rightarrow> op option) \<Rightarrow> 'p row list \<Rightarrow> 'p row list \<Rightarrow> origin_range list \<Rightarrow> bool" where
  "next_runs_of unpack ts t ranges \<longleftrightarrow> distinct (map or_device ranges) \<and> runs_in unpack ts ranges \<and>
    (\<forall>r \<in> set ranges. unat (or_first r) = Suc (length (dev_ops unpack (or_device r) t)))"

lemma other_device: "distinct (map or_device (r # rs)) \<Longrightarrow> q \<in> set rs \<Longrightarrow> or_device q \<noteq> or_device r"
  by (metis distinct.simps(2) image_eqI list.simps(9) set_map)

lemma head_in_fold:
  "distinct (map or_device rs) \<Longrightarrow> head_in (fold (\<lambda>r m. bt_put (or_device r) (or_last r) m) rs hs) d =
    (case List.find (\<lambda>r. or_device r = d) rs of Some r \<Rightarrow> or_last r | None \<Rightarrow> head_in hs d)"
proof (induction rs arbitrary: hs)
  case (Cons r rs)
  have "List.find (\<lambda>q. or_device q = or_device r) rs = None" using other_device [OF Cons.prems] by (auto simp: find_None_iff)
  then show ?case using Cons by (cases "or_device r = d") (auto split: option.split)
qed simp

lemma advance_all_fresh:
  "distinct (map or_device rs) \<Longrightarrow> \<forall>r \<in> set rs. head_in hs (or_device r) < or_last r \<and> or_first r \<le> head_in hs (or_device r) + 1 \<Longrightarrow>
    advance_all hs rs = Inr (fold (\<lambda>r m. bt_put (or_device r) (or_last r) m) rs hs)"
proof (induction rs arbitrary: hs)
  case (Cons r rs)
  have "\<forall>q \<in> set rs. or_device q \<noteq> or_device r" using other_device [OF Cons.prems(1)] by blast
  moreover have "advance_head hs r = Inr (bt_put (or_device r) (or_last r) hs)" using Cons.prems(2) by (simp add: advance_head_Inr)
  ultimately show ?case using Cons by simp
qed simp

lemma head_in_sorted: "sorted_wrt (<) (map fst hs) \<Longrightarrow> (d, h) \<in> set hs \<Longrightarrow> head_in hs d = h"
  by (simp add: head_in_def strict_sorted_iff)

text \<open>Catching up with a store the session is in step with changes nothing.\<close>

lemma catch_up_in_step:
  assumes "ws_ok ws" "in_step unpack (ws_heads ws) t" "log_ok unpack t" "card (rw_device ` set t) \<le> MAX_DEVICES_PER_HEADS"
  shows "ws_catch_up (store_heads t) ws = ws"
proof -
  have "head_in (ws_heads ws) d = h" if "(d, h) \<in> set (store_heads t)" for d h
    using that head_in_sorted [OF store_heads_sorted that] head_in_store [OF assms(3,4)] assms(2) by (simp add: in_step_def)
  then have e: "filter (\<lambda>(d, h). h > head_in (ws_heads ws) d) (store_heads t) = []" by (auto simp: filter_empty_conv)
  have "consume_ranges (ws_wanted ws) [] = ws_wanted ws" using assms(1) by (simp add: consume_ranges_def ws_ok_def)
  then show ?thesis using assms(1) unfolding ws_catch_up_def e by (cases "ws_state ws") (simp_all add: ws_ok_def)
qed

lemma dev_ops_append: "dev_ops unpack d t' = dev_ops unpack d t @ filter (\<lambda>o1. device (o_hlc o1) = d) ops"
  if "log_of unpack t' = log_of unpack t @ ops"
  using that by (simp add: dev_ops_def)

lemma device_of_slice: "o1 \<in> set (log_slice unpack t d a b) \<Longrightarrow> device (o_hlc o1) = d"
  by (auto simp: log_slice_def dev_ops_def dest!: in_set_takeD in_set_dropD)

lemma filter_device_ranges:
  "distinct (map or_device rs) \<Longrightarrow> filter (\<lambda>o1. device (o_hlc o1) = d) (concat (map (ops_of_range unpack t) rs)) =
    (case List.find (\<lambda>r. or_device r = d) rs of Some r \<Rightarrow> ops_of_range unpack t r | None \<Rightarrow> [])"
proof (induction rs)
  case (Cons r rs)
  have "filter (\<lambda>o1. device (o_hlc o1) = d) (ops_of_range unpack t r) = (if or_device r = d then ops_of_range unpack t r else [])"
    by (auto simp: ops_of_range_def filter_id_conv filter_empty_conv dest: device_of_slice)
  moreover have "or_device r = d \<Longrightarrow> List.find (\<lambda>r. or_device r = d) rs = None" using other_device [OF Cons.prems] by (auto simp: find_None_iff)
  ultimately show ?case using Cons by auto
qed simp

lemma next_run_prefix:
  assumes "agree unpack ts t" "next_runs_of unpack ts t ranges" "r \<in> set ranges"
  shows "prefix (dev_ops unpack (or_device r) t) (dev_ops unpack (or_device r) ts)"
    "dev_ops unpack (or_device r) t @ ops_of_range unpack ts r = take (unat (or_last r)) (dev_ops unpack (or_device r) ts)"
proof -
  let ?d = "or_device r"
  have f: "unat (or_first r) = Suc (length (dev_ops unpack ?d t))" "unat (or_last r) \<le> length (dev_ops unpack ?d ts)"
    "unat (or_first r) \<le> unat (or_last r)"
    using assms(2,3) by (auto simp: next_runs_of_def runs_in_def word_le_nat_alt)
  then show p: "prefix (dev_ops unpack ?d t) (dev_ops unpack ?d ts)"
    using assms(1) prefix_length_le by (fastforce simp: agree_def)
  then have "dev_ops unpack ?d t = take (length (dev_ops unpack ?d t)) (dev_ops unpack ?d ts)" by (auto simp: prefix_def)
  moreover have "unat (or_last r) = length (dev_ops unpack ?d t) + (Suc (unat (or_last r)) - unat (or_first r))" using f by simp
  ultimately show "dev_ops unpack ?d t @ ops_of_range unpack ts r = take (unat (or_last r)) (dev_ops unpack ?d ts)"
    unfolding ops_of_range_def log_slice_def f(1) by (metis diff_Suc_1 diff_Suc_Suc take_add)
qed

lemma batch_distinct:
  assumes "log_ok unpack ts" "distinct (map or_device ranges)"
  shows "distinct (map o_id (concat (map (ops_of_range unpack ts) ranges)))" "set (concat (map (ops_of_range unpack ts) ranges)) \<subseteq> set (log_of unpack ts)"
proof -
  have sub: "set (ops_of_range unpack ts r) \<subseteq> set (log_of unpack ts)" for r
    by (auto simp: ops_of_range_def log_slice_def dev_ops_def dest!: in_set_takeD in_set_dropD)
  then show all: "set (concat (map (ops_of_range unpack ts) ranges)) \<subseteq> set (log_of unpack ts)" by auto
  have inj: "inj_on o_id (set (log_of unpack ts))" "distinct (log_of unpack ts)"
    using log_distinct [OF assms(1)] by (simp_all add: distinct_map)
  have "distinct (concat (map (ops_of_range unpack ts) ranges))"
    using assms(2)
  proof (induction ranges)
    case (Cons r rs)
    have "distinct (ops_of_range unpack ts r)" using inj(2) by (simp add: ops_of_range_def log_slice_def dev_ops_def)
    moreover have "set (ops_of_range unpack ts r) \<inter> set (ops_of_range unpack ts q) = {}" if "q \<in> set rs" for q
      using other_device [OF Cons.prems that] by (auto simp: ops_of_range_def dest!: device_of_slice)
    ultimately show ?case using Cons by auto
  qed simp
  then show "distinct (map o_id (concat (map (ops_of_range unpack ts) ranges)))"
    using inj(1) all by (auto simp: distinct_map intro: inj_on_subset)
qed

text \<open>A batch that follows the log is new to it.\<close>

lemma batch_fresh:
  assumes "log_ok unpack ts" "agree unpack ts t" "next_runs_of unpack ts t ranges"
  shows "fresh_of (log_of unpack t) (concat (map (ops_of_range unpack ts) ranges)) = concat (map (ops_of_range unpack ts) ranges)"
proof -
  have "o_id o1 \<noteq> o_id b" if r: "r \<in> set ranges" "o1 \<in> set (ops_of_range unpack ts r)" and b: "b \<in> set (log_of unpack t)" for o1 b r
  proof
    assume "o_id o1 = o_id b"
    moreover have "o1 \<in> set (log_of unpack ts)"
      using r(2) by (auto simp: ops_of_range_def log_slice_def dev_ops_def dest!: in_set_takeD in_set_dropD)
    ultimately have "o1 = b" using assms(2) b unfolding agree_def by blast
    moreover have "device (o_hlc o1) = or_device r" using r(2) by (auto simp: ops_of_range_def dest: device_of_slice)
    ultimately have "o1 \<in> set (dev_ops unpack (or_device r) t)" using b by (simp add: dev_ops_def)
    moreover have "distinct (log_of unpack ts)" using log_distinct [OF assms(1)] by (simp add: distinct_map)
    then have "distinct (take (unat (or_last r)) (dev_ops unpack (or_device r) ts))" by (simp add: dev_ops_def)
    then have "distinct (dev_ops unpack (or_device r) t @ ops_of_range unpack ts r)"
      using next_run_prefix(2) [OF assms(2,3) r(1)] by (simp only:)
    ultimately show False using r(2) by auto
  qed
  then show ?thesis by (auto simp: fresh_of_def filter_id_conv)
qed

text \<open>What the log, the heads and the agreement are once the runs of the peer have landed.\<close>

lemma landed_in_step:
  assumes logs: "log_ok unpack ts" "log_ok unpack t" "agree unpack ts t" and nr: "next_runs_of unpack ts t acked"
    and step: "in_step unpack hs t" and t': "log_ok unpack t'" "log_of unpack t' = log_of unpack t @ concat (map (ops_of_range unpack ts) acked)"
  shows "in_step unpack (fold (\<lambda>r m. bt_put (or_device r) (or_last r) m) acked hs) t'" "agree unpack ts t'"
    "\<And>d. dev_ops unpack d t' = (case List.find (\<lambda>r. or_device r = d) acked of Some r \<Rightarrow> take (unat (or_last r)) (dev_ops unpack d ts)
      | None \<Rightarrow> dev_ops unpack d t)"
proof -
  have dist: "distinct (map or_device acked)" using nr by (simp add: next_runs_of_def)
  show dev: "dev_ops unpack d t' = (case List.find (\<lambda>r. or_device r = d) acked of Some r \<Rightarrow> take (unat (or_last r)) (dev_ops unpack d ts)
      | None \<Rightarrow> dev_ops unpack d t)" for d
  proof (cases "List.find (\<lambda>r. or_device r = d) acked")
    case None
    then show ?thesis using dev_ops_append [OF t'(2), of d] filter_device_ranges [OF dist, of d unpack ts] by simp
  next
    case (Some r)
    then have "r \<in> set acked" "or_device r = d" by (auto simp: find_Some_iff)
    then show ?thesis
      using Some dev_ops_append [OF t'(2), of d] filter_device_ranges [OF dist, of d unpack ts] next_run_prefix(2) [OF logs(3) nr, of r] by simp
  qed
  have last: "unat (or_last r) \<le> length (dev_ops unpack (or_device r) ts)" if "r \<in> set acked" for r
    using nr that by (simp add: next_runs_of_def runs_in_def)
  show "in_step unpack (fold (\<lambda>r m. bt_put (or_device r) (or_last r) m) acked hs) t'"
    unfolding in_step_def
  proof
    fix d
    show "head_in (fold (\<lambda>r m. bt_put (or_device r) (or_last r) m) acked hs) d = of_nat (length (dev_ops unpack d t'))"
    proof (cases "List.find (\<lambda>r. or_device r = d) acked")
      case (Some r)
      then have "r \<in> set acked" "or_device r = d" by (auto simp: find_Some_iff)
      then show ?thesis using Some last [of r] by (simp add: head_in_fold [OF dist] dev)
    qed (use step in \<open>simp add: head_in_fold [OF dist] dev in_step_def\<close>)
  qed
  have "prefix (dev_ops unpack d t') (dev_ops unpack d ts) \<or> prefix (dev_ops unpack d ts) (dev_ops unpack d t')" for d
    using logs(3) by (auto simp: dev agree_def take_is_prefix split: option.split)
  moreover have "a = b" if "a \<in> set (log_of unpack ts)" "b \<in> set (log_of unpack t')" "o_id a = o_id b" for a b
  proof (cases "b \<in> set (log_of unpack t)")
    case True
    then show ?thesis using logs(3) that by (simp add: agree_def)
  next
    case False
    then have "b \<in> set (log_of unpack ts)" using that(2) t'(2) batch_distinct(2) [OF logs(1) dist] by auto
    then show ?thesis using log_distinct [OF logs(1)] that(1,3) by (auto simp: distinct_map dest: inj_onD)
  qed
  ultimately show "agree unpack ts t'" by (simp add: agree_def)
qed

lemma next_run_heads:
  assumes "in_step unpack hs t" "length t < 2 ^ 63" "next_runs_of unpack ts t ranges" "r \<in> set ranges"
  shows "or_first r = head_in hs (or_device r) + 1" "head_in hs (or_device r) < or_last r"
proof -
  let ?n = "length (dev_ops unpack (or_device r) t)"
  have n: "?n < 2 ^ 63" using assms(2) length_dev_ops_le [of unpack "or_device r" t] by linarith
  have h: "head_in hs (or_device r) = of_nat ?n" "unat (head_in hs (or_device r)) = ?n"
    using assms(1) n by (simp_all add: in_step_def unat_of_small)
  have f: "unat (or_first r) = Suc ?n" "or_first r \<le> or_last r" using assms(3,4) by (simp_all add: next_runs_of_def runs_in_def)
  have "unat (head_in hs (or_device r) + of_nat 1) = Suc ?n" using unat_plus_word [of "head_in hs (or_device r)" 1] h(2) n by simp
  then show "or_first r = head_in hs (or_device r) + 1" using f(1) by (simp add: word_unat_eq_iff)
  show "head_in hs (or_device r) < or_last r" using f h(2) by (simp add: word_less_nat_alt word_le_nat_alt)
qed

lemma next_runs_landed:
  assumes "next_runs_of unpack ts t ranges" "k < 2 ^ 64" "acked = landed_ranges ranges k"
  shows "next_runs_of unpack ts t acked" "concat (map (ops_of_range unpack ts) acked) = take k (concat (map (ops_of_range unpack ts) ranges))"
    "\<forall>q \<in> set acked. covered ranges q"
proof -
  have a: "acked = landed_loop ranges (of_nat k)" using assms(2,3) by (simp add: landed_ranges_def)
  have ri: "runs_in unpack ts ranges" using assms(1) by (simp add: next_runs_of_def)
  note p = landed_loop_prefix [OF ri assms(2), folded a]
  show "concat (map (ops_of_range unpack ts) acked) = take k (concat (map (ops_of_range unpack ts) ranges))" by (rule p(1))
  have "distinct (map or_device acked)" using p(2) assms(1) by (auto simp: next_runs_of_def)
  moreover have "runs_in unpack ts acked" using ri p(3) by (fastforce simp: runs_in_def word_le_nat_alt)
  moreover have "\<forall>q \<in> set acked. unat (or_first q) = Suc (length (dev_ops unpack (or_device q) t))"
    using assms(1) p(3) by (fastforce simp: next_runs_of_def)
  ultimately show "next_runs_of unpack ts t acked" by (simp add: next_runs_of_def)
  show "\<forall>q \<in> set acked. covered ranges q" using p(3) by (fastforce simp: covered_def list_ex_iff)
qed

lemma take_batch:
  fixes verify :: "op \<Rightarrow> 's \<Rightarrow> 'k \<Rightarrow> 'c + unit"
  assumes t: "log_ok unpack t" "card (rw_device ` set t) \<le> MAX_DEVICES_PER_HEADS"
    and s: "map_of (ss_workspaces s) w = Some ws" "ws_ok ws" "ws_state ws = Wanting \<or> ws_state ws = Idle \<and> ws_greeted ws"
      "in_step unpack (ws_heads ws) t"
    and batch: "next_runs_of unpack ts t ranges" "verify_batch verify ops sigs (device_keys_for ops key) = Inr ()"
  shows "\<exists>s2. ops_or_refuse verify w key t (Ops w ops sigs ranges) s = (s2, Inr ops) \<and>
    map_of (ss_workspaces s2) w = Some (ws\<lparr>ws_inflight := ranges, ws_state := Importing\<rparr>)"
proof -
  let ?s1 = "s\<lparr>ss_workspaces := bt_put w ws (ss_workspaces s)\<rparr>"
  have c: "session_catch_up w (store_heads t) s = (?s1, Inr () :: 'c session_error + unit)"
    using s(1) catch_up_in_step [OF s(2,4) t] by (simp add: session_catch_up_def on_workspace_def)
  have small: "length t < 2 ^ 63" using t(1) by (simp add: log_ok_def)
  have "advance_all (ws_heads ws) ranges = Inr (fold (\<lambda>r m. bt_put (or_device r) (or_last r) m) ranges (ws_heads ws))"
    using batch(1) next_run_heads [OF s(4) small batch(1)] by (intro advance_all_fresh) (auto simp: next_runs_of_def)
  then have "ws_on_ops verify w (Ops w ops sigs ranges) (device_keys_for ops key) ws = (ws\<lparr>ws_inflight := ranges, ws_state := Importing\<rparr>, Inr ops)"
    using s(3) batch(2) by (auto simp: ws_on_ops_def)
  then have "session_on_ops verify w (Ops w ops sigs ranges) (device_keys_for ops key) ?s1 =
      (?s1\<lparr>ss_workspaces := bt_put w (ws\<lparr>ws_inflight := ranges, ws_state := Importing\<rparr>) (ss_workspaces ?s1)\<rparr>, Inr ops)"
    by (simp add: session_on_ops_def on_workspace_def)
  then show ?thesis by (simp add: ops_or_refuse_def c)
qed

definition ready_for_ops :: "workspace_session \<Rightarrow> bool" where
  "ready_for_ops ws \<longleftrightarrow> ws_state ws = Wanting \<or> ws_state ws = Idle \<and> ws_greeted ws"

lemma handle_ops_lands:
  fixes verify :: "op \<Rightarrow> 's \<Rightarrow> 'k \<Rightarrow> 'c + unit" and sh :: "('w, 'p, 'r) shared"
  assumes sh: "lands sh"
    and logs: "log_ok (sh_unpack sh) ts" "log_ok (sh_unpack sh) (sh_rows sh wd)" "agree (sh_unpack sh) ts (sh_rows sh wd)"
    and room: "length (sh_rows sh wd) + length ops < 2 ^ 63" "card (rw_device ` set (sh_rows sh wd)) \<le> MAX_DEVICES_PER_HEADS"
    and s: "map_of (ss_workspaces s) w = Some ws" "ws_ok ws" "ready_for_ops ws" "in_step (sh_unpack sh) (ws_heads ws) (sh_rows sh wd)"
    and batch: "next_runs_of (sh_unpack sh) ts (sh_rows sh wd) ranges" "ops = concat (map (ops_of_range (sh_unpack sh) ts) ranges)"
      "verify_batch verify ops sigs (device_keys_for ops key) = Inr ()"
  shows "\<exists>k s' wd' ws'.
    handle_ops verify sh w key (Ops w ops sigs ranges) ranges s wd = (s', wd', Some (Ack w (landed_ranges ranges k)), True) \<and>
    k \<le> length ops \<and> (never_refuses sh \<longrightarrow> length ops \<le> MAX_APPEND_BATCH \<longrightarrow> k = length ops) \<and>
    log_of (sh_unpack sh) (sh_rows sh wd') = log_of (sh_unpack sh) (sh_rows sh wd) @ take k ops \<and>
    concat (map (ops_of_range (sh_unpack sh) ts) (landed_ranges ranges k)) = take k ops \<and>
    map_of (ss_workspaces s') w = Some ws' \<and> ws_ok ws' \<and> ready_for_ops ws' \<and>
    in_step (sh_unpack sh) (ws_heads ws') (sh_rows sh wd') \<and> log_ok (sh_unpack sh) (sh_rows sh wd') \<and>
    agree (sh_unpack sh) ts (sh_rows sh wd') \<and> ws_wanted ws' = consume_ranges (ws_wanted ws) (landed_ranges ranges k)"
proof -
  let ?t = "sh_rows sh wd"
  let ?ws = "ws\<lparr>ws_inflight := ranges, ws_state := Importing\<rparr>"
  have small: "length ?t < 2 ^ 63" using room(1) by simp
  have dist: "distinct (map or_device ranges)" using batch(1) by (simp add: next_runs_of_def)
  obtain s2 where s2: "ops_or_refuse verify w key ?t (Ops w ops sigs ranges) s = (s2, Inr ops)" "map_of (ss_workspaces s2) w = Some ?ws"
    using take_batch [OF logs(2) room(2) s(1,2) s(3) [unfolded ready_for_ops_def] s(4) batch(1,3)] by blast
  obtain wd' l where c: "commit_incoming_ops sh ops wd = (wd', l)" by fastforce
  define k where "k = ld_ops l"
  define acked where "acked = landed_ranges ranges k"
  note commit = commit_incoming_ops_log [OF sh logs(2) batch_distinct(1) [OF logs(1) dist, folded batch(2)] room(1) c, folded k_def]
  have "fresh_of (log_of (sh_unpack sh) ?t) (take k ops) = take k ops"
    using batch_fresh [OF logs(1,3) batch(1), folded batch(2)] by (auto simp: fresh_of_def filter_id_conv dest: in_set_takeD)
  then have t': "log_ok (sh_unpack sh) (sh_rows sh wd')" "log_of (sh_unpack sh) (sh_rows sh wd') = log_of (sh_unpack sh) ?t @ take k ops"
    using commit by simp_all
  have k: "k \<le> length ops" "never_refuses sh \<longrightarrow> length ops \<le> MAX_APPEND_BATCH \<longrightarrow> k = length ops" "k < 2 ^ 64" using commit room(1) by auto
  note acked = next_runs_landed [OF batch(1) k(3) acked_def, folded batch(2)]
  note after = landed_in_step [OF logs acked(1) s(4) t'(1)]
  let ?hs = "fold (\<lambda>r m. bt_put (or_device r) (or_last r) m) acked (ws_heads ws)"
  have "advance_all (ws_heads ws) acked = Inr ?hs"
    using acked(1) next_run_heads [OF s(4) small acked(1)] by (intro advance_all_fresh) (auto simp: next_runs_of_def)
  moreover have "List.find (\<lambda>r. \<not> covered ranges r) acked = None" using acked(3) by (auto simp: find_None_iff)
  moreover define ws' where "ws' = ?ws\<lparr>ws_heads := ?hs, ws_wanted := consume_ranges (ws_wanted ws) acked, ws_inflight := [],
      ws_state := (if consume_ranges (ws_wanted ws) acked = [] then Idle else Wanting)\<rparr>"
  ultimately have wc: "ws_committed w acked ?ws = (ws', Inr (Ack w acked) :: unit session_error + 's message)"
    by (simp add: ws_committed_def Let_def)
  let ?s' = "s2\<lparr>ss_workspaces := bt_put w ws' (ss_workspaces s2)\<rparr>"
  have "or_first r \<le> saturating_add (head_of ?t (or_device r)) 1" if "r \<in> set ranges" for r
  proof -
    have "head_of ?t (or_device r) = head_in (ws_heads ws) (or_device r)"
      using s(4) by (simp add: in_step_def head_of_log [OF logs(2)] length_dev_ops [OF logs(2)])
    moreover have "unat (head_in (ws_heads ws) (or_device r)) < unat (or_last r)"
      using next_run_heads(2) [OF s(4) small batch(1) that] by (simp add: word_less_nat_alt)
    moreover have "unat (or_last r) < 2 ^ 64" using unsigned_less [of "or_last r"] by simp
    ultimately show ?thesis using next_run_heads(1) [OF s(4) small batch(1) that] by (simp add: saturating_add_def)
  qed
  then have "follows_store_heads ?t ranges" by (simp add: follows_store_heads_def list_all_iff)
  moreover have "session_committed w acked s2 = (?s', Inr (Ack w acked) :: unit session_error + 's message)"
    using s2(2) wc by (simp add: session_committed_def on_workspace_def)
  ultimately have "commit_and_ack sh w ops ranges s2 wd = (?s', wd', Some (Ack w acked :: 's message))"
    using c by (simp add: commit_and_ack_def flip: k_def acked_def)
  then have "handle_ops verify sh w key (Ops w ops sigs ranges) ranges s wd = (?s', wd', Some (Ack w acked), True)"
    using s2(1) by (simp add: handle_ops_def)
  moreover have g: "ws_greeted ws" using s(2,3) by (auto simp: ready_for_ops_def ws_ok_def)
  then have "ready_for_ops ws'" by (simp add: ready_for_ops_def ws'_def)
  moreover have "advance_all (ws_heads ws) ranges = Inr (fold (\<lambda>r m. bt_put (or_device r) (or_last r) m) ranges (ws_heads ws))"
    using dist next_run_heads [OF s(4) small batch(1)] by (intro advance_all_fresh) auto
  then have "ws_ok ?ws" using s(2) g by (simp add: ws_ok_def)
  then have "ws_ok (fst (ws_committed w acked ?ws :: _ \<times> (unit session_error + 's message)))" by (rule ws_ok_committed)
  then have "ws_ok ws'" unfolding wc by (simp only: fst_conv)
  moreover have "in_step (sh_unpack sh) (ws_heads ws') (sh_rows sh wd')" "agree (sh_unpack sh) ts (sh_rows sh wd')"
    using after t'(2) acked(2) by (simp_all add: ws'_def)
  ultimately show ?thesis using k t' acked(2) unfolding acked_def
    by (intro exI [of _ k] exI [of _ ?s'] exI [of _ wd'] exI [of _ ws']) (simp add: ws'_def acked_def)
qed

section \<open>What the gate leaves behind\<close>

text \<open>While a workspace imports, the next batch for it, whatever it is, ends the connection.\<close>

lemma importing_ends_link:
  fixes verify :: "op \<Rightarrow> 's \<Rightarrow> 'k \<Rightarrow> 'c + unit"
  assumes "map_of (ss_workspaces s) w = Some ws" "ws_state ws = Importing"
  shows "\<exists>s'. handle_ops verify sh w key msg ranges s wd = (s', wd, None, False)"
proof -
  have "ws_catch_up (store_heads (sh_rows sh wd)) ws = ws" using assms(2) by (simp add: ws_catch_up_def)
  then have "session_catch_up w (store_heads (sh_rows sh wd)) s =
      (s\<lparr>ss_workspaces := bt_put w ws (ss_workspaces s)\<rparr>, Inr () :: 'c session_error + unit)"
    using assms(1) by (simp add: session_catch_up_def on_workspace_def)
  then show ?thesis using assms(2)
    by (simp add: handle_ops_def ops_or_refuse_def session_on_ops_def on_workspace_def ws_on_ops_def Let_def)
qed

text \<open>
  The session takes a batch that numbers one device's operations in two runs, and the gate, which looks at the store alone,
  refuses it: nothing is stored or acknowledged, the connection is kept, and the workspace is left importing.
\<close>

lemma gate_refusal_keeps_importing:
  "\<exists>s ws. handle_ops (\<lambda>(_ :: op) (_ :: unit) (_ :: unit). Inr () :: unit + unit) (log_shared Some Some :: (op row list, op, unit) shared) 3 ()
      (Ops 3 two_ops [(), ()] [\<lparr>or_device = 1, or_first = 1, or_last = 1\<rparr>, \<lparr>or_device = 1, or_first = 2, or_last = 2\<rparr>])
      [\<lparr>or_device = 1, or_first = 1, or_last = 1\<rparr>, \<lparr>or_device = 1, or_first = 2, or_last = 2\<rparr>]
      \<lparr>ss_device = 2, ss_group = 7, ss_link_hello_sent = True, ss_peer = Some 1, ss_workspaces =
        [(3, \<lparr>ws_state = Wanting, ws_heads = [], ws_wanted = [\<lparr>or_device = 1, or_first = 1, or_last = 2\<rparr>], ws_inflight = [], ws_greeted = True\<rparr>)]\<rparr> [] =
      (s, [], None, True) \<and> map_of (ss_workspaces s) 3 = Some ws \<and> ws_state ws = Importing"
proof -
  have heads: "store_heads ([] :: op row list) = []" "head_of ([] :: op row list) d = 0" for d
    by (simp_all add: store_heads_def head_of_def head_row_def sql_max_def u64_or_0_def)
  have "verify_batch (\<lambda>(_ :: op) (_ :: unit) (_ :: unit). Inr () :: unit + unit) two_ops [(), ()] (device_keys_for two_ops ()) = Inr ()"
    by (simp add: verify_batch_def device_keys_for_def two_ops_def)
  moreover have "\<not> (2 :: u64) \<le> 1" by (simp add: word_le_nat_alt)
  ultimately show ?thesis
    by (simp add: handle_ops_def ops_or_refuse_def session_catch_up_def session_on_ops_def on_workspace_def ws_catch_up_def ws_on_ops_def
        heads consume_ranges_def advance_head_def head_in_def Let_def commit_and_ack_def follows_store_heads_def saturating_add_def)
qed

end
