(* ===== verification/SyncCommit.thy ===== *)
theory SyncCommit
  imports SyncImport
begin

text \<open>
  What an acknowledgement is worth when commits fail late (\<open>txtodo-daemon\<close>). The actors store a run before they write the
  file (\<open>commit_inner\<close> of \<open>actor.rs\<close>, \<open>land\<close> of \<open>notes_actor.rs\<close>), so a run that is refused may be in the log all the same, and an
  actor may log operations of its own while it takes a run (\<open>merge_if_held\<close>). \<open>commits_run\<close> is what they promise with both; the
  promise of \<open>SyncImport\<close>, that a refused run leaves the log alone, is a special case. The property of this theory is the
  safety of acknowledgements under the weaker promise.
\<close>

section \<open>Commits that are refused late\<close>

text \<open>The log grew by \<open>ops\<close>, and by at most \<open>n\<close> operations of the device \<open>me\<close> with ids outside \<open>ids\<close>, somewhere in between.\<close>

definition grows :: "device_id \<Rightarrow> op_id set \<Rightarrow> nat \<Rightarrow> op list \<Rightarrow> op list \<Rightarrow> op list \<Rightarrow> bool" where
  "grows me ids n log log' ops \<longleftrightarrow> (\<exists>xs. log' = log @ xs \<and> filter (\<lambda>o1. o_id o1 \<in> ids) xs = ops \<and>
     length (filter (\<lambda>o1. o_id o1 \<notin> ids) xs) \<le> n \<and> (\<forall>o1 \<in> set xs. o_id o1 \<notin> ids \<longrightarrow> device (o_hlc o1) = me))"

lemma grows_refl: "grows me ids n log log []"
  by (simp add: grows_def)

lemma grows_plain: "o_id ` set ops \<subseteq> ids \<Longrightarrow> grows me ids n log (log @ ops) ops"
proof -
  assume "o_id ` set ops \<subseteq> ids"
  then have "\<forall>o1 \<in> set ops. o_id o1 \<in> ids" by blast
  then show ?thesis unfolding grows_def by (intro exI [of _ ops]) simp
qed

lemma grows_mono: "grows me ids n log log' ops \<Longrightarrow> n \<le> m \<Longrightarrow> grows me ids m log log' ops"
  unfolding grows_def by (elim exE conjE, intro exI conjI) (auto intro: le_trans)

lemma grows_trans:
  assumes "grows me ids n a b xs" "grows me ids m b c ys"
  shows "grows me ids (n + m) a c (xs @ ys)"
proof -
  obtain us where us: "b = a @ us" "filter (\<lambda>o1. o_id o1 \<in> ids) us = xs" "length (filter (\<lambda>o1. o_id o1 \<notin> ids) us) \<le> n"
    "\<forall>o1 \<in> set us. o_id o1 \<notin> ids \<longrightarrow> device (o_hlc o1) = me" using assms(1) by (auto simp: grows_def)
  obtain vs where vs: "c = b @ vs" "filter (\<lambda>o1. o_id o1 \<in> ids) vs = ys" "length (filter (\<lambda>o1. o_id o1 \<notin> ids) vs) \<le> m"
    "\<forall>o1 \<in> set vs. o_id o1 \<notin> ids \<longrightarrow> device (o_hlc o1) = me" using assms(2) by (auto simp: grows_def)
  show ?thesis unfolding grows_def using us vs by (intro exI [of _ "us @ vs"]) auto
qed

lemma grows_length: "grows me ids n log log' ops \<Longrightarrow> length log' \<le> length log + length ops + n"
proof -
  assume "grows me ids n log log' ops"
  then obtain xs where xs: "log' = log @ xs" "filter (\<lambda>o1. o_id o1 \<in> ids) xs = ops" "length (filter (\<lambda>o1. o_id o1 \<notin> ids) xs) \<le> n"
    by (auto simp: grows_def)
  then show ?thesis using sum_length_filter_compl [of "\<lambda>o1. o_id o1 \<in> ids" xs] by simp
qed

lemma grows_fresh:
  assumes "grows me ids n log log' (fresh_of log run)" "o_id ` set rest \<subseteq> ids" "distinct (map o_id (run @ rest))"
  shows "fresh_of log' rest = fresh_of log rest"
proof -
  obtain xs where xs: "log' = log @ xs" "filter (\<lambda>o1. o_id o1 \<in> ids) xs = fresh_of log run" using assms(1) by (auto simp: grows_def)
  have "o_id o1 \<notin> o_id ` set xs" if o1: "o1 \<in> set rest" for o1
  proof
    assume "o_id o1 \<in> o_id ` set xs"
    then obtain x where x: "x \<in> set xs" "o_id x = o_id o1" by auto
    then have "x \<in> set (filter (\<lambda>o1. o_id o1 \<in> ids) xs)" using assms(2) o1 by auto
    then have "x \<in> set run" unfolding xs(2) by (simp add: fresh_of_def)
    then show False using assms(3) o1 x(2) by (auto simp: rev_image_eqI)
  qed
  then show ?thesis unfolding fresh_of_def xs(1) by (intro filter_cong) auto
qed

text \<open>
  What a commit promises: the run is in the log, or it is refused and either in the log or not; the only other operations that
  appear are this device's own, under ids that are new. A write that was owed logs no operation of a peer.
\<close>

definition commits_run :: "device_id \<Rightarrow> op_id set \<Rightarrow> nat \<Rightarrow> ('w, 'p, 'r) shared \<Rightarrow> bool" where
  "commits_run me ids n sh \<longleftrightarrow>
    (\<forall>f ops defer w w' res. log_ok (sh_unpack sh) (sh_rows sh w) \<longrightarrow> ops \<noteq> [] \<longrightarrow> distinct (map o_id ops) \<longrightarrow> o_id ` set ops \<subseteq> ids \<longrightarrow>
      o_id ` set ops \<inter> o_id ` set (log_of (sh_unpack sh) (sh_rows sh w)) = {} \<longrightarrow> length (sh_rows sh w) + length ops + n < 2 ^ 63 \<longrightarrow>
      sh_commit sh f ops defer w = (w', res) \<longrightarrow> log_ok (sh_unpack sh) (sh_rows sh w') \<and>
      (grows me ids n (log_of (sh_unpack sh) (sh_rows sh w)) (log_of (sh_unpack sh) (sh_rows sh w')) ops \<or>
       isl res \<and> grows me ids n (log_of (sh_unpack sh) (sh_rows sh w)) (log_of (sh_unpack sh) (sh_rows sh w')) [])) \<and>
    (\<forall>f w. log_ok (sh_unpack sh) (sh_rows sh w) \<longrightarrow> length (sh_rows sh w) + n < 2 ^ 63 \<longrightarrow>
      log_ok (sh_unpack sh) (sh_rows sh (sh_flush sh f w)) \<and>
      grows me ids n (log_of (sh_unpack sh) (sh_rows sh w)) (log_of (sh_unpack sh) (sh_rows sh (sh_flush sh f w))) [])"

lemma commits_runD:
  assumes "commits_run me ids n sh" "log_ok (sh_unpack sh) (sh_rows sh w)" "ops \<noteq> []" "distinct (map o_id ops)" "o_id ` set ops \<subseteq> ids"
    "o_id ` set ops \<inter> o_id ` set (log_of (sh_unpack sh) (sh_rows sh w)) = {}" "length (sh_rows sh w) + length ops + n < 2 ^ 63"
    "sh_commit sh f ops defer w = (w', res)"
  shows "log_ok (sh_unpack sh) (sh_rows sh w') \<and>
      (grows me ids n (log_of (sh_unpack sh) (sh_rows sh w)) (log_of (sh_unpack sh) (sh_rows sh w')) ops \<or>
       isl res \<and> grows me ids n (log_of (sh_unpack sh) (sh_rows sh w)) (log_of (sh_unpack sh) (sh_rows sh w')) [])"
  by (rule assms(1) [unfolded commits_run_def, THEN conjunct1, rule_format, OF assms(2-)])

lemma commits_run_flush:
  assumes "commits_run me ids n sh" "log_ok (sh_unpack sh) (sh_rows sh w)" "length (sh_rows sh w) + n < 2 ^ 63"
  shows "log_ok (sh_unpack sh) (sh_rows sh (sh_flush sh f w)) \<and>
      grows me ids n (log_of (sh_unpack sh) (sh_rows sh w)) (log_of (sh_unpack sh) (sh_rows sh (sh_flush sh f w))) []"
  by (rule assms(1) [unfolded commits_run_def, THEN conjunct2, rule_format, OF assms(2-)])

text \<open>A commit that lands its run as a whole or not at all keeps this promise.\<close>

lemma lands_commits:
  assumes "lands sh"
  shows "commits_run me ids n sh"
  unfolding commits_run_def
proof (intro conjI allI impI)
  fix f ops df w w' res
  let ?log = "\<lambda>w. log_of (sh_unpack sh) (sh_rows sh w)"
  assume a: "log_ok (sh_unpack sh) (sh_rows sh w)" "ops \<noteq> []" "distinct (map o_id ops)" "o_id ` set ops \<subseteq> ids"
    "o_id ` set ops \<inter> o_id ` set (?log w) = {}" "length (sh_rows sh w) + length ops + n < 2 ^ 63" "sh_commit sh f ops df w = (w', res)"
  then have room: "length (sh_rows sh w) + length ops < 2 ^ 63" by simp
  note l = lands_commit [OF assms a(1,2,3,5) room a(7)]
  show "log_ok (sh_unpack sh) (sh_rows sh w')" using l by simp
  show "grows me ids n (?log w) (?log w') ops \<or> isl res \<and> grows me ids n (?log w) (?log w') []"
    using l a(4) by (cases res) (simp_all add: grows_plain grows_refl)
qed (simp_all add: rows_flush [OF assms] grows_refl)

lemma commit_new_ops_grows:
  assumes sh: "commits_run me ids n sh" and w: "log_ok (sh_unpack sh) (sh_rows sh w)" "length (sh_rows sh w) + length run + n < 2 ^ 63"
    and run: "distinct (map o_id run)" "o_id ` set run \<subseteq> ids" and c: "commit_new_ops sh path run defer w = (w', res)"
  shows "log_ok (sh_unpack sh) (sh_rows sh w')"
    "grows me ids n (log_of (sh_unpack sh) (sh_rows sh w)) (log_of (sh_unpack sh) (sh_rows sh w')) (fresh_of (log_of (sh_unpack sh) (sh_rows sh w)) run) \<or>
      isl res \<and> grows me ids n (log_of (sh_unpack sh) (sh_rows sh w)) (log_of (sh_unpack sh) (sh_rows sh w')) []"
    "never_refuses sh \<Longrightarrow> length run \<le> MAX_APPEND_BATCH \<Longrightarrow> \<not> isl res"
proof -
  let ?log = "\<lambda>w. log_of (sh_unpack sh) (sh_rows sh w)"
  let ?fr = "fresh_of (?log w) run"
  have ny: "not_yet_stored sh run w = Inr ?fr" by (simp add: not_yet_stored_def drop_held_ok [OF w(1)])
  have fr: "distinct (map o_id ?fr)" "o_id ` set ?fr \<inter> o_id ` set (?log w) = {}" "length ?fr \<le> length run" "o_id ` set ?fr \<subseteq> ids"
    using run by (auto simp: fresh_of_def distinct_map_filter)
  have "log_ok (sh_unpack sh) (sh_rows sh w') \<and> (grows me ids n (?log w) (?log w') ?fr \<or> isl res \<and> grows me ids n (?log w) (?log w') []) \<and>
    (never_refuses sh \<longrightarrow> length run \<le> MAX_APPEND_BATCH \<longrightarrow> \<not> isl res)"
  proof (cases "?fr = []")
    case True
    then have "res = Inr ()" "w' = (if \<not> defer then sh_flush sh path w else w)"
      using c ny by (auto simp: commit_new_ops_def split: if_splits)
    moreover have "length (sh_rows sh w) + n < 2 ^ 63" using w(2) by simp
    ultimately show ?thesis using True w(1) commits_run_flush [OF sh w(1)] by (simp add: grows_refl)
  next
    case False
    have cm: "sh_commit sh path ?fr defer w = (w', res)" using c ny False by (simp add: commit_new_ops_def)
    have room: "length (sh_rows sh w) + length ?fr + n < 2 ^ 63" "length (sh_rows sh w) + length ?fr < 2 ^ 63" using fr(3) w(2) by simp_all
    have "\<not> isl res" if "never_refuses sh" "length run \<le> MAX_APPEND_BATCH"
    proof
      assume "isl res"
      then obtain why where "res = Inl why" by (cases res) auto
      then have "sh_commit sh path ?fr defer w = (w', Inl why)" using cm by simp
      moreover have "length ?fr \<le> MAX_APPEND_BATCH" using fr(3) that(2) by simp
      ultimately show False using that(1) w(1) False fr(1,2) room(2) unfolding never_refuses_def by blast
    qed
    then show ?thesis using commits_runD [OF sh w(1) False fr(1,4,2) room(1) cm] by blast
  qed
  then show "log_ok (sh_unpack sh) (sh_rows sh w')" "grows me ids n (?log w) (?log w') ?fr \<or> isl res \<and> grows me ids n (?log w) (?log w') []"
    "never_refuses sh \<Longrightarrow> length run \<le> MAX_APPEND_BATCH \<Longrightarrow> \<not> isl res" by blast+
qed

lemma fold_flush_grows:
  assumes sh: "commits_run me ids n sh"
  shows "log_ok (sh_unpack sh) (sh_rows sh w) \<Longrightarrow> length (sh_rows sh w) + n * length fs < 2 ^ 63 \<Longrightarrow>
    log_ok (sh_unpack sh) (sh_rows sh (fold (sh_flush sh) fs w)) \<and>
    grows me ids (n * length fs) (log_of (sh_unpack sh) (sh_rows sh w)) (log_of (sh_unpack sh) (sh_rows sh (fold (sh_flush sh) fs w))) []"
proof (induction fs arbitrary: w)
  case (Cons f fs)
  have "length (sh_rows sh w) + n < 2 ^ 63" using Cons.prems(2) by simp
  note fl = commits_run_flush [OF sh Cons.prems(1) this, of f]
  have "length (sh_rows sh (sh_flush sh f w)) \<le> length (sh_rows sh w) + n"
    using grows_length [of me ids n _ _ "[]"] fl by (metis length_log_of add_0_right list.size(3))
  then have "length (sh_rows sh (sh_flush sh f w)) + n * length fs < 2 ^ 63" using Cons.prems(2) by simp
  note IH = Cons.IH [OF conjunct1 [OF fl] this]
  then show ?case using grows_trans [OF conjunct2 [OF fl] conjunct2 [OF IH]] by simp
qed (simp add: grows_refl)

text \<open>The loop over the runs: what counts as landed is a beginning of what the log now holds, and the log holds no more than a
  beginning of the batch.\<close>

lemma commit_runs_grows:
  assumes "commits_run me ids n sh" "log_ok (sh_unpack sh) (sh_rows sh w)" "distinct (map o_id (concat (map snd runs)))"
    "o_id ` set (concat (map snd runs)) \<subseteq> ids"
    "length (sh_rows sh w) + length (concat (map snd runs)) + n * (length owed + 2 * length runs) < 2 ^ 63" "commit_runs sh runs owed l w = (w', l')"
  shows "\<exists>k j. k \<le> j \<and> j \<le> length (concat (map snd runs)) \<and> ld_ops l' = ld_ops l + k \<and> log_ok (sh_unpack sh) (sh_rows sh w') \<and>
    grows me ids (n * (length owed + 2 * length runs)) (log_of (sh_unpack sh) (sh_rows sh w)) (log_of (sh_unpack sh) (sh_rows sh w'))
      (fresh_of (log_of (sh_unpack sh) (sh_rows sh w)) (take j (concat (map snd runs)))) \<and>
    (never_refuses sh \<longrightarrow> length (concat (map snd runs)) \<le> MAX_APPEND_BATCH \<longrightarrow> k = length (concat (map snd runs)))"
  using assms
proof (induction sh runs owed l w arbitrary: w' l' rule: commit_runs.induct)
  case (1 sh owed l w)
  then show ?case using grows_refl by (simp add: fresh_of_def)
next
  case (2 sh path run rest owed l w)
  let ?log = "\<lambda>w. log_of (sh_unpack sh) (sh_rows sh w)"
  let ?ops = "concat (map snd rest)"
  let ?all = "concat (map snd ((path, run) # rest))"
  let ?df = "list_ex (\<lambda>(p, _). p = path) rest"
  obtain w1 r where c: "commit_new_ops sh path run ?df w = (w1, r)" by fastforce
  have d: "distinct (map o_id run)" "distinct (map o_id (run @ ?ops))" "o_id ` set run \<subseteq> ids" "o_id ` set ?ops \<subseteq> ids"
    using "2.prems"(3,4) by auto
  have N: "n * (length owed + 2 * length ((path, run) # rest)) = n * (length owed + 2 * length rest) + n + n" by (simp add: algebra_simps)
  have "length (sh_rows sh w) + length run + n < 2 ^ 63" using "2.prems"(5) unfolding N by simp
  note c1 = commit_new_ops_grows [OF "2.prems"(1,2) this d(1,3) c]
  have room: "length (sh_rows sh w1) \<le> length (sh_rows sh w) + length run + n"
  proof -
    have "length (fresh_of (?log w) run) \<le> length run" by (simp add: fresh_of_def)
    then show ?thesis using c1(2) grows_length [of me ids n "?log w" "?log w1"] by fastforce
  qed
  show ?case
  proof (cases r)
    case (Inl why)
    have "length (sh_rows sh w1) + n * length owed < 2 ^ 63" using room "2.prems"(5) unfolding N by (simp add: algebra_simps)
    note fl = fold_flush_grows [OF "2.prems"(1) c1(1) this]
    have e: "w' = fold (sh_flush sh) owed w1" "ld_ops l' = ld_ops l" using Inl "2.prems"(6) c by (auto simp: Let_def)
    have "\<exists>j \<le> length run. grows me ids n (?log w) (?log w1) (fresh_of (?log w) (take j run))"
      using c1(2)
    proof
      assume "grows me ids n (?log w) (?log w1) (fresh_of (?log w) run)"
      then show ?thesis by (intro exI [of _ "length run"]) simp
    qed (auto simp: fresh_of_def intro: exI [of _ 0])
    then obtain j where j: "j \<le> length run" "grows me ids n (?log w) (?log w1) (fresh_of (?log w) (take j run))" by blast
    have "grows me ids (n + n * length owed) (?log w) (?log w') (fresh_of (?log w) (take j ?all))"
      using grows_trans [OF j(2) conjunct2 [OF fl]] e(1) j(1) by simp
    moreover have "n + n * length owed \<le> n * (length owed + 2 * length ((path, run) # rest))" unfolding N by (simp add: algebra_simps)
    ultimately have "grows me ids (n * (length owed + 2 * length ((path, run) # rest))) (?log w) (?log w') (fresh_of (?log w) (take j ?all))"
      by (rule grows_mono)
    moreover have "\<not> (never_refuses sh \<and> length ?all \<le> MAX_APPEND_BATCH)" using c1(3) Inl by auto
    moreover have "0 \<le> j" "j \<le> length ?all" "ld_ops l' = ld_ops l + 0" using j(1) e(2) by simp_all
    moreover have "log_ok (sh_unpack sh) (sh_rows sh w')" using fl e(1) by simp
    ultimately show ?thesis by blast
  next
    case (Inr u)
    let ?owed = "if ?df \<and> path \<notin> set owed then owed @ [path] else owed"
    let ?l = "l\<lparr>ld_ops := ld_ops l + length run, ld_files := ld_files l @ [path]\<rparr>"
    have g1: "grows me ids n (?log w) (?log w1) (fresh_of (?log w) run)" using c1(2) Inr by simp
    have "n * (length ?owed + 2 * length rest) \<le> n * (length owed + 2 * length rest) + n" by (simp add: algebra_simps)
    moreover from this have room1: "length (sh_rows sh w1) + length ?ops + n * (length ?owed + 2 * length rest) < 2 ^ 63"
      using room "2.prems"(5) unfolding N by simp
    ultimately have le: "n + n * (length ?owed + 2 * length rest) \<le> n * (length owed + 2 * length ((path, run) # rest))" unfolding N by simp
    have rest: "commit_runs sh rest ?owed ?l w1 = (w', l')" using "2.prems"(6) c Inr by (simp add: Let_def)
    have "distinct (map o_id ?ops)" using d by simp
    from "2.IH" [OF refl c [symmetric] Inr "2.prems"(1) c1(1) this d(4) room1 rest] obtain k j where
      k: "k \<le> j" "j \<le> length ?ops" "ld_ops l' = ld_ops ?l + k" "log_ok (sh_unpack sh) (sh_rows sh w')"
        "grows me ids (n * (length ?owed + 2 * length rest)) (?log w1) (?log w') (fresh_of (?log w1) (take j ?ops))"
        "never_refuses sh \<longrightarrow> length ?ops \<le> MAX_APPEND_BATCH \<longrightarrow> k = length ?ops" by blast
    have "take (length run + j) (map o_id (run @ ?ops)) = map o_id (run @ take j ?ops)" by (simp add: take_map)
    then have "distinct (map o_id (run @ take j ?ops))" using d(2) distinct_take by metis
    moreover have "o_id ` set (take j ?ops) \<subseteq> ids" using d(4) set_take_subset [of j ?ops] by (meson image_mono subset_trans)
    ultimately have "fresh_of (?log w1) (take j ?ops) = fresh_of (?log w) (take j ?ops)" using grows_fresh [OF g1] by blast
    then have "grows me ids (n + n * (length ?owed + 2 * length rest)) (?log w) (?log w') (fresh_of (?log w) (take (length run + j) ?all))"
      using grows_trans [OF g1 k(5)] by (simp add: fresh_of_concat)
    then have "grows me ids (n * (length owed + 2 * length ((path, run) # rest))) (?log w) (?log w') (fresh_of (?log w) (take (length run + j) ?all))"
      using le by (rule grows_mono)
    moreover have "never_refuses sh \<longrightarrow> length ?all \<le> MAX_APPEND_BATCH \<longrightarrow> length run + k = length ?all" using k(6) by auto
    moreover have "length run + k \<le> length run + j" "length run + j \<le> length ?all" "ld_ops l' = ld_ops l + (length run + k)" using k(1-3) by simp_all
    ultimately show ?thesis using k(4) by blast
  qed
qed

lemma length_same_file_runs: "length (same_file_runs ops) \<le> length ops"
proof -
  have "length (fold (\<lambda>o1 runs.
     if runs \<noteq> [] \<and> fst (last runs) = o_file o1 then butlast runs @ [(o_file o1, snd (last runs) @ [o1])]
     else runs @ [(o_file o1, [o1])]) ops runs) \<le> length runs + length ops" for runs
  proof (induction ops arbitrary: runs)
    case (Cons o1 ops)
    show ?case by (rule le_trans, unfold fold_Cons comp_def, rule Cons.IH) auto
  qed simp
  from this [of "[]"] show ?thesis by (simp add: same_file_runs_def)
qed

lemma commit_incoming_ops_grows:
  assumes sh: "commits_run me ids n sh" and w: "log_ok (sh_unpack sh) (sh_rows sh w)" "length (sh_rows sh w) + length ops * (1 + 2 * n) < 2 ^ 63"
    and ops: "distinct (map o_id ops)" "o_id ` set ops \<subseteq> ids" and c: "commit_incoming_ops sh ops w = (w', l)"
  shows "\<exists>j. ld_ops l \<le> j \<and> j \<le> length ops \<and> log_ok (sh_unpack sh) (sh_rows sh w') \<and>
    grows me ids (2 * n * length ops) (log_of (sh_unpack sh) (sh_rows sh w)) (log_of (sh_unpack sh) (sh_rows sh w'))
      (fresh_of (log_of (sh_unpack sh) (sh_rows sh w)) (take j ops)) \<and>
    (never_refuses sh \<longrightarrow> length ops \<le> MAX_APPEND_BATCH \<longrightarrow> ld_ops l = length ops)"
proof -
  let ?runs = "same_file_runs ops"
  have "n * (2 * length ?runs) \<le> n * (2 * length ops)" by (intro mult_le_mono le_refl length_same_file_runs)
  then have le: "n * (length ([] :: file_path list) + 2 * length ?runs) \<le> 2 * n * length ops" by (simp add: algebra_simps)
  moreover have "length ops * (1 + 2 * n) = length ops + 2 * n * length ops" by (simp add: algebra_simps)
  ultimately have "length (sh_rows sh w) + length ops + n * (length ([] :: file_path list) + 2 * length ?runs) < 2 ^ 63" using w(2) by linarith
  then obtain k j where k: "k \<le> j" "j \<le> length ops" "ld_ops l = k" "log_ok (sh_unpack sh) (sh_rows sh w')"
    "grows me ids (n * (length ([] :: file_path list) + 2 * length ?runs)) (log_of (sh_unpack sh) (sh_rows sh w)) (log_of (sh_unpack sh) (sh_rows sh w'))
      (fresh_of (log_of (sh_unpack sh) (sh_rows sh w)) (take j ops))"
    "never_refuses sh \<longrightarrow> length ops \<le> MAX_APPEND_BATCH \<longrightarrow> k = length ops"
    using commit_runs_grows [OF sh w(1), of ?runs "[]" "\<lparr>ld_ops = 0, ld_files = [], ld_refused = None\<rparr>" w' l] ops c
    by (auto simp: commit_incoming_ops_def same_file_runs_concat)
  then show ?thesis using grows_mono [OF k(5) le] by (intro exI [of _ j]) simp
qed

section \<open>The log after a batch\<close>

lemma filter_slice:
  assumes "distinct xs" "m \<le> h"
  shows "filter (\<lambda>x. x \<notin> set (take h xs)) (take n (drop m xs)) = take (n - (h - m)) (drop h xs)"
proof -
  let ?ys = "take n (drop m xs)"
  have "take (h - m) ?ys = take n (drop m (take h xs))" using assms(2) by (simp add: drop_take min.commute)
  then have "set (take (h - m) ?ys) \<subseteq> set (take h xs)" by (metis set_drop_subset set_take_subset subset_trans)
  then have a: "filter (\<lambda>x. x \<notin> set (take h xs)) (take (h - m) ?ys) = []" by (auto simp: filter_empty_conv)
  have d: "drop (h - m) ?ys = take (n - (h - m)) (drop h xs)" using assms(2) by (simp add: drop_take)
  have "set (take h xs) \<inter> set (drop h xs) = {}" using assms(1) by (rule set_take_disj_set_drop_if_distinct) simp
  then have "filter (\<lambda>x. x \<notin> set (take h xs)) (drop (h - m) ?ys) = drop (h - m) ?ys"
    unfolding d by (auto simp: filter_id_conv dest: in_set_takeD)
  then show ?thesis using a append_take_drop_id [of "h - m" ?ys] d by (metis append_Nil filter_append)
qed

lemma distinct_dev_ops: "log_ok unpack t \<Longrightarrow> distinct (dev_ops unpack d t)"
  using log_distinct [of unpack t] by (simp add: dev_ops_def distinct_map)

text \<open>A run that starts at or before the next number: what is new of it follows what is held.\<close>

lemma fresh_slice:
  assumes ts: "log_ok unpack ts" "agree unpack ts t" and p: "prefix (dev_ops unpack d t) (dev_ops unpack d ts)"
    and a: "1 \<le> a" "a \<le> Suc (length (dev_ops unpack d t))"
  shows "dev_ops unpack d t @ fresh_of (log_of unpack t) (log_slice unpack ts d a b) =
    take (max (length (dev_ops unpack d t)) b) (dev_ops unpack d ts)"
proof -
  let ?xs = "dev_ops unpack d ts"
  let ?h = "length (dev_ops unpack d t)"
  have h: "dev_ops unpack d t = take ?h ?xs" using p by (auto simp: prefix_def)
  have new: "o_id x \<notin> o_id ` set (log_of unpack t) \<longleftrightarrow> x \<notin> set (take ?h ?xs)" if x: "x \<in> set ?xs" for x
  proof -
    have dx: "device (o_hlc x) = d" "x \<in> set (log_of unpack ts)" using x by (simp_all add: dev_ops_def)
    have "x \<in> set (dev_ops unpack d t)" if y: "y \<in> set (log_of unpack t)" "o_id x = o_id y" for y
    proof -
      have "x = y" using ts(2) dx(2) y unfolding agree_def by blast
      then show ?thesis using y(1) dx(1) by (simp add: dev_ops_def)
    qed
    moreover have "set (dev_ops unpack d t) \<subseteq> set (log_of unpack t)" by (auto simp: dev_ops_def)
    ultimately show ?thesis unfolding h [symmetric] by blast
  qed
  have "fresh_of (log_of unpack t) (log_slice unpack ts d a b) = filter (\<lambda>x. x \<notin> set (take ?h ?xs)) (take (Suc b - a) (drop (a - 1) ?xs))"
    unfolding fresh_of_def log_slice_def by (intro filter_cong refl new) (auto dest!: in_set_takeD in_set_dropD)
  also have "\<dots> = take (Suc b - a - (?h - (a - 1))) (drop ?h ?xs)"
    using a by (intro filter_slice distinct_dev_ops [OF ts(1)]) simp
  also have "Suc b - a - (?h - (a - 1)) = b - ?h" using a by arith
  finally have f: "fresh_of (log_of unpack t) (log_slice unpack ts d a b) = take (b - ?h) (drop ?h ?xs)" .
  have "max ?h b = ?h + (b - ?h)" by simp
  then have "take (max ?h b) ?xs = take ?h ?xs @ take (b - ?h) (drop ?h ?xs)" by (simp only: take_add)
  then show ?thesis by (simp only: f flip: h)
qed

definition follows_held :: "('p \<Rightarrow> op option) \<Rightarrow> 'p row list \<Rightarrow> origin_range list \<Rightarrow> bool" where
  "follows_held unpack t ranges \<longleftrightarrow> (\<forall>r \<in> set ranges. unat (or_first r) \<le> Suc (length (dev_ops unpack (or_device r) t)) \<and>
     length (dev_ops unpack (or_device r) t) < unat (or_last r))"

lemma grows_dev_ops:
  assumes "grows me ids n (log_of unpack t) (log_of unpack t') ops" "d \<noteq> me"
  shows "dev_ops unpack d t' = dev_ops unpack d t @ filter (\<lambda>o1. device (o_hlc o1) = d) ops"
proof -
  obtain xs where xs: "log_of unpack t' = log_of unpack t @ xs" "filter (\<lambda>o1. o_id o1 \<in> ids) xs = ops"
    "\<forall>o1 \<in> set xs. o_id o1 \<notin> ids \<longrightarrow> device (o_hlc o1) = me" using assms(1) by (auto simp: grows_def)
  have "filter (\<lambda>o1. device (o_hlc o1) = d) xs = filter (\<lambda>o1. device (o_hlc o1) = d) (filter (\<lambda>o1. o_id o1 \<in> ids) xs)"
    unfolding filter_filter using xs(3) assms(2) by (intro filter_cong) auto
  then show ?thesis using dev_ops_append [OF xs(1), of d] xs(2) by simp
qed

lemma grown_agree:
  assumes ts: "log_ok unpack ts" "agree unpack ts t" and mine: "prefix (dev_ops unpack me ts) (dev_ops unpack me t)"
    and batch: "distinct (map or_device ranges)" "runs_in unpack ts ranges" "follows_held unpack t ranges"
      "ops = concat (map (ops_of_range unpack ts) ranges)" and j: "j < 2 ^ 64"
    and g: "grows me (o_id ` set (log_of unpack ts)) n (log_of unpack t) (log_of unpack t') (fresh_of (log_of unpack t) (take j ops))"
  shows "agree unpack ts t'" "set (take j ops) \<subseteq> set (log_of unpack t')" "\<And>d. length (dev_ops unpack d t) \<le> length (dev_ops unpack d t')"
proof -
  let ?ids = "o_id ` set (log_of unpack ts)"
  obtain xs where xs: "log_of unpack t' = log_of unpack t @ xs" "filter (\<lambda>o1. o_id o1 \<in> ?ids) xs = fresh_of (log_of unpack t) (take j ops)"
    using g by (auto simp: grows_def)
  show "length (dev_ops unpack d t) \<le> length (dev_ops unpack d t')" for d using dev_ops_append [OF xs(1), of d] by simp
  have sub: "set (take j ops) \<subseteq> set (log_of unpack ts)"
    using batch_distinct(2) [OF ts(1) batch(1)] set_take_subset [of j ops] unfolding batch(4) by blast
  show "set (take j ops) \<subseteq> set (log_of unpack t')"
  proof
    fix x assume x: "x \<in> set (take j ops)"
    show "x \<in> set (log_of unpack t')"
    proof (cases "o_id x \<in> o_id ` set (log_of unpack t)")
      case True
      then obtain y where y: "y \<in> set (log_of unpack t)" "o_id x = o_id y" by auto
      moreover have "x \<in> set (log_of unpack ts)" using sub x by blast
      ultimately have "x = y" using ts(2) unfolding agree_def by blast
      then show ?thesis using y(1) xs(1) by simp
    next
      case False
      then have "x \<in> set (filter (\<lambda>o1. o_id o1 \<in> ?ids) xs)" using x unfolding xs(2) by (simp add: fresh_of_def)
      then show ?thesis using xs(1) by simp
    qed
  qed
  let ?acked = "landed_loop ranges (of_nat j)"
  note p = landed_loop_prefix [OF batch(2) j, folded batch(4)]
  have dist: "distinct (map or_device ?acked)" using p(2) batch(1) by auto
  have "prefix (dev_ops unpack d t') (dev_ops unpack d ts) \<or> prefix (dev_ops unpack d ts) (dev_ops unpack d t')" for d
  proof (cases "d = me")
    case True
    then show ?thesis using mine dev_ops_append [OF xs(1), of d] by (auto intro: prefix_prefix)
  next
    case False
    have "filter (\<lambda>o1. device (o_hlc o1) = d) (fresh_of (log_of unpack t) (take j ops)) =
        fresh_of (log_of unpack t) (filter (\<lambda>o1. device (o_hlc o1) = d) (take j ops))"
      by (simp add: fresh_of_def conj_commute)
    then have dev: "dev_ops unpack d t' = dev_ops unpack d t @ fresh_of (log_of unpack t)
        (case List.find (\<lambda>r. or_device r = d) ?acked of Some r \<Rightarrow> ops_of_range unpack ts r | None \<Rightarrow> [])"
      using grows_dev_ops [OF g False] filter_device_ranges [OF dist, of d unpack ts] p(1) by simp
    show ?thesis
    proof (cases "List.find (\<lambda>r. or_device r = d) ?acked")
      case None
      then show ?thesis using dev ts(2) by (simp add: fresh_of_def agree_def)
    next
      case (Some q)
      then have "q \<in> set ?acked" "or_device q = d" by (auto simp: find_Some_iff)
      then obtain r where r: "r \<in> set ranges" "or_device r = d" "or_first q = or_first r" using p(3) by auto
      have f: "1 \<le> unat (or_first q)" "unat (or_first q) \<le> Suc (length (dev_ops unpack d t))"
        "length (dev_ops unpack d t) < length (dev_ops unpack d ts)"
        using batch(2,3) r by (fastforce simp: runs_in_def follows_held_def)+
      then have "prefix (dev_ops unpack d t) (dev_ops unpack d ts)" using ts(2) prefix_length_le by (fastforce simp: agree_def)
      then have "dev_ops unpack d t' = take (max (length (dev_ops unpack d t)) (unat (or_last q))) (dev_ops unpack d ts)"
        using dev Some fresh_slice [OF ts _ f(1,2)] \<open>or_device q = d\<close> by (simp add: ops_of_range_def)
      then show ?thesis by (simp add: take_is_prefix)
    qed
  qed
  moreover have "a = b" if ab: "a \<in> set (log_of unpack ts)" "b \<in> set (log_of unpack t')" "o_id a = o_id b" for a b
  proof (cases "b \<in> set (log_of unpack t)")
    case True
    then show ?thesis using ts(2) ab unfolding agree_def by blast
  next
    case False
    then have "b \<in> set xs" using ab(2) xs(1) by simp
    moreover have "o_id b \<in> ?ids" using ab(1,3) by (metis imageI)
    ultimately have "b \<in> set (filter (\<lambda>o1. o_id o1 \<in> ?ids) xs)" by simp
    then have "b \<in> set (log_of unpack ts)" unfolding xs(2) using sub by (auto simp: fresh_of_def)
    then show ?thesis using log_distinct [OF ts(1)] ab(1,3) by (auto simp: distinct_map dest: inj_onD)
  qed
  ultimately show "agree unpack ts t'" by (simp add: agree_def)
qed

text \<open>What is in the log is there under the number the sender has it under.\<close>

lemma ack_held:
  assumes ts: "log_ok unpack ts" "agree unpack ts t'" and r: "runs_in unpack ts [r]" "set (ops_of_range unpack ts r) \<subseteq> set (log_of unpack t')"
  shows "unat (or_last r) \<le> length (dev_ops unpack (or_device r) t')"
proof (rule ccontr)
  let ?d = "or_device r"
  let ?xs = "dev_ops unpack ?d ts"
  let ?b = "unat (or_last r)"
  assume "\<not> ?thesis"
  then have lt: "length (dev_ops unpack ?d t') < ?b" by simp
  have f: "1 \<le> unat (or_first r)" "unat (or_first r) \<le> ?b" "?b \<le> length ?xs" using r(1) by (simp_all add: runs_in_def word_le_nat_alt)
  have "prefix (dev_ops unpack ?d t') ?xs" using ts(2) lt f(3) prefix_length_le by (fastforce simp: agree_def)
  then have p: "dev_ops unpack ?d t' = take (length (dev_ops unpack ?d t')) ?xs" by (auto simp: prefix_def)
  have "?xs ! (?b - 1) = ops_of_range unpack ts r ! (?b - unat (or_first r))" using f by (simp add: ops_of_range_def log_slice_def)
  moreover have "?b - unat (or_first r) < length (ops_of_range unpack ts r)" using runs_in_width(3) [OF r(1)] f by simp
  ultimately have "?xs ! (?b - 1) \<in> set (log_of unpack t')" using r(2) by (metis nth_mem subsetD)
  moreover have "device (o_hlc (?xs ! (?b - 1))) = ?d"
  proof -
    have "?xs ! (?b - 1) \<in> set ?xs" using f by simp
    then show ?thesis by (simp add: dev_ops_def)
  qed
  ultimately have "?xs ! (?b - 1) \<in> set (dev_ops unpack ?d t')" by (simp add: dev_ops_def)
  then have "?xs ! (?b - 1) \<in> set (take (length (dev_ops unpack ?d t')) ?xs)" using p by simp
  then obtain i where "i < length (dev_ops unpack ?d t')" "i < length ?xs" "?xs ! i = ?xs ! (?b - 1)" by (auto simp: in_set_conv_nth)
  moreover from this have "i = ?b - 1" using distinct_dev_ops [OF ts(1)] f by (simp add: nth_eq_iff_index_eq)
  ultimately show False using lt by simp
qed

section \<open>The session and the log\<close>

text \<open>A session's heads never claim more than the store holds; other sessions, and runs refused late, may put the store ahead.\<close>

definition behind :: "('p \<Rightarrow> op option) \<Rightarrow> heads \<Rightarrow> 'p row list \<Rightarrow> bool" where
  "behind unpack hs t \<longleftrightarrow> (\<forall>d. unat (head_in hs d) \<le> length (dev_ops unpack d t))"

lemma find_in: "List.find P xs = Some x \<Longrightarrow> x \<in> set xs \<and> P x"
  by (auto simp: find_Some_iff)

lemma in_step_unat:
  assumes "in_step unpack hs t" "log_ok unpack t"
  shows "unat (head_in hs d) = length (dev_ops unpack d t)"
proof -
  have "length (dev_ops unpack d t) < 2 ^ 64" using assms(2) length_dev_ops_le [of unpack d t] by (simp add: log_ok_def)
  then show ?thesis using assms(1) unat_of_small by (simp add: in_step_def)
qed

lemma advance_all_distinct:
  "distinct (map or_device rs) \<Longrightarrow> advance_all hs rs = Inr hs' \<Longrightarrow> hs' = fold (\<lambda>r m. bt_put (or_device r) (or_last r) m) rs hs \<and>
    (\<forall>r \<in> set rs. head_in hs (or_device r) < or_last r \<and> or_first r \<le> head_in hs (or_device r) + 1)"
proof (induction rs arbitrary: hs)
  case (Cons r rs)
  have other: "\<forall>q \<in> set rs. or_device q \<noteq> or_device r" using other_device [OF Cons.prems(1)] by blast
  obtain hs1 where h: "advance_head hs r = Inr hs1" "advance_all hs1 rs = Inr hs'" using Cons.prems(2) by (auto split: sum.splits)
  have "distinct (map or_device rs)" using Cons.prems(1) by simp
  note IH = Cons.IH [OF this h(2)]
  show ?case using IH h(1) other by (auto simp: advance_head_Inr)
qed simp

lemma catch_up_behind:
  assumes "ws_state ws \<noteq> Importing" "behind unpack (ws_heads ws) t" "log_ok unpack t" "card (rw_device ` set t) \<le> MAX_DEVICES_PER_HEADS"
  shows "in_step unpack (ws_heads (ws_catch_up (store_heads t) ws)) t"
  unfolding in_step_def
proof
  fix d
  let ?ahead = "map (\<lambda>(d, h). \<lparr>or_device = d, or_first = 1, or_last = h\<rparr>) (filter (\<lambda>(d, h). h > head_in (ws_heads ws) d) (store_heads t))"
  have "map or_device ?ahead = map fst (filter (\<lambda>(d, h). h > head_in (ws_heads ws) d) (store_heads t))" by auto
  moreover have "distinct (map fst (store_heads t))" using store_heads_sorted [of t] by (simp add: strict_sorted_iff)
  ultimately have dist: "distinct (map or_device ?ahead)" by (simp only: distinct_map_filter)
  have hs: "ws_heads (ws_catch_up (store_heads t) ws) = fold (\<lambda>r m. bt_put (or_device r) (or_last r) m) ?ahead (ws_heads ws)"
    using assms(1) by (simp add: ws_catch_up_def Let_def)
  show "head_in (ws_heads (ws_catch_up (store_heads t) ws)) d = of_nat (length (dev_ops unpack d t))"
  proof (cases "List.find (\<lambda>r. or_device r = d) ?ahead")
    case (Some r)
    then have "r \<in> set ?ahead" "or_device r = d" using find_in [OF Some] by blast+
    then have "(d, or_last r) \<in> set (store_heads t)" by auto
    then have "or_last r = of_nat (length (dev_ops unpack d t))"
      using head_in_sorted [OF store_heads_sorted] head_in_store [OF assms(3,4)] by metis
    then show ?thesis unfolding hs head_in_fold [OF dist] Some by simp
  next
    case None
    then have no: "\<not> head_in (ws_heads ws) d < h" if "(d, h) \<in> set (store_heads t)" for h using that by (force simp: find_None_iff)
    have "head_in (store_heads t) d \<le> head_in (ws_heads ws) d"
    proof (cases "map_of (store_heads t) d")
      case (Some h)
      then show ?thesis using no [OF map_of_SomeD [OF Some]] by (simp add: head_in_def)
    qed (simp add: head_in_def)
    then have le: "of_nat (length (dev_ops unpack d t)) \<le> head_in (ws_heads ws) d" using head_in_store [OF assms(3,4)] by simp
    have "length (dev_ops unpack d t) < 2 ^ 64" using assms(3) length_dev_ops_le [of unpack d t] by (simp add: log_ok_def)
    then have "unat (of_nat (length (dev_ops unpack d t)) :: u64) = length (dev_ops unpack d t)" by (rule unat_of_small)
    then have "unat (head_in (ws_heads ws) d) = unat (of_nat (length (dev_ops unpack d t)) :: u64)"
      using le assms(2) unfolding behind_def word_le_nat_alt by (metis le_antisym)
    then show ?thesis unfolding hs head_in_fold [OF dist] None by (simp add: word_unat_eq_iff)
  qed
qed

lemma ready_catch_up:
  assumes "ws_ok ws" "ready_for_ops ws"
  shows "ready_for_ops (ws_catch_up theirs ws)" "ws_greeted (ws_catch_up theirs ws)"
  using assms by (auto simp: ready_for_ops_def ws_catch_up_def Let_def ws_ok_def)

lemma follows_held_heads:
  assumes "in_step unpack hs t" "log_ok unpack t"
    and r: "\<forall>r \<in> set ranges. head_in hs (or_device r) < or_last r \<and> or_first r \<le> head_in hs (or_device r) + 1"
  shows "follows_held unpack t ranges"
  unfolding follows_held_def
proof
  fix r assume "r \<in> set ranges"
  then have "head_in hs (or_device r) < or_last r" "or_first r \<le> head_in hs (or_device r) + 1" using r by blast+
  then show "unat (or_first r) \<le> Suc (length (dev_ops unpack (or_device r) t)) \<and> length (dev_ops unpack (or_device r) t) < unat (or_last r)"
    using unat_Suc_word [of "head_in hs (or_device r)"] in_step_unat [OF assms(1,2)] by (simp add: word_le_nat_alt word_less_nat_alt)
qed

lemma holding_ack_heads:
  assumes "map_of (ss_workspaces s) w = Some ws" "holding_ack w s (Ops v ops sigs ranges) = Some m"
  shows "\<exists>runs. m = Ack w runs \<and> (\<forall>r \<in> set runs. or_last r = head_in (ws_heads ws) (or_device r))"
proof -
  let ?f = "\<lambda>r held. let head = head_in (ws_heads ws) (or_device r) in
    if head \<ge> or_first r \<and> \<not> list_ex (\<lambda>h. or_device h = or_device r) held
    then held @ [\<lparr>or_device = or_device r, or_first = 1, or_last = head\<rparr>] else held"
  have "\<forall>r \<in> set (fold ?f rs acc). or_last r = head_in (ws_heads ws) (or_device r)"
    if "\<forall>r \<in> set acc. or_last r = head_in (ws_heads ws) (or_device r)" for rs acc
    using that
  proof (induction rs arbitrary: acc)
    case (Cons r rs)
    have "\<forall>q \<in> set (?f r acc). or_last q = head_in (ws_heads ws) (or_device q)" using Cons.prems by (simp add: Let_def)
    then show ?case unfolding fold_Cons comp_def by (rule Cons.IH)
  qed simp
  from this [of "[]" ranges] show ?thesis using assms by (auto simp: holding_ack_def Let_def split: if_splits)
qed

text \<open>What the commit of a batch the session has taken leaves: the reply, the log and the session.\<close>

lemma commit_and_ack_holds:
  fixes sh :: "('w, 'p, 'r) shared"
  assumes sh: "commits_run me (o_id ` set (log_of (sh_unpack sh) ts)) n sh"
    and logs: "log_ok (sh_unpack sh) ts" "log_ok (sh_unpack sh) (sh_rows sh wd)" "agree (sh_unpack sh) ts (sh_rows sh wd)"
      "prefix (dev_ops (sh_unpack sh) me ts) (dev_ops (sh_unpack sh) me (sh_rows sh wd))"
    and room: "length (sh_rows sh wd) + length ops * (1 + 2 * n) < 2 ^ 63"
    and s: "map_of (ss_workspaces s) w = Some ws" "ws_ok ws" "ws_state ws = Importing" "ws_inflight ws = ranges"
      "in_step (sh_unpack sh) (ws_heads ws) (sh_rows sh wd)"
    and batch: "distinct (map or_device ranges)" "runs_in (sh_unpack sh) ts ranges" "ops = concat (map (ops_of_range (sh_unpack sh) ts) ranges)"
      "\<forall>r \<in> set ranges. head_in (ws_heads ws) (or_device r) < or_last r \<and> or_first r \<le> head_in (ws_heads ws) (or_device r) + 1"
    and c: "commit_and_ack sh w ops ranges s wd = (s', wd', reply :: 's message option)"
  shows "\<exists>j \<le> length ops. grows me (o_id ` set (log_of (sh_unpack sh) ts)) (2 * n * length ops) (log_of (sh_unpack sh) (sh_rows sh wd))
      (log_of (sh_unpack sh) (sh_rows sh wd')) (fresh_of (log_of (sh_unpack sh) (sh_rows sh wd)) (take j ops)) \<and>
    log_ok (sh_unpack sh) (sh_rows sh wd') \<and> agree (sh_unpack sh) ts (sh_rows sh wd') \<and>
    (\<exists>ws'. map_of (ss_workspaces s') w = Some ws' \<and> ws_ok ws' \<and> behind (sh_unpack sh) (ws_heads ws') (sh_rows sh wd') \<and>
      (reply \<noteq> None \<longrightarrow> ready_for_ops ws')) \<and>
    (\<forall>m. reply = Some m \<longrightarrow> (\<exists>runs. m = Ack w runs \<and>
      (\<forall>r \<in> set runs. unat (or_last r) \<le> length (dev_ops (sh_unpack sh) (or_device r) (sh_rows sh wd'))))) \<and>
    (next_runs_of (sh_unpack sh) ts (sh_rows sh wd) ranges \<longrightarrow>
      (\<exists>k \<le> j. reply = Some (Ack w (landed_ranges ranges k)) \<and>
        concat (map (ops_of_range (sh_unpack sh) ts) (landed_ranges ranges k)) = take k ops \<and>
        (never_refuses sh \<longrightarrow> length ops \<le> MAX_APPEND_BATCH \<longrightarrow> k = length ops)))"
proof -
  let ?up = "sh_unpack sh"
  let ?t = "sh_rows sh wd"
  have small: "length ?t < 2 ^ 63" using logs(2) by (simp add: log_ok_def)
  have fh: "follows_held ?up ?t ranges" by (rule follows_held_heads [OF s(5) logs(2) batch(4)])
  have dist: "distinct (map o_id ops)" "o_id ` set ops \<subseteq> o_id ` set (log_of ?up ts)"
    using batch_distinct [OF logs(1) batch(1)] unfolding batch(3) by blast+
  have "or_first r \<le> saturating_add (head_of ?t (or_device r)) 1" if r: "r \<in> set ranges" for r
  proof -
    have "head_of ?t (or_device r) = head_in (ws_heads ws) (or_device r)"
      using s(5) by (simp add: in_step_def head_of_log [OF logs(2)] length_dev_ops [OF logs(2)])
    moreover have "unat (head_in (ws_heads ws) (or_device r)) < unat (or_last r)" "or_first r \<le> head_in (ws_heads ws) (or_device r) + 1"
      using batch(4) r by (simp_all add: word_less_nat_alt)
    moreover have "unat (or_last r) < 2 ^ 64" using unsigned_less [of "or_last r"] by simp
    ultimately show ?thesis by (simp add: saturating_add_def)
  qed
  then have gate: "follows_store_heads ?t ranges" by (simp add: follows_store_heads_def list_all_iff)
  obtain wd1 l where ci: "commit_incoming_ops sh ops wd = (wd1, l)" by fastforce
  define k where "k = ld_ops l"
  define acked where "acked = landed_ranges ranges k"
  obtain ws' r where wc: "ws_committed w acked ws = (ws', r :: unit session_error + 's message)" by fastforce
  have "session_committed w acked s = (s\<lparr>ss_workspaces := bt_put w ws' (ss_workspaces s)\<rparr>, r)"
    using s(1) wc by (simp add: session_committed_def on_workspace_def)
  then have out: "s' = s\<lparr>ss_workspaces := bt_put w ws' (ss_workspaces s)\<rparr>" "wd' = wd1" "reply = (case r of Inr ack \<Rightarrow> Some ack | Inl _ \<Rightarrow> None)"
    using c gate ci by (auto simp: commit_and_ack_def Let_def acked_def k_def split: sum.splits)
  obtain j where j: "k \<le> j" "j \<le> length ops" "log_ok ?up (sh_rows sh wd')"
    "grows me (o_id ` set (log_of ?up ts)) (2 * n * length ops) (log_of ?up ?t) (log_of ?up (sh_rows sh wd')) (fresh_of (log_of ?up ?t) (take j ops))"
    "never_refuses sh \<longrightarrow> length ops \<le> MAX_APPEND_BATCH \<longrightarrow> k = length ops"
    using commit_incoming_ops_grows [OF sh logs(2) room dist ci] unfolding k_def out(2) by blast
  have "length ops \<le> length ops * (1 + 2 * n)" by simp
  then have "length ops < 2 ^ 63" using room by linarith
  then have bits: "j < 2 ^ 64" "k < 2 ^ 64" using j(1,2) by simp_all
  note after = grown_agree [OF logs(1,3,4) batch(1,2) fh batch(3) bits(1) j(4)]
  have al: "acked = landed_loop ranges (of_nat k)" using bits(2) by (simp add: acked_def landed_ranges_def)
  note p = landed_loop_prefix [OF batch(2) bits(2), folded al batch(3)]
  have held: "unat (or_last q) \<le> length (dev_ops ?up (or_device q) (sh_rows sh wd'))" if q: "q \<in> set acked" for q
  proof (rule ack_held [OF logs(1) after(1)])
    show "runs_in ?up ts [q]" using batch(2) p(3) q by (fastforce simp: runs_in_def word_le_nat_alt)
    have "set (ops_of_range ?up ts q) \<subseteq> set (take k ops)" unfolding p(1) [symmetric] using q by auto
    also have "\<dots> \<subseteq> set (take j ops)" using j(1) by (rule set_take_subset_set_take)
    finally show "set (ops_of_range ?up ts q) \<subseteq> set (log_of ?up (sh_rows sh wd'))" using after(2) by blast
  qed
  have b0: "behind ?up (ws_heads ws) (sh_rows sh wd')" using after(3) in_step_unat [OF s(5) logs(2)] by (simp add: behind_def)
  have "ws_ok (fst (ws_committed w acked ws :: _ \<times> (unit session_error + 's message)))" by (rule ws_ok_committed [OF s(2)])
  then have wok: "ws_ok ws'" unfolding wc by (simp only: fst_conv)
  have g: "ws_greeted ws" using s(2,3) by (simp add: ws_ok_def)
  have dk: "distinct (map or_device acked)" using p(2) batch(1) by auto
  have ok: "r = Inr (Ack w acked) \<and> behind ?up (ws_heads ws') (sh_rows sh wd') \<and> ready_for_ops ws'" if nl: "\<not> isl r"
  proof -
    obtain hs where hs: "advance_all (ws_heads ws) acked = Inr hs" "r = Inr (Ack w acked)" "ws_heads ws' = hs" "ready_for_ops ws'"
      using wc nl s(3) g by (auto simp: ws_committed_def Let_def ready_for_ops_def split: option.splits sum.splits if_splits)
    have "unat (head_in hs d) \<le> length (dev_ops ?up d (sh_rows sh wd'))" for d
      using conjunct1 [OF advance_all_distinct [OF dk hs(1)]] held b0
      by (auto simp: head_in_fold [OF dk] behind_def find_Some_iff split: option.split)
    then show ?thesis using hs by (simp add: behind_def)
  qed
  have bad: "ws' = ws" if "isl r" using wc that by (auto simp: ws_committed_def Let_def split: option.splits sum.splits if_splits)
  have sess: "map_of (ss_workspaces s') w = Some ws' \<and> ws_ok ws' \<and> behind ?up (ws_heads ws') (sh_rows sh wd') \<and> (reply \<noteq> None \<longrightarrow> ready_for_ops ws')"
    using wok ok bad b0 out(1,3) by (cases r) auto
  have ack: "\<exists>runs. m = Ack w runs \<and> (\<forall>r \<in> set runs. unat (or_last r) \<le> length (dev_ops ?up (or_device r) (sh_rows sh wd')))" if "reply = Some m" for m
    using that ok held out(3) by (cases r) auto
  have exact: "reply = Some (Ack w acked) \<and> concat (map (ops_of_range ?up ts) acked) = take k ops" if nr: "next_runs_of ?up ts ?t ranges"
  proof -
    note la = next_runs_landed [OF nr bits(2) acked_def]
    have "advance_all (ws_heads ws) acked = Inr (fold (\<lambda>r m. bt_put (or_device r) (or_last r) m) acked (ws_heads ws))"
      using next_run_heads [OF s(5) small la(1)] by (intro advance_all_fresh [OF dk]) auto
    moreover have "List.find (\<lambda>r. \<not> covered ranges r) acked = None" using la(3) by (auto simp: find_None_iff)
    ultimately have "\<not> isl r" using wc s(3,4) by (auto simp: ws_committed_def Let_def)
    then show ?thesis using ok out(3) p(1) by auto
  qed
  show ?thesis using j sess ack exact after(1) unfolding acked_def by blast
qed

text \<open>C6: an acknowledgement is never ahead of the log. A peer whose log agrees with ours sends any batch of it, whatever we hold of
  it already; the session claims no more than the store holds; commits may refuse a run before or after it is stored, and this
  device may log operations of its own meanwhile. Then the connection carries on, and every run the reply acknowledges ends at
  a number the log has reached for that device, the two logs still agree, so what is acknowledged is held under the sender's
  numbers. Of the peer's operations the log gains exactly those of a beginning of the batch that it lacked; the session
  claims no more than the store holds again, and a reply leaves it ready for the next batch. When the batch starts right
  after the heads held there is a reply, it numbers exactly the first \<open>k\<close> operations, all of them logged, and it numbers the whole
  batch where no commit refuses.
\<close>

theorem batch_acks_what_landed:
  fixes verify :: "op \<Rightarrow> 's \<Rightarrow> 'k \<Rightarrow> 'c + unit" and sh :: "('w, 'p, 'r) shared"
  assumes sh: "commits_run me (o_id ` set (log_of (sh_unpack sh) ts)) n sh"
    and logs: "log_ok (sh_unpack sh) ts" "log_ok (sh_unpack sh) (sh_rows sh wd)" "agree (sh_unpack sh) ts (sh_rows sh wd)"
      "prefix (dev_ops (sh_unpack sh) me ts) (dev_ops (sh_unpack sh) me (sh_rows sh wd))"
    and room: "length (sh_rows sh wd) + length ops * (1 + 2 * n) < 2 ^ 63" "card (rw_device ` set (sh_rows sh wd)) \<le> MAX_DEVICES_PER_HEADS"
    and s: "map_of (ss_workspaces s) w = Some ws" "ws_ok ws" "ready_for_ops ws" "behind (sh_unpack sh) (ws_heads ws) (sh_rows sh wd)"
    and batch: "distinct (map or_device ranges)" "runs_in (sh_unpack sh) ts ranges" "ops = concat (map (ops_of_range (sh_unpack sh) ts) ranges)"
      "verify_batch verify ops sigs (device_keys_for ops key) = Inr ()"
  shows "\<exists>s' wd' reply j ws'. handle_ops verify sh w key (Ops w ops sigs ranges) ranges s wd = (s', wd', reply, True) \<and> j \<le> length ops \<and>
    grows me (o_id ` set (log_of (sh_unpack sh) ts)) (2 * n * length ops) (log_of (sh_unpack sh) (sh_rows sh wd))
      (log_of (sh_unpack sh) (sh_rows sh wd')) (fresh_of (log_of (sh_unpack sh) (sh_rows sh wd)) (take j ops)) \<and>
    log_ok (sh_unpack sh) (sh_rows sh wd') \<and> agree (sh_unpack sh) ts (sh_rows sh wd') \<and>
    map_of (ss_workspaces s') w = Some ws' \<and> ws_ok ws' \<and> behind (sh_unpack sh) (ws_heads ws') (sh_rows sh wd') \<and>
    (reply \<noteq> None \<longrightarrow> ready_for_ops ws') \<and>
    (\<forall>m. reply = Some m \<longrightarrow> (\<exists>runs. m = Ack w runs \<and>
      (\<forall>r \<in> set runs. unat (or_last r) \<le> length (dev_ops (sh_unpack sh) (or_device r) (sh_rows sh wd'))))) \<and>
    (next_runs_of (sh_unpack sh) ts (sh_rows sh wd) ranges \<longrightarrow>
      (\<exists>k \<le> j. reply = Some (Ack w (landed_ranges ranges k)) \<and>
        concat (map (ops_of_range (sh_unpack sh) ts) (landed_ranges ranges k)) = take k ops \<and>
        (never_refuses sh \<longrightarrow> length ops \<le> MAX_APPEND_BATCH \<longrightarrow> k = length ops)))"
proof -
  let ?up = "sh_unpack sh"
  let ?t = "sh_rows sh wd"
  let ?msg = "Ops w ops sigs ranges"
  define ws1 where "ws1 = ws_catch_up (store_heads ?t) ws"
  have "ws_state ws \<noteq> Importing" using s(3) by (auto simp: ready_for_ops_def)
  then have step: "in_step ?up (ws_heads ws1) ?t" unfolding ws1_def by (rule catch_up_behind [OF _ s(4) logs(2) room(2)])
  have ok1: "ws_ok ws1" "ready_for_ops ws1" "ws_greeted ws1"
    using ws_ok_catch_up [OF s(2) store_heads_sorted] ready_catch_up [OF s(2,3)] by (simp_all add: ws1_def)
  let ?s1 = "s\<lparr>ss_workspaces := bt_put w ws1 (ss_workspaces s)\<rparr>"
  have cu: "session_catch_up w (store_heads ?t) s = (?s1, Inr () :: 'c session_error + unit)"
    using s(1) by (simp add: session_catch_up_def on_workspace_def ws1_def)
  show ?thesis
  proof (cases "advance_all (ws_heads ws1) ranges")
    case (Inl g)
    then have "ws_on_ops verify w ?msg (device_keys_for ops key) ws1 = (ws1, Inl (GapRefused g) :: 'c session_error + op list)"
      using ok1(2) batch(4) by (auto simp: ws_on_ops_def ready_for_ops_def)
    then have "session_on_ops verify w ?msg (device_keys_for ops key) ?s1 =
        (?s1\<lparr>ss_workspaces := bt_put w ws1 (ss_workspaces ?s1)\<rparr>, Inl (GapRefused g) :: 'c session_error + op list)"
      by (simp add: session_on_ops_def on_workspace_def)
    moreover define s2 where "s2 = ?s1\<lparr>ss_workspaces := bt_put w ws1 (ss_workspaces ?s1)\<rparr>"
    ultimately have h: "handle_ops verify sh w key ?msg ranges s wd = (s2, wd, holding_ack w s2 ?msg, True)"
      by (simp add: handle_ops_def ops_or_refuse_def cu)
    have m2: "map_of (ss_workspaces s2) w = Some ws1" by (simp add: s2_def)
    have b: "behind ?up (ws_heads ws1) ?t" using in_step_unat [OF step logs(2)] by (simp add: behind_def)
    have "\<exists>runs. m = Ack w runs \<and> (\<forall>r \<in> set runs. unat (or_last r) \<le> length (dev_ops ?up (or_device r) ?t))"
      if "holding_ack w s2 ?msg = Some m" for m
      using holding_ack_heads [OF m2 that] in_step_unat [OF step logs(2)] by fastforce
    moreover have "\<not> next_runs_of ?up ts ?t ranges"
    proof
      assume nr: "next_runs_of ?up ts ?t ranges"
      have "length ?t < 2 ^ 63" using logs(2) by (simp add: log_ok_def)
      then have "advance_all (ws_heads ws1) ranges = Inr (fold (\<lambda>r m. bt_put (or_device r) (or_last r) m) ranges (ws_heads ws1))"
        using next_run_heads [OF step _ nr] by (intro advance_all_fresh [OF batch(1)]) auto
      then show False using Inl by simp
    qed
    moreover have "grows me (o_id ` set (log_of ?up ts)) (2 * n * length ops) (log_of ?up ?t) (log_of ?up ?t) (fresh_of (log_of ?up ?t) (take 0 ops))"
      using grows_refl by (simp add: fresh_of_def)
    moreover have "(0 :: nat) \<le> length ops" by simp
    ultimately show ?thesis using h logs(2,3) m2 ok1(1,2) b by blast
  next
    case (Inr hs)
    let ?ws = "ws1\<lparr>ws_inflight := ranges, ws_state := Importing\<rparr>"
    have on: "ws_on_ops verify w ?msg (device_keys_for ops key) ws1 = (?ws, Inr ops :: 'c session_error + op list)"
      using Inr ok1(2) batch(4) by (auto simp: ws_on_ops_def ready_for_ops_def)
    then have "session_on_ops verify w ?msg (device_keys_for ops key) ?s1 =
        (?s1\<lparr>ss_workspaces := bt_put w ?ws (ss_workspaces ?s1)\<rparr>, Inr ops :: 'c session_error + op list)"
      by (simp add: session_on_ops_def on_workspace_def)
    moreover define s2 where "s2 = ?s1\<lparr>ss_workspaces := bt_put w ?ws (ss_workspaces ?s1)\<rparr>"
    moreover obtain s3 wd3 reply where ca: "commit_and_ack sh w ops ranges s2 wd = (s3, wd3, reply :: 's message option)" by (metis prod_cases3)
    ultimately have h: "handle_ops verify sh w key ?msg ranges s wd = (s3, wd3, reply, True)"
      by (simp add: handle_ops_def ops_or_refuse_def cu)
    have "ws_ok (fst (ws_on_ops verify w ?msg (device_keys_for ops key) ws1))" by (rule ws_ok_on_ops [OF ok1(1)])
    then have wok: "ws_ok ?ws" unfolding on by (simp only: fst_conv)
    have m2: "map_of (ss_workspaces s2) w = Some ?ws" by (simp add: s2_def)
    have step2: "in_step ?up (ws_heads ?ws) ?t" using step by simp
    have fit: "\<forall>r \<in> set ranges. head_in (ws_heads ?ws) (or_device r) < or_last r \<and> or_first r \<le> head_in (ws_heads ?ws) (or_device r) + 1"
      using advance_all_distinct [OF batch(1) Inr] by simp
    have st: "ws_state ?ws = Importing" "ws_inflight ?ws = ranges" by simp_all
    show ?thesis using h commit_and_ack_holds [OF sh logs room(1) m2 wok st step2 batch(1-3) fit ca] by blast
  qed
qed

text \<open>A commit that logs its run and then cannot write the file: the run is refused, the log holds it. The batch is acknowledged
  with nothing, and when it comes again, as held.\<close>

definition full_disk :: "(op row list, op, unit) shared" where
  "full_disk = (log_shared Some Some)\<lparr>sh_commit := \<lambda>f ops df t. (fst (log_only Some Some f ops df t :: _ \<times> (unit refusal + unit)), Inl (CommitRefused ()))\<rparr>"

lemma full_disk_simps [simp]:
  "sh_rows full_disk = id" "sh_unpack full_disk = Some" "sh_flush full_disk f t = t"
  "sh_commit full_disk f ops df t = (fst (log_only Some Some f ops df t :: _ \<times> (unit refusal + unit)), Inl (CommitRefused ()))"
  by (simp_all add: full_disk_def)

lemma full_disk_commits: "commits_run me ids 0 full_disk"
  unfolding commits_run_def full_disk_simps id_apply
proof (intro conjI allI impI)
  fix f ops df t t' and res :: "unit refusal + unit"
  assume a: "log_ok Some t" "ops \<noteq> []" "distinct (map o_id ops)" "o_id ` set ops \<subseteq> ids" "o_id ` set ops \<inter> o_id ` set (log_of Some t) = {}"
    "length t + length ops + 0 < 2 ^ 63" "(fst (log_only Some Some f ops df t :: _ \<times> (unit refusal + unit)), Inl (CommitRefused ())) = (t', res)"
  obtain u r where u: "log_only Some Some f ops df t = (u, r :: unit refusal + unit)" by fastforce
  have "codec_ok Some Some" "length t + length ops < 2 ^ 63" using a(6) by (simp_all add: codec_ok_def)
  note l = log_only_log(1) [OF a(1) this(1) a(2,3,5) this(2) u]
  have e: "t' = u" "isl res" using a(7) u by auto
  show "log_ok Some t'" using l e(1) by simp
  show "grows me ids 0 (log_of Some t) (log_of Some t') ops \<or> isl res \<and> grows me ids 0 (log_of Some t) (log_of Some t') []"
    using l e a(4) by (cases r) (simp_all add: grows_plain grows_refl)
qed (simp_all add: grows_refl)

abbreviation one_run :: origin_range where
  "one_run \<equiv> \<lparr>or_device = 1, or_first = 1, or_last = 2\<rparr>"

abbreviation wanting_session :: session where
  "wanting_session \<equiv> \<lparr>ss_device = 2, ss_group = 7, ss_link_hello_sent = True, ss_peer = Some 1, ss_workspaces =
     [(3, \<lparr>ws_state = Wanting, ws_heads = [], ws_wanted = [one_run], ws_inflight = [], ws_greeted = True\<rparr>)]\<rparr>"

abbreviation handle_full :: "session \<Rightarrow> op row list \<Rightarrow> session \<times> op row list \<times> unit message option \<times> bool" where
  "handle_full \<equiv> handle_ops (\<lambda>(_ :: op) (_ :: unit) (_ :: unit). Inr () :: unit + unit) full_disk 3 () (Ops 3 two_ops [(), ()] [one_run]) [one_run]"

lemma full_disk_logs:
  "\<exists>t f. log_ok Some t \<and> log_of Some t = two_ops \<and>
    commit_incoming_ops full_disk two_ops [] = (t, \<lparr>ld_ops = 0, ld_files = [], ld_refused = Some (f, CommitRefused ())\<rparr>)"
proof -
  obtain t r where l: "log_only Some Some ''a'' two_ops False [] = (t, r :: unit refusal + unit)" by fastforce
  have codec: "codec_ok Some Some" by (simp add: codec_ok_def)
  have "two_ops \<noteq> []" "distinct (map o_id two_ops)" "o_id ` set two_ops \<inter> o_id ` set (log_of Some []) = {}" "length ([] :: op row list) + length two_ops < 2 ^ 63"
    "length two_ops \<le> MAX_APPEND_BATCH"
    by (simp_all add: two_ops_def log_of_def MAX_APPEND_BATCH_def)
  note ll = log_only_log [OF log_ok_nil codec this(1-4) l]
  have "\<not> isl r" using ll(2) \<open>length two_ops \<le> MAX_APPEND_BATCH\<close> by simp
  then have t: "log_ok Some t" "log_of Some t = two_ops" using ll(1) by (auto simp: log_of_def split: sum.splits)
  have d: "drop_held Some [] two_ops = Inr two_ops" using drop_held_ok [OF log_ok_nil] by (simp add: fresh_of_def log_of_def)
  have sf: "\<exists>f. same_file_runs two_ops = [(f, two_ops)]" by (simp add: same_file_runs_def two_ops_def)
  then obtain f where f: "same_file_runs two_ops = [(f, two_ops)]" by blast
  have "log_only Some Some f two_ops False [] = (t, r)" using l by (simp add: log_only_def)
  then have "commit_incoming_ops full_disk two_ops [] = (t, \<lparr>ld_ops = 0, ld_files = [], ld_refused = Some (f, CommitRefused ())\<rparr>)"
    using d by (simp add: commit_incoming_ops_def f commit_new_ops_def not_yet_stored_def Let_def) (simp add: two_ops_def)
  then show ?thesis using t by blast
qed

lemma full_disk_reply:
  "\<exists>s t. handle_full wanting_session [] = (s, t, Some (Ack 3 []), True) \<and> log_of Some t = two_ops"
proof -
  obtain t f where t: "log_of Some t = two_ops"
    "commit_incoming_ops full_disk two_ops [] = (t, \<lparr>ld_ops = 0, ld_files = [], ld_refused = Some (f, CommitRefused ())\<rparr>)"
    using full_disk_logs by blast
  have heads: "store_heads ([] :: op row list) = []" "head_of ([] :: op row list) d = 0" for d
    by (simp_all add: store_heads_def head_of_def head_row_def sql_max_def u64_or_0_def)
  have "verify_batch (\<lambda>(_ :: op) (_ :: unit) (_ :: unit). Inr () :: unit + unit) two_ops [(), ()] (device_keys_for two_ops ()) = Inr ()"
    by (simp add: verify_batch_def device_keys_for_def two_ops_def)
  moreover have "follows_store_heads ([] :: op row list) [one_run]" "landed_ranges [one_run] 0 = []"
    by (simp_all add: follows_store_heads_def heads saturating_add_def landed_ranges_def)
  ultimately show ?thesis using t
    by (simp add: handle_ops_def ops_or_refuse_def session_catch_up_def session_on_ops_def session_committed_def on_workspace_def ws_catch_up_def
        ws_on_ops_def ws_committed_def heads consume_ranges_def advance_head_def head_in_def Let_def commit_and_ack_def)
qed

theorem batch_acks_what_landed_witness:
  "\<exists>s t ws. handle_full wanting_session [] = (s, t, Some (Ack 3 []), True) \<and> log_of Some t = two_ops \<and> log_ok Some t \<and>
    agree Some two_rows t \<and> map_of (ss_workspaces s) 3 = Some ws \<and> ready_for_ops ws \<and> behind Some (ws_heads ws) t"
proof -
  let ?v = "\<lambda>(_ :: op) (_ :: unit) (_ :: unit). Inr () :: unit + unit"
  let ?ws = "\<lparr>ws_state = Wanting, ws_heads = [], ws_wanted = [one_run], ws_inflight = [], ws_greeted = True\<rparr>"
  have nil: "dev_ops Some d [] = []" "log_of Some [] = []" for d by (simp_all add: dev_ops_def log_of_def)
  have ops: "two_ops = concat (map (ops_of_range Some two_rows) [one_run])"
    by (simp add: ops_of_range_def log_slice_def two_rows_ok) (simp add: two_ops_def)
  have run: "distinct (map or_device [one_run])" "runs_in Some two_rows [one_run]" by (simp_all add: runs_in_def two_rows_ok) (simp add: two_ops_def)
  have ag: "agree Some two_rows []" "prefix (dev_ops Some 2 two_rows) (dev_ops Some 2 [])" by (simp_all add: agree_def nil two_rows_ok)
  have room: "length ([] :: op row list) + length two_ops * (1 + 2 * 0) < 2 ^ 63" "card (rw_device ` set ([] :: op row list)) \<le> MAX_DEVICES_PER_HEADS"
    by (simp_all add: two_ops_def)
  have ws: "map_of (ss_workspaces wanting_session) 3 = Some ?ws" "ws_ok ?ws" "ready_for_ops ?ws" "behind Some (ws_heads ?ws) []"
    by (simp_all add: ws_ok_def follows_def ready_for_ops_def behind_def nil head_in_def)
  have "verify_batch ?v two_ops [(), ()] (device_keys_for two_ops ()) = Inr ()"
    by (simp add: verify_batch_def device_keys_for_def two_ops_def)
  from batch_acks_what_landed [where sh = full_disk and wd = "[]" and ts = two_rows and verify = ?v and key = "()", unfolded full_disk_simps id_apply,
      OF full_disk_commits two_rows_ok(1) log_ok_nil ag room ws run ops this]
  obtain s t reply ws' where h: "handle_full wanting_session [] = (s, t, reply, True)" and t: "log_ok Some t" "agree Some two_rows t"
    "map_of (ss_workspaces s) 3 = Some ws'" "behind Some (ws_heads ws') t" "reply \<noteq> None \<longrightarrow> ready_for_ops ws'" by blast
  obtain s1 t1 where "handle_full wanting_session [] = (s1, t1, Some (Ack 3 []), True)" "log_of Some t1 = two_ops" using full_disk_reply by blast
  then have "reply = Some (Ack 3 [])" "log_of Some t = two_ops" using h by simp_all
  then show ?thesis using h t by blast
qed

end
