(* ===== verification/SyncLive.thy ===== *)
theory SyncLive
  imports SyncImport
begin

text \<open>
  \<open>lan_session_live.rs\<close> (\<open>txtodo-daemon\<close>): what one connection sends a peer and when, with the two heads it keeps per
  workspace, what the peer holds for sure and what was sent. Instants are milliseconds of a clock that is a parameter.
  A workspace's route is its log and its count of commits; whether a send succeeds, and whether the peer has a better
  connection, are parameters. The mark among the live peers and the logging are left out.
\<close>

section \<open>Definitions\<close>

definition HEARTBEAT :: nat where "HEARTBEAT = 5000"
definition DEAD_AFTER :: nat where "DEAD_AFTER = 20000"
definition QUIET_CLOSE :: nat where "QUIET_CLOSE = 750"
definition RESEND_AFTER :: nat where "RESEND_AFTER = 10000"
definition WINDOW_BATCHES :: u64 where "WINDOW_BATCHES = 2"

record live =
  lv_held :: "workspace_id \<rightharpoonup> heads"
  lv_sent :: "workspace_id \<rightharpoonup> heads"
  lv_waiting_since :: "workspace_id \<rightharpoonup> nat"
  lv_ready :: "workspace_id set"
  lv_asked :: "workspace_id \<rightharpoonup> heads"
  lv_pending :: "workspace_id set"
  lv_seen_commits :: "workspace_id \<rightharpoonup> nat \<times> heads"
  lv_last_heard :: nat
  lv_last_beat :: nat
  lv_last_sweep :: nat

definition Live_new :: "nat \<Rightarrow> live" where
  "Live_new now = \<lparr>lv_held = Map.empty, lv_sent = Map.empty, lv_waiting_since = Map.empty, lv_ready = {}, lv_asked = Map.empty,
     lv_pending = {}, lv_seen_commits = Map.empty, lv_last_heard = now, lv_last_beat = now, lv_last_sweep = now\<rparr>"

definition heard :: "nat \<Rightarrow> live \<Rightarrow> live" where
  "heard now l = l\<lparr>lv_last_heard := now\<rparr>"

definition raise_heads :: "heads \<Rightarrow> origin_range list \<Rightarrow> heads" where
  "raise_heads hs ranges = fold (\<lambda>r m. bt_put (or_device r) (max (head_in m (or_device r)) (or_last r)) m) ranges hs"

definition raise_to :: "heads \<Rightarrow> heads \<Rightarrow> heads" where
  "raise_to hs floors = fold (\<lambda>(d, h) m. bt_put d (max (head_in m d) h) m) floors hs"

definition heads_at :: "(workspace_id \<rightharpoonup> heads) \<Rightarrow> workspace_id \<Rightarrow> heads" where
  "heads_at m w = (case m w of Some hs \<Rightarrow> hs | None \<Rightarrow> [])"

definition in_flight :: "workspace_id \<Rightarrow> live \<Rightarrow> bool" where
  "in_flight w l = (case lv_sent l w of None \<Rightarrow> False
     | Some sent \<Rightarrow> list_ex (\<lambda>(d, s). s > head_in (heads_at (lv_held l) w) d) sent)"

definition in_flight_ops :: "workspace_id \<Rightarrow> live \<Rightarrow> u64" where
  "in_flight_ops w l = (case lv_sent l w of None \<Rightarrow> 0
     | Some sent \<Rightarrow> sum_list (map (\<lambda>(d, s). saturating_sub s (head_in (heads_at (lv_held l) w) d)) sent))"

definition note_acked :: "nat \<Rightarrow> workspace_id \<Rightarrow> origin_range list \<Rightarrow> live \<Rightarrow> live" where
  "note_acked now w committed l =
    (if committed = [] then l
     else
       let held = raise_heads (heads_at (lv_held l) w) committed;
           l1 = l\<lparr>lv_held := (lv_held l)(w \<mapsto> held), lv_sent := (lv_sent l)(w \<mapsto> raise_to (heads_at (lv_sent l) w) held)\<rparr>
       in if in_flight w l1 then l1\<lparr>lv_waiting_since := (lv_waiting_since l1)(w \<mapsto> now)\<rparr>
          else l1\<lparr>lv_waiting_since := (lv_waiting_since l1)(w := None)\<rparr>)"

definition note_sent :: "nat \<Rightarrow> workspace_id \<Rightarrow> origin_range list \<Rightarrow> live \<Rightarrow> live" where
  "note_sent now w ranges l =
    (if ranges = [] then l
     else l\<lparr>lv_sent := (lv_sent l)(w \<mapsto> raise_heads (heads_at (lv_sent l) w) ranges),
            lv_waiting_since := (if lv_waiting_since l w = None then (lv_waiting_since l)(w \<mapsto> now) else lv_waiting_since l)\<rparr>)"

fun observe :: "nat \<Rightarrow> workspace_id \<Rightarrow> 's message \<Rightarrow> live \<Rightarrow> live" where
  "observe now w (Greet _ hs) l =
    l\<lparr>lv_held := (lv_held l)(w \<mapsto> hs), lv_sent := (lv_sent l)(w \<mapsto> hs), lv_waiting_since := (lv_waiting_since l)(w := None)\<rparr>"
| "observe now w (Want _ ranges) l =
    l\<lparr>lv_asked := (lv_asked l)(w \<mapsto> raise_heads (heads_at (lv_sent l) w) ranges), lv_ready := insert w (lv_ready l),
      lv_pending := insert w (lv_pending l)\<rparr>"
| "observe now w (Ops _ _ _ ranges) l =
    l\<lparr>lv_held := (lv_held l)(w \<mapsto> raise_heads (heads_at (lv_held l) w) ranges),
      lv_sent := (lv_sent l)(w \<mapsto> raise_heads (heads_at (lv_sent l) w) ranges)\<rparr>"
| "observe now w (Ack _ committed) l = note_acked now w committed l"
| "observe now w _ l = l"

definition idle_for :: "workspace_id \<Rightarrow> live \<Rightarrow> bool" where
  "idle_for w l \<longleftrightarrow> w \<in> lv_ready l \<and> \<not> in_flight w l \<and> w \<notin> lv_pending l"

definition rewind_if_stalled :: "workspace_id \<Rightarrow> nat \<Rightarrow> live \<Rightarrow> live \<times> bool" where
  "rewind_if_stalled w now l =
    (case lv_waiting_since l w of None \<Rightarrow> (l, False)
     | Some since \<Rightarrow>
         if now - since < RESEND_AFTER then (l, False)
         else
           let l1 = l\<lparr>lv_waiting_since := (lv_waiting_since l)(w := None)\<rparr>
           in if \<not> in_flight w l1 then (l1, False)
              else (l1\<lparr>lv_sent := (lv_sent l1)(w \<mapsto> heads_at (lv_held l1) w)\<rparr>, True))"

definition expired :: "nat \<Rightarrow> live \<Rightarrow> bool" where
  "expired now l = (let quiet = now - lv_last_heard l in if lv_ready l = {} then quiet \<ge> QUIET_CLOSE else quiet \<ge> DEAD_AFTER)"

definition next_runs :: "workspace_id \<Rightarrow> heads \<Rightarrow> live \<Rightarrow> live \<times> origin_range list" where
  "next_runs w loc l =
    (let sent = heads_at (lv_sent l) w in
     case map_option (want_ranges sent) (lv_asked l w) of
       Some (r # rs) \<Rightarrow> (l, r # rs)
     | _ \<Rightarrow> (l\<lparr>lv_asked := (lv_asked l)(w := None)\<rparr>, want_ranges sent loc))"

text \<open>One push_batch: the state after it, the message sent, and \<open>False\<close> when the send failed. \<open>None\<close> when serving does not end.\<close>

definition push_batch ::
    "(op \<Rightarrow> 's option) \<Rightarrow> ('p \<Rightarrow> op option) \<Rightarrow> ('s message \<Rightarrow> bool) \<Rightarrow> (workspace_id \<Rightarrow> ('p row list \<times> nat) option) \<Rightarrow> nat \<Rightarrow>
     workspace_id \<Rightarrow> bool \<Rightarrow> live \<Rightarrow> (live \<times> 's message option \<times> bool) option" where
  "push_batch sign unpack send_ok routes now w sweep l =
    (case routes w of None \<Rightarrow> Some (l, None, True)
     | Some (t, commits) \<Rightarrow>
         let (l1, rewound) = rewind_if_stalled w now l;
             fresh = (case lv_seen_commits l1 w of None \<Rightarrow> True | Some (c, _) \<Rightarrow> c \<noteq> commits)
         in if \<not> (sweep \<or> rewound \<or> fresh \<or> w \<in> lv_pending l1) then Some (l1, None, True)
            else
              let loc = (case lv_seen_commits l1 w of
                    Some (c, hs) \<Rightarrow> if c = commits \<and> \<not> sweep then hs else store_heads t | None \<Rightarrow> store_heads t);
                  l2 = l1\<lparr>lv_seen_commits := (lv_seen_commits l1)(w \<mapsto> (commits, loc))\<rparr>;
                  (l3, runs) = next_runs w loc l2
              in if runs = [] then Some (l3\<lparr>lv_pending := lv_pending l3 - {w}\<rparr>, None, True)
                 else
                   let l4 = l3\<lparr>lv_pending := insert w (lv_pending l3)\<rparr>
                   in if in_flight_ops w l4 \<ge> WINDOW_BATCHES * of_nat MAX_OPS_PER_BATCH then Some (l4, None, True)
                      else (case serve_merged sign unpack t w runs of
                          None \<Rightarrow> None
                        | Some (Inr (Some (msg, ranges))) \<Rightarrow>
                            if send_ok msg then Some (note_sent now w ranges l4, Some msg, True) else Some (l4, None, False)
                        | Some _ \<Rightarrow> Some (l4, None, True)))"

text \<open>The pushes of one turn, up to the first that fails.\<close>

fun push_ready ::
    "(op \<Rightarrow> 's option) \<Rightarrow> ('p \<Rightarrow> op option) \<Rightarrow> ('s message \<Rightarrow> bool) \<Rightarrow> (workspace_id \<Rightarrow> ('p row list \<times> nat) option) \<Rightarrow> nat \<Rightarrow>
     bool \<Rightarrow> workspace_id list \<Rightarrow> live \<Rightarrow> (live \<times> 's message list \<times> bool) option" where
  "push_ready sign unpack send_ok routes now sweep [] l = Some (l, [], True)"
| "push_ready sign unpack send_ok routes now sweep (w # ws) l =
    (case push_batch sign unpack send_ok routes now w sweep l of None \<Rightarrow> None
     | Some (l', m, False) \<Rightarrow> Some (l', [], False)
     | Some (l', m, True) \<Rightarrow>
         map_option (\<lambda>(l'', ms, ok). (l'', (case m of None \<Rightarrow> ms | Some x \<Rightarrow> x # ms), ok))
           (push_ready sign unpack send_ok routes now sweep ws l'))"

definition beat :: "('s message \<Rightarrow> bool) \<Rightarrow> workspace_id list \<Rightarrow> 's message list \<times> bool" where
  "beat send_ok ready =
    (case ready of [] \<Rightarrow> ([], True)
     | w # _ \<Rightarrow> if send_ok (Ack w []) then ([Ack w []], True) else ([], False))"

definition live_tick ::
    "(op \<Rightarrow> 's option) \<Rightarrow> ('p \<Rightarrow> op option) \<Rightarrow> ('s message \<Rightarrow> bool) \<Rightarrow> (workspace_id \<Rightarrow> ('p row list \<times> nat) option) \<Rightarrow> bool \<Rightarrow> nat \<Rightarrow>
     live \<Rightarrow> (live \<times> 's message list \<times> bool) option" where
  "live_tick sign unpack send_ok routes superseded now l =
    (if expired now l \<or> superseded then Some (l, [], False)
     else
       let sweep = now - lv_last_sweep l \<ge> HEARTBEAT;
           l1 = (if sweep then l\<lparr>lv_last_sweep := now\<rparr> else l);
           ready = sorted_list_of_set (lv_ready l1)
       in (case push_ready sign unpack send_ok routes now sweep ready l1 of None \<Rightarrow> None
          | Some (l2, ms, False) \<Rightarrow> Some (l2, ms, False)
          | Some (l2, ms, True) \<Rightarrow>
              if now - lv_last_beat l2 < HEARTBEAT then Some (l2, ms, True)
              else let (bs, ok) = beat send_ok ready in Some (l2\<lparr>lv_last_beat := now\<rparr>, ms @ bs, ok)))"

section \<open>Raised heads\<close>

lemma heads_at_simps [simp]: "heads_at (m(w \<mapsto> hs)) v = (if v = w then hs else heads_at m v)" "heads_at Map.empty v = []"
  by (simp_all add: heads_at_def)

lemma head_in_Nil [simp]: "head_in [] d = 0"
  by (simp add: head_in_def)

lemma head_in_raise: "head_in (raise_heads hs rs) d = fold max (map or_last (filter (\<lambda>r. or_device r = d) rs)) (head_in hs d)"
proof (induction rs arbitrary: hs)
  case (Cons r rs)
  have "raise_heads hs (r # rs) = raise_heads (bt_put (or_device r) (max (head_in hs (or_device r)) (or_last r)) hs) rs"
    by (simp add: raise_heads_def)
  then show ?case using Cons by (simp add: max.commute)
qed (simp add: raise_heads_def)

lemma head_in_raise_one:
  assumes "distinct (map or_device rs)"
  shows "head_in (raise_heads hs rs) d =
    (case List.find (\<lambda>r. or_device r = d) rs of Some r \<Rightarrow> max (head_in hs d) (or_last r) | None \<Rightarrow> head_in hs d)"
proof -
  have "filter (\<lambda>r. or_device r = d) rs = (case List.find (\<lambda>r. or_device r = d) rs of Some r \<Rightarrow> [r] | None \<Rightarrow> [])"
    using assms
  proof (induction rs)
    case (Cons r rs)
    have "filter (\<lambda>q. or_device q = or_device r) rs = []" using other_device [OF Cons.prems] by (auto simp: filter_empty_conv)
    then show ?case using Cons by (cases "or_device r = d") auto
  qed simp
  then show ?thesis by (cases "List.find (\<lambda>r. or_device r = d) rs") (simp_all add: head_in_raise max.commute)
qed

lemma head_in_raise_to:
  "sorted_wrt (<) (map fst fs) \<Longrightarrow> head_in (raise_to hs fs) d = max (head_in hs d) (head_in fs d)"
proof (induction fs arbitrary: hs)
  case (Cons f fs)
  obtain e h where f: "f = (e, h)" by (cases f)
  have "e \<notin> fst ` set fs" using Cons.prems f by auto
  then have "head_in fs e = 0" by (simp add: head_in_def map_of_eq_None_iff [THEN iffD2])
  moreover have "raise_to hs (f # fs) = raise_to (bt_put e (max (head_in hs e) h) hs) fs" by (simp add: raise_to_def f)
  moreover have "head_in (f # fs) d = (if d = e then h else head_in fs d)" by (simp add: head_in_def f)
  moreover have "max x 0 = x" for x :: u64 by (simp add: max_def)
  ultimately show ?case using Cons by (simp add: max.assoc)
qed (simp add: raise_to_def max_def)

definition small_heads :: "heads \<Rightarrow> bool" where
  "small_heads hs \<longleftrightarrow> sorted_wrt (<) (map fst hs) \<and> (\<forall>d. unat (head_in hs d) < 2 ^ 63)"

definition small_ranges :: "origin_range list \<Rightarrow> bool" where
  "small_ranges rs \<longleftrightarrow> (\<forall>r \<in> set rs. unat (or_last r) < 2 ^ 63)"

lemma small_nil [simp]: "small_heads []"
  by (simp add: small_heads_def)

lemma unat_max_word: "unat (max a b :: u64) = max (unat a) (unat b)"
  by (simp add: max_def word_le_nat_alt)

lemma small_bt_put: "small_heads hs \<Longrightarrow> unat h < 2 ^ 63 \<Longrightarrow> small_heads (bt_put d (max (head_in hs d) h) hs)"
  by (auto simp: small_heads_def sorted_bt_put unat_max_word)

lemma small_raise: "small_heads hs \<Longrightarrow> small_ranges rs \<Longrightarrow> small_heads (raise_heads hs rs)"
proof (induction rs arbitrary: hs)
  case (Cons r rs)
  then have "small_heads (raise_heads (bt_put (or_device r) (max (head_in hs (or_device r)) (or_last r)) hs) rs)"
    by (simp add: small_ranges_def small_bt_put)
  then show ?case by (simp add: raise_heads_def)
qed (simp add: raise_heads_def)

lemma small_raise_to: "small_heads hs \<Longrightarrow> small_heads fs \<Longrightarrow> small_heads (raise_to hs fs)"
proof -
  assume fs: "small_heads fs"
  then have "\<forall>(d, h) \<in> set fs. unat h < 2 ^ 63" using head_in_sorted by (fastforce simp: small_heads_def)
  moreover assume "small_heads hs"
  ultimately show ?thesis
  proof (induction fs arbitrary: hs)
    case (Cons f fs)
    obtain e h where f: "f = (e, h)" by (cases f)
    then have "small_heads (raise_to (bt_put e (max (head_in hs e) h) hs) fs)" using Cons by (simp add: small_bt_put)
    then show ?case by (simp add: raise_to_def f)
  qed (simp add: raise_to_def)
qed

lemma small_store_heads:
  assumes "log_ok unpack t"
  shows "small_heads (store_heads t)"
proof -
  have "unat h < 2 ^ 63" if "(d, h) \<in> set (store_heads t)" for d h
  proof -
    have "h = of_nat (length (dev_rows d t))" "length (dev_rows d t) < 2 ^ 63"
      using that head_of_log [OF assms] length_dev_rows [of d t] assms by (auto simp: store_heads_def head_of_def log_ok_def)
    then show ?thesis by (simp add: unat_of_small)
  qed
  then have "unat (head_in (store_heads t) d) < 2 ^ 63" for d
    by (auto simp: head_in_def split: option.split dest: map_of_SomeD)
  then show ?thesis using store_heads_sorted by (simp add: small_heads_def)
qed

section \<open>What is in flight\<close>

definition gap_of :: "live \<Rightarrow> workspace_id \<Rightarrow> device_id \<Rightarrow> nat" where
  "gap_of l w d = unat (head_in (heads_at (lv_sent l) w) d) - unat (head_in (heads_at (lv_held l) w) d)"

definition flight :: "live \<Rightarrow> workspace_id \<Rightarrow> nat" where
  "flight l w = (\<Sum>d \<in> fst ` set (heads_at (lv_sent l) w). gap_of l w d)"

lemma gap_outside: "d \<notin> fst ` set (heads_at (lv_sent l) w) \<Longrightarrow> gap_of l w d = 0"
  by (simp add: gap_of_def head_in_def map_of_eq_None_iff [THEN iffD2])

lemma flight_bound:
  assumes "\<And>d. gap_of l' w d \<le> gap_of l w d + sum_list (map len (filter (\<lambda>r. dev r = d) rs))"
  shows "flight l' w \<le> flight l w + sum_list (map len rs)"
proof -
  let ?A = "fst ` set (heads_at (lv_sent l) w)" and ?B = "fst ` set (heads_at (lv_sent l') w)"
  have "flight l' w \<le> (\<Sum>d \<in> ?B. gap_of l w d + sum_list (map len (filter (\<lambda>r. dev r = d) rs)))"
    unfolding flight_def by (intro sum_mono assms)
  also have "\<dots> = (\<Sum>d \<in> ?B. gap_of l w d) + (\<Sum>d \<in> ?B. sum_list (map len (filter (\<lambda>r. dev r = d) rs)))"
    by (rule sum.distrib)
  also have "(\<Sum>d \<in> ?B. gap_of l w d) = (\<Sum>d \<in> ?B \<inter> ?A. gap_of l w d)"
    by (intro sum.mono_neutral_right) (auto simp: gap_outside)
  also have "\<dots> \<le> flight l w" unfolding flight_def by (intro sum_mono2) auto
  also have "(\<Sum>d \<in> ?B. sum_list (map len (filter (\<lambda>r. dev r = d) rs))) \<le> sum_list (map len rs)"
  proof (induction rs)
    case (Cons r rs)
    have "(\<Sum>d \<in> ?B. sum_list (map len (filter (\<lambda>r. dev r = d) (r # rs)))) =
        (\<Sum>d \<in> ?B. (if dev r = d then len r else 0) + sum_list (map len (filter (\<lambda>r. dev r = d) rs)))"
      by (intro sum.cong) auto
    also have "\<dots> = (\<Sum>d \<in> ?B. if dev r = d then len r else 0) + (\<Sum>d \<in> ?B. sum_list (map len (filter (\<lambda>r. dev r = d) rs)))"
      by (rule sum.distrib)
    also have "(\<Sum>d \<in> ?B. if dev r = d then len r else 0) \<le> len r" by simp
    finally show ?case using Cons by simp
  qed simp
  finally show ?thesis by simp
qed

lemma flight_mono: "(\<And>d. gap_of l' w d \<le> gap_of l w d) \<Longrightarrow> flight l' w \<le> flight l w"
  using flight_bound [of l' w l _ _ "[]"] by simp

lemma in_flight_ops_flight:
  assumes "small_heads (heads_at (lv_sent l) w)"
  shows "in_flight_ops w l = of_nat (flight l w)"
proof (cases "lv_sent l w")
  case (Some sent)
  let ?held = "heads_at (lv_held l) w"
  have s: "heads_at (lv_sent l) w = sent" using Some by (simp add: heads_at_def)
  then have sorted: "sorted_wrt (<) (map fst sent)" using assms by (simp add: small_heads_def)
  have sat: "saturating_sub a b = of_nat (unat a - unat b)" for a b :: u64
    by (auto simp: saturating_sub_def word_le_nat_alt of_nat_diff)
  have "in_flight_ops w l = sum_list (map (\<lambda>(d, h). of_nat (unat h - unat (head_in ?held d))) sent)"
    using Some by (simp add: in_flight_ops_def sat cong: map_cong)
  also have "map (\<lambda>(d, h). of_nat (unat h - unat (head_in ?held d))) sent = map (\<lambda>d. of_nat (gap_of l w d) :: u64) (map fst sent)"
    using head_in_sorted [OF sorted] by (auto simp: gap_of_def s)
  also have "sum_list \<dots> = of_nat (sum_list (map (gap_of l w) (map fst sent)))" by (induction sent) simp_all
  also have "sum_list (map (gap_of l w) (map fst sent)) = flight l w"
    using sorted sum_list_distinct_conv_sum_set [of "map fst sent" "gap_of l w"] by (simp add: flight_def s strict_sorted_iff)
  finally show ?thesis .
qed (simp add: in_flight_ops_def flight_def heads_at_def)

section \<open>The window holds\<close>

definition live_ok :: "live \<Rightarrow> bool" where
  "live_ok l \<longleftrightarrow> (\<forall>w. small_heads (heads_at (lv_sent l) w) \<and> small_heads (heads_at (lv_held l) w) \<and>
     small_heads (heads_at (lv_asked l) w) \<and> (\<forall>c hs. lv_seen_commits l w = Some (c, hs) \<longrightarrow> small_heads hs) \<and> flight l w < 3000)"

fun small_message :: "'s message \<Rightarrow> bool" where
  "small_message (Greet _ hs) \<longleftrightarrow> small_heads hs"
| "small_message (Want _ ranges) \<longleftrightarrow> small_ranges ranges"
| "small_message (Ops _ _ _ ranges) \<longleftrightarrow> small_ranges ranges"
| "small_message (Ack _ ranges) \<longleftrightarrow> small_ranges ranges"
| "small_message _ \<longleftrightarrow> True"

lemma fold_max_gap: "unat (fold max xs a :: u64) - unat (fold max xs b) \<le> unat a - unat b"
proof (induction xs arbitrary: a b)
  case (Cons x xs)
  have "unat (fold max (x # xs) a) - unat (fold max (x # xs) b) \<le> unat (max x a) - unat (max x b)"
    using Cons.IH [of "max x a" "max x b"] by simp
  also have "\<dots> \<le> unat a - unat b" by (auto simp: unat_max_word max_def word_le_nat_alt)
  finally show ?case .
qed simp

lemma fold_max_ge: "a \<le> fold max xs (a :: 'b::linorder)"
proof (induction xs arbitrary: a)
  case (Cons x xs)
  then have "max x a \<le> fold max (x # xs) a" by simp
  then show ?case using max.cobounded2 [of a x] by (rule order.trans [rotated])
qed simp

lemma live_ok_sent_held:
  assumes "live_ok l" "\<And>v. v \<noteq> w \<Longrightarrow> heads_at (lv_sent l') v = heads_at (lv_sent l) v \<and> heads_at (lv_held l') v = heads_at (lv_held l) v"
    and "lv_asked l' = lv_asked l" "lv_seen_commits l' = lv_seen_commits l"
    and "small_heads (heads_at (lv_sent l') w)" "small_heads (heads_at (lv_held l') w)" "flight l' w < 3000"
  shows "live_ok l'"
  unfolding live_ok_def
proof (intro allI)
  fix v
  have "flight l' v = flight l v" if "v \<noteq> w" using assms(2) [OF that] by (simp add: flight_def gap_of_def)
  then show "small_heads (heads_at (lv_sent l') v) \<and> small_heads (heads_at (lv_held l') v) \<and> small_heads (heads_at (lv_asked l') v) \<and>
      (\<forall>c hs. lv_seen_commits l' v = Some (c, hs) \<longrightarrow> small_heads hs) \<and> flight l' v < 3000"
    using assms by (cases "v = w") (auto simp: live_ok_def)
qed

lemma live_ok_cong:
  assumes "live_ok l" "lv_sent l' = lv_sent l" "lv_held l' = lv_held l" "\<And>w. small_heads (heads_at (lv_asked l') w)"
    "\<And>w c hs. lv_seen_commits l' w = Some (c, hs) \<Longrightarrow> small_heads hs"
  shows "live_ok l'"
  using assms by (simp add: live_ok_def flight_def gap_of_def)

lemma gap_note_acked:
  assumes "small_heads (heads_at (lv_held l) w)" "small_ranges rs"
  shows "gap_of (note_acked now w rs l) w d \<le> gap_of l w d"
proof -
  let ?h = "raise_heads (heads_at (lv_held l) w) rs"
  have "head_in (raise_to (heads_at (lv_sent l) w) ?h) d = max (head_in (heads_at (lv_sent l) w) d) (head_in ?h d)"
    using small_raise [OF assms] by (intro head_in_raise_to) (simp add: small_heads_def)
  moreover have "head_in (heads_at (lv_held l) w) d \<le> head_in ?h d"
    unfolding head_in_raise by (rule fold_max_ge)
  ultimately show ?thesis by (auto simp: note_acked_def gap_of_def Let_def unat_max_word word_le_nat_alt max_def)
qed

lemma live_ok_observe:
  assumes "live_ok l" "small_message msg"
  shows "live_ok (observe now w msg l)"
proof (cases msg)
  case (Greet v hs)
  then have "flight (observe now w msg l) w = 0" by (simp add: flight_def gap_of_def)
  then show ?thesis using assms Greet by (intro live_ok_sent_held [OF assms(1), of w]) simp_all
next
  case (Want v ranges)
  have "small_heads (raise_heads (heads_at (lv_sent l) w) ranges)" using assms Want by (intro small_raise) (simp_all add: live_ok_def)
  then show ?thesis using assms Want by (intro live_ok_cong [OF assms(1)]) (auto simp: live_ok_def)
next
  case (Ops v os sigs ranges)
  have "gap_of (observe now w msg l) w d \<le> gap_of l w d" for d
    by (simp add: Ops gap_of_def head_in_raise fold_max_gap)
  then have "flight (observe now w msg l) w \<le> flight l w" by (rule flight_mono)
  moreover have "small_heads (raise_heads (heads_at (lv_sent l) w) ranges)" "small_heads (raise_heads (heads_at (lv_held l) w) ranges)"
    using assms Ops by (auto intro!: small_raise simp: live_ok_def)
  moreover have "flight l w < 3000" using assms(1) by (simp add: live_ok_def)
  ultimately show ?thesis using assms Ops by (intro live_ok_sent_held [OF assms(1), of w]) simp_all
next
  case (Ack v ranges)
  have rs: "small_ranges ranges" and held: "small_heads (heads_at (lv_held l) w)" using assms Ack by (simp_all add: live_ok_def)
  have "flight (note_acked now w ranges l) w \<le> flight l w" using gap_note_acked [OF held rs] by (rule flight_mono)
  also have "\<dots> < 3000" using assms(1) by (simp add: live_ok_def)
  finally have "flight (note_acked now w ranges l) w < 3000" .
  moreover have "small_heads (raise_heads (heads_at (lv_held l) w) ranges)" by (rule small_raise [OF held rs])
  moreover from this have "small_heads (raise_to (heads_at (lv_sent l) w) (raise_heads (heads_at (lv_held l) w) ranges))"
    using assms(1) by (intro small_raise_to) (simp_all add: live_ok_def)
  ultimately have "live_ok (note_acked now w ranges l)"
    using assms(1) held by (intro live_ok_sent_held [OF assms(1), of w]) (auto simp: note_acked_def Let_def live_ok_def)
  then show ?thesis using Ack by simp
qed (use assms in simp_all)

lemma live_ok_rewind:
  assumes "live_ok l"
  shows "live_ok (fst (rewind_if_stalled w now l))"
proof -
  let ?l = "l\<lparr>lv_waiting_since := (lv_waiting_since l)(w := None), lv_sent := (lv_sent l)(w \<mapsto> heads_at (lv_held l) w)\<rparr>"
  have "flight ?l w = 0" by (simp add: flight_def gap_of_def)
  then have "live_ok ?l" using assms by (intro live_ok_sent_held [OF assms, of w]) (simp_all add: live_ok_def)
  moreover have "live_ok (l\<lparr>lv_waiting_since := v\<rparr>)" for v using assms by (simp add: live_ok_def flight_def gap_of_def)
  ultimately show ?thesis using assms by (auto simp: rewind_if_stalled_def Let_def split: option.split)
qed

lemma owed_want:
  assumes "small_heads remote"
  shows "owed_ok (want_ranges loc remote)" "\<forall>r \<in> set (want_ranges loc remote). or_first r = head_in loc (or_device r) + 1"
    "\<forall>r \<in> set (want_ranges loc remote). head_in loc (or_device r) < or_last r \<and> or_last r = head_in remote (or_device r)"
proof -
  have sorted: "sorted_wrt (<) (map fst remote)" using assms by (simp add: small_heads_def)
  note f = follows_lacking [OF sorted, of loc]
  have sub: "set (want_ranges loc remote) \<subseteq> set (lacking loc remote)" by (auto simp: want_ranges_lacking dest: in_set_takeD)
  show first: "\<forall>r \<in> set (want_ranges loc remote). or_first r = head_in loc (or_device r) + 1"
    using f(1) sub by (auto simp: follows_def)
  show lasts: "\<forall>r \<in> set (want_ranges loc remote). head_in loc (or_device r) < or_last r \<and> or_last r = head_in remote (or_device r)"
    using sub head_in_sorted [OF sorted] by (auto simp: lacking_def)
  have "distinct (map or_device (want_ranges loc remote))"
    using follows_take [OF f(1)] by (simp add: want_ranges_lacking follows_def strict_sorted_iff)
  moreover have "1 \<le> unat (or_first r) \<and> or_first r \<le> or_last r \<and> unat (or_last r) < 2 ^ 63" if "r \<in> set (want_ranges loc remote)" for r
    using first lasts that assms unat_Suc_word less_Suc_word by (fastforce simp: small_heads_def)
  ultimately show "owed_ok (want_ranges loc remote)" by (simp add: owed_ok_def)
qed

lemma live_ok_next_runs:
  assumes "live_ok l" "small_heads loc" "next_runs w loc l = (l', runs)"
  shows "live_ok l'" "lv_sent l' = lv_sent l" "lv_held l' = lv_held l" "lv_pending l' = lv_pending l" "lv_seen_commits l' = lv_seen_commits l"
    "\<exists>goal. small_heads goal \<and> runs = want_ranges (heads_at (lv_sent l) w) goal"
proof -
  have "small_heads goal" if "lv_asked l w = Some goal" for goal
    using assms(1) that by (auto simp: live_ok_def heads_at_def dest: spec [of _ w])
  moreover have "live_ok (l\<lparr>lv_asked := (lv_asked l)(w := None)\<rparr>)"
    using assms(1) by (intro live_ok_cong [OF assms(1)]) (auto simp: live_ok_def heads_at_def)
  ultimately show "live_ok l'" "lv_sent l' = lv_sent l" "lv_held l' = lv_held l" "lv_pending l' = lv_pending l" "lv_seen_commits l' = lv_seen_commits l"
    "\<exists>goal. small_heads goal \<and> runs = want_ranges (heads_at (lv_sent l) w) goal"
    using assms by (auto simp: next_runs_def Let_def split: option.splits list.splits)
qed

lemma batch_width:
  assumes "runs_in unpack t ranges"
  shows "length (concat (map (ops_of_range unpack t) ranges)) = sum_list (map (\<lambda>q. Suc (unat (or_last q)) - unat (or_first q)) ranges)"
  using assms
proof (induction ranges)
  case (Cons r rs)
  note r = iffD1 [OF runs_in_Cons Cons.prems]
  show ?case using Cons.IH r runs_in_width(3) [of unpack t r] by simp
qed simp

text \<open>What a served batch adds to what is in flight.\<close>

lemma flight_note_sent:
  assumes "batch_of runs ranges" "runs_in unpack t ranges" "\<forall>r \<in> set runs. or_first r = head_in (heads_at (lv_sent l) w) (or_device r) + 1"
    "small_heads (heads_at (lv_sent l) w)"
  shows "flight (note_sent now w ranges l) w \<le> flight l w + length (concat (map (ops_of_range unpack t) ranges))"
proof -
  let ?sent = "heads_at (lv_sent l) w"
  have dist: "distinct (map or_device ranges)" using assms(1) by (simp add: batch_of_def)
  have w: "unat (or_last q) - unat (head_in ?sent (or_device q)) \<le> Suc (unat (or_last q)) - unat (or_first q)" if "q \<in> set ranges" for q
  proof -
    have "or_first q = head_in ?sent (or_device q) + 1" using assms(1,3) that by (auto simp: batch_of_def)
    moreover have "unat (head_in ?sent (or_device q)) < 2 ^ 63" using assms(4) by (simp add: small_heads_def)
    ultimately have "unat (or_first q) = Suc (unat (head_in ?sent (or_device q)))" using unat_plus_word [of "head_in ?sent (or_device q)" 1] by simp
    then show ?thesis by simp
  qed
  have "gap_of (note_sent now w ranges l) w d \<le> gap_of l w d +
      sum_list (map (\<lambda>q. Suc (unat (or_last q)) - unat (or_first q)) (filter (\<lambda>q. or_device q = d) ranges))" for d
  proof (cases "List.find (\<lambda>r. or_device r = d) ranges")
    case None
    then have "head_in (raise_heads ?sent ranges) d = head_in ?sent d" by (simp add: head_in_raise_one [OF dist])
    then show ?thesis by (simp add: gap_of_def note_sent_def)
  next
    case (Some q)
    then have q: "q \<in> set ranges" "or_device q = d" by (auto simp: find_Some_iff)
    have h: "head_in (raise_heads ?sent ranges) d = max (head_in ?sent d) (or_last q)" using Some by (simp add: head_in_raise_one [OF dist])
    have "gap_of (note_sent now w ranges l) w d \<le> gap_of l w d + (Suc (unat (or_last q)) - unat (or_first q))"
      using w [OF q(1)] q by (auto simp: gap_of_def note_sent_def h unat_max_word max_def)
    also have "Suc (unat (or_last q)) - unat (or_first q) \<le>
        sum_list (map (\<lambda>q. Suc (unat (or_last q)) - unat (or_first q)) (filter (\<lambda>q. or_device q = d) ranges))"
      using q by (intro member_le_sum_list) auto
    finally show ?thesis by simp
  qed
  then have "flight (note_sent now w ranges l) w \<le> flight l w + sum_list (map (\<lambda>q. Suc (unat (or_last q)) - unat (or_first q)) ranges)"
    by (rule flight_bound)
  then show ?thesis by (simp only: batch_width [OF assms(2)])
qed

lemma live_ok_pending [simp]: "live_ok (l\<lparr>lv_pending := v\<rparr>) = live_ok l"
  by (simp add: live_ok_def flight_def gap_of_def)

lemma live_ok_times [simp]:
  "live_ok (l\<lparr>lv_last_sweep := a\<rparr>) = live_ok l" "live_ok (l\<lparr>lv_last_beat := a\<rparr>) = live_ok l" "live_ok (l\<lparr>lv_last_heard := a\<rparr>) = live_ok l"
  by (simp_all add: live_ok_def flight_def gap_of_def)

lemma serve_merged_ok:
  assumes "log_ok unpack t" "owed_ok runs" "serve_merged sign unpack t w runs = Some (Inr (Some (msg, ranges)))"
  shows "batch_of runs ranges \<and> runs_in unpack t ranges \<and> length (concat (map (ops_of_range unpack t) ranges)) \<le> MAX_OPS_PER_BATCH \<and>
    (\<exists>sigs. sign_ops sign (concat (map (ops_of_range unpack t) ranges)) = Some sigs \<and> msg = Ops w (concat (map (ops_of_range unpack t) ranges)) sigs ranges)"
  using merge_runs_batch [OF assms(1,2)] assms(3) by (auto simp: serve_merged_def split: if_splits option.splits)

lemma live_ok_note_sent:
  assumes ok: "live_ok l" and batch: "batch_of runs ranges" "runs_in unpack t ranges"
      "length (concat (map (ops_of_range unpack t) ranges)) \<le> MAX_OPS_PER_BATCH"
    and runs: "\<forall>r \<in> set runs. or_first r = head_in (heads_at (lv_sent l) w) (or_device r) + 1" "owed_ok runs"
    and room: "in_flight_ops w l < WINDOW_BATCHES * of_nat MAX_OPS_PER_BATCH"
  shows "live_ok (note_sent now w ranges l)"
proof -
  have s: "small_heads (heads_at (lv_sent l) w)" "small_heads (heads_at (lv_held l) w)" "flight l w < 3000" using ok by (simp_all add: live_ok_def)
  then have "unat (of_nat (flight l w) :: u64) = flight l w" by (intro unat_of_small) simp
  then have "flight l w < 2000"
    using room in_flight_ops_flight [OF s(1)] by (simp add: word_less_nat_alt WINDOW_BATCHES_def MAX_OPS_PER_BATCH_def)
  then have "flight (note_sent now w ranges l) w < 3000"
    using flight_note_sent [OF batch(1,2) runs(1) s(1), of now] batch(3) by (simp add: MAX_OPS_PER_BATCH_def)
  moreover have "small_ranges ranges"
    using batch(1) runs(2) by (fastforce simp: small_ranges_def batch_of_def owed_ok_def word_le_nat_alt)
  then have "small_heads (raise_heads (heads_at (lv_sent l) w) ranges)" by (rule small_raise [OF s(1)])
  ultimately show ?thesis using ok s by (intro live_ok_sent_held [OF ok, of w]) (simp_all add: note_sent_def)
qed

lemma live_ok_push:
  assumes "live_ok l" "\<forall>t c. routes w = Some (t, c) \<longrightarrow> log_ok unpack t" "push_batch sign unpack send_ok routes now w sweep l = Some (l', m, ok)"
  shows "live_ok l'"
proof (cases "routes w")
  case (Some tc)
  then obtain t commits where t: "routes w = Some (t, commits)" "log_ok unpack t" using assms(2) by (cases tc) auto
  obtain l1 rewound where l1: "rewind_if_stalled w now l = (l1, rewound)" by fastforce
  then have ok1: "live_ok l1" using live_ok_rewind [OF assms(1), of w now] by simp
  define fresh where "fresh = (case lv_seen_commits l1 w of None \<Rightarrow> True | Some (c, _) \<Rightarrow> c \<noteq> commits)"
  define loc where "loc = (case lv_seen_commits l1 w of Some (c, hs) \<Rightarrow> if c = commits \<and> \<not> sweep then hs else store_heads t | None \<Rightarrow> store_heads t)"
  have loc: "small_heads loc" using ok1 small_store_heads [OF t(2)] by (auto simp: loc_def live_ok_def split: option.split)
  let ?l2 = "l1\<lparr>lv_seen_commits := (lv_seen_commits l1)(w \<mapsto> (commits, loc))\<rparr>"
  have ok2: "live_ok ?l2" using ok1 loc by (intro live_ok_cong [OF ok1]) (auto simp: live_ok_def split: if_splits)
  obtain l3 runs where l3: "next_runs w loc ?l2 = (l3, runs)" by fastforce
  note n = live_ok_next_runs [OF ok2 loc l3]
  obtain goal where goal: "small_heads goal" "runs = want_ranges (heads_at (lv_sent l3) w) goal" using n(6) by (auto simp: n(2))
  note ow = owed_want [OF goal(1), of "heads_at (lv_sent l3) w", folded goal(2)]
  let ?l4 = "l3\<lparr>lv_pending := insert w (lv_pending l3)\<rparr>"
  have "live_ok (note_sent now w ranges ?l4)"
    if "\<not> in_flight_ops w ?l4 \<ge> WINDOW_BATCHES * of_nat MAX_OPS_PER_BATCH" "serve_merged sign unpack t w runs = Some (Inr (Some (msg, ranges)))"
    for msg ranges
    using serve_merged_ok [OF t(2) ow(1) that(2)] ow that(1) n(1)
    by (intro live_ok_note_sent [of ?l4 runs ranges unpack t w]) (simp_all add: not_le)
  then show ?thesis using assms(3) t(1) l1 l3 n(1) ok1
    by (auto simp: push_batch_def Let_def simp flip: fresh_def loc_def split: if_splits option.splits sum.splits prod.splits)
qed (use assms in \<open>simp add: push_batch_def\<close>)

lemma live_ok_push_ready:
  assumes "\<forall>w t c. routes w = Some (t, c) \<longrightarrow> log_ok unpack t"
  shows "live_ok l \<Longrightarrow> push_ready sign unpack send_ok routes now sweep ws l = Some (l', ms, ok) \<Longrightarrow> live_ok l'"
proof (induction ws arbitrary: l ms ok)
  case (Cons w ws)
  then obtain l1 m ok1 where p: "push_batch sign unpack send_ok routes now w sweep l = Some (l1, m, ok1)" by (auto split: option.splits)
  then have "live_ok l1" using live_ok_push [OF Cons.prems(1) _ p] assms by blast
  then show ?case using Cons p by (cases ok1) auto
qed simp

inductive live_run :: "(op \<Rightarrow> 's option) \<Rightarrow> ('p \<Rightarrow> op option) \<Rightarrow> live \<Rightarrow> bool" for sign unpack where
  new: "live_run sign unpack (Live_new now)"
| heard: "live_run sign unpack l \<Longrightarrow> live_run sign unpack (heard now l)"
| observe: "live_run sign unpack l \<Longrightarrow> small_message (msg :: 's message) \<Longrightarrow> live_run sign unpack (observe now w msg l)"
| live_tick: "live_run sign unpack l \<Longrightarrow> (\<And>w t c. routes w = Some (t, c) \<Longrightarrow> log_ok unpack t) \<Longrightarrow>
    live_tick sign unpack send_ok routes superseded now l = Some (l', ms, ok) \<Longrightarrow> live_run sign unpack l'"

lemma live_run_ok: "live_run sign unpack l \<Longrightarrow> live_ok l"
proof (induction rule: live_run.induct)
  case (new now)
  show ?case by (simp add: live_ok_def Live_new_def flight_def)
next
  case (live_tick l routes send_ok superseded now l' ms ok)
  let ?l = "if now - lv_last_sweep l \<ge> HEARTBEAT then l\<lparr>lv_last_sweep := now\<rparr> else l"
  have "live_ok ?l" using live_tick.IH by simp
  moreover have "\<forall>w t c. routes w = Some (t, c) \<longrightarrow> log_ok unpack t" using live_tick.hyps(2) by blast
  ultimately show ?case using live_tick.hyps(3) live_tick.IH live_ok_push_ready [of routes unpack ?l]
    by (auto simp: live_tick_def Let_def split: if_splits option.splits bool.splits prod.splits)
qed (simp_all add: heard_def live_ok_observe)

text \<open>The count the window is checked against stays below 3000: two full batches open the window, and one more closes it. A
  rewind and a greeting reset this count, so it does not bound what was sent; the next section does.\<close>

lemma window_bounded:
  assumes "live_run sign unpack l"
  shows "unat (in_flight_ops w l) < 3000"
proof -
  have "small_heads (heads_at (lv_sent l) w)" "flight l w < 3000" using live_run_ok [OF assms] by (simp_all add: live_ok_def)
  then show ?thesis by (simp add: in_flight_ops_flight unat_of_small)
qed

section \<open>What a silent peer is sent\<close>












text \<open>The operations of one workspace in what was sent.\<close>

fun ops_in :: "workspace_id \<Rightarrow> 's message \<Rightarrow> nat" where
  "ops_in w (Ops v ops _ _) = (if v = w then length ops else 0)"
| "ops_in w _ = 0"

definition ops_sent :: "workspace_id \<Rightarrow> 's message list \<Rightarrow> nat" where
  "ops_sent w ms = sum_list (map (ops_in w) ms)"

lemma ops_sent_simps [simp]:
  "ops_sent w [] = 0" "ops_sent w (m # ms) = ops_in w m + ops_sent w ms" "ops_sent w (ms @ ms') = ops_sent w ms + ops_sent w ms'"
  by (simp_all add: ops_sent_def)


















end
