(* ===== verification/SyncExchange.thy ===== *)
theory SyncExchange
  imports SyncLive
begin

text \<open>
  Two devices together: one connection that sends (\<open>lan_session_live.rs\<close>) and the session that takes what it sends
  (\<open>lan_session_ops.rs\<close>), a frame at a time over a link that loses nothing. It ends with the receiver holding, of every
  device, the longer of the two logs.
\<close>

section \<open>Definitions\<close>

text \<open>A turn of the sender, the receiver's handling of the batch, and the sender's of the reply.\<close>

definition exchange_turn ::
    "(op \<Rightarrow> 's option) \<Rightarrow> (op \<Rightarrow> 's \<Rightarrow> 'k \<Rightarrow> 'c + unit) \<Rightarrow> 'k \<Rightarrow> ('w, 'p, 'r) shared \<Rightarrow> workspace_id \<Rightarrow> nat \<Rightarrow> 'p row list \<Rightarrow> nat \<Rightarrow>
     live \<times> session \<times> 'w \<Rightarrow> live \<times> session \<times> 'w" where
  "exchange_turn sign verify key sh w now ts commits = (\<lambda>(l, s, wd).
    case push_batch sign (sh_unpack sh) (\<lambda>_. True) (\<lambda>v. if v = w then Some (ts, commits) else None) now w False l of
      Some (l1, Some (Ops v ops sigs ranges), _) \<Rightarrow>
        let (s', wd', reply, _) = handle_ops verify sh w key (Ops v ops sigs ranges) ranges s wd
        in ((case reply of Some m \<Rightarrow> observe now w m l1 | None \<Rightarrow> l1), s', wd')
    | Some (l1, _, _) \<Rightarrow> (l1, s, wd)
    | None \<Rightarrow> (l, s, wd))"

section \<open>What is still to come\<close>

definition missing :: "('p \<Rightarrow> op option) \<Rightarrow> device_id set \<Rightarrow> 'p row list \<Rightarrow> 'p row list \<Rightarrow> nat" where
  "missing unpack D ts t = (\<Sum>d \<in> D. length (dev_ops unpack d ts) - length (dev_ops unpack d t))"

lemma row_devices: "log_ok unpack t \<Longrightarrow> rw_device ` set t = (\<lambda>o1. device (o_hlc o1)) ` set (log_of unpack t)"
proof -
  assume "log_ok unpack t"
  then have "rw_device ` set t = (\<lambda>r. device (o_hlc (row_op unpack r))) ` set t"
    by (intro image_cong) (simp_all add: log_ok_def row_ok_device)
  then show ?thesis by (simp add: log_of_def image_image)
qed

lemma length_by_device:
  assumes "log_ok unpack t" "finite D" "rw_device ` set t \<subseteq> D"
  shows "length t = (\<Sum>d \<in> D. length (dev_ops unpack d t))"
proof -
  have "length xs = (\<Sum>d \<in> D. length (filter (\<lambda>x. g x = d) xs))" if "g ` set xs \<subseteq> D" for g :: "op \<Rightarrow> device_id" and xs
    using that
  proof (induction xs)
    case (Cons x xs)
    have "(\<Sum>d \<in> D. length (filter (\<lambda>x. g x = d) (x # xs))) = (\<Sum>d \<in> D. (if g x = d then 1 else 0) + length (filter (\<lambda>x. g x = d) xs))"
      by (intro sum.cong) auto
    also have "\<dots> = 1 + (\<Sum>d \<in> D. length (filter (\<lambda>x. g x = d) xs))" using Cons.prems assms(2) by (simp add: sum.distrib)
    finally show ?case using Cons by simp
  qed simp
  from this [of "\<lambda>o1. device (o_hlc o1)" "log_of unpack t"] show ?thesis
    using assms(3) row_devices [OF assms(1)] by (simp add: dev_ops_def)
qed

text \<open>Where each device's log is left or grows towards the sender's, what is missing shrinks by what was added.\<close>

lemma missing_shrinks:
  assumes logs: "log_ok unpack t" "log_ok unpack t'" "finite D" "rw_device ` set t \<subseteq> D" "rw_device ` set t' \<subseteq> D"
    and grow: "\<And>d. length (dev_ops unpack d t) \<le> length (dev_ops unpack d t') \<and>
      (length (dev_ops unpack d t') = length (dev_ops unpack d t) \<or> length (dev_ops unpack d t') \<le> length (dev_ops unpack d ts))"
  shows "missing unpack D ts t + length t = missing unpack D ts t' + length t'"
proof -
  have "missing unpack D ts t = (\<Sum>d \<in> D. (length (dev_ops unpack d ts) - length (dev_ops unpack d t')) +
      (length (dev_ops unpack d t') - length (dev_ops unpack d t)))"
    unfolding missing_def
  proof (intro sum.cong refl)
    fix d
    show "length (dev_ops unpack d ts) - length (dev_ops unpack d t) = length (dev_ops unpack d ts) - length (dev_ops unpack d t') +
        (length (dev_ops unpack d t') - length (dev_ops unpack d t))"
      using grow [of d] by auto
  qed
  also have "\<dots> = missing unpack D ts t' + (\<Sum>d \<in> D. length (dev_ops unpack d t') - length (dev_ops unpack d t))"
    by (simp add: missing_def sum.distrib)
  finally have "missing unpack D ts t + length t = missing unpack D ts t' +
      ((\<Sum>d \<in> D. length (dev_ops unpack d t') - length (dev_ops unpack d t)) + (\<Sum>d \<in> D. length (dev_ops unpack d t)))"
    using length_by_device [OF logs(1,3,4)] by simp
  also have "(\<Sum>d \<in> D. length (dev_ops unpack d t') - length (dev_ops unpack d t)) + (\<Sum>d \<in> D. length (dev_ops unpack d t)) =
      (\<Sum>d \<in> D. length (dev_ops unpack d t'))"
    using grow by (simp flip: sum.distrib)
  finally show ?thesis using length_by_device [OF logs(2,3,5)] by simp
qed

lemma landed_all:
  assumes "runs_in unpack ts ranges" "length (concat (map (ops_of_range unpack ts) ranges)) < 2 ^ 63"
  shows "landed_ranges ranges (length (concat (map (ops_of_range unpack ts) ranges))) = ranges"
proof -
  have "landed_loop ranges (of_nat (length (concat (map (ops_of_range unpack ts) ranges)))) = ranges"
    using assms
  proof (induction ranges)
    case (Cons r rs)
    let ?rest = "length (concat (map (ops_of_range unpack ts) rs))"
    note in1 = iffD1 [OF runs_in_Cons Cons.prems(1)]
    note r = runs_in_width [OF conjunct1 [OF in1]]
    let ?w = "or_last r - or_first r + 1"
    have w: "unat ?w = length (ops_of_range unpack ts r)" "unat ?w \<noteq> 0" using r by simp_all
    then have "of_nat (length (ops_of_range unpack ts r)) = ?w" by (simp flip: w(1))
    then have n: "of_nat (length (concat (map (ops_of_range unpack ts) (r # rs)))) = ?w + of_nat ?rest" by simp
    have "unat ?w + ?rest < 2 ^ 63" using Cons.prems(2) w(1) by simp
    then have s: "unat (?w + of_nat ?rest) = unat ?w + ?rest" by (intro unat_plus_word) simp
    then have "?w \<le> ?w + of_nat ?rest" "?w + of_nat ?rest \<noteq> 0" using w(2) by (auto simp: word_le_nat_alt simp flip: unat_eq_0)
    moreover have "or_first r + ?w - 1 = or_last r" by simp
    moreover have "?rest < 2 ^ 63" using Cons.prems(2) by simp
    ultimately show ?case using Cons.IH [OF conjunct2 [OF in1]] unfolding n by (simp add: Let_def min_def)
  qed simp
  then show ?thesis using assms(2) by (simp add: landed_ranges_def)
qed

section \<open>The sender's turn\<close>

text \<open>What the sender knows of the receiver, whose log is \<open>t\<close>, between two turns.\<close>

definition knows :: "('p \<Rightarrow> op option) \<Rightarrow> 'p row list \<Rightarrow> 'p row list \<Rightarrow> nat \<Rightarrow> workspace_id \<Rightarrow> live \<Rightarrow> bool" where
  "knows unpack ts t commits w l \<longleftrightarrow>
    small_heads (heads_at (lv_sent l) w) \<and> small_heads (heads_at (lv_held l) w) \<and>
    in_step unpack (heads_at (lv_sent l) w) t \<and> in_step unpack (heads_at (lv_held l) w) t \<and> lv_waiting_since l w = None \<and>
    (\<forall>goal. lv_asked l w = Some goal \<longrightarrow> small_heads goal \<and>
      (\<forall>d. unat (head_in goal d) \<le> max (length (dev_ops unpack d ts)) (length (dev_ops unpack d t)))) \<and>
    (\<forall>c hs. lv_seen_commits l w = Some (c, hs) \<longrightarrow> c = commits \<and> hs = store_heads ts)"

lemma want_empty:
  assumes "want_ranges loc remote = []" "sorted_wrt (<) (map fst remote)"
  shows "head_in remote d \<le> head_in loc d"
proof (cases "map_of remote d")
  case (Some h)
  then have "(d, h) \<in> set remote" "head_in remote d = h" by (auto simp: head_in_def dest: map_of_SomeD)
  moreover have "lacking loc remote = []" using assms(1) by (simp add: want_ranges_lacking MAX_WANT_RANGES_def)
  ultimately show ?thesis by (force simp: lacking_def filter_empty_conv)
qed (simp add: head_in_def)

lemma small_len: "log_ok unpack t \<Longrightarrow> unat (of_nat (length (dev_ops unpack d t)) :: u64) = length (dev_ops unpack d t)"
  using length_dev_ops_le [of unpack d t] by (intro unat_of_small) (simp add: log_ok_def)

lemma next_runs_goal:
  assumes "next_runs w loc l = (l', runs)"
  shows "(\<exists>goal. (goal = loc \<or> lv_asked l w = Some goal) \<and> runs = want_ranges (heads_at (lv_sent l) w) goal)"
    "runs = [] \<Longrightarrow> want_ranges (heads_at (lv_sent l) w) loc = []" "l' = l \<or> l' = l\<lparr>lv_asked := (lv_asked l)(w := None)\<rparr>"
  using assms by (auto simp: next_runs_def Let_def split: option.splits list.splits)

lemma knows_runs:
  assumes logs: "log_ok unpack ts" "log_ok unpack t" "card (rw_device ` set ts) \<le> MAX_DEVICES_PER_HEADS"
    and k: "knows unpack ts t commits w l" and n: "next_runs w (store_heads ts) l = (l', runs)"
  shows "owed_ok runs" "\<forall>r \<in> set runs. or_first r = head_in (heads_at (lv_sent l) w) (or_device r) + 1"
    "\<forall>r \<in> set runs. ops_of_range unpack ts r \<noteq> []"
    "runs = [] \<Longrightarrow> finite D \<Longrightarrow> missing unpack D ts t = 0"
proof -
  let ?sent = "heads_at (lv_sent l) w"
  have loc: "head_in (store_heads ts) d = of_nat (length (dev_ops unpack d ts))" for d by (rule head_in_store [OF logs(1,3)])
  have sent: "unat (head_in ?sent d) = length (dev_ops unpack d t)" for d
    using k small_len [OF logs(2)] by (simp add: knows_def in_step_def)
  obtain goal where goal: "goal = store_heads ts \<or> lv_asked l w = Some goal" "runs = want_ranges ?sent goal"
    using next_runs_goal(1) [OF n] by blast
  have g: "small_heads goal" "unat (head_in goal d) \<le> max (length (dev_ops unpack d ts)) (length (dev_ops unpack d t))" for d
    using goal(1) k small_store_heads [OF logs(1)] loc small_len [OF logs(1)] by (auto simp: knows_def)
  note ow = owed_want [OF g(1), of ?sent, folded goal(2)]
  show "owed_ok runs" "\<forall>r \<in> set runs. or_first r = head_in ?sent (or_device r) + 1" by (rule ow)+
  show "\<forall>r \<in> set runs. ops_of_range unpack ts r \<noteq> []"
  proof
    fix r assume r: "r \<in> set runs"
    then have "length (dev_ops unpack (or_device r) t) < unat (or_last r)" using ow(3) sent by (auto simp: word_less_nat_alt)
    moreover have "or_last r = head_in goal (or_device r)" using ow(3) r by blast
    ultimately have "unat (or_last r) \<le> length (dev_ops unpack (or_device r) ts)" using g(2) [of "or_device r"] by auto
    moreover have "1 \<le> unat (or_first r)" "unat (or_first r) \<le> unat (or_last r)" using ow(1) r by (auto simp: owed_ok_def word_le_nat_alt)
    ultimately show "ops_of_range unpack ts r \<noteq> []" unfolding ops_of_range_def by (subst slice_nonempty) auto
  qed
  assume "runs = []" "finite D"
  then have "head_in (store_heads ts) d \<le> head_in ?sent d" for d
    using next_runs_goal(2) [OF n] store_heads_sorted by (intro want_empty) auto
  then have "length (dev_ops unpack d ts) \<le> length (dev_ops unpack d t)" for d
    using loc sent small_len [OF logs(1)] by (metis word_le_nat_alt)
  then show "missing unpack D ts t = 0" by (simp add: missing_def)
qed

lemma push_turn:
  assumes logs: "log_ok unpack ts" "log_ok unpack t" "card (rw_device ` set ts) \<le> MAX_DEVICES_PER_HEADS" "finite D"
    and sign: "\<forall>o1. sign o1 \<noteq> None"
    and k: "knows unpack ts t commits w l" "w \<in> lv_pending l \<or> missing unpack D ts t = 0"
    and p: "push_batch sign unpack (\<lambda>_. True) (\<lambda>v. if v = w then Some (ts, commits) else None) now w False l = p"
  shows "(\<exists>l'. p = Some (l', None, True) \<and> missing unpack D ts t = 0 \<and> knows unpack ts t commits w l') \<or>
    (\<exists>l' ops sigs ranges. p = Some (note_sent now w ranges l', Some (Ops w ops sigs ranges), True) \<and>
      ops = concat (map (ops_of_range unpack ts) ranges) \<and> ops \<noteq> [] \<and> sign_ops sign ops = Some sigs \<and> next_runs_of unpack ts t ranges \<and>
      length ops \<le> MAX_OPS_PER_BATCH \<and>
      knows unpack ts t commits w l' \<and> w \<in> lv_pending l')"
proof -
  have rw: "rewind_if_stalled w now l = (l, False)" using k(1) by (simp add: rewind_if_stalled_def knows_def)
  have loc: "(case lv_seen_commits l w of Some (c, hs) \<Rightarrow> if c = commits \<and> \<not> False then hs else store_heads ts | None \<Rightarrow> store_heads ts) = store_heads ts"
    using k(1) by (auto simp: knows_def split: option.split)
  define fresh where "fresh = (case lv_seen_commits l w of None \<Rightarrow> True | Some (c, _) \<Rightarrow> c \<noteq> commits)"
  let ?l2 = "l\<lparr>lv_seen_commits := (lv_seen_commits l)(w \<mapsto> (commits, store_heads ts))\<rparr>"
  obtain l3 runs where n: "next_runs w (store_heads ts) ?l2 = (l3, runs)" by fastforce
  have k2: "knows unpack ts t commits w ?l2" using k(1) by (simp add: knows_def)
  then have k3: "knows unpack ts t commits w l3" "lv_sent l3 = lv_sent l" using next_runs_goal(3) [OF n] by (auto simp: knows_def)
  note r = knows_runs [OF logs(1-3) k2 n]
  let ?l4 = "l3\<lparr>lv_pending := insert w (lv_pending l3)\<rparr>"
  have k4: "knows unpack ts t commits w ?l4" using k3(1) by (simp add: knows_def)
  have "gap_of ?l4 w d = 0" for d using k4 by (simp add: gap_of_def knows_def in_step_def)
  then have "flight ?l4 w = 0" by (simp add: flight_def)
  then have room: "\<not> in_flight_ops w ?l4 \<ge> WINDOW_BATCHES * of_nat MAX_OPS_PER_BATCH"
    using k4 by (subst in_flight_ops_flight) (simp_all add: knows_def WINDOW_BATCHES_def MAX_OPS_PER_BATCH_def)
  have pushed: "p = (if \<not> (fresh \<or> w \<in> lv_pending l) then Some (l, None, True)
      else if runs = [] then Some (l3\<lparr>lv_pending := lv_pending l3 - {w}\<rparr>, None, True)
      else (case serve_merged sign unpack ts w runs of None \<Rightarrow> None
        | Some (Inr (Some (msg, ranges))) \<Rightarrow> Some (note_sent now w ranges ?l4, Some msg, True)
        | Some _ \<Rightarrow> Some (?l4, None, True)))"
    unfolding p [symmetric] push_batch_def
    by (simp add: rw Let_def loc n room [simplified] flip: fresh_def split: option.split sum.split)
  show ?thesis
  proof (cases "fresh \<or> w \<in> lv_pending l")
    case False
    then show ?thesis using pushed k by (intro disjI1 exI [of _ l]) simp
  next
    case True
    show ?thesis
    proof (cases "runs = []")
      case True
      then have "missing unpack D ts t = 0" using r(4) logs(4) by simp
      moreover have "knows unpack ts t commits w (l3\<lparr>lv_pending := lv_pending l3 - {w}\<rparr>)" using k3(1) by (simp add: knows_def)
      ultimately show ?thesis using pushed True \<open>fresh \<or> w \<in> lv_pending l\<close> by simp
    next
      case False
      obtain ops ranges where m: "merge_runs unpack ts runs = Some (Inr (ops, ranges))" "batch_of runs ranges" "runs_in unpack ts ranges"
          "ops = concat (map (ops_of_range unpack ts) ranges)" "ops = [] \<longrightarrow> (\<forall>r \<in> set runs. ops_of_range unpack ts r = [])" "length ops \<le> MAX_OPS_PER_BATCH"
        using merge_runs_batch [OF logs(1) r(1)] by blast
      have ne: "ops \<noteq> []" using m(5) r(3) False by (cases runs) auto
      obtain sigs where sg: "sign_ops sign ops = Some sigs" using signed_all [OF sign] by blast
      have "unat (or_first q) = Suc (length (dev_ops unpack (or_device q) t))" if q: "q \<in> set ranges" for q
      proof -
        obtain g where g: "g \<in> set runs" "or_device q = or_device g" "or_first q = or_first g" using m(2) q by (auto simp: batch_of_def)
        have "head_in (heads_at (lv_sent l) w) (or_device q) = of_nat (length (dev_ops unpack (or_device q) t))"
          using k(1) by (simp add: knows_def in_step_def)
        moreover have "length (dev_ops unpack (or_device q) t) < 2 ^ 63"
          using length_dev_ops_le [of unpack "or_device q" t] logs(2) by (simp add: log_ok_def)
        ultimately show ?thesis using r(2) g small_len [OF logs(2), of "or_device q"]
            unat_plus_word [of "head_in (heads_at (lv_sent l) w) (or_device q)" 1] by simp
      qed
      then have "next_runs_of unpack ts t ranges" using m(2,3) by (simp add: next_runs_of_def batch_of_def)
      moreover have "serve_merged sign unpack ts w runs = Some (Inr (Some (Ops w ops sigs ranges, ranges)))"
        using m(1) ne sg by (simp add: serve_merged_def)
      ultimately show ?thesis using pushed True False m(4,6) ne sg k4 by (intro disjI2 exI [of _ ?l4]) simp
    qed
  qed
qed

section \<open>A whole turn\<close>

text \<open>The receiver between two turns: its session is in step with its log, which agrees with the sender's and, of each device,
  is as it was at the start (\<open>t0\<close>) or has grown along the sender's.\<close>

definition takes :: "('w, 'p, 'r) shared \<Rightarrow> 'p row list \<Rightarrow> 'p row list \<Rightarrow> device_id set \<Rightarrow> workspace_id \<Rightarrow> session \<Rightarrow> 'w \<Rightarrow> bool" where
  "takes sh ts t0 D w s wd \<longleftrightarrow> (let unpack = sh_unpack sh; t = sh_rows sh wd in
    log_ok unpack t \<and> agree unpack ts t \<and> rw_device ` set t \<subseteq> D \<and>
    (\<exists>ws. map_of (ss_workspaces s) w = Some ws \<and> ws_ok ws \<and> ready_for_ops ws \<and> in_step unpack (ws_heads ws) t \<and>
      (\<forall>q \<in> set (ws_wanted ws). unat (or_last q) \<le> length (dev_ops unpack (or_device q) ts))) \<and>
    (\<forall>d. dev_ops unpack d t = dev_ops unpack d t0 \<or>
      length (dev_ops unpack d t0) < length (dev_ops unpack d t) \<and> prefix (dev_ops unpack d t) (dev_ops unpack d ts)))"

lemma wanted_after: "q \<in> set (consume_ranges wanted rs) \<Longrightarrow> \<exists>p \<in> set wanted. or_device q = or_device p \<and> or_last q = or_last p"
proof -
  have "\<exists>p \<in> set ws. or_device q = or_device p \<and> or_last q = or_last p" if "q \<in> set (fold consume_one rs ws)" for ws
    using that
  proof (induction rs arbitrary: ws)
    case (Cons r rs)
    then obtain p where "p \<in> set (consume_one r ws)" "or_device q = or_device p" "or_last q = or_last p" by auto
    moreover have "\<exists>x \<in> set ws. or_device p = or_device x \<and> or_last p = or_last x"
      using \<open>p \<in> set (consume_one r ws)\<close> by (auto simp: consume_one_def split: if_splits) metis
    ultimately show ?case by auto
  qed auto
  then show "q \<in> set (consume_ranges wanted rs) \<Longrightarrow> ?thesis" by (simp add: consume_ranges_def)
qed

lemma takes_turn:
  fixes verify :: "op \<Rightarrow> 's \<Rightarrow> 'k \<Rightarrow> 'c + unit" and sh :: "('w, 'p, 'r) shared"
  assumes sh: "lands sh" "never_refuses sh" and ts: "log_ok (sh_unpack sh) ts" "rw_device ` set ts \<subseteq> D"
    and D: "finite D" "card D \<le> MAX_DEVICES_PER_HEADS"
    and tk: "takes sh ts t0 D w s wd"
    and room: "length (sh_rows sh wd) + missing (sh_unpack sh) D ts (sh_rows sh wd) + length ts < 2 ^ 63"
    and batch: "next_runs_of (sh_unpack sh) ts (sh_rows sh wd) ranges" "ops = concat (map (ops_of_range (sh_unpack sh) ts) ranges)"
      "verify_batch verify ops sigs (device_keys_for ops key) = Inr ()" "ops \<noteq> []" "length ops \<le> MAX_OPS_PER_BATCH"
  shows "\<exists>s' wd'. handle_ops verify sh w key (Ops w ops sigs ranges) ranges s wd = (s', wd', Some (Ack w ranges), True) \<and>
    takes sh ts t0 D w s' wd' \<and>
    missing (sh_unpack sh) D ts (sh_rows sh wd') < missing (sh_unpack sh) D ts (sh_rows sh wd) \<and>
    length (sh_rows sh wd') + missing (sh_unpack sh) D ts (sh_rows sh wd') = length (sh_rows sh wd) + missing (sh_unpack sh) D ts (sh_rows sh wd) \<and>
    (\<forall>d. length (dev_ops (sh_unpack sh) d (sh_rows sh wd)) \<le> length (dev_ops (sh_unpack sh) d (sh_rows sh wd'))) \<and>
    (\<forall>d. length (dev_ops (sh_unpack sh) d (sh_rows sh wd')) = (case List.find (\<lambda>r. or_device r = d) ranges of
      Some r \<Rightarrow> unat (or_last r) | None \<Rightarrow> length (dev_ops (sh_unpack sh) d (sh_rows sh wd))))"
proof -
  define un where "un = sh_unpack sh"
  let ?t = "sh_rows sh wd"
  note tk' = tk [unfolded takes_def Let_def, folded un_def]
  have logs: "log_ok un ts" "log_ok un ?t" "agree un ts ?t" using ts(1) tk' by (simp_all add: un_def)
  have D1: "rw_device ` set ?t \<subseteq> D" using tk' by blast
  obtain ws where ws: "map_of (ss_workspaces s) w = Some ws" "ws_ok ws" "ready_for_ops ws" "in_step un (ws_heads ws) ?t"
    "\<forall>q \<in> set (ws_wanted ws). unat (or_last q) \<le> length (dev_ops un (or_device q) ts)" using tk' by blast
  note nr = batch(1) [folded un_def] and ops = batch(2) [folded un_def]
  have ri: "runs_in un ts ranges" using nr by (simp add: next_runs_of_def)
  have card: "card (rw_device ` set ?t) \<le> MAX_DEVICES_PER_HEADS" using card_mono [OF D(1) D1] D(2) by simp
  have "set ops \<subseteq> set (log_of un ts)" "distinct (map o_id ops)"
    using batch_distinct [OF logs(1), of ranges] nr unfolding ops by (simp_all add: next_runs_of_def)
  then have "length ops \<le> length ts"
    using card_mono [of "set (log_of un ts)" "set ops"] card_length [of "log_of un ts"] by (simp add: distinct_map distinct_card)
  then have room0: "length ?t + length ops < 2 ^ 63" using room by simp
  from handle_ops_lands [OF sh(1) logs [unfolded un_def] room0 card ws(1-3) ws(4) [unfolded un_def] batch(1-3)]
  obtain k s' wd' ws' where
    h: "handle_ops verify sh w key (Ops w ops sigs ranges) ranges s wd = (s', wd', Some (Ack w (landed_ranges ranges k)), True)"
    and k: "k \<le> length ops" "never_refuses sh \<longrightarrow> length ops \<le> MAX_APPEND_BATCH \<longrightarrow> k = length ops"
    and lg: "log_of un (sh_rows sh wd') = log_of un ?t @ take k ops"
    and ws': "map_of (ss_workspaces s') w = Some ws'" "ws_ok ws'" "ready_for_ops ws'" "in_step un (ws_heads ws') (sh_rows sh wd')"
      "log_ok un (sh_rows sh wd')" "agree un ts (sh_rows sh wd')" "ws_wanted ws' = consume_ranges (ws_wanted ws) (landed_ranges ranges k)"
    unfolding un_def by blast
  have kk: "k = length ops" using k(2) sh(2) batch(5) by (simp add: MAX_APPEND_BATCH_def MAX_OPS_PER_BATCH_def)
  have "length ops < 2 ^ 63" using room0 by simp
  then have acked: "landed_ranges ranges k = ranges" unfolding kk ops by (rule landed_all [OF ri])
  have lg': "log_of un (sh_rows sh wd') = log_of un ?t @ concat (map (ops_of_range un ts) ranges)" using lg kk ops by simp
  have dev: "dev_ops un d (sh_rows sh wd') = (case List.find (\<lambda>r. or_device r = d) ranges of Some r \<Rightarrow> take (unat (or_last r)) (dev_ops un d ts)
      | None \<Rightarrow> dev_ops un d ?t)" for d
    by (rule landed_in_step(3) [OF logs nr ws(4) ws'(5) lg'])
  have at: "unat (or_last r) \<le> length (dev_ops un d ts)" "length (dev_ops un d ?t) < unat (or_last r)" "prefix (dev_ops un d ?t) (dev_ops un d ts)"
    if "List.find (\<lambda>r. or_device r = d) ranges = Some r" for d r
  proof -
    have r: "r \<in> set ranges" "or_device r = d" using that by (auto simp: find_Some_iff)
    show "unat (or_last r) \<le> length (dev_ops un d ts)" using ri r by (auto simp: runs_in_def)
    show "length (dev_ops un d ?t) < unat (or_last r)" using nr ri r by (fastforce simp: next_runs_of_def runs_in_def word_le_nat_alt)
    show "prefix (dev_ops un d ?t) (dev_ops un d ts)" using next_run_prefix(1) [OF logs(3) nr r(1)] r(2) by simp
  qed
  have len: "length (dev_ops un d (sh_rows sh wd')) = (case List.find (\<lambda>r. or_device r = d) ranges of Some r \<Rightarrow> unat (or_last r)
      | None \<Rightarrow> length (dev_ops un d ?t))" for d
    using at(1) by (auto simp: dev split: option.split)
  have grow: "length (dev_ops un d ?t) \<le> length (dev_ops un d (sh_rows sh wd')) \<and>
      (length (dev_ops un d (sh_rows sh wd')) = length (dev_ops un d ?t) \<or> length (dev_ops un d (sh_rows sh wd')) \<le> length (dev_ops un d ts))" for d
    using at(1,2) [of d] by (auto simp: len split: option.split)
  have "(\<lambda>o1. device (o_hlc o1)) ` set ops \<subseteq> rw_device ` set ts" using \<open>set ops \<subseteq> set (log_of un ts)\<close> row_devices [OF logs(1)] by auto
  then have "(\<lambda>o1. device (o_hlc o1)) ` set ops \<subseteq> D" using ts(2) by (rule order.trans)
  then have D2: "rw_device ` set (sh_rows sh wd') \<subseteq> D"
    using D1 unfolding row_devices [OF logs(2)] row_devices [OF ws'(5)] lg' ops [symmetric] set_append image_Un Un_subset_iff by blast
  have "missing un D ts ?t + length ?t = missing un D ts (sh_rows sh wd') + length (sh_rows sh wd')"
    by (rule missing_shrinks [OF logs(2) ws'(5) D(1) D1 D2 grow])
  moreover have "length (log_of un (sh_rows sh wd')) = length (log_of un ?t) + length ops" unfolding lg' ops by simp
  then have "length (sh_rows sh wd') = length ?t + length ops" by simp
  moreover have "dev_ops un d (sh_rows sh wd') = dev_ops un d t0 \<or>
      length (dev_ops un d t0) < length (dev_ops un d (sh_rows sh wd')) \<and> prefix (dev_ops un d (sh_rows sh wd')) (dev_ops un d ts)" for d
  proof (cases "List.find (\<lambda>r. or_device r = d) ranges")
    case None
    then show ?thesis using tk' by (simp add: dev)
  next
    case (Some r)
    have "length (dev_ops un d t0) \<le> length (dev_ops un d ?t)" using tk' by (metis order.order_iff_strict)
    then show ?thesis using at(1,2) [OF Some] by (simp add: dev Some take_is_prefix)
  qed
  moreover have "\<forall>q \<in> set (ws_wanted ws'). unat (or_last q) \<le> length (dev_ops un (or_device q) ts)"
    using ws(5) ws'(7) wanted_after by (metis (no_types, lifting))
  ultimately show ?thesis
    using h ws' D2 grow len batch(4) unfolding acked takes_def Let_def un_def [symmetric]
    by (intro exI [of _ s'] exI [of _ wd']) (auto simp flip: length_greater_0_conv)
qed

text \<open>A batch signed with the key the receiver checks against is accepted.\<close>

lemma verify_signed:
  assumes sv: "\<forall>o1 sg. sign o1 = Some sg \<longrightarrow> verify o1 sg key = Inr ()" and "sign_ops sign ops = Some sigs"
  shows "verify_batch verify ops sigs (device_keys_for ops key) = Inr ()"
proof -
  have "verify_each verify keys (zip os sg) = Inr () \<and> length os = length sg"
    if "those (map sign os) = Some sg" "\<forall>o1 \<in> set os. keys (device (o_hlc o1)) = Some key" for os sg keys
    using that
  proof (induction os arbitrary: sg)
    case (Cons o1 os)
    then obtain s1 sg' where "sign o1 = Some s1" "those (map sign os) = Some sg'" "sg = s1 # sg'" by (auto split: option.splits)
    then show ?case using Cons sv by simp
  qed simp
  moreover have "device_keys_for ops key (device (o_hlc o1)) = Some key" if "o1 \<in> set ops" for o1
    using that by (induction ops) (auto simp: device_keys_for_def)
  ultimately have "verify_each verify (device_keys_for ops key) (zip ops sigs) = Inr () \<and> length ops = length sigs"
    using assms(2) unfolding sign_ops_def by blast
  then show ?thesis by (simp add: verify_batch_def)
qed

lemma knows_acked:
  assumes k: "knows unpack ts t commits w l" and logs: "log_ok unpack t" "log_ok unpack t'"
    and nr: "next_runs_of unpack ts t ranges" "ranges \<noteq> []"
    and len: "\<And>d. length (dev_ops unpack d t') = (case List.find (\<lambda>r. or_device r = d) ranges of Some r \<Rightarrow> unat (or_last r) | None \<Rightarrow> length (dev_ops unpack d t))"
    and grow: "\<And>d. length (dev_ops unpack d t) \<le> length (dev_ops unpack d t')"
  shows "knows unpack ts t' commits w (observe now w (Ack w ranges) (note_sent now w ranges l))"
    "lv_pending (observe now w (Ack w ranges) (note_sent now w ranges l)) = lv_pending l"
proof -
  let ?S = "raise_heads (heads_at (lv_sent l) w) ranges" and ?H = "raise_heads (heads_at (lv_held l) w) ranges"
  have dist: "distinct (map or_device ranges)" and ri: "runs_in unpack ts ranges" using nr(1) by (simp_all add: next_runs_of_def)
  have raised: "in_step unpack (raise_heads hs ranges) t'" if hs: "in_step unpack hs t" for hs
    unfolding in_step_def
  proof
    fix d
    show "head_in (raise_heads hs ranges) d = of_nat (length (dev_ops unpack d t'))"
    proof (cases "List.find (\<lambda>r. or_device r = d) ranges")
      case (Some r)
      then have r: "r \<in> set ranges" "or_device r = d" by (auto simp: find_Some_iff)
      have "length t < 2 ^ 63" using logs(1) by (simp add: log_ok_def)
      then have "head_in hs d < or_last r" using next_run_heads(2) [OF hs _ nr(1) r(1)] r(2) by simp
      then show ?thesis by (simp add: head_in_raise_one [OF dist] Some len max_def less_imp_le)
    qed (use hs in \<open>simp add: head_in_raise_one [OF dist] len in_step_def\<close>)
  qed
  have "unat (or_last r) < 2 ^ 63" if "r \<in> set ranges" for r
    using ri that length_dev_ops_le [of unpack "or_device r" ts] by (fastforce simp: runs_in_def)
  then have small: "small_heads ?S" "small_heads ?H" using k by (auto intro!: small_raise simp: knows_def small_ranges_def)
  have step: "in_step unpack ?S t'" "in_step unpack ?H t'" using raised k by (simp_all add: knows_def)
  let ?S2 = "raise_to ?S ?H"
  have S2: "small_heads ?S2" "in_step unpack ?S2 t'"
    using small_raise_to [OF small] step small head_in_raise_to [of ?H ?S] by (simp_all add: in_step_def small_heads_def)
  let ?l1 = "(note_sent now w ranges l)\<lparr>lv_held := (lv_held l)(w \<mapsto> ?H), lv_sent := (lv_sent l)(w \<mapsto> ?S2)\<rparr>"
  have "\<not> in_flight w ?l1"
  proof -
    have "\<not> h > head_in ?H d" if "(d, h) \<in> set ?S2" for d h
      using head_in_sorted [OF _ that] S2 step(2) by (simp add: small_heads_def in_step_def)
    then show ?thesis by (auto simp: in_flight_def list_ex_iff)
  qed
  then have o1: "observe now w (Ack w ranges) (note_sent now w ranges l) = ?l1\<lparr>lv_waiting_since := (lv_waiting_since ?l1)(w := None)\<rparr>"
    using nr(2) by (simp add: note_acked_def note_sent_def Let_def)
  show "lv_pending (observe now w (Ack w ranges) (note_sent now w ranges l)) = lv_pending l"
    unfolding o1 using nr(2) by (simp add: note_sent_def)
  have "unat (head_in goal d) \<le> max (length (dev_ops unpack d ts)) (length (dev_ops unpack d t'))" if "lv_asked l w = Some goal" for goal d
    using k that grow [of d] by (auto simp: knows_def intro: order.trans [OF _ max.mono])
  then show "knows unpack ts t' commits w (observe now w (Ack w ranges) (note_sent now w ranges l))"
    unfolding o1 using k small(2) step(2) S2 nr(2) by (simp add: knows_def note_sent_def)
qed

definition link_inv ::
    "('w, 'p, 'r) shared \<Rightarrow> 'p row list \<Rightarrow> 'p row list \<Rightarrow> device_id set \<Rightarrow> nat \<Rightarrow> workspace_id \<Rightarrow> nat \<Rightarrow> live \<times> session \<times> 'w \<Rightarrow> bool" where
  "link_inv sh ts t0 D commits w n = (\<lambda>(l, s, wd).
    takes sh ts t0 D w s wd \<and> knows (sh_unpack sh) ts (sh_rows sh wd) commits w l \<and>
    (w \<in> lv_pending l \<or> missing (sh_unpack sh) D ts (sh_rows sh wd) = 0) \<and>
    length (sh_rows sh wd) + missing (sh_unpack sh) D ts (sh_rows sh wd) = n)"

abbreviation left_of :: "('w, 'p, 'r) shared \<Rightarrow> device_id set \<Rightarrow> 'p row list \<Rightarrow> live \<times> session \<times> 'w \<Rightarrow> nat" where
  "left_of sh D ts st \<equiv> missing (sh_unpack sh) D ts (sh_rows sh (snd (snd st)))"

lemma exchange_turn_ok:
  fixes verify :: "op \<Rightarrow> 's \<Rightarrow> 'k \<Rightarrow> 'c + unit" and sh :: "('w, 'p, 'r) shared"
  assumes sh: "lands sh" "never_refuses sh" and ts: "log_ok (sh_unpack sh) ts" "rw_device ` set ts \<subseteq> D"
    and D: "finite D" "card D \<le> MAX_DEVICES_PER_HEADS"
    and keys: "\<forall>o1. sign o1 \<noteq> None" "\<forall>o1 sg. sign o1 = Some sg \<longrightarrow> verify o1 sg key = Inr ()"
    and inv: "link_inv sh ts t0 D commits w n st" "n + length ts < 2 ^ 63"
  shows "link_inv sh ts t0 D commits w n (exchange_turn sign verify key sh w now ts commits st)"
    "left_of sh D ts (exchange_turn sign verify key sh w now ts commits st) \<le> left_of sh D ts st - 1"
proof -
  obtain l s wd where st: "st = (l, s, wd)" by (cases st)
  define un where "un = sh_unpack sh"
  let ?t = "sh_rows sh wd"
  have i: "takes sh ts t0 D w s wd" "knows un ts ?t commits w l" "w \<in> lv_pending l \<or> missing un D ts ?t = 0" "length ?t + missing un D ts ?t = n"
    using inv(1) by (simp_all add: link_inv_def st un_def)
  have lt: "log_ok un ?t" using i(1) by (simp add: takes_def Let_def un_def)
  have card: "card (rw_device ` set ts) \<le> MAX_DEVICES_PER_HEADS" using card_mono [OF D(1) ts(2)] D(2) by simp
  consider (none) l' where
      "push_batch sign un (\<lambda>_. True) (\<lambda>v. if v = w then Some (ts, commits) else None) now w False l = Some (l', None, True)"
      "missing un D ts ?t = 0" "knows un ts ?t commits w l'"
    | (batch) l' ops sigs ranges where
      "push_batch sign un (\<lambda>_. True) (\<lambda>v. if v = w then Some (ts, commits) else None) now w False l =
        Some (note_sent now w ranges l', Some (Ops w ops sigs ranges), True)"
      "ops = concat (map (ops_of_range un ts) ranges)" "ops \<noteq> []" "sign_ops sign ops = Some sigs" "next_runs_of un ts ?t ranges"
      "length ops \<le> MAX_OPS_PER_BATCH" "knows un ts ?t commits w l'" "w \<in> lv_pending l'"
    using push_turn [OF ts(1) [folded un_def] lt card D(1) keys(1) i(2,3) refl, where now = now] by blast
  then have "link_inv sh ts t0 D commits w n (exchange_turn sign verify key sh w now ts commits st) \<and>
    left_of sh D ts (exchange_turn sign verify key sh w now ts commits st) \<le> left_of sh D ts st - 1"
  proof cases
    case none
    then have "exchange_turn sign verify key sh w now ts commits st = (l', s, wd)" by (simp add: exchange_turn_def st un_def)
    then show ?thesis using none(2,3) i by (simp add: link_inv_def st un_def)
  next
    case batch
    have vb: "verify_batch verify ops sigs (device_keys_for ops key) = Inr ()" using keys(2) batch(4) by (rule verify_signed)
    have "length ?t + missing un D ts ?t + length ts < 2 ^ 63" using i(4) inv(2) by simp
    from takes_turn [OF sh ts D i(1) this [unfolded un_def] batch(5) [unfolded un_def] batch(2) [unfolded un_def] vb batch(3,6)]
    obtain s' wd' where h: "handle_ops verify sh w key (Ops w ops sigs ranges) ranges s wd = (s', wd', Some (Ack w ranges), True)"
      and t': "takes sh ts t0 D w s' wd'" "missing un D ts (sh_rows sh wd') < missing un D ts ?t"
        "length (sh_rows sh wd') + missing un D ts (sh_rows sh wd') = length ?t + missing un D ts ?t"
      and grow: "\<And>d. length (dev_ops un d ?t) \<le> length (dev_ops un d (sh_rows sh wd'))"
      and len: "\<And>d. length (dev_ops un d (sh_rows sh wd')) = (case List.find (\<lambda>r. or_device r = d) ranges of
        Some r \<Rightarrow> unat (or_last r) | None \<Rightarrow> length (dev_ops un d ?t))"
      unfolding un_def by blast
    have lt': "log_ok un (sh_rows sh wd')" using t'(1) by (simp add: takes_def Let_def un_def)
    have "ranges \<noteq> []" using batch(2,3) by auto
    note ack = knows_acked [OF batch(7) lt lt' batch(5) this len grow]
    have k: "knows un ts (sh_rows sh wd') commits w (observe now w (Ack w ranges :: 's message) (note_sent now w ranges l'))"
      "lv_pending (observe now w (Ack w ranges :: 's message) (note_sent now w ranges l')) = lv_pending l'" by (rule ack)+
    have "exchange_turn sign verify key sh w now ts commits st = (observe now w (Ack w ranges :: 's message) (note_sent now w ranges l'), s', wd')"
      using batch(1) h by (simp add: exchange_turn_def st un_def)
    moreover have "missing un D ts (sh_rows sh wd') \<le> missing un D ts ?t - 1" using t'(2) by linarith
    ultimately show ?thesis using k t'(1,3) i(4) batch(8) by (simp add: link_inv_def st un_def del: observe.simps)
  qed
  then show "link_inv sh ts t0 D commits w n (exchange_turn sign verify key sh w now ts commits st)"
    "left_of sh D ts (exchange_turn sign verify key sh w now ts commits st) \<le> left_of sh D ts st - 1" by blast+
qed

section \<open>From the handshake to the end\<close>

lemma exchange_turns:
  fixes verify :: "op \<Rightarrow> 's \<Rightarrow> 'k \<Rightarrow> 'c + unit" and sh :: "('w, 'p, 'r) shared"
  assumes sh: "lands sh" "never_refuses sh" and ts: "log_ok (sh_unpack sh) ts" "rw_device ` set ts \<subseteq> D"
    and D: "finite D" "card D \<le> MAX_DEVICES_PER_HEADS"
    and keys: "\<forall>o1. sign o1 \<noteq> None" "\<forall>o1 sg. sign o1 = Some sg \<longrightarrow> verify o1 sg key = Inr ()"
    and n: "n + length ts < 2 ^ 63"
  shows "link_inv sh ts t0 D commits w n st \<Longrightarrow>
    link_inv sh ts t0 D commits w n (fold (\<lambda>now. exchange_turn sign verify key sh w now ts commits) nows st) \<and>
    left_of sh D ts (fold (\<lambda>now. exchange_turn sign verify key sh w now ts commits) nows st) \<le> left_of sh D ts st - length nows"
proof (induction nows arbitrary: st)
  case (Cons now nows)
  note t = exchange_turn_ok [where sign = sign and verify = verify and key = key and now = now, OF sh ts D keys Cons.prems n]
  note IH = Cons.IH [OF t(1)]
  have "x \<le> b - Suc k" if "x \<le> a - k" "a \<le> b - 1" for x a b k :: nat using that by linarith
  from this [OF conjunct2 [OF IH] t(2)] show ?case using IH by simp
qed simp

text \<open>What is left once nothing is missing.\<close>

lemma takes_done:
  assumes tk: "takes sh ts t0 D w s wd" and z: "missing (sh_unpack sh) D ts (sh_rows sh wd) = 0"
    and ts: "log_ok (sh_unpack sh) ts" "rw_device ` set ts \<subseteq> D" "finite D"
  shows "dev_ops (sh_unpack sh) d (sh_rows sh wd) =
      (if length (dev_ops (sh_unpack sh) d t0) < length (dev_ops (sh_unpack sh) d ts) then dev_ops (sh_unpack sh) d ts else dev_ops (sh_unpack sh) d t0)"
    "\<exists>ws. map_of (ss_workspaces s) w = Some ws \<and> ws_state ws = Idle \<and> ws_wanted ws = []"
proof -
  define un where "un = sh_unpack sh"
  let ?t = "sh_rows sh wd"
  note tk' = tk [unfolded takes_def Let_def, folded un_def]
  have le: "length (dev_ops un e ts) \<le> length (dev_ops un e ?t)" for e
  proof (cases "e \<in> D")
    case True
    then show ?thesis using z ts(3) by (simp add: missing_def un_def)
  next
    case False
    then have "dev_ops un e ts = []" using ts(2) row_devices [OF ts(1)] by (auto simp: dev_ops_def un_def filter_empty_conv)
    then show ?thesis by simp
  qed
  have "dev_ops un d ?t = dev_ops un d t0 \<or> length (dev_ops un d t0) < length (dev_ops un d ?t) \<and> prefix (dev_ops un d ?t) (dev_ops un d ts)"
    using tk' by blast
  then show "dev_ops (sh_unpack sh) d ?t =
      (if length (dev_ops (sh_unpack sh) d t0) < length (dev_ops (sh_unpack sh) d ts) then dev_ops (sh_unpack sh) d ts else dev_ops (sh_unpack sh) d t0)"
    unfolding un_def [symmetric] using le [of d] by (auto simp: prefix_def)
  obtain ws where ws: "map_of (ss_workspaces s) w = Some ws" "ws_ok ws" "ready_for_ops ws" "in_step un (ws_heads ws) ?t"
    "\<forall>q \<in> set (ws_wanted ws). unat (or_last q) \<le> length (dev_ops un (or_device q) ts)" and lt: "log_ok un ?t" using tk' by blast
  have "q \<notin> set (ws_wanted ws)" for q
  proof
    assume q: "q \<in> set (ws_wanted ws)"
    let ?n = "length (dev_ops un (or_device q) ?t)"
    have "or_first q = head_in (ws_heads ws) (or_device q) + 1" "unat (or_first q) \<le> unat (or_last q)"
      using ws(2) q by (auto simp: ws_ok_def follows_def word_le_nat_alt)
    moreover have "unat (head_in (ws_heads ws) (or_device q) + of_nat 1) = ?n + 1"
      using unat_plus_word [of "head_in (ws_heads ws) (or_device q)" 1] ws(4) small_len [OF lt] length_dev_ops_le [of un "or_device q" ?t] lt
      by (simp add: in_step_def log_ok_def)
    ultimately show False using ws(5) q le [of "or_device q"] by fastforce
  qed
  then have "ws_wanted ws = []" by (cases "ws_wanted ws") auto
  then show "\<exists>ws. map_of (ss_workspaces s) w = Some ws \<and> ws_state ws = Idle \<and> ws_wanted ws = []"
    using ws(1-3) by (auto simp: ready_for_ops_def ws_ok_def)
qed

lemma knows_quiet: "knows unpack ts t commits w l \<Longrightarrow> \<not> in_flight w l"
proof -
  assume k: "knows unpack ts t commits w l"
  have "\<not> h > head_in (heads_at (lv_held l) w) d" if "lv_sent l w = Some hs" "(d, h) \<in> set hs" for hs d h
    using k that head_in_sorted [of hs d h] by (simp add: knows_def heads_at_def small_heads_def in_step_def)
  then show ?thesis by (auto simp: in_flight_def list_ex_iff split: option.split)
qed

text \<open>The handshake leaves a link where everything that is missing is owed.\<close>

lemma handshake:
  fixes sh :: "('w, 'p, 'r) shared" and s0 :: session
  assumes logs: "log_ok (sh_unpack sh) ts" "log_ok (sh_unpack sh) (sh_rows sh wd)" "agree (sh_unpack sh) ts (sh_rows sh wd)"
    and D: "finite D" "card D \<le> MAX_DEVICES_PER_HEADS" "rw_device ` set ts \<subseteq> D" "rw_device ` set (sh_rows sh wd) \<subseteq> D"
    and s0: "map_of (ss_workspaces s0) w = Some (WorkspaceSession_new (store_heads (sh_rows sh wd)))" "ss_peer s0 \<noteq> None"
  shows "\<exists>s1 s wanted. session_hello w s0 = (s1, Inr (Greet w (store_heads (sh_rows sh wd))) :: 'c session_error + 's message) \<and>
    session_on_hello w (Greet w (store_heads ts)) s1 = (s, Inr (Want w wanted) :: 'c session_error + 's message) \<and>
    link_inv sh ts (sh_rows sh wd) D commits w (length (sh_rows sh wd) + missing (sh_unpack sh) D ts (sh_rows sh wd))
      (observe now w (Want w wanted :: 's message) (observe now w (Greet w (store_heads (sh_rows sh wd)) :: 's message) (Live_new now)), s, wd)"
proof -
  define un where "un = sh_unpack sh"
  let ?t = "sh_rows sh wd" and ?wanted = "want_ranges (store_heads (sh_rows sh wd)) (store_heads ts)"
  let ?ws0 = "WorkspaceSession_new (store_heads ?t)"
  let ?ws1 = "?ws0\<lparr>ws_state := Greeted\<rparr>"
  let ?ws = "?ws1\<lparr>ws_greeted := True, ws_wanted := ?wanted, ws_state := (if ?wanted = [] then Idle else Wanting)\<rparr>"
  let ?s1 = "s0\<lparr>ss_workspaces := bt_put w ?ws1 (ss_workspaces s0)\<rparr>"
  let ?s = "?s1\<lparr>ss_workspaces := bt_put w ?ws (ss_workspaces ?s1)\<rparr>"
  let ?l = "observe now w (Want w ?wanted :: 's message) (observe now w (Greet w (store_heads ?t) :: 's message) (Live_new now))"
  have c: "card (rw_device ` set ts) \<le> MAX_DEVICES_PER_HEADS" "card (rw_device ` set ?t) \<le> MAX_DEVICES_PER_HEADS"
    using card_mono [OF D(1) D(3)] card_mono [OF D(1) D(4)] D(2) by simp_all
  have hello: "session_hello w s0 = (?s1, Inr (Greet w (store_heads ?t)) :: 'c session_error + 's message)"
    using s0(1) by (simp add: session_hello_def on_workspace_def ws_hello_def WorkspaceSession_new_def)
  have oh: "ws_on_hello (Greet w (store_heads ts)) w ?ws1 = (?ws, Inr (Want w ?wanted) :: 'c session_error + 's message)"
    by (simp add: ws_on_hello_def Let_def WorkspaceSession_new_def)
  then have on_hello: "session_on_hello w (Greet w (store_heads ts)) ?s1 = (?s, Inr (Want w ?wanted) :: 'c session_error + 's message)"
    using s0(2) by (simp add: session_on_hello_def is_open_def on_workspace_def)
  have "ws_ok ?ws1" using ws_ok_new [OF store_heads_sorted, of ?t] by (simp add: ws_ok_def WorkspaceSession_new_def)
  from ws_ok_on_hello [OF this, of "Greet w (store_heads ts) :: 's message" w, where ?'c = 'c] have "ws_ok ?ws"
    using store_heads_sorted unfolding oh by (simp only: fst_conv message.inject) blast
  moreover have step: "in_step un (store_heads ?t) ?t" using head_in_store [OF logs(2) c(2)] by (simp add: in_step_def un_def)
  moreover have small: "small_heads (store_heads ts)" "small_heads (store_heads ?t)" using small_store_heads logs by blast+
  note ow = owed_want [OF small(1), of "store_heads ?t"]
  have lasts: "unat (or_last r) = length (dev_ops un (or_device r) ts)" if "r \<in> set ?wanted" for r
    using ow(3) that head_in_store [OF logs(1) c(1)] small_len [OF logs(1)] by (simp add: un_def)
  ultimately have "takes sh ts ?t D w ?s wd"
    using logs D(4) by (simp add: takes_def Let_def un_def ready_for_ops_def WorkspaceSession_new_def)
  moreover have "small_heads (raise_heads (store_heads ?t) ?wanted)"
    using ow(1) by (intro small_raise [OF small(2)]) (simp add: small_ranges_def owed_ok_def)
  moreover have "unat (head_in (raise_heads (store_heads ?t) ?wanted) d) \<le> max (length (dev_ops un d ts)) (length (dev_ops un d ?t))" for d
  proof (cases "List.find (\<lambda>r. or_device r = d) ?wanted")
    case None
    then show ?thesis using ow(1) step small_len [OF logs(2)] by (simp add: head_in_raise_one owed_ok_def in_step_def un_def)
  next
    case (Some r)
    then have "r \<in> set ?wanted" "or_device r = d" by (auto simp: find_Some_iff)
    then show ?thesis using Some lasts [of r] ow(1) step small_len [OF logs(2)]
      by (simp add: head_in_raise_one owed_ok_def in_step_def un_def unat_max_word)
  qed
  ultimately have "link_inv sh ts ?t D commits w (length ?t + missing un D ts ?t) (?l, ?s, wd)"
    using small step by (simp add: link_inv_def knows_def un_def Live_new_def)
  then show ?thesis using hello on_hello unfolding un_def by blast
qed

text \<open>C5: a sync ends, and with what it is for. Two devices hold logs of a workspace that agree, and greet each other on a link
  that loses nothing; the receiver's commits do not refuse what is new, and the sender's signatures check. Then after as many
  turns as the sender has operations, at whatever times, the receiver holds of every device exactly the longer of the two
  logs, wants nothing more and is idle, and the sender waits for no acknowledgement.
\<close>

theorem exchange_completes:
  fixes verify :: "op \<Rightarrow> 's \<Rightarrow> 'k \<Rightarrow> 'c + unit" and sh :: "('w, 'p, 'r) shared"
  assumes sh: "lands sh" "never_refuses sh"
    and logs: "log_ok (sh_unpack sh) ts" "log_ok (sh_unpack sh) (sh_rows sh wd)" "agree (sh_unpack sh) ts (sh_rows sh wd)"
    and room: "card (rw_device ` (set ts \<union> set (sh_rows sh wd))) \<le> MAX_DEVICES_PER_HEADS" "length (sh_rows sh wd) + 2 * length ts < 2 ^ 63"
    and keys: "\<forall>o1. sign o1 \<noteq> None" "\<forall>o1 sg. sign o1 = Some sg \<longrightarrow> verify o1 sg key = Inr ()"
    and s0: "map_of (ss_workspaces s0) w = Some (WorkspaceSession_new (store_heads (sh_rows sh wd)))" "ss_peer s0 \<noteq> None"
    and turns: "length ts \<le> length nows"
  shows "\<exists>s1 s wanted l' s' wd' ws'.
    session_hello w s0 = (s1, Inr (Greet w (store_heads (sh_rows sh wd))) :: 'c session_error + 's message) \<and>
    session_on_hello w (Greet w (store_heads ts)) s1 = (s, Inr (Want w wanted) :: 'c session_error + 's message) \<and>
    fold (\<lambda>now. exchange_turn sign verify key sh w now ts commits) nows
      (observe now w (Want w wanted :: 's message) (observe now w (Greet w (store_heads (sh_rows sh wd)) :: 's message) (Live_new now)), s, wd) = (l', s', wd') \<and>
    (\<forall>d. dev_ops (sh_unpack sh) d (sh_rows sh wd') =
      (if length (dev_ops (sh_unpack sh) d (sh_rows sh wd)) < length (dev_ops (sh_unpack sh) d ts) then dev_ops (sh_unpack sh) d ts
       else dev_ops (sh_unpack sh) d (sh_rows sh wd))) \<and>
    map_of (ss_workspaces s') w = Some ws' \<and> ws_state ws' = Idle \<and> ws_wanted ws' = [] \<and> \<not> in_flight w l'"
proof -
  let ?D = "rw_device ` (set ts \<union> set (sh_rows sh wd))"
  let ?n = "length (sh_rows sh wd) + missing (sh_unpack sh) ?D ts (sh_rows sh wd)"
  have D: "finite ?D" "rw_device ` set ts \<subseteq> ?D" "rw_device ` set (sh_rows sh wd) \<subseteq> ?D" by auto
  have "missing (sh_unpack sh) ?D ts (sh_rows sh wd) \<le> (\<Sum>d \<in> ?D. length (dev_ops (sh_unpack sh) d ts))"
    unfolding missing_def by (intro sum_mono) simp
  then have m: "missing (sh_unpack sh) ?D ts (sh_rows sh wd) \<le> length ts" using length_by_device [OF logs(1) D(1,2)] by simp
  then have n: "?n + length ts < 2 ^ 63" using room(2) by simp
  obtain s1 s wanted where h: "session_hello w s0 = (s1, Inr (Greet w (store_heads (sh_rows sh wd))) :: 'c session_error + 's message)"
      "session_on_hello w (Greet w (store_heads ts)) s1 = (s, Inr (Want w wanted) :: 'c session_error + 's message)"
    and inv: "link_inv sh ts (sh_rows sh wd) ?D commits w ?n
      (observe now w (Want w wanted :: 's message) (observe now w (Greet w (store_heads (sh_rows sh wd)) :: 's message) (Live_new now)), s, wd)"
    using handshake [OF logs D(1) room(1) D(2,3) s0] by blast
  let ?st = "(observe now w (Want w wanted :: 's message) (observe now w (Greet w (store_heads (sh_rows sh wd)) :: 's message) (Live_new now)), s, wd)"
  obtain l' s' wd' where f: "fold (\<lambda>now. exchange_turn sign verify key sh w now ts commits) nows ?st = (l', s', wd')" by (metis prod_cases3)
  have "link_inv sh ts (sh_rows sh wd) ?D commits w ?n (l', s', wd')" "missing (sh_unpack sh) ?D ts (sh_rows sh wd') = 0"
    using exchange_turns [where sign = sign and verify = verify and key = key and nows = nows, OF sh logs(1) D(2,1) room(1) keys n inv] m turns unfolding f by simp_all
  then have "takes sh ts (sh_rows sh wd) ?D w s' wd'" "knows (sh_unpack sh) ts (sh_rows sh wd') commits w l'"
    "missing (sh_unpack sh) ?D ts (sh_rows sh wd') = 0" by (simp_all add: link_inv_def)
  note fin = takes_done [OF this(1,3) logs(1) D(2,1)] knows_quiet [OF this(2)]
  obtain ws' where "map_of (ss_workspaces s') w = Some ws'" "ws_state ws' = Idle" "ws_wanted ws' = []" using fin(2) by blast
  then show ?thesis using h f fin(1,3)
    by (intro exI [of _ s1] exI [of _ s] exI [of _ wanted] exI [of _ l'] exI [of _ s'] exI [of _ wd'] exI [of _ ws'] conjI allI)
qed

theorem exchange_completes_witness:
  "\<exists>l s l' s' t ws. fold (\<lambda>now. exchange_turn (\<lambda>_. Some ()) (\<lambda>_ _ _. Inr () :: unit + unit) () (log_shared Some Some :: (op row list, op, unit) shared) 3 now two_rows 0)
      [10, 20] (l, s, []) = (l', s', t) \<and> dev_ops Some 1 t = two_ops \<and> map_of (ss_workspaces s') 3 = Some ws \<and> ws_state ws = Idle \<and> \<not> in_flight 3 l'"
proof -
  let ?sh = "log_shared Some Some :: (op row list, op, unit) shared"
  let ?sign = "\<lambda>_ :: op. Some ()"
  let ?v = "\<lambda>(_ :: op) (_ :: unit) (_ :: unit). Inr () :: unit + unit"
  let ?s0 = "\<lparr>ss_device = 2, ss_group = 7, ss_link_hello_sent = True, ss_peer = Some 1,
    ss_workspaces = [(3, WorkspaceSession_new (store_heads ([] :: op row list)))]\<rparr>"
  have codec: "codec_ok Some Some" by (simp add: codec_ok_def)
  have nil: "dev_ops Some d [] = []" "log_of Some [] = []" for d by (simp_all add: dev_ops_def log_of_def)
  have sh: "lands ?sh" "never_refuses ?sh" using log_shared_lands [OF codec] log_shared_never_refuses [OF codec] by auto
  have ag: "agree Some two_rows []" by (simp add: agree_def nil)
  have room: "card (rw_device ` (set two_rows \<union> set [])) \<le> MAX_DEVICES_PER_HEADS" "length ([] :: op row list) + 2 * length two_rows < 2 ^ 63"
    by (simp_all add: two_rows_ok MAX_DEVICES_PER_HEADS_def)
  have keys: "\<forall>o1. ?sign o1 \<noteq> None" "\<forall>o1 sg. ?sign o1 = Some sg \<longrightarrow> ?v o1 sg () = Inr ()" by simp_all
  have s0: "map_of (ss_workspaces ?s0) 3 = Some (WorkspaceSession_new (store_heads ([] :: op row list)))" "ss_peer ?s0 \<noteq> None" by simp_all
  have turns: "length two_rows \<le> length [10 :: nat, 20]" by (simp add: two_rows_ok)
  have "\<exists>l s l' s' wd' ws'. fold (\<lambda>now. exchange_turn ?sign ?v () ?sh 3 now two_rows 0) [10, 20] (l, s, []) = (l', s', wd') \<and>
      (\<forall>d. dev_ops Some d wd' = (if length (dev_ops Some d []) < length (dev_ops Some d two_rows) then dev_ops Some d two_rows else dev_ops Some d [])) \<and>
      map_of (ss_workspaces s') 3 = Some ws' \<and> ws_state ws' = Idle \<and> ws_wanted ws' = [] \<and> \<not> in_flight 3 l'"
    using exchange_completes [where sh = ?sh and wd = "[]" and ts = two_rows and sign = ?sign and verify = ?v and key = "()" and w = 3 and commits = 0,
        unfolded log_shared_simps id_apply, OF sh two_rows_ok(1) log_ok_nil ag room keys s0 turns, of 0] by blast
  moreover have "(if length (dev_ops Some 1 []) < length (dev_ops Some 1 two_rows) then dev_ops Some 1 two_rows else dev_ops Some 1 []) = two_ops"
    by (simp add: nil two_rows_ok two_ops_def)
  ultimately show ?thesis by metis
qed

end
