(* ===== verification/Spec2Isabelle.thy ===== *)
theory Spec2Isabelle
  imports DocConverge Merge3 Diff NotesState Parking FastId MutationOk SyncCommit SyncExchange
begin

text \<open>
  Verification of the core of txtodo, a todo.txt list kept in plain files and synchronised between devices.

  \<^bold>\<open>The program.\<close> A todo.txt file is parsed into lines and tasks (\<open>crates/txtodo-core\<close>). A change to a file is a
  list of operations, each stamped by a hybrid logical clock and exchanged between devices
  (\<open>crates/txtodo-model\<close>). The engine (\<open>crates/txtodo-engine\<close>) keeps one document per file, applies the
  operations of this device and of its peers to it in whatever order they arrive, projects the document back to
  bytes, turns a client's wish or an edit of the file into operations, and keeps the operations of a peer that
  cannot be applied yet. The store (\<open>crates/txtodo-store\<close>) keeps the log of all operations, numbered per device. Two devices
  greet each other over a link (\<open>crates/txtodo-sync\<close>), tell what they hold of each device, and the daemon
  (\<open>crates/txtodo-daemon\<close>) sends what the other lacks, takes what it lacks and acknowledges it. Around this stand
  the daemon's actors and service, the transport and the clients, which do I/O.

  \<^bold>\<open>Conventions.\<close> Text is a list of bytes (\<open>string\<close>); a Rust \<open>char\<close> is the list of bytes of its UTF-8 encoding.
  \<open>Result\<close> is a sum with the error on the left, \<open>Option\<close> is \<open>option\<close>, a panic is \<open>None\<close>. Fixed-width integers
  are words where they can wrap or be masked (quirk flags, hashes, ULIDs, the clock's fields) and naturals where they
  are lengths or indices. A method that changes its receiver returns the changed value. Loops are recursive functions with a
  termination proof, or folds.

  \<^bold>\<open>Theories and sources.\<close>
  \<^item> \<open>Prelude\<close>: shared list, option and text lemmas, and the locale \<open>text_codec\<close> (print and parse are inverse), which
    the dates (\<open>Types\<close>) and the ULIDs (\<open>UlidText\<close>) interpret.
  \<^item> \<open>Types\<close> (\<open>types.rs\<close>, \<open>error.rs\<close>, \<open>quirks.rs\<close>), \<open>UlidText\<close> (\<open>ulid.rs\<close>), \<open>Scanner\<close> (\<open>scanner.rs\<close>, \<open>urls.rs\<close>),
    \<open>Tokenize\<close> (\<open>tokenize.rs\<close>, \<open>line_length.rs\<close>), \<open>Parse\<close> (\<open>task.rs\<close>, \<open>parse.rs\<close>), \<open>Format\<close> (\<open>format.rs\<close>),
    \<open>FileModel\<close> (\<open>file.rs\<close>, \<open>lint.rs\<close>): reading and writing. Reading any bytes and writing them back gives the same bytes;
    lenient parsing never fails; a strictly parsed line is what the formatter emits; the tokens tile the line.
  \<^item> \<open>Words\<close> and \<open>Edit\<close> (\<open>edit.rs\<close>, \<open>line_fixes.rs\<close>): edits of a line. An edit splices the untouched part through, never makes
    a line break, sets and removes one tag only; completing and reopening a line with no \<open>pri:\<close> tag in one edit
    is the identity.
  \<^item> \<open>Merge3\<close> (\<open>merge3.rs\<close>) and \<open>Diff\<close> (\<open>diff.rs\<close>): the three-way merge as a law on counts of lines, and Myers' diff, which returns
    on every input and whose edits rebuild the target.
  \<^item> \<open>Hlc\<close> (\<open>hlc.rs\<close>, \<open>stamp_floor.rs\<close>): the clock, with the locale \<open>monotone_clock\<close>; stamps strictly increase and merges dominate.
  \<^item> \<open>Ops\<close> (\<open>ids.rs\<close>, \<open>op.rs\<close>, \<open>tag_text.rs\<close>): paths, field values and operations.
  \<^item> \<open>TextHistory\<close> (\<open>textedit.rs\<close>, \<open>text_history.rs\<close>): the bounded history of a description, whose text is the replay of its
    edits in stamp order; the locale \<open>arrival_order_free\<close> states that the order of arrival does not matter.
  \<^item> \<open>DocState\<close>, \<open>DocApply\<close> (\<open>state*.rs\<close>, \<open>fields.rs\<close>, \<open>apply.rs\<close>): the document, its five vectors in step, and
    every operation on it. \<open>DocOk\<close> carries the invariant through every operation, \<open>Document\<close> states it over the reachable states, with
    the effect of deletes, refusals and rewrites; \<open>DocConverge\<close> shows that concurrent inserts commute; \<open>DocFresh\<close> that the placement
    shown is the newest one, so that a fresh operation acts on the list of task lines as its abstract operation \<open>list_effect\<close>.
  \<^item> \<open>NotesState\<close> (\<open>notes_state.rs\<close>): notes documents, which converge as descriptions do.
  \<^item> \<open>SyncPark\<close>, \<open>Parking\<close> (\<open>sync_park.rs\<close>): operations that wait for what they name; none is lost, and the queue is bounded.
  \<^item> \<open>FastId\<close> (\<open>fastid.rs\<close>, \<open>id_strip.rs\<close>, \<open>duplicates.rs\<close>): the byte-level shortcuts, and the lines on
    which they agree with the parser and the line editor.
  \<^item> \<open>Reconcile\<close> (\<open>reconcile.rs\<close>), \<open>Sidecar\<close> (\<open>identity_assign.rs\<close>, \<open>reconcile_sidecar.rs\<close>) and \<open>Replay\<close>
    (\<open>reconcile_replay.rs\<close>): from an edited file to operations, with identifiers in the text or without; every line is accounted
    for, the fewest lines count as moved, and what is committed as exact replays to the file's bytes.
  \<^item> \<open>Mutation\<close> (\<open>mutation*.rs\<close>, \<open>contents.rs\<close>): from a client's wish to operations; \<open>LineChange\<close> shows that the operations
    of a changed line write the fields and the description asked for (\<open>rewritten\<close>), and \<open>MutationOk\<close> specifies each request on the list of
    task lines, their texts included (\<open>promised\<close>), and shows that its operations refine the specification.
  \<^item> \<open>Wire\<close> (\<open>frame.rs\<close>, \<open>append_frame.rs\<close>, \<open>message.rs\<close> of \<open>txtodo-sync\<close>): frames and messages; what is written to a stream is read back.
  \<^item> \<open>SyncSession\<close> (\<open>want.rs\<close>, \<open>workspace_session.rs\<close>, \<open>session.rs\<close>, \<open>sign.rs\<close>): the state machine of a link and of each
    workspace on it, with the invariant over every run of calls (\<open>session_run\<close>), and what a commit acknowledges.
  \<^item> \<open>StoreLog\<close> (\<open>ops.rs\<close>, \<open>heads.rs\<close> and two reads of \<open>commit.rs\<close> of \<open>txtodo-store\<close>): the table of operations, which refines a list of
    operations (\<open>log_append\<close>) with gap-free numbers (\<open>log_ok\<close>).
  \<^item> \<open>SyncServe\<close> (\<open>lan_apply.rs\<close>, \<open>lan_serve_merged.rs\<close> of \<open>txtodo-daemon\<close>): the batch served to a peer, merged from its runs:
    exactly what the runs number, the runs in turn by their stamps, and when nothing is served.
  \<^item> \<open>SyncImport\<close> (\<open>lan_apply.rs\<close>, \<open>held_ops.rs\<close>, \<open>sync_commit_gate.rs\<close>, \<open>lan_session_ops.rs\<close>): a batch taken from a peer. \<open>SyncCommit\<close>
    shows that the acknowledgement never runs ahead of the log, also when a commit is refused after its operations were logged.
  \<^item> \<open>SyncLive\<close> (\<open>lan_session_live.rs\<close>): what a connection sends and when, with the bound on what goes out, resends included, to a
    peer that acknowledges nothing. \<open>SyncExchange\<close>
    puts a sender and a receiver together and shows that the exchange ends with the receiver holding what it lacked.

  \<^bold>\<open>Bounds.\<close> The bounds are the program's own (lines per file, ghosts per file, edits per history, waiting operations, text
  edits per operation). No definition has fuel of the model's own: \<open>rehome_loop\<close> counts the rounds the source counts, \<open>even_run\<close>
  of \<open>Replay\<close> and \<open>serve_loop\<close> and \<open>merge_loop\<close> of \<open>SyncServe\<close> are \<open>partial_function\<close>s whose outer \<open>None\<close> is a loop that does not end
  (\<open>merge_loop\<close> is shown to return), and every other loop has a termination proof. Logs are taken to hold fewer than \<open>2 ^ 63\<close> rows, the range of SQLite's integers, and
  at most the 1024 devices the heads report; an exchange takes at most as many turns as the sender has operations.

  \<^bold>\<open>Parameters.\<close> The closure that mints identifiers is a function on a state of its own. The record \<open>matcher\<close> of \<open>Sidecar\<close> holds the
  fingerprint of a task, the scaled cost between two fingerprints and its threshold (\<open>identity_fingerprint.rs\<close>: Unicode case tables and
  floating point), and the assignment solver of the \<open>pathfinding\<close> crate, of which \<open>solver_ok\<close> states that it returns every column once.
  The \<open>postcard\<close> encodings of messages and payloads are pairs of functions (\<open>codec\<close>, \<open>pack\<close> and \<open>unpack\<close>; \<open>codec_ok\<close> states that what is encoded
  decodes to itself), as are the signature of one operation and its check (\<open>sign\<close>, \<open>verify\<close>). The commit of one file's operations from a
  peer is \<open>sh_commit\<close> of the record \<open>shared\<close>, the work of the actors of files and notes. \<open>commits_run\<close> is what it promises: a run is
  in the log, or it is refused, before or after it was logged, and this device may log operations of its own beside it; what is
  acknowledged rests on this. \<open>lands\<close> is the case without faults, where operations land whole or not at all (\<open>log_only\<close> is shown to do so); that an
  exchange completes rests on it. The clock, and whether a send succeeds, are arguments of the turn.

  \<^bold>\<open>Not modelled.\<close> Logging and error texts, which decide nothing. The signing bytes of an operation, an encoding of
  a third-party crate. The daemon's actors, service and file watching, the store's other tables, pairing, relay and transport, the CRDT
  mirror and the clients: I/O and third-party libraries around what is modelled.
\<close>

end
